(* ===== verification/Prelude.thy ===== *)
theory Prelude
  imports Main "HOL-Library.Word" "HOL-Library.Monad_Syntax"
begin

text \<open>
  Shared vocabulary of the development: the machine integer types of the C sources, the byte
  order conversions, the error numbers the sources return, the collections that gather the
  definitions of each component for the simplifier, and generic facts on lists, options and
  words that several components use.
\<close>

section \<open>Machine integers and bytes\<close>

type_synonym u8 = "8 word"
type_synonym u16 = "16 word"
type_synonym u32 = "32 word"
type_synonym u64 = "64 word"
type_synonym bytes = "u8 list"

text \<open>Collections: the definitions a component unfolds, and the rules for bounded reads.\<close>

named_theorems xdp_defs \<open>definitions of the XDP programs\<close>
named_theorems rd_simps \<open>bounded reads of packets and buffers\<close>
named_theorems ctx_defs \<open>definitions of the caiman_net module\<close>

section \<open>Error numbers\<close>

text \<open>The values of \<open><errno.h>\<close> that the sources return, negated where they are returned.\<close>

abbreviation (input) ENOENT :: int where "ENOENT \<equiv> 2"
abbreviation (input) ENOMEM :: int where "ENOMEM \<equiv> 12"
abbreviation (input) ENODEV :: int where "ENODEV \<equiv> 19"
abbreviation (input) EINVAL :: int where "EINVAL \<equiv> 22"
abbreviation (input) EMSGSIZE :: int where "EMSGSIZE \<equiv> 90"
abbreviation (input) EOPNOTSUPP :: int where "EOPNOTSUPP \<equiv> 95"

section \<open>Bounded reads\<close>

text \<open>
  A read of \<open>n\<close> bytes at offset \<open>off\<close> of a buffer. The C code reads through raw pointers; a read
  that leaves the buffer is undefined there and is \<open>None\<close> here, so that a theorem that a program
  returns a value is a theorem that it never reads out of bounds.
\<close>

definition rd :: "bytes \<Rightarrow> nat \<Rightarrow> nat \<Rightarrow> bytes option" where
  "rd buf off n = (if off + n \<le> length buf then Some (take n (drop off buf)) else None)"

definition rd8 :: "bytes \<Rightarrow> nat \<Rightarrow> u8 option" where
  "rd8 buf off = (if off < length buf then Some (buf ! off) else None)"

text \<open>Big-endian (network order) values, what \<open>ntohs\<close> and \<open>ntohl\<close> of a loaded field give.\<close>

definition be16 :: "u8 \<Rightarrow> u8 \<Rightarrow> u16" where
  "be16 a b = push_bit 8 (ucast a) + ucast b"

definition rd_be16 :: "bytes \<Rightarrow> nat \<Rightarrow> u16 option" where
  "rd_be16 buf off = do { a \<leftarrow> rd8 buf off; b \<leftarrow> rd8 buf (off + 1); Some (be16 a b) }"

text \<open>A little-endian 32-bit load, the value of an unconverted \<open>__be32\<close> field on x86-64.\<close>

definition rd_le32 :: "bytes \<Rightarrow> nat \<Rightarrow> u32 option" where
  "rd_le32 buf off = do {
     a \<leftarrow> rd8 buf off; b \<leftarrow> rd8 buf (off + 1); c \<leftarrow> rd8 buf (off + 2); d \<leftarrow> rd8 buf (off + 3);
     Some (ucast a + push_bit 8 (ucast b) + push_bit 16 (ucast c) + push_bit 24 (ucast d)) }"

lemma rd_eq_Some [rd_simps]: "off + n \<le> length buf \<Longrightarrow> rd buf off n = Some (take n (drop off buf))"
  by (simp add: rd_def)

lemma rd8_eq_Some [rd_simps]: "off < length buf \<Longrightarrow> rd8 buf off = Some (buf ! off)"
  by (simp add: rd8_def)

lemma rd_be16_eq_Some [rd_simps]:
  "off + 2 \<le> length buf \<Longrightarrow> rd_be16 buf off = Some (be16 (buf ! off) (buf ! (off + 1)))"
  by (simp add: rd_be16_def rd8_def)

lemma rd_le32_defined [rd_simps]:
  "off + 4 \<le> length buf \<Longrightarrow> rd_le32 buf off = Some
     (ucast (buf ! off) + push_bit 8 (ucast (buf ! (off + 1))) +
      push_bit 16 (ucast (buf ! (off + 2))) + push_bit 24 (ucast (buf ! (off + 3))))"
  by (simp add: rd_le32_def rd8_def)

lemma rd_None_iff: "rd buf off n = None \<longleftrightarrow> length buf < off + n"
  by (auto simp: rd_def)

lemma rd8_None_iff: "rd8 buf off = None \<longleftrightarrow> length buf \<le> off"
  by (auto simp: rd8_def)

lemma length_rd: "rd buf off n = Some bs \<Longrightarrow> length bs = n"
  by (auto simp: rd_def split: if_splits)

lemma unat_u8_less [simp]: "unat (a :: u8) < 256"
  using unsigned_less [of a, where ?'a = nat] by simp

lemma unat_ucast_u8 [simp]:
  "unat (ucast (a :: u8) :: u16) = unat a" "unat (ucast a :: u32) = unat a"
  "unat (ucast a :: u64) = unat a"
  by (simp_all add: unsigned_ucast_eq take_bit_nat_eq_self_iff order_less_trans [OF unat_u8_less])

lemma unat_be16: "unat (be16 a b) = 256 * unat a + unat b"
proof -
  have a: "unat a < 256" and b: "unat b < 256" by simp_all
  have "unat (push_bit 8 (ucast a :: u16)) = 256 * unat a"
    using a by (simp add: push_bit_eq_mult unat_word_ariths)
  moreover from a b have "256 * unat a + unat b < 65536" by linarith
  ultimately show ?thesis
    by (simp add: be16_def unat_word_ariths)
qed

text \<open>Shifting in the low bits of a word with \<open>or\<close> is addition.\<close>

lemma not_bit_less_exp: "(d :: nat) < 2 ^ k \<Longrightarrow> k \<le> n \<Longrightarrow> \<not> bit d n"
  by (metis bit_take_bit_iff linorder_not_le take_bit_nat_eq_self)

lemma or_push_bit_of_nat:
  fixes x :: "'w::len word"
  assumes "d < 2 ^ k"
  shows "or (push_bit k x) (of_nat d) = x * 2 ^ k + of_nat d"
proof -
  have "\<not> bit (push_bit k x) n \<or> \<not> bit (of_nat d :: 'w word) n" for n
    using not_bit_less_exp [OF assms, of n] by (auto simp: bit_simps not_le)
  then have "push_bit k x + of_nat d = or (push_bit k x) (of_nat d)" by (rule disjunctive_add)
  then show ?thesis by (simp add: push_bit_eq_mult)
qed

text \<open>The bits of a word made of four bytes.\<close>

lemma bit_bytes4:
  fixes a b c d :: u8
  shows "bit (or (or (or (ucast a) (push_bit 8 (ucast b))) (push_bit 16 (ucast c))) (push_bit 24 (ucast d)) :: u32) k \<longleftrightarrow>
    k < 32 \<and> (if k < 8 then bit a k else if k < 16 then bit b (k - 8) else if k < 24 then bit c (k - 16) else bit d (k - 24))"
proof -
  have u: "bit (ucast x :: u32) n \<longleftrightarrow> n < 8 \<and> bit x n" for x :: u8 and n
    using bit_imp_le_length [of x n] by (auto simp: bit_ucast_iff)
  show ?thesis unfolding bit_or_iff bit_push_bit_iff u by auto
qed

section \<open>Lists, options and maps\<close>

lemma map_upd_eq_self_iff: "m(k \<mapsto> v) = m \<longleftrightarrow> m k = Some v"
  by (metis fun_upd_same fun_upd_triv)

lemma option_bind_None_iff: "x \<bind> f = None \<longleftrightarrow> x = None \<or> (\<exists>a. x = Some a \<and> f a = None)"
  by (cases x) auto

lemma find_Some_split:
  "List.find P xs = Some x \<Longrightarrow> \<exists>ys zs. xs = ys @ x # zs \<and> P x \<and> (\<forall>y \<in> set ys. \<not> P y)"
proof (induction xs)
  case (Cons a xs)
  show ?case
  proof (cases "P a")
    case True
    with Cons.prems have "a # xs = [] @ x # xs \<and> P x" by simp
    then show ?thesis by (metis empty_iff list.set(1))
  next
    case False
    with Cons obtain ys zs where "xs = ys @ x # zs" "P x" "\<forall>y \<in> set ys. \<not> P y" by auto
    with False have "a # xs = (a # ys) @ x # zs \<and> P x \<and> (\<forall>y \<in> set (a # ys). \<not> P y)" by simp
    then show ?thesis by blast
  qed
qed simp

lemma filter_none: "\<forall>y \<in> set ys. \<not> P y \<Longrightarrow> filter P ys = []"
  by (simp add: filter_empty_conv)

lemma filter_removeAll:
  "(\<And>q. q \<noteq> p \<Longrightarrow> P' q = P q) \<Longrightarrow> filter P' (removeAll p qs) = filter (\<lambda>q. P q \<and> q \<noteq> p) qs"
  by (induction qs) auto

section \<open>Refinement of a component by a specification\<close>

text \<open>
  A component is a step function on its state that may fail (\<open>None\<close>: a memory error); its
  specification is a total step function on an abstract state. Both answer each command with a result.
  A run executes commands in sequence; each command may come with a condition on the state it meets.
\<close>

fun run_impl :: "('c \<Rightarrow> 's \<Rightarrow> ('s \<times> 'r) option) \<Rightarrow> 'c list \<Rightarrow> 's \<Rightarrow> ('s \<times> 'r list) option" where
  "run_impl f [] s = Some (s, [])"
| "run_impl f (c # cs) s = do {
     (s1, r) \<leftarrow> f c s;
     (s2, rs) \<leftarrow> run_impl f cs s1;
     Some (s2, r # rs) }"

fun run_spec :: "('c \<Rightarrow> 'a \<Rightarrow> 'a \<times> 'r) \<Rightarrow> 'c list \<Rightarrow> 'a \<Rightarrow> 'a \<times> 'r list" where
  "run_spec f [] a = (a, [])"
| "run_spec f (c # cs) a =
     (let (a1, r) = f c a; (a2, rs) = run_spec f cs a1 in (a2, r # rs))"

fun run_pre :: "('c \<Rightarrow> 's \<Rightarrow> bool) \<Rightarrow> ('c \<Rightarrow> 's \<Rightarrow> ('s \<times> 'r) option) \<Rightarrow> 'c list \<Rightarrow> 's \<Rightarrow> bool" where
  "run_pre pre f [] s = True"
| "run_pre pre f (c # cs) s =
     (pre c s \<and> (case f c s of None \<Rightarrow> True | Some (s', r) \<Rightarrow> run_pre pre f cs s'))"

locale simulation =
  fixes inv :: "'s \<Rightarrow> bool"
    and pre :: "'c \<Rightarrow> 's \<Rightarrow> bool"
    and abs :: "'s \<Rightarrow> 'a"
    and impl :: "'c \<Rightarrow> 's \<Rightarrow> ('s \<times> 'r) option"
    and spec :: "'c \<Rightarrow> 'a \<Rightarrow> 'a \<times> 'r"
  assumes impl_step: "inv s \<Longrightarrow> pre c s \<Longrightarrow>
    \<exists>s'. impl c s = Some (s', snd (spec c (abs s))) \<and> inv s' \<and> abs s' = fst (spec c (abs s))"
begin

lemma run_refines:
  "inv s \<Longrightarrow> run_pre pre impl cs s \<Longrightarrow>
   \<exists>s'. run_impl impl cs s = Some (s', snd (run_spec spec cs (abs s)))
      \<and> inv s' \<and> abs s' = fst (run_spec spec cs (abs s))"
proof (induction cs arbitrary: s)
  case Nil
  then show ?case by simp
next
  case (Cons c cs)
  obtain s1 where s1: "impl c s = Some (s1, snd (spec c (abs s)))" "inv s1" "abs s1 = fst (spec c (abs s))"
    using impl_step Cons.prems by auto
  with Cons.prems have "run_pre pre impl cs s1" by simp
  from Cons.IH [OF s1(2) this] s1 show ?case
    by (auto simp: Let_def split: prod.splits)
qed

end

end
