(* ===== verification/Xdp_Packet.thy ===== *)
theory Xdp_Packet
  imports Prelude
begin

text \<open>
  What the two XDP programs of the repository (\<open>kernel/ebpf/xdp_vm_router.c\<close> and
  \<open>microseg/ebpf/xdp_microseg.c\<close>) share: the frame as the bytes between \<open>ctx->data\<close> and
  \<open>ctx->data_end\<close>, the wire formats whose fields they load, the XDP return codes, and the contract
  of the redirect helper. The kernel's BPF maps are parameters: a lookup is the function from keys to
  optional values that the program is run against.
\<close>

section \<open>Return codes\<close>

datatype xdp_action = XDP_ABORTED | XDP_DROP | XDP_PASS | XDP_TX | XDP_REDIRECT

datatype tc_action = TC_ACT_OK | TC_ACT_SHOT

section \<open>Wire formats\<close>

type_synonym mac = bytes

abbreviation (input) ETH_ALEN :: nat where "ETH_ALEN \<equiv> 6"
abbreviation (input) ETH_HLEN :: nat where "ETH_HLEN \<equiv> 14"
abbreviation (input) IP_HLEN :: nat where "IP_HLEN \<equiv> 20"
abbreviation (input) TCP_HLEN :: nat where "TCP_HLEN \<equiv> 20"
abbreviation (input) UDP_HLEN :: nat where "UDP_HLEN \<equiv> 8"

abbreviation (input) ETH_P_IP :: u16 where "ETH_P_IP \<equiv> 0x0800"
abbreviation (input) ETH_P_IPV6 :: u16 where "ETH_P_IPV6 \<equiv> 0x86DD"
abbreviation (input) IPPROTO_TCP :: u8 where "IPPROTO_TCP \<equiv> 6"
abbreviation (input) IPPROTO_UDP :: u8 where "IPPROTO_UDP \<equiv> 17"

text \<open>
  \<open>struct ethhdr\<close>: destination and source address, then the EtherType in network order.
  \<open>struct iphdr\<close>: the header length in 32-bit words is the low nibble of the first byte, the
  protocol is byte 9, the addresses are at 12 and 16. Both port formats have the destination port
  at offset 2.
\<close>

definition eth_h_dest :: "bytes \<Rightarrow> mac option" where
  [xdp_defs]: "eth_h_dest pkt = rd pkt 0 ETH_ALEN"

definition eth_h_source :: "bytes \<Rightarrow> mac option" where
  [xdp_defs]: "eth_h_source pkt = rd pkt 6 ETH_ALEN"

definition eth_h_proto :: "bytes \<Rightarrow> u16 option" where
  [xdp_defs]: "eth_h_proto pkt = rd_be16 pkt 12"

definition ip_ihl :: "bytes \<Rightarrow> nat \<Rightarrow> nat option" where
  [xdp_defs]: "ip_ihl pkt ip = do { b \<leftarrow> rd8 pkt ip; Some (unat b mod 16) }"

definition ip_protocol :: "bytes \<Rightarrow> nat \<Rightarrow> u8 option" where
  [xdp_defs]: "ip_protocol pkt ip = rd8 pkt (ip + 9)"

definition ip_saddr :: "bytes \<Rightarrow> nat \<Rightarrow> u32 option" where
  [xdp_defs]: "ip_saddr pkt ip = rd_le32 pkt (ip + 12)"

definition ip_daddr :: "bytes \<Rightarrow> nat \<Rightarrow> u32 option" where
  [xdp_defs]: "ip_daddr pkt ip = rd_le32 pkt (ip + 16)"

definition l4_dest :: "bytes \<Rightarrow> nat \<Rightarrow> u16 option" where
  [xdp_defs]: "l4_dest pkt l4 = rd_be16 pkt (l4 + 2)"

section \<open>The redirect helper\<close>

text \<open>
  \<open>bpf_redirect_map(&tx_port, key, flags)\<close> is kernel code. Its documentation: it returns
  \<open>XDP_REDIRECT\<close> when the device map has an entry for the key, and otherwise the action given in the
  low bits of its flags.
\<close>

type_synonym redirect_map = "u32 \<Rightarrow> xdp_action \<Rightarrow> xdp_action"

definition devmap_contract :: "redirect_map \<Rightarrow> u32 set \<Rightarrow> bool" where
  "devmap_contract redir ports \<longleftrightarrow>
     (\<forall>k fl. redir k fl = (if k \<in> ports then XDP_REDIRECT else fl))"

lemma devmap_contractD:
  "devmap_contract redir ports \<Longrightarrow> redir k fl = (if k \<in> ports then XDP_REDIRECT else fl)"
  by (simp add: devmap_contract_def)

section \<open>Frames that hold the headers\<close>

lemma eth_fields:
  assumes "ETH_HLEN \<le> length pkt"
  shows "eth_h_dest pkt = Some (take 6 pkt)" "eth_h_source pkt = Some (take 6 (drop 6 pkt))"
    "eth_h_proto pkt = Some (be16 (pkt ! 12) (pkt ! 13))"
  using assms by (simp_all add: xdp_defs rd_simps)

lemma ip_fields:
  assumes "ip + IP_HLEN \<le> length pkt"
  shows "ip_ihl pkt ip = Some (unat (pkt ! ip) mod 16)" "ip_protocol pkt ip = Some (pkt ! (ip + 9))"
    "\<exists>a. ip_saddr pkt ip = Some a" "\<exists>a. ip_daddr pkt ip = Some a"
  using assms by (simp_all add: xdp_defs rd_simps)

lemma l4_dest_defined: "l4 + 8 \<le> length pkt \<Longrightarrow> \<exists>p. l4_dest pkt l4 = Some p"
  by (simp add: xdp_defs rd_simps)

section \<open>Programs run over frames\<close>

text \<open>
  The frames one CPU receives, in arrival order: the program runs on each of them over the maps the
  previous one left, and each gets an action.
\<close>

fun run_frames :: "('m \<Rightarrow> bytes \<Rightarrow> ('m \<times> xdp_action) option) \<Rightarrow> 'm \<Rightarrow> bytes list \<Rightarrow> ('m \<times> xdp_action list) option" where
  "run_frames prog m [] = Some (m, [])"
| "run_frames prog m (p # ps) = do {
     (m1, a) \<leftarrow> prog m p;
     (m2, as) \<leftarrow> run_frames prog m1 ps;
     Some (m2, a # as) }"

text \<open>
  What the data plane promises of an XDP program: it returns on every frame (so it never reads out of
  bounds), it never writes the configuration the control plane installed, and the action it takes on a
  frame is a function of the frame and that configuration alone.
\<close>

locale xdp_program =
  fixes prog :: "'m \<Rightarrow> bytes \<Rightarrow> ('m \<times> xdp_action) option"
    and cfg :: "'m \<Rightarrow> 'c"
    and act :: "'m \<Rightarrow> bytes \<Rightarrow> xdp_action"
  assumes prog_total: "\<exists>m'. prog m pkt = Some (m', act m pkt)"
    and prog_cfg: "prog m pkt = Some (m', a) \<Longrightarrow> cfg m' = cfg m"
    and act_cfg: "cfg m = cfg m' \<Longrightarrow> act m pkt = act m' pkt"
begin

lemma run_frames_total:
  "\<exists>m'. run_frames prog m ps = Some (m', map (act m) ps) \<and> cfg m' = cfg m"
proof (induction ps arbitrary: m)
  case Nil
  then show ?case by simp
next
  case (Cons p ps)
  obtain m1 where m1: "prog m p = Some (m1, act m p)"
    using prog_total by blast
  then have cfg: "cfg m1 = cfg m" by (rule prog_cfg)
  obtain m2 where "run_frames prog m1 ps = Some (m2, map (act m1) ps)" "cfg m2 = cfg m1"
    using Cons.IH by blast
  moreover have "act m1 = act m"
    using act_cfg [OF cfg] by (simp add: fun_eq_iff)
  ultimately show ?case
    using m1 cfg by simp
qed

text \<open>The action on a frame does not depend on the frames that came before it.\<close>

lemma run_frames_independent:
  assumes "run_frames prog m (qs @ [p]) = Some (m', as)"
  shows "last as = act m p"
  using assms run_frames_total [of m "qs @ [p]"] by auto

end

end
