(* ===== verification/Vm_Router.thy ===== *)
theory Vm_Router
  imports Xdp_Packet
begin

text \<open>
  \<open>kernel/ebpf/xdp_vm_router.c\<close>: the program that redirects frames of the uplink to the tap device
  of the virtual machine that owns the destination address, and its egress counterpart.
\<close>

section \<open>State\<close>

record vm_stats =
  rx_packets :: u64
  rx_bytes :: u64

text \<open>
  The maps the program reads and writes. \<open>vm_rx_stats\<close> is a per-CPU map: the field is the slots
  of the CPU that runs the program, and a pointer that a lookup returns is a pointer to that slot.
\<close>

record router_maps =
  mac_to_ifindex :: "mac \<rightharpoonup> u32"
  vm_rx_stats :: "u32 \<rightharpoonup> vm_stats"

abbreviation (input) MAX_VMS :: nat where "MAX_VMS \<equiv> 256"

section \<open>The programs\<close>

text \<open>\<open>stats->rx_packets++; stats->rx_bytes += (data_end - data)\<close> on 64-bit counters.\<close>

definition bump_rx :: "vm_stats \<Rightarrow> bytes \<Rightarrow> vm_stats" where
  [xdp_defs]: "bump_rx st pkt =
     st\<lparr>rx_packets := rx_packets st + 1, rx_bytes := rx_bytes st + of_nat (length pkt)\<rparr>"

definition xdp_vm_router ::
  "redirect_map \<Rightarrow> router_maps \<Rightarrow> bytes \<Rightarrow> (router_maps \<times> xdp_action) option" where
  [xdp_defs]: "xdp_vm_router redir m pkt =
     (if ETH_HLEN > length pkt then Some (m, XDP_ABORTED)
      else do {
        h_dest \<leftarrow> eth_h_dest pkt;
        (case mac_to_ifindex m h_dest of
           None \<Rightarrow> Some (m, XDP_PASS)
         | Some ifindex \<Rightarrow>
             let m' = (case vm_rx_stats m ifindex of
                         None \<Rightarrow> m
                       | Some stats \<Rightarrow>
                           m\<lparr>vm_rx_stats := (vm_rx_stats m)(ifindex \<mapsto> bump_rx stats pkt)\<rparr>)
             in Some (m', redir ifindex XDP_PASS))
      })"

definition tc_vm_egress :: "router_maps \<Rightarrow> bytes \<Rightarrow> (router_maps \<times> tc_action) option" where
  [xdp_defs]: "tc_vm_egress m pkt =
     (if ETH_HLEN > length pkt then Some (m, TC_ACT_OK)
      else do {
        h_source \<leftarrow> eth_h_source pkt;
        (case mac_to_ifindex m h_source of
           None \<Rightarrow> Some (m, TC_ACT_OK)
         | Some ifindex \<Rightarrow> Some (m, TC_ACT_OK))
      })"

section \<open>Reference definitions\<close>

text \<open>The interface a frame is meant for, and the frames of a run that are meant for an interface.\<close>

definition dest_if :: "router_maps \<Rightarrow> bytes \<Rightarrow> u32 option" where
  "dest_if m pkt = (if ETH_HLEN \<le> length pkt then mac_to_ifindex m (take 6 pkt) else None)"

definition frames_for :: "router_maps \<Rightarrow> u32 \<Rightarrow> bytes list \<Rightarrow> bytes list" where
  "frames_for m i ps = filter (\<lambda>p. dest_if m p = Some i) ps"

definition route_spec :: "u32 set \<Rightarrow> router_maps \<Rightarrow> bytes \<Rightarrow> xdp_action" where
  "route_spec ports m pkt =
     (if length pkt < ETH_HLEN then XDP_ABORTED
      else case dest_if m pkt of
             None \<Rightarrow> XDP_PASS
           | Some i \<Rightarrow> if i \<in> ports then XDP_REDIRECT else XDP_PASS)"

definition count_frames :: "vm_stats \<Rightarrow> bytes list \<Rightarrow> vm_stats" where
  "count_frames st ps =
     st\<lparr>rx_packets := rx_packets st + of_nat (length ps),
        rx_bytes := rx_bytes st + of_nat (sum_list (map length ps))\<rparr>"

section \<open>Properties\<close>

lemma dest_if_simps [simp]:
  "length pkt < ETH_HLEN \<Longrightarrow> dest_if m pkt = None"
  "ETH_HLEN \<le> length pkt \<Longrightarrow> dest_if m pkt = mac_to_ifindex m (take 6 pkt)"
  by (auto simp: dest_if_def)

text \<open>One frame: the program returns, and its effect on the maps is the one on the matching slot.\<close>

lemma xdp_vm_router_eq:
  "xdp_vm_router redir m pkt = Some
     (case dest_if m pkt of
        None \<Rightarrow> (m, if length pkt < ETH_HLEN then XDP_ABORTED else XDP_PASS)
      | Some i \<Rightarrow>
          (m\<lparr>vm_rx_stats := (\<lambda>j. if j = i then map_option (\<lambda>st. bump_rx st pkt) (vm_rx_stats m i)
                                 else vm_rx_stats m j)\<rparr>,
           redir i XDP_PASS))"
proof (cases "length pkt < ETH_HLEN")
  case True
  then show ?thesis by (simp add: xdp_vm_router_def)
next
  case False
  then have len: "ETH_HLEN \<le> length pkt" by simp
  have eq: "(\<lambda>j. if j = i then map_option f (g i) else g j) = g" if "g i = None" for f i and g :: "u32 \<rightharpoonup> vm_stats"
    using that by auto
  have eq': "(\<lambda>j. if j = i then map_option f (g i) else g j) = g(i \<mapsto> f s)" if "g i = Some s"
    for f i s and g :: "u32 \<rightharpoonup> vm_stats"
    using that by auto
  show ?thesis
    using False eth_fields [OF len] by (auto simp: xdp_vm_router_def eq eq' split: option.splits)
qed

lemma mac_to_ifindex_router:
  "xdp_vm_router redir m pkt = Some (m', a) \<Longrightarrow> mac_to_ifindex m' = mac_to_ifindex m"
  by (auto simp: xdp_vm_router_eq split: option.splits)

lemma dest_if_router:
  "xdp_vm_router redir m pkt = Some (m', a) \<Longrightarrow> dest_if m' p = dest_if m p"
  by (simp add: dest_if_def mac_to_ifindex_router)

lemma count_frames_Nil [simp]: "count_frames st [] = st"
  by (simp add: count_frames_def)

lemma count_frames_bump: "count_frames (bump_rx st p) ps = count_frames st (p # ps)"
  by (simp add: count_frames_def bump_rx_def algebra_simps)

lemma vm_rx_stats_router:
  "xdp_vm_router redir m pkt = Some (m', a) \<Longrightarrow>
   vm_rx_stats m' i = map_option (\<lambda>st. count_frames st (frames_for m i [pkt])) (vm_rx_stats m i)"
  using count_frames_bump [where ps = "[]"]
  by (auto simp: xdp_vm_router_eq frames_for_def option.map_ident split: option.splits)

lemma frames_for_router:
  "xdp_vm_router redir m pkt = Some (m', a) \<Longrightarrow> frames_for m' i ps = frames_for m i ps"
  by (simp add: frames_for_def dest_if_router)

lemma frames_for_Cons: "frames_for m i (p # ps) = frames_for m i [p] @ frames_for m i ps"
  by (simp add: frames_for_def)

lemma count_frames_append: "count_frames (count_frames st ps) qs = count_frames st (ps @ qs)"
  by (simp add: count_frames_def algebra_simps)

lemma router_action:
  assumes "devmap_contract redir ports"
  shows "\<exists>m'. xdp_vm_router redir m pkt = Some (m', route_spec ports m pkt)"
  by (auto simp: xdp_vm_router_eq route_spec_def devmap_contractD [OF assms] split: option.splits)

text \<open>
  C7. Routing decision: for every frame the program returns (it never reads past the end of
  the frame), and when the redirect helper behaves as documented the action is the one of the
  specification: frames too short for an Ethernet header are aborted, frames for a known address
  whose interface is in the device map are redirected, and everything else goes to the kernel stack.
\<close>

theorem xdp_vm_router_routes:
  assumes "devmap_contract redir ports"
  shows "\<exists>m'. xdp_vm_router redir m pkt = Some (m', route_spec ports m pkt)
           \<and> mac_to_ifindex m' = mac_to_ifindex m"
  using router_action [OF assms, of m pkt] mac_to_ifindex_router by blast

theorem xdp_vm_router_routes_witness:
  "\<exists>m'. xdp_vm_router (\<lambda>k fl. if k \<in> {7} then XDP_REDIRECT else fl)
          \<lparr>mac_to_ifindex = [[2,0,0,0,0,9] \<mapsto> 7], vm_rx_stats = Map.empty\<rparr>
          ([2,0,0,0,0,9, 2,0,0,0,0,1, 8,0] @ [1,2,3]) = Some (m', XDP_REDIRECT)
        \<and> mac_to_ifindex m' = [[2,0,0,0,0,9] \<mapsto> 7]"
proof -
  have c: "devmap_contract (\<lambda>k fl. if k \<in> {7} then XDP_REDIRECT else fl) {7}"
    by (simp add: devmap_contract_def)
  show ?thesis
    using xdp_vm_router_routes [OF c, of "\<lparr>mac_to_ifindex = [[2,0,0,0,0,9] \<mapsto> 7], vm_rx_stats = Map.empty\<rparr>"
        "[2,0,0,0,0,9, 2,0,0,0,0,1, 8,0] @ [1,2,3]"]
    by (simp add: route_spec_def)
qed

text \<open>The router keeps the contract of an XDP program, whatever the redirect helper does.\<close>

definition router_act :: "redirect_map \<Rightarrow> router_maps \<Rightarrow> bytes \<Rightarrow> xdp_action" where
  "router_act redir m pkt =
     (case dest_if m pkt of
        None \<Rightarrow> if length pkt < ETH_HLEN then XDP_ABORTED else XDP_PASS
      | Some i \<Rightarrow> redir i XDP_PASS)"

interpretation router: xdp_program "xdp_vm_router redir" mac_to_ifindex "router_act redir"
  for redir
proof unfold_locales
  show "\<exists>m'. xdp_vm_router redir m pkt = Some (m', router_act redir m pkt)" for m pkt
    by (auto simp: xdp_vm_router_eq router_act_def split: option.splits)
  show "xdp_vm_router redir m pkt = Some (m', a) \<Longrightarrow> mac_to_ifindex m' = mac_to_ifindex m" for m pkt m' a
    by (rule mac_to_ifindex_router)
  show "mac_to_ifindex m = mac_to_ifindex m' \<Longrightarrow> router_act redir m pkt = router_act redir m' pkt" for m m' pkt
    by (simp add: router_act_def dest_if_def)
qed

text \<open>
  C8. Counters over a whole run: after any sequence of frames on a CPU, the counters of every
  interface with a slot have grown (modulo \<open>2^64\<close>) by exactly the number and the total length of the
  frames addressed to that interface, an interface without a slot still has none, the address map is
  unchanged, and each frame got the action it gets on its own.
\<close>

theorem router_run_counts:
  "\<exists>m'. run_frames (xdp_vm_router redir) m ps = Some (m', map (router_act redir m) ps)
     \<and> mac_to_ifindex m' = mac_to_ifindex m
     \<and> (\<forall>i. vm_rx_stats m' i =
              map_option (\<lambda>st. count_frames st (frames_for m i ps)) (vm_rx_stats m i))"
proof -
  have "run_frames (xdp_vm_router redir) m ps = Some (m', as) \<Longrightarrow>
      vm_rx_stats m' i = map_option (\<lambda>st. count_frames st (frames_for m i ps)) (vm_rx_stats m i)"
    for m' as i
  proof (induction ps arbitrary: m as)
    case Nil
    then show ?case by (simp add: frames_for_def option.map_ident)
  next
    case (Cons p ps)
    then obtain m1 a bs where p: "xdp_vm_router redir m p = Some (m1, a)"
      and ps: "run_frames (xdp_vm_router redir) m1 ps = Some (m', bs)"
      by (auto split: bind_splits)
    show ?case
      by (simp add: Cons.IH [OF ps] vm_rx_stats_router [OF p] frames_for_router [OF p]
          frames_for_Cons [of m i p ps] count_frames_append option.map_comp comp_def)
  qed
  then show ?thesis using router.run_frames_total by meson
qed

text \<open>
  The egress hook only observes: for every frame it returns \<open>TC_ACT_OK\<close> and leaves every map
  unchanged.
\<close>

theorem tc_vm_egress_neutral: "tc_vm_egress m pkt = Some (m, TC_ACT_OK)"
  by (cases "length pkt < ETH_HLEN") (auto simp: tc_vm_egress_def eth_fields split: option.splits)

end
