(* ===== verification/Microseg.thy ===== *)
theory Microseg
  imports Xdp_Packet
begin

text \<open>
  \<open>microseg/ebpf/xdp_microseg.c\<close>: the enforcement of label-based policies on frames. The state is the
  BPF maps of the file; the ring buffer is the list of submitted audit events.
\<close>

section \<open>State\<close>

abbreviation (input) IDENTITY_UNKNOWN :: u32 where "IDENTITY_UNKNOWN \<equiv> 0"
abbreviation (input) VERDICT_ALLOW :: u8 where "VERDICT_ALLOW \<equiv> 0"
abbreviation (input) VERDICT_DENY :: u8 where "VERDICT_DENY \<equiv> 1"
abbreviation (input) VERDICT_LOG :: u8 where "VERDICT_LOG \<equiv> 2"

record policy_key =
  src_id :: u32
  dst_id :: u32
  proto :: u8
  pad :: bytes
  dst_port :: u16
  pad2 :: u16

record policy_val =
  verdict :: u8
  priority :: u8
  flags :: u16
  rule_id :: u32

record deny_stats =
  packets :: u64
  bytes :: u64

record audit_event =
  timestamp_ns :: u64
  ev_src_id :: u32
  ev_dst_id :: u32
  ev_src_mac :: mac
  ev_dst_mac :: mac
  ev_src_ip :: u32
  ev_dst_ip :: u32
  ev_dst_port :: u16
  ev_proto :: u8
  ev_verdict :: u8
  ev_rule_id :: u32

record microseg_maps =
  identity_map :: "mac \<rightharpoonup> u32"
  policy_map :: "policy_key \<rightharpoonup> policy_val"
  default_policy_map :: "u32 \<rightharpoonup> u8"
  deny_stats_map :: "u32 \<rightharpoonup> deny_stats"
  audit_ringbuf :: "audit_event list"
  ms_mac_to_ifindex :: "mac \<rightharpoonup> u32"

text \<open>
  The kernel the program runs against: the redirect helper, the clock, and whether the ring buffer
  still has room for one more event (\<open>bpf_ringbuf_reserve\<close> returns null otherwise).
\<close>

record bpf_env =
  redirect :: redirect_map
  ktime_ns :: u64
  ringbuf_room :: "audit_event list \<Rightarrow> bool"

section \<open>Helpers of the program\<close>

definition policy_key_of :: "u32 \<Rightarrow> u32 \<Rightarrow> u8 \<Rightarrow> u16 \<Rightarrow> policy_key" where
  [xdp_defs]: "policy_key_of s d p port =
     \<lparr>src_id = s, dst_id = d, proto = p, pad = [0, 0, 0], dst_port = port, pad2 = 0\<rparr>"

definition lookup_verdict :: "microseg_maps \<Rightarrow> u32 \<Rightarrow> u32 \<Rightarrow> u8 \<Rightarrow> u16 \<Rightarrow> u8" where
  [xdp_defs]: "lookup_verdict m s d p port =
     (let k = policy_key_of s d p port in
      case policy_map m k of Some v \<Rightarrow> verdict v | None \<Rightarrow>
      (let k = k\<lparr>dst_port := 0\<rparr> in
       case policy_map m k of Some v \<Rightarrow> verdict v | None \<Rightarrow>
       (let k = k\<lparr>proto := 0\<rparr> in
        case policy_map m k of Some v \<Rightarrow> verdict v | None \<Rightarrow>
        (case default_policy_map m d of Some def \<Rightarrow> def | None \<Rightarrow> VERDICT_DENY))))"

definition emit_audit ::
  "bpf_env \<Rightarrow> u32 \<Rightarrow> u32 \<Rightarrow> mac \<Rightarrow> mac \<Rightarrow> u32 \<Rightarrow> u32 \<Rightarrow> u8 \<Rightarrow> u16 \<Rightarrow> u8 \<Rightarrow> microseg_maps \<Rightarrow> microseg_maps" where
  [xdp_defs]: "emit_audit env s d smac dmac sip dip p port v m =
     (if \<not> ringbuf_room env (audit_ringbuf m) then m
      else m\<lparr>audit_ringbuf := audit_ringbuf m @
        [\<lparr>timestamp_ns = ktime_ns env, ev_src_id = s, ev_dst_id = d, ev_src_mac = smac,
          ev_dst_mac = dmac, ev_src_ip = sip, ev_dst_ip = dip, ev_dst_port = port, ev_proto = p,
          ev_verdict = v, ev_rule_id = 0\<rparr>]\<rparr>)"

definition bump_deny :: "microseg_maps \<Rightarrow> u32 \<Rightarrow> u32 \<Rightarrow> microseg_maps" where
  [xdp_defs]: "bump_deny m s pkt_len =
     (case deny_stats_map m s of
        None \<Rightarrow> m
      | Some st \<Rightarrow> m\<lparr>deny_stats_map := (deny_stats_map m)(s \<mapsto>
          st\<lparr>packets := packets st + 1, bytes := bytes st + ucast pkt_len\<rparr>)\<rparr>)"

section \<open>The program\<close>

text \<open>
  The layer 3 and 4 part: the protocol, the addresses and the destination port of an IPv4 packet,
  and zeroes for IPv6. \<open>None\<close> is an out-of-bounds read, \<open>Some None\<close> the early \<open>XDP_ABORTED\<close>.
\<close>

definition parse_l4 :: "bytes \<Rightarrow> u16 \<Rightarrow> (u8 \<times> u32 \<times> u32 \<times> u16) option option" where
  [xdp_defs]: "parse_l4 pkt eth_proto =
     (if eth_proto = ETH_P_IP then
        let ip = ETH_HLEN in
        if ip + IP_HLEN > length pkt then Some None
        else do {
          ip_proto \<leftarrow> ip_protocol pkt ip;
          src_ip \<leftarrow> ip_saddr pkt ip;
          dst_ip \<leftarrow> ip_daddr pkt ip;
          ihl \<leftarrow> ip_ihl pkt ip;
          let l4 = ip + ihl * 4;
          (if ip_proto = IPPROTO_TCP then
             if l4 + TCP_HLEN > length pkt then Some None
             else do { port \<leftarrow> l4_dest pkt l4; Some (Some (ip_proto, src_ip, dst_ip, port)) }
           else if ip_proto = IPPROTO_UDP then
             if l4 + UDP_HLEN > length pkt then Some None
             else do { port \<leftarrow> l4_dest pkt l4; Some (Some (ip_proto, src_ip, dst_ip, port)) }
           else Some (Some (ip_proto, src_ip, dst_ip, 0)))
        }
      else Some (Some (0, 0, 0, 0)))"

text \<open>The label \<open>allow_redirect\<close>.\<close>

definition allow_redirect :: "bpf_env \<Rightarrow> microseg_maps \<Rightarrow> mac \<Rightarrow> microseg_maps \<times> xdp_action" where
  [xdp_defs]: "allow_redirect env m h_dest =
     (case ms_mac_to_ifindex m h_dest of
        None \<Rightarrow> (m, XDP_PASS)
      | Some ifindex \<Rightarrow> (m, redirect env ifindex XDP_PASS))"

definition xdp_microseg_enforce ::
  "bpf_env \<Rightarrow> microseg_maps \<Rightarrow> bytes \<Rightarrow> (microseg_maps \<times> xdp_action) option" where
  [xdp_defs]: "xdp_microseg_enforce env m pkt =
     (let pkt_len = of_nat (length pkt) in
      if ETH_HLEN > length pkt then Some (m, XDP_ABORTED)
      else do {
        h_source \<leftarrow> eth_h_source pkt;
        h_dest \<leftarrow> eth_h_dest pkt;
        let s = (case identity_map m h_source of Some i \<Rightarrow> i | None \<Rightarrow> IDENTITY_UNKNOWN);
        let d = (case identity_map m h_dest of Some i \<Rightarrow> i | None \<Rightarrow> IDENTITY_UNKNOWN);
        eth_proto \<leftarrow> eth_h_proto pkt;
        (if eth_proto \<noteq> ETH_P_IP \<and> eth_proto \<noteq> ETH_P_IPV6 then Some (allow_redirect env m h_dest)
         else do {
           l4 \<leftarrow> parse_l4 pkt eth_proto;
           (case l4 of
              None \<Rightarrow> Some (m, XDP_ABORTED)
            | Some (ip_proto, src_ip, dst_ip, port) \<Rightarrow>
                let v = lookup_verdict m s d ip_proto port in
                if v = VERDICT_DENY then
                  Some (emit_audit env s d h_source h_dest src_ip dst_ip ip_proto port VERDICT_DENY
                          (bump_deny m s pkt_len), XDP_DROP)
                else if v = VERDICT_LOG then
                  Some (allow_redirect env (emit_audit env s d h_source h_dest src_ip dst_ip ip_proto
                          port VERDICT_LOG m) h_dest)
                else Some (allow_redirect env m h_dest))
         })
      })"

text \<open>The egress hook is a stub in the source: it lets every packet through.\<close>

definition tc_microseg_egress :: "bytes \<Rightarrow> tc_action" where
  "tc_microseg_egress skb = TC_ACT_OK"

section \<open>Reference definitions\<close>

definition identity_of :: "microseg_maps \<Rightarrow> mac \<Rightarrow> u32" where
  "identity_of m a = (case identity_map m a of Some i \<Rightarrow> i | None \<Rightarrow> IDENTITY_UNKNOWN)"

text \<open>
  A flow is what a frame is judged by: source and destination identity, protocol and port. The
  frames without one are too short, or carry neither IPv4 nor IPv6.
\<close>

type_synonym flow = "u32 \<times> u32 \<times> u8 \<times> u16"

definition ethertype :: "bytes \<Rightarrow> u16" where
  "ethertype pkt = be16 (pkt ! 12) (pkt ! 13)"

definition is_ip :: "bytes \<Rightarrow> bool" where
  "is_ip pkt \<longleftrightarrow> ETH_HLEN \<le> length pkt \<and> (ethertype pkt = ETH_P_IP \<or> ethertype pkt = ETH_P_IPV6)"

definition flow_of :: "microseg_maps \<Rightarrow> bytes \<Rightarrow> flow option" where
  "flow_of m pkt =
     (case parse_l4 pkt (ethertype pkt) of
        Some (Some (p, _, _, port)) \<Rightarrow>
          Some (identity_of m (take 6 (drop 6 pkt)), identity_of m (take 6 pkt), p, port)
      | _ \<Rightarrow> None)"

text \<open>The rules of the policy map that match a flow, with 0 as the wildcard the header documents.\<close>

definition rule_matches :: "policy_key \<Rightarrow> flow \<Rightarrow> bool" where
  "rule_matches k = (\<lambda>(s, d, p, port).
     src_id k = s \<and> dst_id k = d \<and> pad k = [0, 0, 0] \<and> pad2 k = 0
     \<and> (proto k = 0 \<or> proto k = p) \<and> (dst_port k = 0 \<or> dst_port k = port))"

definition port_only :: "policy_key \<Rightarrow> bool" where
  "port_only k \<longleftrightarrow> proto k = 0 \<and> dst_port k \<noteq> 0"

definition specificity :: "policy_key \<Rightarrow> nat" where
  "specificity k = (if proto k \<noteq> 0 then 2 else 0) + (if dst_port k \<noteq> 0 then 1 else 0)"

text \<open>The maps with other priorities in the entries of the policy map.\<close>

definition set_priorities :: "(policy_key \<Rightarrow> u8) \<Rightarrow> microseg_maps \<Rightarrow> microseg_maps" where
  "set_priorities pr m = m\<lparr>policy_map := (\<lambda>k. map_option (\<lambda>v. v\<lparr>priority := pr k\<rparr>) (policy_map m k))\<rparr>"

text \<open>
  The rule that the documentation lets decide about a flow: it matches, and every other matching rule has a larger number as its priority.
\<close>

definition first_by_priority :: "microseg_maps \<Rightarrow> flow \<Rightarrow> policy_key \<Rightarrow> policy_val \<Rightarrow> bool" where
  "first_by_priority m f k v \<longleftrightarrow> rule_matches k f \<and> policy_map m k = Some v \<and>
     (\<forall>k' v'. rule_matches k' f \<and> policy_map m k' = Some v' \<and> k' \<noteq> k \<longrightarrow> priority v < priority v')"

text \<open>The three keys the program looks up for a flow.\<close>

definition consulted :: "flow \<Rightarrow> policy_key list" where
  "consulted = (\<lambda>(s, d, p, port).
     [policy_key_of s d p port, policy_key_of s d p 0, policy_key_of s d 0 0])"

definition flow_verdict :: "microseg_maps \<Rightarrow> flow \<Rightarrow> u8" where
  "flow_verdict m = (\<lambda>(s, d, p, port). lookup_verdict m s d p port)"

definition forward :: "bpf_env \<Rightarrow> microseg_maps \<Rightarrow> bytes \<Rightarrow> xdp_action" where
  "forward env m pkt = snd (allow_redirect env m (take 6 pkt))"

text \<open>The action of the program as a function of frame and configuration.\<close>

definition enforce_act :: "bpf_env \<Rightarrow> microseg_maps \<Rightarrow> bytes \<Rightarrow> xdp_action" where
  "enforce_act env m pkt =
     (if length pkt < ETH_HLEN then XDP_ABORTED
      else if \<not> is_ip pkt then forward env m pkt
      else case flow_of m pkt of
             None \<Rightarrow> XDP_ABORTED
           | Some f \<Rightarrow> if flow_verdict m f = VERDICT_DENY then XDP_DROP else forward env m pkt)"

definition ms_cfg where
  "ms_cfg m = (identity_map m, policy_map m, default_policy_map m, ms_mac_to_ifindex m)"

text \<open>A TCP frame to port 5432 and a configuration that the witnesses below are evaluated on.\<close>

definition sample_frame :: bytes where
  "sample_frame =
     [2, 0, 0, 0, 0, 9] @ [2, 0, 0, 0, 0, 1] @ [8, 0] @
     [0x45, 0, 0, 40, 0, 0, 0, 0, 64, 6, 0, 0, 10, 0, 0, 1, 10, 0, 0, 9] @
     [0x9C, 0x40, 0x15, 0x38, 0, 0, 0, 0, 0, 0, 0, 0, 0x50, 2, 0, 0, 0, 0, 0, 0]"

definition sample_maps :: "u8 \<Rightarrow> microseg_maps" where
  "sample_maps v =
     \<lparr>identity_map = [[2, 0, 0, 0, 0, 1] \<mapsto> 10, [2, 0, 0, 0, 0, 9] \<mapsto> 20],
      policy_map = [policy_key_of 10 20 6 5432 \<mapsto> \<lparr>verdict = v, priority = 0, flags = 0, rule_id = 1\<rparr>],
      default_policy_map = Map.empty, deny_stats_map = [10 \<mapsto> \<lparr>packets = 0, bytes = 0\<rparr>],
      audit_ringbuf = [], ms_mac_to_ifindex = [[2, 0, 0, 0, 0, 9] \<mapsto> 7]\<rparr>"

text \<open>
  A deny rule for all traffic with priority 0 next to an allow rule for the port with priority 255: the deny rule is first by
  priority, and the frame is let through.
\<close>

definition conflict_maps :: microseg_maps where
  "conflict_maps = (sample_maps VERDICT_ALLOW)\<lparr>policy_map :=
     [policy_key_of 10 20 6 5432 \<mapsto> \<lparr>verdict = VERDICT_ALLOW, priority = 255, flags = 0, rule_id = 1\<rparr>,
      policy_key_of 10 20 0 0 \<mapsto> \<lparr>verdict = VERDICT_DENY, priority = 0, flags = 0, rule_id = 2\<rparr>]\<rparr>"

definition sample_env :: bpf_env where
  "sample_env = \<lparr>redirect = (\<lambda>k fl. if k = 7 then XDP_REDIRECT else fl), ktime_ns = 5,
     ringbuf_room = (\<lambda>evs. length evs < 100)\<rparr>"

section \<open>Lemmas\<close>

lemma parse_l4_total: "\<exists>r. parse_l4 pkt et = Some r"
proof (cases "et = ETH_P_IP \<and> ETH_HLEN + IP_HLEN \<le> length pkt")
  case False
  then show ?thesis by (auto simp: parse_l4_def)
next
  case True
  then have len: "ETH_HLEN + IP_HLEN \<le> length pkt" by simp
  obtain sa da where "ip_saddr pkt ETH_HLEN = Some sa" "ip_daddr pkt ETH_HLEN = Some da"
    using ip_fields(3,4) [OF len] by blast
  then show ?thesis
    using True ip_fields(1,2) [OF len]
      l4_dest_defined [of "ETH_HLEN + unat (pkt ! ETH_HLEN) mod 16 * 4" pkt]
    by (auto simp: parse_l4_def Let_def)
qed

lemma policy_key_of_upd [simp]:
  "(policy_key_of s d p port)\<lparr>dst_port := q\<rparr> = policy_key_of s d p q"
  "(policy_key_of s d p port)\<lparr>proto := r\<rparr> = policy_key_of s d r port"
  by (simp_all add: policy_key_of_def)

lemma policy_key_of_sel [simp]:
  "src_id (policy_key_of s d p port) = s" "dst_id (policy_key_of s d p port) = d"
  "proto (policy_key_of s d p port) = p" "dst_port (policy_key_of s d p port) = port"
  by (simp_all add: policy_key_of_def)

lemma lookup_verdict_eq:
  "lookup_verdict m s d p port =
     (case policy_map m (policy_key_of s d p port) of Some v \<Rightarrow> verdict v | None \<Rightarrow>
      case policy_map m (policy_key_of s d p 0) of Some v \<Rightarrow> verdict v | None \<Rightarrow>
      case policy_map m (policy_key_of s d 0 0) of Some v \<Rightarrow> verdict v | None \<Rightarrow>
      case default_policy_map m d of Some def \<Rightarrow> def | None \<Rightarrow> VERDICT_DENY)"
  by (simp add: lookup_verdict_def Let_def split: option.split)

lemma rule_matches_iff:
  "rule_matches k (s, d, p, port) \<and> \<not> port_only k \<longleftrightarrow>
     k \<in> set (consulted (s, d, p, port)) \<and> \<not> port_only k"
  by (cases k) (auto simp: rule_matches_def port_only_def consulted_def policy_key_of_def)

lemma emit_audit_sel [simp]:
  "identity_map (emit_audit env s d sm dm si di p port v m) = identity_map m"
  "policy_map (emit_audit env s d sm dm si di p port v m) = policy_map m"
  "default_policy_map (emit_audit env s d sm dm si di p port v m) = default_policy_map m"
  "deny_stats_map (emit_audit env s d sm dm si di p port v m) = deny_stats_map m"
  "ms_mac_to_ifindex (emit_audit env s d sm dm si di p port v m) = ms_mac_to_ifindex m"
  by (simp_all add: emit_audit_def)

lemma bump_deny_sel [simp]:
  "identity_map (bump_deny m s n) = identity_map m"
  "policy_map (bump_deny m s n) = policy_map m"
  "default_policy_map (bump_deny m s n) = default_policy_map m"
  "audit_ringbuf (bump_deny m s n) = audit_ringbuf m"
  "ms_mac_to_ifindex (bump_deny m s n) = ms_mac_to_ifindex m"
  by (simp_all add: bump_deny_def split: option.splits)

lemma allow_redirect_eq: "allow_redirect env m a =
   (m, case ms_mac_to_ifindex m a of None \<Rightarrow> XDP_PASS | Some i \<Rightarrow> redirect env i XDP_PASS)"
  by (simp add: allow_redirect_def split: option.splits)

text \<open>The program, case by case, over the reference definitions.\<close>

lemma enforce_short: "length pkt < ETH_HLEN \<Longrightarrow> xdp_microseg_enforce env m pkt = Some (m, XDP_ABORTED)"
  by (simp add: xdp_microseg_enforce_def)

lemma enforce_nonip:
  assumes "ETH_HLEN \<le> length pkt" "\<not> is_ip pkt"
  shows "xdp_microseg_enforce env m pkt = Some (m, forward env m pkt)"
  using assms eth_fields [OF assms(1)]
  by (simp add: xdp_microseg_enforce_def is_ip_def ethertype_def forward_def allow_redirect_eq)

lemma enforce_truncated:
  assumes "is_ip pkt" "flow_of m pkt = None"
  shows "xdp_microseg_enforce env m pkt = Some (m, XDP_ABORTED)"
proof -
  have len: "ETH_HLEN \<le> length pkt" using assms by (simp add: is_ip_def)
  have "parse_l4 pkt (ethertype pkt) = Some None"
    using assms(2) parse_l4_total [of pkt "ethertype pkt"] by (auto simp: flow_of_def split: option.splits)
  with assms len eth_fields [OF len] show ?thesis
    by (auto simp: xdp_microseg_enforce_def is_ip_def ethertype_def)
qed

lemma flow_of_SomeD:
  assumes "flow_of m pkt = Some (s, d, p, port)"
  obtains sip dip where "parse_l4 pkt (ethertype pkt) = Some (Some (p, sip, dip, port))"
    "s = identity_of m (take 6 (drop 6 pkt))" "d = identity_of m (take 6 pkt)"
  using assms by (auto simp: flow_of_def split: option.splits prod.splits)

lemma enforce_flow:
  assumes ip: "is_ip pkt" and f: "flow_of m pkt = Some (s, d, p, port)"
  obtains sip dip where
    "xdp_microseg_enforce env m pkt = Some
       (if lookup_verdict m s d p port = VERDICT_DENY then
          (emit_audit env s d (take 6 (drop 6 pkt)) (take 6 pkt) sip dip p port VERDICT_DENY
             (bump_deny m s (of_nat (length pkt))), XDP_DROP)
        else if lookup_verdict m s d p port = VERDICT_LOG then
          (emit_audit env s d (take 6 (drop 6 pkt)) (take 6 pkt) sip dip p port VERDICT_LOG m,
           forward env m pkt)
        else (m, forward env m pkt))"
proof -
  have len: "ETH_HLEN \<le> length pkt" using ip by (simp add: is_ip_def)
  obtain sip dip where l4: "parse_l4 pkt (ethertype pkt) = Some (Some (p, sip, dip, port))"
    and s: "s = identity_of m (take 6 (drop 6 pkt))" and d: "d = identity_of m (take 6 pkt)"
    using f by (rule flow_of_SomeD)
  note flds = eth_fields [OF len]
  show thesis
    using that [of sip dip] l4 [unfolded ethertype_def] ip flds len
    unfolding xdp_microseg_enforce_def is_ip_def ethertype_def forward_def s d identity_of_def
    by (auto simp: Let_def allow_redirect_eq)
qed

lemma enforce_total:
  "\<exists>m'. xdp_microseg_enforce env m pkt = Some (m', enforce_act env m pkt) \<and> ms_cfg m' = ms_cfg m"
proof (cases "flow_of m pkt")
  case None
  then show ?thesis
    by (cases "is_ip pkt"; cases "length pkt < ETH_HLEN")
      (auto simp: enforce_short enforce_nonip enforce_truncated enforce_act_def is_ip_def)
next
  case (Some f)
  obtain s d p port where f: "f = (s, d, p, port)" by (cases f)
  show ?thesis
  proof (cases "is_ip pkt")
    case True
    from True Some [unfolded f] show ?thesis
      by (rule enforce_flow [where env = env])
        (use True Some f in \<open>auto simp: enforce_act_def is_ip_def flow_verdict_def ms_cfg_def\<close>)
  next
    case False
    then show ?thesis
      by (cases "length pkt < ETH_HLEN") (auto simp: enforce_short enforce_nonip enforce_act_def)
  qed
qed

lemma enforce_snd: "map_option snd (xdp_microseg_enforce env m pkt) = Some (enforce_act env m pkt)"
  using enforce_total [of env m pkt] by auto

lemma flow_of_cfg: "identity_map m = identity_map m' \<Longrightarrow> flow_of m pkt = flow_of m' pkt"
  by (simp add: flow_of_def identity_of_def split: option.split)

lemma flow_verdict_cfg:
  "policy_map m = policy_map m' \<Longrightarrow> default_policy_map m = default_policy_map m' \<Longrightarrow>
   flow_verdict m f = flow_verdict m' f"
  by (cases f) (simp add: flow_verdict_def lookup_verdict_eq cong: option.case_cong)

lemma forward_cfg: "ms_mac_to_ifindex m = ms_mac_to_ifindex m' \<Longrightarrow> forward env m pkt = forward env m' pkt"
  by (simp add: forward_def allow_redirect_eq)

interpretation microseg: xdp_program "xdp_microseg_enforce env" ms_cfg "enforce_act env"
  for env
proof unfold_locales
  show "\<exists>m'. xdp_microseg_enforce env m pkt = Some (m', enforce_act env m pkt)" for m pkt
    using enforce_total by blast
  show "xdp_microseg_enforce env m pkt = Some (m', a) \<Longrightarrow> ms_cfg m' = ms_cfg m" for m pkt m' a
    using enforce_total [of env m pkt] by auto
  show "ms_cfg m = ms_cfg m' \<Longrightarrow> enforce_act env m pkt = enforce_act env m' pkt" for m m' pkt
    using flow_of_cfg [of m m' pkt] flow_verdict_cfg [of m m'] forward_cfg [of m m' env pkt]
    by (auto simp: ms_cfg_def enforce_act_def split: option.split)
qed

text \<open>A rule the program does not look up for a frame has no influence on that frame.\<close>

lemma lookup_verdict_upd:
  "k \<notin> set (consulted (s, d, p, port)) \<Longrightarrow>
   lookup_verdict (m\<lparr>policy_map := (policy_map m)(k := x)\<rparr>) s d p port = lookup_verdict m s d p port"
  by (auto simp: lookup_verdict_eq consulted_def cong: option.case_cong)

lemma enforce_act_upd:
  assumes "\<And>f. is_ip pkt \<Longrightarrow> flow_of m pkt = Some f \<Longrightarrow> k \<notin> set (consulted f)"
  shows "enforce_act env (m\<lparr>policy_map := (policy_map m)(k := x)\<rparr>) pkt = enforce_act env m pkt"
proof -
  let ?m = "m\<lparr>policy_map := (policy_map m)(k := x)\<rparr>"
  have "flow_of ?m pkt = flow_of m pkt" by (rule flow_of_cfg) simp
  moreover have "forward env ?m pkt = forward env m pkt" by (rule forward_cfg) simp
  moreover have "is_ip pkt \<Longrightarrow> flow_of m pkt = Some f \<Longrightarrow> flow_verdict ?m f = flow_verdict m f" for f
    using assms by (cases f) (simp add: flow_verdict_def lookup_verdict_upd)
  ultimately show ?thesis
    by (simp add: enforce_act_def split: option.splits)
qed

text \<open>The priorities of the rules have no influence on any frame.\<close>

lemma lookup_verdict_set_priorities: "lookup_verdict (set_priorities pr m) s d p port = lookup_verdict m s d p port"
  by (simp add: lookup_verdict_eq set_priorities_def split: option.split)

lemma enforce_act_set_priorities: "enforce_act env (set_priorities pr m) pkt = enforce_act env m pkt"
proof -
  have "flow_of (set_priorities pr m) pkt = flow_of m pkt" by (rule flow_of_cfg) (simp add: set_priorities_def)
  moreover have "forward env (set_priorities pr m) pkt = forward env m pkt" by (rule forward_cfg) (simp add: set_priorities_def)
  moreover have "flow_verdict (set_priorities pr m) f = flow_verdict m f" for f
    by (cases f) (simp add: flow_verdict_def lookup_verdict_set_priorities)
  ultimately show ?thesis by (simp add: enforce_act_def split: option.split)
qed

lemma run_set_priorities:
  "map_option snd (run_frames (xdp_microseg_enforce env) (set_priorities pr m) ps) =
   map_option snd (run_frames (xdp_microseg_enforce env) m ps)"
  using microseg.run_frames_total [of env m ps] microseg.run_frames_total [of env "set_priorities pr m" ps]
  by (auto simp: enforce_act_set_priorities)

lemma parse_l4_port:
  "parse_l4 pkt et = Some (Some (p, sip, dip, port)) \<Longrightarrow> port \<noteq> 0 \<Longrightarrow> p = IPPROTO_TCP \<or> p = IPPROTO_UDP"
  by (auto simp: parse_l4_def Let_def split: if_splits bind_splits)

lemma parse_l4_v6:
  "parse_l4 pkt ETH_P_IPV6 = Some (Some (0, 0, 0, 0))"
  by (simp add: parse_l4_def)

lemma consulted_not_port_only:
  "flow_of m pkt = Some f \<Longrightarrow> k \<in> set (consulted f) \<Longrightarrow> \<not> port_only k"
  by (cases f) (auto elim!: flow_of_SomeD dest: parse_l4_port simp: consulted_def port_only_def)

text \<open>The example frame and maps, evaluated.\<close>

lemma sample_ip: "is_ip sample_frame"
  by (simp add: is_ip_def ethertype_def sample_frame_def be16_def)

lemma sample_flow: "flow_of (sample_maps v) sample_frame = Some (10, 20, 6, 5432)"
  by (simp add: flow_of_def parse_l4_def sample_maps_def identity_of_def xdp_defs rd_simps sample_frame_def
      ethertype_def be16_def)

lemma sample_verdict: "lookup_verdict (sample_maps v) 10 20 6 5432 = v"
  by (simp add: lookup_verdict_eq sample_maps_def)

text \<open>The rule that decides: the most specific one that matches, port-only rules aside.\<close>

lemma most_specific_decides:
  assumes f: "flow_of m pkt = Some (s, d, p, port)"
    and k: "rule_matches k (s, d, p, port)" "\<not> port_only k" "policy_map m k = Some v"
  shows "\<exists>k' v'. rule_matches k' (s, d, p, port) \<and> policy_map m k' = Some v'
     \<and> lookup_verdict m s d p port = verdict v'
     \<and> (\<forall>k'' v''. rule_matches k'' (s, d, p, port) \<and> \<not> port_only k'' \<and> policy_map m k'' = Some v''
          \<longrightarrow> specificity k'' \<le> specificity k')"
proof -
  have np: "p = 0 \<Longrightarrow> port = 0"
    using consulted_not_port_only [OF f, of "policy_key_of s d p port"]
    by (auto simp: consulted_def port_only_def)
  have iff: "rule_matches k (s, d, p, port) \<and> \<not> port_only k \<longleftrightarrow> k \<in> set (consulted (s, d, p, port))" for k
    using rule_matches_iff [of k s d p port] consulted_not_port_only [OF f, of k] by blast
  have sp: "specificity (policy_key_of s d p 0) \<le> specificity (policy_key_of s d p port)"
    "specificity (policy_key_of s d 0 0) \<le> specificity (policy_key_of s d p 0)"
    by (simp_all add: specificity_def)
  have "k \<in> set (consulted (s, d, p, port))" using iff k by blast
  then consider
      (exact) v1 where "policy_map m (policy_key_of s d p port) = Some v1"
    | (prot) v1 where "policy_map m (policy_key_of s d p port) = None"
        "policy_map m (policy_key_of s d p 0) = Some v1"
    | (any) v1 where "policy_map m (policy_key_of s d p port) = None"
        "policy_map m (policy_key_of s d p 0) = None" "policy_map m (policy_key_of s d 0 0) = Some v1"
    using k(3) by (fastforce simp: consulted_def)
  then obtain k' v' where "k' \<in> set (consulted (s, d, p, port))" "policy_map m k' = Some v'"
    "lookup_verdict m s d p port = verdict v'"
    "\<And>k'' v''. k'' \<in> set (consulted (s, d, p, port)) \<Longrightarrow> policy_map m k'' = Some v'' \<Longrightarrow>
       specificity k'' \<le> specificity k'"
  proof cases
    case (exact v1)
    with sp show thesis
      by (intro that [of "policy_key_of s d p port" v1]) (auto simp: consulted_def lookup_verdict_eq)
  next
    case (prot v1)
    with sp show thesis
      by (intro that [of "policy_key_of s d p 0" v1]) (auto simp: consulted_def lookup_verdict_eq)
  next
    case (any v1)
    then show thesis
      by (intro that [of "policy_key_of s d 0 0" v1]) (auto simp: consulted_def lookup_verdict_eq)
  qed
  then show ?thesis using iff by blast
qed

section \<open>Properties\<close>

text \<open>
  C1. Enforcement: on every frame the program returns without reading out of bounds and leaves the
  installed configuration alone; runs of frames are judged frame by frame. A frame shorter than an
  Ethernet header and an IP frame whose headers are cut off are aborted, an IP frame whose flow has the
  verdict deny is dropped, and every other frame is forwarded.
\<close>

theorem microseg_enforces:
  "\<exists>m'. run_frames (xdp_microseg_enforce env) m ps = Some (m', map (enforce_act env m) ps)
     \<and> ms_cfg m' = ms_cfg m"
  by (rule microseg.run_frames_total)

text \<open>
  C2. Zero trust: an IP frame that is neither dropped nor aborted was let through by a rule that is
  not a deny rule and whose identities, protocol and port match the flow of the frame, or by a default
  policy other than deny of its destination. In particular nothing passes without an entry in one of
  the two maps.
\<close>

theorem microseg_zero_trust:
  assumes ip: "is_ip pkt"
    and run: "xdp_microseg_enforce env m pkt = Some (m', a)" and a: "a \<noteq> XDP_DROP" "a \<noteq> XDP_ABORTED"
  shows "\<exists>s d p port. flow_of m pkt = Some (s, d, p, port) \<and>
    ((\<exists>k v. rule_matches k (s, d, p, port) \<and> policy_map m k = Some v \<and> verdict v \<noteq> VERDICT_DENY)
     \<or> (\<exists>v. default_policy_map m d = Some v \<and> v \<noteq> VERDICT_DENY))"
proof -
  have act: "a = enforce_act env m pkt" using run enforce_total [of env m pkt] by auto
  with ip a obtain s d p port where f: "flow_of m pkt = Some (s, d, p, port)"
    and v: "lookup_verdict m s d p port \<noteq> VERDICT_DENY"
    by (auto simp: enforce_act_def flow_verdict_def split: if_splits option.splits)
  have "rule_matches (policy_key_of s d p port) (s, d, p, port)"
    "rule_matches (policy_key_of s d p 0) (s, d, p, port)"
    "rule_matches (policy_key_of s d 0 0) (s, d, p, port)"
    by (simp_all add: rule_matches_def policy_key_of_def)
  with f v show ?thesis
    by (fastforce simp: lookup_verdict_eq split: option.splits)
qed

theorem microseg_zero_trust_witness:
  "\<exists>s d p port. flow_of (sample_maps VERDICT_ALLOW) sample_frame = Some (s, d, p, port) \<and>
    ((\<exists>k v. rule_matches k (s, d, p, port) \<and> policy_map (sample_maps VERDICT_ALLOW) k = Some v
        \<and> verdict v \<noteq> VERDICT_DENY)
     \<or> (\<exists>v. default_policy_map (sample_maps VERDICT_ALLOW) d = Some v \<and> v \<noteq> VERDICT_DENY))"
proof -
  obtain m' where run: "xdp_microseg_enforce sample_env (sample_maps VERDICT_ALLOW) sample_frame =
      Some (m', enforce_act sample_env (sample_maps VERDICT_ALLOW) sample_frame)"
    using enforce_total by blast
  have "enforce_act sample_env (sample_maps VERDICT_ALLOW) sample_frame = XDP_REDIRECT"
    by (simp add: enforce_act_def sample_ip sample_flow flow_verdict_def sample_verdict forward_def
        allow_redirect_eq) (simp add: sample_maps_def sample_env_def sample_frame_def)
  then show ?thesis
    using microseg_zero_trust [OF sample_ip run] by simp
qed

text \<open>
  C5. Priorities are ignored. The comment on \<open>policy_val\<close> and the policy documentation let the rule with the lowest priority number
  decide; the program never reads the field. Changing the priorities of the installed rules in any way changes the action on no
  frame of any run. When a rule matches the flow of a frame, port-only rules aside, the verdict is that of one matching rule,
  the same for every choice of the priorities, than which no matching rule is more specific (protocol and port before protocol
  alone before neither). So a rule that comes first by its priority loses whenever its verdict differs from the rule that is most specific.
\<close>

theorem priorities_ignored:
  assumes "flow_of m pkt = Some (s, d, p, port)"
    and "rule_matches k (s, d, p, port)" "\<not> port_only k" "policy_map m k = Some v"
  shows "(\<forall>env pr ps. map_option snd (run_frames (xdp_microseg_enforce env) (set_priorities pr m) ps) =
      map_option snd (run_frames (xdp_microseg_enforce env) m ps)) \<and>
    (\<exists>k' v'. rule_matches k' (s, d, p, port) \<and> policy_map m k' = Some v' \<and>
       (\<forall>pr. lookup_verdict (set_priorities pr m) s d p port = verdict v') \<and>
       (\<forall>k'' v''. rule_matches k'' (s, d, p, port) \<and> \<not> port_only k'' \<and> policy_map m k'' = Some v''
          \<longrightarrow> specificity k'' \<le> specificity k'))"
  using most_specific_decides [OF assms] by (simp add: run_set_priorities lookup_verdict_set_priorities)

theorem priorities_ignored_witness:
  "first_by_priority conflict_maps (10, 20, 6, 5432) (policy_key_of 10 20 0 0)
     \<lparr>verdict = VERDICT_DENY, priority = 0, flags = 0, rule_id = 2\<rparr> \<and>
   lookup_verdict conflict_maps 10 20 6 5432 = VERDICT_ALLOW \<and>
   map_option snd (run_frames (xdp_microseg_enforce sample_env) (set_priorities (\<lambda>_. 7) conflict_maps) [sample_frame]) =
     map_option snd (run_frames (xdp_microseg_enforce sample_env) conflict_maps [sample_frame])"
proof -
  let ?k = "policy_key_of 10 20 6 5432" and ?f = "(10, 20, 6, 5432) :: flow"
  have flow: "flow_of conflict_maps sample_frame = Some ?f"
    using sample_flow [of VERDICT_ALLOW] flow_of_cfg [of conflict_maps "sample_maps VERDICT_ALLOW" sample_frame]
    by (simp add: conflict_maps_def)
  have k: "rule_matches ?k ?f" "\<not> port_only ?k" "policy_map conflict_maps ?k = Some \<lparr>verdict = VERDICT_ALLOW, priority = 255, flags = 0, rule_id = 1\<rparr>"
    by (simp_all add: rule_matches_def port_only_def conflict_maps_def policy_key_of_def)
  from priorities_ignored [OF flow k] obtain k' v' where k': "policy_map conflict_maps k' = Some v'"
      "\<forall>pr. lookup_verdict (set_priorities pr conflict_maps) 10 20 6 5432 = verdict v'" "specificity ?k \<le> specificity k'"
    and run: "map_option snd (run_frames (xdp_microseg_enforce sample_env) (set_priorities (\<lambda>_. 7) conflict_maps) [sample_frame]) =
      map_option snd (run_frames (xdp_microseg_enforce sample_env) conflict_maps [sample_frame])"
    using k by blast
  have "v' = \<lparr>verdict = VERDICT_ALLOW, priority = 255, flags = 0, rule_id = 1\<rparr>"
    using k'(1,3) by (auto simp: conflict_maps_def specificity_def split: if_splits)
  then have "lookup_verdict conflict_maps 10 20 6 5432 = VERDICT_ALLOW"
    using k'(2) lookup_verdict_set_priorities [of "\<lambda>_. 0" conflict_maps 10 20 6 5432] by simp
  moreover have "first_by_priority conflict_maps ?f (policy_key_of 10 20 0 0) \<lparr>verdict = VERDICT_DENY, priority = 0, flags = 0, rule_id = 2\<rparr>"
    by (auto simp: first_by_priority_def conflict_maps_def rule_matches_def policy_key_of_def split: if_splits)
  ultimately show ?thesis using run by blast
qed

text \<open>
  C10. Port-only rules are dead: an entry of the policy map for any protocol and a specific port,
  which the compiler writes for a port rule without a protocol, never changes the action on any frame,
  whatever its verdict.
\<close>

theorem port_only_rules_dead:
  assumes "port_only k"
  shows "map_option snd (xdp_microseg_enforce env (m\<lparr>policy_map := (policy_map m)(k := x)\<rparr>) pkt)
       = map_option snd (xdp_microseg_enforce env m pkt)"
proof -
  have "enforce_act env (m\<lparr>policy_map := (policy_map m)(k := x)\<rparr>) pkt = enforce_act env m pkt"
    by (rule enforce_act_upd) (use assms consulted_not_port_only in blast)
  then show ?thesis by (simp add: enforce_snd)
qed

theorem port_only_rules_dead_witness:
  "map_option snd (xdp_microseg_enforce sample_env ((sample_maps VERDICT_ALLOW)\<lparr>policy_map :=
      (policy_map (sample_maps VERDICT_ALLOW))(policy_key_of 10 20 0 5432 \<mapsto>
         \<lparr>verdict = VERDICT_DENY, priority = 0, flags = 0, rule_id = 2\<rparr>)\<rparr>) sample_frame)
   = map_option snd (xdp_microseg_enforce sample_env (sample_maps VERDICT_ALLOW) sample_frame)"
  by (rule port_only_rules_dead) (simp add: port_only_def)

text \<open>
  C11. IPv6 and non-IP frames escape protocol and port rules: on a frame that is not IPv4, an entry
  of the policy map with a protocol or a port never changes the action, whatever its verdict.
\<close>

theorem non_ipv4_escapes_port_rules:
  assumes "ethertype pkt \<noteq> ETH_P_IP" "proto k \<noteq> 0 \<or> dst_port k \<noteq> 0"
  shows "map_option snd (xdp_microseg_enforce env (m\<lparr>policy_map := (policy_map m)(k := x)\<rparr>) pkt)
       = map_option snd (xdp_microseg_enforce env m pkt)"
  unfolding enforce_snd option.inject
proof (rule enforce_act_upd)
  fix f assume "is_ip pkt" "flow_of m pkt = Some f"
  with assms(1) have "\<exists>s d. f = (s, d, 0, 0)"
    by (auto simp: is_ip_def flow_of_def parse_l4_v6)
  with assms(2) show "k \<notin> set (consulted f)"
    by (auto simp: consulted_def)
qed

theorem non_ipv4_escapes_port_rules_witness:
  "map_option snd (xdp_microseg_enforce sample_env ((sample_maps VERDICT_ALLOW)\<lparr>policy_map :=
      (policy_map (sample_maps VERDICT_ALLOW))(policy_key_of 10 20 6 0 \<mapsto>
         \<lparr>verdict = VERDICT_DENY, priority = 0, flags = 0, rule_id = 2\<rparr>)\<rparr>)
      (sample_frame[12 := 0x86, 13 := 0xDD]))
   = map_option snd (xdp_microseg_enforce sample_env (sample_maps VERDICT_ALLOW) (sample_frame[12 := 0x86, 13 := 0xDD]))"
  by (rule non_ipv4_escapes_port_rules)
    (simp_all add: ethertype_def sample_frame_def be16_def)



end
