(* ===== verification/Net_Ctx.thy ===== *)
theory Net_Ctx
  imports Prelude
begin

text \<open>
  \<open>kernel/caiman_net/main.c\<close> and \<open>caiman_net.h\<close>: the per-VM contexts of the kernel module, the hash table
  that finds them by VM id, and their allocation and release. The kernel the module calls is a
  parameter (\<open>kenv\<close>); what the module does to the kernel (references taken and dropped, programs
  attached) is the log of its calls.
\<close>

section \<open>Data\<close>

type_synonym addr = nat
type_synonym netdev = nat
type_synonym bprog = nat

datatype xdp_flags = XDP_FLAGS_NONE | XDP_FLAGS_DRV_MODE | XDP_FLAGS_SKB_MODE

record caiman_net_ctx =
  vm_id :: u32
  ctx_mac :: bytes
  uplink :: netdev
  tap_dev :: "netdev option"
  xdp_prog :: "bprog option"
  xdp_map_fd :: int
  ctx_rx_packets :: u64
  ctx_tx_packets :: u64
  ctx_rx_bytes :: u64
  ctx_tx_bytes :: u64

datatype caiman_net_attr =
    KVM_NET_ATTR_UNSPEC | KVM_NET_ATTR_VM_ID | KVM_NET_ATTR_MAC | KVM_NET_ATTR_UPLINK
  | KVM_NET_ATTR_BPF_OBJ | KVM_NET_ATTR_STATS

datatype caiman_net_cmd =
    KVM_NET_CMD_UNSPEC | KVM_NET_CMD_VM_ADD | KVM_NET_CMD_VM_DEL | KVM_NET_CMD_VM_STATS
  | KVM_NET_CMD_XDP_ATTACH | KVM_NET_CMD_XDP_DETACH

text \<open>The attributes of a netlink reply, in the order they are put into the message.\<close>

datatype reply_attr =
    Put_u32 caiman_net_attr u32
  | Nest_start caiman_net_attr
  | Put_u64 nat u64
  | Nest_end

text \<open>The calls of the module that have an effect on the kernel.\<close>

datatype kcall =
    Dev_get netdev
  | Dev_put netdev
  | Prog_get bprog
  | Prog_put bprog
  | Dev_xdp_attach netdev "bprog option" xdp_flags int
  | Synchronize_rcu
  | Genl_reply "reply_attr list"

text \<open>
  The module's memory: the buckets of \<open>vm_net_table\<close> (each the list of the contexts chained in it,
  head first), the allocated contexts, whether the netlink family is registered, and the call log.
\<close>

record kmod =
  vm_net_table :: "nat \<Rightarrow> addr list"
  heap :: "addr \<rightharpoonup> caiman_net_ctx"
  family_registered :: bool
  klog :: "kcall list"

text \<open>
  The kernel interface: what each kernel function the module calls returns. \<open>hash_min\<close> is the bucket
  the hashtable macros choose for a key. Results that depend on the moment of the call (an allocation,
  a registration) are fields too, since an environment is given for each operation.
\<close>

record kenv =
  kzalloc :: "addr option"
  hash_min :: "u32 \<Rightarrow> nat"
  dev_get_by_name :: "string \<Rightarrow> netdev option"
  bpf_prog_get_type_path :: "string \<Rightarrow> int + bprog"
  dev_xdp_attach :: "netdev \<Rightarrow> bprog option \<Rightarrow> xdp_flags \<Rightarrow> int"
  nla_get_u32 :: "bytes \<Rightarrow> u32"
  nla_memcpy :: "bytes \<Rightarrow> nat \<Rightarrow> bytes"
  nla_strlcpy :: "bytes \<Rightarrow> nat \<Rightarrow> string"
  genlmsg_new_ok :: bool
  genlmsg_put_ok :: bool
  nla_room :: "reply_attr list \<Rightarrow> reply_attr \<Rightarrow> bool"
  genlmsg_reply :: "reply_attr list \<Rightarrow> int"
  genl_register_family :: int

definition kcall_log :: "kcall \<Rightarrow> kmod \<Rightarrow> kmod" where
  [ctx_defs]: "kcall_log c s = s\<lparr>klog := klog s @ [c]\<rparr>"

definition init_kmod :: kmod where
  "init_kmod = \<lparr>vm_net_table = (\<lambda>_. []), heap = Map.empty, family_registered = False, klog = []\<rparr>"

section \<open>Operations of main.c\<close>

text \<open>
  \<open>hash_add_rcu\<close> chains a node at the head of the bucket of its key; \<open>hash_del_rcu\<close> unlinks a node
  from the bucket that holds it.
\<close>

definition hash_add_rcu :: "kenv \<Rightarrow> addr \<Rightarrow> u32 \<Rightarrow> kmod \<Rightarrow> kmod" where
  [ctx_defs]: "hash_add_rcu env p key s =
     s\<lparr>vm_net_table := (vm_net_table s)(hash_min env key := p # vm_net_table s (hash_min env key))\<rparr>"

definition hash_del_rcu :: "addr \<Rightarrow> kmod \<Rightarrow> kmod" where
  [ctx_defs]: "hash_del_rcu p s = s\<lparr>vm_net_table := (\<lambda>b. remove1 p (vm_net_table s b))\<rparr>"

definition new_ctx :: "u32 \<Rightarrow> bytes \<Rightarrow> netdev \<Rightarrow> caiman_net_ctx" where
  [ctx_defs]: "new_ctx i m dev =
     \<lparr>vm_id = i, ctx_mac = m, uplink = dev, tap_dev = None, xdp_prog = None, xdp_map_fd = 0,
      ctx_rx_packets = 0, ctx_tx_packets = 0, ctx_rx_bytes = 0, ctx_tx_bytes = 0\<rparr>"

definition caiman_net_ctx_alloc ::
  "kenv \<Rightarrow> u32 \<Rightarrow> bytes \<Rightarrow> netdev \<Rightarrow> kmod \<Rightarrow> kmod \<times> (int + addr)" where
  [ctx_defs]: "caiman_net_ctx_alloc env i m dev s =
     (case kzalloc env of
        None \<Rightarrow> (s, Inl (- ENOMEM))
      | Some p \<Rightarrow>
          let s = s\<lparr>heap := (heap s)(p \<mapsto> new_ctx i m dev)\<rparr>;
              s = hash_add_rcu env p i s
          in (s, Inr p))"

text \<open>
  \<open>None\<close> as the result of an operation is a use of freed memory. \<open>caiman_net_ctx_free\<close> unlinks the
  context, drops its program, waits for readers and frees it.
\<close>

definition caiman_net_ctx_free :: "addr option \<Rightarrow> kmod \<Rightarrow> kmod option" where
  [ctx_defs]: "caiman_net_ctx_free q s =
     (case q of
        None \<Rightarrow> Some s
      | Some p \<Rightarrow> do {
          c \<leftarrow> heap s p;
          let s = hash_del_rcu p s;
          let s = (case xdp_prog c of
                     None \<Rightarrow> s
                   | Some g \<Rightarrow> (kcall_log (Prog_put g) s)\<lparr>heap := (heap s)(p \<mapsto> c\<lparr>xdp_prog := None\<rparr>)\<rparr>);
          let s = kcall_log Synchronize_rcu s;
          Some (s\<lparr>heap := (heap s)(p := None)\<rparr>)
        })"

fun find_in_bucket :: "(addr \<rightharpoonup> caiman_net_ctx) \<Rightarrow> u32 \<Rightarrow> addr list \<Rightarrow> addr option option" where
  "find_in_bucket h i [] = Some None"
| "find_in_bucket h i (p # ps) = do {
     c \<leftarrow> h p;
     (if vm_id c = i then Some (Some p) else find_in_bucket h i ps) }"

definition caiman_net_ctx_find :: "kenv \<Rightarrow> u32 \<Rightarrow> kmod \<Rightarrow> addr option option" where
  [ctx_defs]: "caiman_net_ctx_find env i s = find_in_bucket (heap s) i (vm_net_table s (hash_min env i))"

definition caiman_net_kick_tx :: "addr \<Rightarrow> kmod \<Rightarrow> kmod \<times> int" where
  [ctx_defs]: "caiman_net_kick_tx p s = (s, 0)"

section \<open>Well-formedness\<close>

definition prog_refs :: "bprog \<Rightarrow> kcall list \<Rightarrow> int" where
  "prog_refs g log = int (count_list log (Prog_get g)) - int (count_list log (Prog_put g))"

definition dev_refs :: "netdev \<Rightarrow> kcall list \<Rightarrow> int" where
  "dev_refs d log = int (count_list log (Dev_get d)) - int (count_list log (Dev_put d))"

definition holders :: "(addr \<rightharpoonup> caiman_net_ctx) \<Rightarrow> bprog \<Rightarrow> addr set" where
  "holders h g = {p. \<exists>c. h p = Some c \<and> xdp_prog c = Some g}"

text \<open>
  The table and the heap agree: a chained context is allocated and sits in the bucket of its id, an
  allocated context is chained, and no context is chained twice. The references the module holds on a
  program are exactly those of the contexts that point to it, and it holds none on devices.
\<close>

definition table_ok :: "(u32 \<Rightarrow> nat) \<Rightarrow> kmod \<Rightarrow> bool" where
  "table_ok hb s \<longleftrightarrow>
     (\<forall>b. distinct (vm_net_table s b)) \<and>
     (\<forall>b. \<forall>p \<in> set (vm_net_table s b). \<exists>c. heap s p = Some c \<and> hb (vm_id c) = b) \<and>
     (\<forall>p c. heap s p = Some c \<longrightarrow> p \<in> set (vm_net_table s (hb (vm_id c))))"

definition refs_ok :: "kmod \<Rightarrow> bool" where
  "refs_ok s \<longleftrightarrow> finite (dom (heap s)) \<and>
     (\<forall>g. prog_refs g (klog s) = int (card (holders (heap s) g))) \<and> (\<forall>d. dev_refs d (klog s) = 0)"

definition kmod_ok :: "(u32 \<Rightarrow> nat) \<Rightarrow> kmod \<Rightarrow> bool" where
  "kmod_ok hb s \<longleftrightarrow> table_ok hb s \<and> refs_ok s"

text \<open>
  The abstract view: for each VM id the contexts that were added under it, newest first. A lookup
  sees the newest.
\<close>

definition vm_stack :: "(u32 \<Rightarrow> nat) \<Rightarrow> kmod \<Rightarrow> u32 \<Rightarrow> caiman_net_ctx list" where
  "vm_stack hb s i =
     filter (\<lambda>c. vm_id c = i) (map (\<lambda>p. the (heap s p)) (vm_net_table s (hb i)))"

section \<open>Lemmas\<close>

lemma kcall_log_sel [simp]:
  "vm_net_table (kcall_log c s) = vm_net_table s" "heap (kcall_log c s) = heap s"
  "family_registered (kcall_log c s) = family_registered s" "klog (kcall_log c s) = klog s @ [c]"
  by (simp_all add: kcall_log_def)

lemma prog_refs_snoc [simp]:
  "prog_refs g (log @ [c]) = prog_refs g log +
     (if c = Prog_get g then 1 else if c = Prog_put g then -1 else 0)"
  by (simp add: prog_refs_def)

lemma dev_refs_snoc [simp]:
  "dev_refs d (log @ [c]) = dev_refs d log +
     (if c = Dev_get d then 1 else if c = Dev_put d then -1 else 0)"
  by (simp add: dev_refs_def)

lemma finite_holders: "finite (dom h) \<Longrightarrow> finite (holders h g)"
  by (rule finite_subset [of _ "dom h"]) (auto simp: holders_def)

lemma holders_upd:
  "holders (h(p \<mapsto> c)) g = (if xdp_prog c = Some g then insert p (holders h g) else holders h g - {p})"
  by (auto simp: holders_def)

lemma holders_del: "holders (h(p := None)) g = holders h g - {p}"
  by (auto simp: holders_def)

lemma in_holders: "h p = Some c \<Longrightarrow> p \<in> holders h g \<longleftrightarrow> xdp_prog c = Some g"
  by (simp add: holders_def)

lemma notin_holders: "h p = None \<Longrightarrow> p \<notin> holders h g"
  by (simp add: holders_def)

lemma table_okD:
  assumes "table_ok hb s"
  shows "distinct (vm_net_table s b)"
    "p \<in> set (vm_net_table s b) \<Longrightarrow> \<exists>c. heap s p = Some c \<and> hb (vm_id c) = b"
    "heap s p = Some c \<Longrightarrow> p \<in> set (vm_net_table s (hb (vm_id c)))"
  using assms by (auto simp: table_ok_def)

lemma find_in_bucket_eq:
  "\<forall>p \<in> set ps. h p \<noteq> None \<Longrightarrow>
   find_in_bucket h i ps = Some (List.find (\<lambda>p. vm_id (the (h p)) = i) ps)"
  by (induction ps) auto

lemma find_defined:
  assumes "table_ok (hash_min env) s"
  shows "caiman_net_ctx_find env i s =
    Some (List.find (\<lambda>p. vm_id (the (heap s p)) = i) (vm_net_table s (hash_min env i)))"
proof -
  have "\<forall>p \<in> set (vm_net_table s (hash_min env i)). heap s p \<noteq> None"
    using table_okD(2) [OF assms] by fastforce
  then show ?thesis
    by (simp add: caiman_net_ctx_find_def find_in_bucket_eq)
qed

text \<open>A context that is found splits its bucket: nothing before it has the id.\<close>

lemma find_SomeE:
  assumes "table_ok (hash_min env) s" "caiman_net_ctx_find env i s = Some (Some p)"
  obtains c ps qs where "heap s p = Some c" "vm_id c = i" "vm_net_table s (hash_min env i) = ps @ p # qs"
    "\<forall>q \<in> set ps. vm_id (the (heap s q)) \<noteq> i"
proof -
  obtain ps qs where b: "vm_net_table s (hash_min env i) = ps @ p # qs" "vm_id (the (heap s p)) = i"
    "\<forall>q \<in> set ps. vm_id (the (heap s q)) \<noteq> i"
    using find_Some_split [of "\<lambda>p. vm_id (the (heap s p)) = i" "vm_net_table s (hash_min env i)" p]
      assms(2) by (auto simp: find_defined [OF assms(1)])
  then have "p \<in> set (vm_net_table s (hash_min env i))" by simp
  from table_okD(2) [OF assms(1) this] obtain c where "heap s p = Some c" by blast
  with b show thesis by (intro that [of c ps qs]) auto
qed

lemma vm_stack_map:
  "vm_stack hb s i = map (\<lambda>p. the (heap s p))
     (filter (\<lambda>p. vm_id (the (heap s p)) = i) (vm_net_table s (hb i)))"
  by (simp add: vm_stack_def filter_map comp_def)

lemma find_None_iff_stack:
  "table_ok (hash_min env) s \<Longrightarrow> caiman_net_ctx_find env i s = Some None \<longleftrightarrow> vm_stack (hash_min env) s i = []"
  by (simp add: find_defined find_None_iff2 vm_stack_map filter_empty_conv) (auto simp: find_None_iff)

lemma vm_stack_found:
  assumes "heap s p = Some c" "vm_id c = i" "vm_net_table s (hb i) = ps @ p # qs"
    "\<forall>q \<in> set ps. vm_id (the (heap s q)) \<noteq> i"
  shows "vm_stack hb s i = c # map (\<lambda>p. the (heap s p)) (filter (\<lambda>p. vm_id (the (heap s p)) = i) qs)"
  using assms by (simp add: vm_stack_map filter_none)

text \<open>
  What an allocator promises: the block it returns is not one that is in use.
\<close>

definition fresh_alloc :: "kenv \<Rightarrow> kmod \<Rightarrow> bool" where
  "fresh_alloc env s \<longleftrightarrow> (\<forall>p. kzalloc env = Some p \<longrightarrow> heap s p = None)"

lemma ctx_alloc_failed: "kzalloc env = None \<Longrightarrow> caiman_net_ctx_alloc env i m dev s = (s, Inl (- ENOMEM))"
  by (simp add: caiman_net_ctx_alloc_def)

lemma ctx_alloc_eq:
  "kzalloc env = Some p \<Longrightarrow> caiman_net_ctx_alloc env i m dev s =
     (s\<lparr>heap := (heap s)(p \<mapsto> new_ctx i m dev),
        vm_net_table := (vm_net_table s)(hash_min env i := p # vm_net_table s (hash_min env i))\<rparr>, Inr p)"
  by (simp add: caiman_net_ctx_alloc_def hash_add_rcu_def)

lemma new_ctx_sel [simp]: "vm_id (new_ctx i m dev) = i" "xdp_prog (new_ctx i m dev) = None"
  "uplink (new_ctx i m dev) = dev" "ctx_mac (new_ctx i m dev) = m"
  by (simp_all add: new_ctx_def)

lemma unallocated_not_chained: "table_ok hb s \<Longrightarrow> heap s p = None \<Longrightarrow> p \<notin> set (vm_net_table s b)"
  using table_okD(2) by fastforce

lemma table_ok_add:
  assumes ok: "table_ok hb s" and p: "heap s p = None"
  shows "table_ok hb (s\<lparr>heap := (heap s)(p \<mapsto> c),
     vm_net_table := (vm_net_table s)(hb (vm_id c) := p # vm_net_table s (hb (vm_id c)))\<rparr>)"
  using ok p unallocated_not_chained [OF ok p] unfolding table_ok_def
  by (auto simp: fun_upd_def) metis+

lemma refs_ok_add:
  "refs_ok s \<Longrightarrow> heap s p = None \<Longrightarrow> xdp_prog c = None \<Longrightarrow>
   refs_ok (s\<lparr>heap := (heap s)(p \<mapsto> c), vm_net_table := t\<rparr>)"
  by (simp add: refs_ok_def holders_upd notin_holders)

lemma vm_stack_add:
  assumes ok: "table_ok hb s" and p: "heap s p = None"
  shows "vm_stack hb (s\<lparr>heap := (heap s)(p \<mapsto> c),
     vm_net_table := (vm_net_table s)(hb (vm_id c) := p # vm_net_table s (hb (vm_id c)))\<rparr>) i =
     (if i = vm_id c then [c] else []) @ vm_stack hb s i"
proof -
  have "x \<in> set (vm_net_table s b) \<Longrightarrow> (x = p) = False" for x b
    using unallocated_not_chained [OF ok p, of b] by auto
  then show ?thesis by (auto simp: vm_stack_def cong: map_cong)
qed

text \<open>Releasing a context, and writing to one in place.\<close>

lemma ctx_free_eq:
  "heap s p = Some c \<Longrightarrow> caiman_net_ctx_free (Some p) s = Some
     (s\<lparr>heap := (heap s)(p := None), vm_net_table := (\<lambda>b. remove1 p (vm_net_table s b)),
        klog := klog s @ (case xdp_prog c of None \<Rightarrow> [] | Some g \<Rightarrow> [Prog_put g]) @ [Synchronize_rcu]\<rparr>)"
  by (simp add: caiman_net_ctx_free_def hash_del_rcu_def kcall_log_def Let_def split: option.split)

lemma table_ok_del:
  assumes "table_ok hb s"
  shows "table_ok hb (s\<lparr>heap := (heap s)(p := None), vm_net_table := (\<lambda>b. remove1 p (vm_net_table s b)), klog := l\<rparr>)"
  using assms unfolding table_ok_def by (auto simp: set_remove1_eq in_set_remove1)

lemma refs_ok_del:
  assumes ok: "refs_ok s" and c: "heap s p = Some c"
  shows "refs_ok (s\<lparr>heap := (heap s)(p := None), vm_net_table := t,
     klog := klog s @ (case xdp_prog c of None \<Rightarrow> [] | Some g \<Rightarrow> [Prog_put g]) @ [Synchronize_rcu]\<rparr>)"
proof -
  have fin: "finite (holders (heap s) g)" for g using ok by (simp add: refs_ok_def finite_holders)
  have pos: "card (holders (heap s) g) > 0" if "xdp_prog c = Some g" for g
    using fin [of g] in_holders [of "heap s" p c g] c that by (auto simp: card_gt_0_iff)
  have eq: "prog_refs g (log @ l @ [Synchronize_rcu]) = prog_refs g (log @ l)"
    "dev_refs d (log @ l @ [Synchronize_rcu]) = dev_refs d (log @ l)" for g d log l
    by (simp_all add: prog_refs_def dev_refs_def)
  show ?thesis
    using ok c fin in_holders [of "heap s", OF c]
    by (auto simp: refs_ok_def holders_del card_Diff_singleton_if eq split: option.split dest: pos)
qed

lemma table_ok_upd:
  assumes "table_ok hb s" "heap s p = Some c" "vm_id c' = vm_id c"
  shows "table_ok hb (s\<lparr>heap := (heap s)(p \<mapsto> c'), klog := l\<rparr>)"
  using assms unfolding table_ok_def by (auto simp: fun_upd_def) force+

lemma vm_stack_upd_other:
  assumes "table_ok hb s" "heap s p = Some c" "vm_id c' = vm_id c" "i \<noteq> vm_id c"
  shows "vm_stack hb (s\<lparr>heap := (heap s)(p \<mapsto> c'), klog := l\<rparr>) i = vm_stack hb s i"
proof -
  have "filter (\<lambda>q. vm_id (the (((heap s)(p \<mapsto> c')) q)) = i) qs = filter (\<lambda>q. vm_id (the (heap s q)) = i) qs"
    for qs using assms by (intro filter_cong) auto
  then show ?thesis using assms by (auto simp: vm_stack_map)
qed

text \<open>Deleting a context takes exactly that context out of the stack of its id.\<close>

lemma vm_stack_del:
  assumes "table_ok hb s"
  shows "vm_stack hb (s\<lparr>heap := (heap s)(p := None), vm_net_table := (\<lambda>b. remove1 p (vm_net_table s b)), klog := l\<rparr>) i
       = map (\<lambda>q. the (heap s q)) (filter (\<lambda>q. vm_id (the (heap s q)) = i \<and> q \<noteq> p) (vm_net_table s (hb i)))"
proof -
  let ?h = "(heap s)(p := None)" and ?t = "vm_net_table s (hb i)"
  have "filter (\<lambda>q. vm_id (the (?h q)) = i) (removeAll p ?t) =
      filter (\<lambda>q. vm_id (the (heap s q)) = i \<and> q \<noteq> p) ?t"
    by (rule filter_removeAll) simp
  moreover have "map (\<lambda>q. the (?h q)) (filter (\<lambda>q. P q \<and> q \<noteq> p) ?t) =
      map (\<lambda>q. the (heap s q)) (filter (\<lambda>q. P q \<and> q \<noteq> p) ?t)" for P
    by (rule map_cong) auto
  ultimately show ?thesis
    using table_okD(1) [OF assms] by (simp add: vm_stack_map distinct_remove1_removeAll del: fun_upd_apply)
qed

lemma vm_stack_del_other:
  assumes "table_ok hb s" "heap s p = Some c" "i \<noteq> vm_id c"
  shows "vm_stack hb (s\<lparr>heap := (heap s)(p := None), vm_net_table := (\<lambda>b. remove1 p (vm_net_table s b)), klog := l\<rparr>) i
       = vm_stack hb s i"
proof -
  have "filter (\<lambda>q. vm_id (the (heap s q)) = i \<and> q \<noteq> p) qs = filter (\<lambda>q. vm_id (the (heap s q)) = i) qs" for qs
    using assms(2,3) by (intro filter_cong) auto
  then show ?thesis
    by (subst vm_stack_del [OF assms(1)]) (simp add: vm_stack_map)
qed

lemma vm_stack_del_found:
  assumes ok: "table_ok hb s" and found: "heap s p = Some c" "vm_net_table s (hb (vm_id c)) = ps @ p # qs"
    "\<forall>q \<in> set ps. vm_id (the (heap s q)) \<noteq> vm_id c"
  shows "vm_stack hb (s\<lparr>heap := (heap s)(p := None), vm_net_table := (\<lambda>b. remove1 p (vm_net_table s b)), klog := l\<rparr>) (vm_id c)
       = tl (vm_stack hb s (vm_id c))"
proof -
  have "p \<notin> set qs" using table_okD(1) [OF ok, of "hb (vm_id c)"] found by simp
  then have "filter (\<lambda>q. vm_id (the (heap s q)) = vm_id c \<and> q \<noteq> p) qs =
      filter (\<lambda>q. vm_id (the (heap s q)) = vm_id c) qs"
    by (intro filter_cong) auto
  then show ?thesis
    using found by (subst vm_stack_del [OF ok]) (simp add: vm_stack_map filter_none)
qed

lemma vm_stack_upd_found:
  assumes ok: "table_ok hb s" and found: "heap s p = Some c" "vm_net_table s (hb (vm_id c)) = ps @ p # qs"
    "\<forall>q \<in> set ps. vm_id (the (heap s q)) \<noteq> vm_id c" and c': "vm_id c' = vm_id c"
  shows "vm_stack hb (s\<lparr>heap := (heap s)(p \<mapsto> c'), klog := l\<rparr>) (vm_id c) = c' # tl (vm_stack hb s (vm_id c))"
proof -
  have p: "p \<notin> set qs" "p \<notin> set ps" using table_okD(1) [OF ok, of "hb (vm_id c)"] found by simp_all
  then have "filter (\<lambda>q. vm_id (the (((heap s)(p \<mapsto> c')) q)) = vm_id c) qs =
      filter (\<lambda>q. vm_id (the (heap s q)) = vm_id c) qs"
    by (intro filter_cong) auto
  moreover have "\<forall>q \<in> set ps. vm_id (the (((heap s)(p \<mapsto> c')) q)) \<noteq> vm_id c"
    using p found(3) by auto
  moreover have "map (\<lambda>q. the (((heap s)(p \<mapsto> c')) q)) (filter P qs) = map (\<lambda>q. the (heap s q)) (filter P qs)" for P
    using p by (intro map_cong) auto
  ultimately show ?thesis
    using found c' by (simp add: vm_stack_map filter_none del: fun_upd_apply) simp
qed

end
