(* ===== verification/Xdp_Loader.thy ===== *)
theory Xdp_Loader
  imports Net_Ctx
begin

text \<open>
  \<open>kernel/caiman_net/xdp_loader.c\<close>: attaching the pinned XDP program of a VM to its uplink, with the
  fall back from native to generic mode, and detaching it.
\<close>

section \<open>Operations\<close>

definition caiman_net_xdp_init :: int where
  [ctx_defs]: "caiman_net_xdp_init = 0"

definition caiman_net_xdp_exit :: "kmod \<Rightarrow> kmod" where
  [ctx_defs]: "caiman_net_xdp_exit s = s"

definition caiman_net_xdp_attach :: "kenv \<Rightarrow> addr \<Rightarrow> string \<Rightarrow> kmod \<Rightarrow> (kmod \<times> int) option" where
  [ctx_defs]: "caiman_net_xdp_attach env p bpf_obj_path s = do {
     c \<leftarrow> heap s p;
     (case bpf_prog_get_type_path env bpf_obj_path of
        Inl e \<Rightarrow> Some (s, e)
      | Inr prog \<Rightarrow>
          let s = kcall_log (Prog_get prog) s;
              err = dev_xdp_attach env (uplink c) (Some prog) XDP_FLAGS_DRV_MODE;
              s = kcall_log (Dev_xdp_attach (uplink c) (Some prog) XDP_FLAGS_DRV_MODE err) s;
              (s, err) =
                (if err = - EOPNOTSUPP then
                   let err = dev_xdp_attach env (uplink c) (Some prog) XDP_FLAGS_SKB_MODE
                   in (kcall_log (Dev_xdp_attach (uplink c) (Some prog) XDP_FLAGS_SKB_MODE err) s, err)
                 else (s, err))
          in if err \<noteq> 0 then Some (kcall_log (Prog_put prog) s, err)
             else
               let s = (case xdp_prog c of None \<Rightarrow> s | Some old \<Rightarrow> kcall_log (Prog_put old) s)
               in Some (s\<lparr>heap := (heap s)(p \<mapsto> c\<lparr>xdp_prog := Some prog\<rparr>)\<rparr>, 0)) }"

definition caiman_net_xdp_detach :: "kenv \<Rightarrow> addr option \<Rightarrow> kmod \<Rightarrow> kmod option" where
  [ctx_defs]: "caiman_net_xdp_detach env q s =
     (case q of
        None \<Rightarrow> Some s
      | Some p \<Rightarrow> do {
          c \<leftarrow> heap s p;
          (case xdp_prog c of
             None \<Rightarrow> Some s
           | Some g \<Rightarrow>
               let s = kcall_log (Dev_xdp_attach (uplink c) None XDP_FLAGS_NONE
                         (dev_xdp_attach env (uplink c) None XDP_FLAGS_NONE)) s;
                   s = kcall_log (Prog_put g) s
               in Some (s\<lparr>heap := (heap s)(p \<mapsto> c\<lparr>xdp_prog := None\<rparr>)\<rparr>))
        })"

section \<open>Lemmas\<close>

text \<open>
  Every outcome of an attach has one of two shapes: an error with the memory as it was and the
  references balanced, or success with the new program in place of the old.
\<close>

lemma xdp_attach_cases:
  assumes "caiman_net_xdp_attach env p path s = Some (s', r)" "heap s p = Some c"
  obtains (failed) l where "s' = s\<lparr>klog := klog s @ l\<rparr>"
      "\<And>g. prog_refs g (klog s @ l) = prog_refs g (klog s)" "\<And>d. dev_refs d (klog s @ l) = dev_refs d (klog s)"
      "bpf_prog_get_type_path env path = Inl r \<or> r \<noteq> 0"
    | (attached) l prog where "s' = s\<lparr>heap := (heap s)(p \<mapsto> c\<lparr>xdp_prog := Some prog\<rparr>), klog := klog s @ l\<rparr>"
      "bpf_prog_get_type_path env path = Inr prog" "r = 0"
      "\<And>g. prog_refs g (klog s @ l) = prog_refs g (klog s) + (if g = prog then 1 else 0)
         - (if xdp_prog c = Some g then 1 else 0)" "\<And>d. dev_refs d (klog s @ l) = dev_refs d (klog s)"
proof (cases "bpf_prog_get_type_path env path")
  case (Inl e)
  with assms failed [of "[]"] show thesis by (simp add: caiman_net_xdp_attach_def)
next
  case (Inr prog)
  let ?D = "Dev_xdp_attach (uplink c) (Some prog)"
  define e1 where "e1 = dev_xdp_attach env (uplink c) (Some prog) XDP_FLAGS_DRV_MODE"
  define e2 where "e2 = dev_xdp_attach env (uplink c) (Some prog) XDP_FLAGS_SKB_MODE"
  define tries where "tries = (if e1 = - EOPNOTSUPP then [?D XDP_FLAGS_DRV_MODE e1, ?D XDP_FLAGS_SKB_MODE e2]
     else [?D XDP_FLAGS_DRV_MODE e1])"
  define err where "err = (if e1 = - EOPNOTSUPP then e2 else e1)"
  have run: "caiman_net_xdp_attach env p path s =
    (if err \<noteq> 0 then Some (s\<lparr>klog := klog s @ [Prog_get prog] @ tries @ [Prog_put prog]\<rparr>, err)
     else Some (s\<lparr>heap := (heap s)(p \<mapsto> c\<lparr>xdp_prog := Some prog\<rparr>),
       klog := klog s @ [Prog_get prog] @ tries @
         (case xdp_prog c of None \<Rightarrow> [] | Some old \<Rightarrow> [Prog_put old])\<rparr>, 0))"
    using assms(2) Inr
    by (auto simp: caiman_net_xdp_attach_def kcall_log_def Let_def tries_def err_def e1_def e2_def
        split: option.split)
  have tr: "count_list tries (Prog_get g) = 0" "count_list tries (Prog_put g) = 0"
    "count_list tries (Dev_get d) = 0" "count_list tries (Dev_put d) = 0" for g d
    by (simp_all add: tries_def)
  show thesis
  proof (cases "err = 0")
    case True
    then show thesis
      using attached [of "[Prog_get prog] @ tries @ (case xdp_prog c of None \<Rightarrow> [] | Some old \<Rightarrow> [Prog_put old])" prog]
        assms(1) Inr tr
      by (auto simp: run prog_refs_def dev_refs_def split: option.splits)
  next
    case False
    then show thesis
      using failed [of "[Prog_get prog] @ tries @ [Prog_put prog]"] assms(1) tr
      by (auto simp: run prog_refs_def dev_refs_def)
  qed
qed

lemma xdp_attach_defined: "heap s p = Some c \<Longrightarrow> \<exists>s' r. caiman_net_xdp_attach env p path s = Some (s', r)"
  by (auto simp: caiman_net_xdp_attach_def Let_def split: sum.split)

lemma xdp_detach_eq:
  assumes "heap s p = Some c"
  shows "caiman_net_xdp_detach env (Some p) s =
    (case xdp_prog c of
       None \<Rightarrow> Some s
     | Some g \<Rightarrow> Some (s\<lparr>heap := (heap s)(p \<mapsto> c\<lparr>xdp_prog := None\<rparr>),
         klog := klog s @ [Dev_xdp_attach (uplink c) None XDP_FLAGS_NONE
            (dev_xdp_attach env (uplink c) None XDP_FLAGS_NONE), Prog_put g]\<rparr>))"
  using assms by (simp add: caiman_net_xdp_detach_def kcall_log_def Let_def split: option.split)

text \<open>Reference counts when the program field of one context changes.\<close>

lemma refs_ok_set_prog:
  assumes ok: "refs_ok s" and c: "heap s p = Some c"
    and l: "\<And>g. prog_refs g (klog s @ l) = prog_refs g (klog s) + (if q = Some g then 1 else 0)
         - (if xdp_prog c = Some g then 1 else 0)" "\<And>d. dev_refs d (klog s @ l) = dev_refs d (klog s)"
  shows "refs_ok (s\<lparr>heap := (heap s)(p \<mapsto> c\<lparr>xdp_prog := q\<rparr>), klog := klog s @ l\<rparr>)"
proof -
  have fin: "finite (holders (heap s) g)" for g using ok by (simp add: refs_ok_def finite_holders)
  have mem: "p \<in> holders (heap s) g \<longleftrightarrow> xdp_prog c = Some g" for g
    using c by (rule in_holders)
  have "int (card (holders ((heap s)(p \<mapsto> c\<lparr>xdp_prog := q\<rparr>)) g)) =
      int (card (holders (heap s) g)) + (if q = Some g then 1 else 0) - (if xdp_prog c = Some g then 1 else 0)" for g
  proof -
    have "card (holders (heap s) g) > 0" if "xdp_prog c = Some g"
      using that mem [of g] fin [of g] by (auto simp: card_gt_0_iff)
    then show ?thesis
      using fin [of g] mem [of g] by (auto simp: holders_upd card_insert_if card_Diff_singleton_if insert_absorb)
  qed
  with ok l show ?thesis by (simp add: refs_ok_def)
qed

lemma kmod_ok_log:
  "kmod_ok hb s \<Longrightarrow> (\<And>g. prog_refs g (klog s @ l) = prog_refs g (klog s)) \<Longrightarrow>
   (\<And>d. dev_refs d (klog s @ l) = dev_refs d (klog s)) \<Longrightarrow> kmod_ok hb (s\<lparr>klog := klog s @ l\<rparr>)"
  by (simp add: kmod_ok_def table_ok_def refs_ok_def)

lemma kmod_ok_attach:
  assumes ok: "kmod_ok hb s" and c: "heap s p = Some c"
    and run: "caiman_net_xdp_attach env p path s = Some (s', r)"
  shows "kmod_ok hb s'"
  using run c
proof (cases rule: xdp_attach_cases)
  case (failed l)
  with ok show ?thesis by (simp add: kmod_ok_log)
next
  case (attached l prog)
  have "refs_ok s'"
    unfolding attached(1) using ok c attached by (intro refs_ok_set_prog) (auto simp: kmod_ok_def)
  moreover have "table_ok hb s'"
    unfolding attached(1) using ok c by (intro table_ok_upd [where c = c]) (auto simp: kmod_ok_def)
  ultimately show ?thesis by (simp add: kmod_ok_def)
qed

lemma kmod_ok_detach:
  assumes ok: "kmod_ok hb s" and c: "heap s p = Some c"
    and run: "caiman_net_xdp_detach env (Some p) s = Some s'"
  shows "kmod_ok hb s'"
proof (cases "xdp_prog c")
  case None
  with ok run show ?thesis by (simp add: xdp_detach_eq [of s, OF c])
next
  case (Some g)
  let ?l = "[Dev_xdp_attach (uplink c) None XDP_FLAGS_NONE
     (dev_xdp_attach env (uplink c) None XDP_FLAGS_NONE), Prog_put g]"
  have s': "s' = s\<lparr>heap := (heap s)(p \<mapsto> c\<lparr>xdp_prog := None\<rparr>), klog := klog s @ ?l\<rparr>"
    using run Some by (simp add: xdp_detach_eq [of s, OF c])
  have "refs_ok s'"
    unfolding s' using ok c Some
    by (intro refs_ok_set_prog) (auto simp: kmod_ok_def prog_refs_def dev_refs_def)
  moreover have "table_ok hb s'"
    unfolding s' using ok c by (intro table_ok_upd [where c = c]) (auto simp: kmod_ok_def)
  ultimately show ?thesis by (simp add: kmod_ok_def)
qed

end
