(* ===== verification/Netlink.thy ===== *)
theory Netlink
  imports Xdp_Loader
begin

text \<open>
  \<open>kernel/caiman_net/netlink.c\<close> and the module entry points of \<open>main.c\<close>: the handlers of the generic
  netlink family, its operations table, and the loading and unloading of the module. A handler gets
  the attributes of the message as raw payloads.
\<close>

section \<open>Command handlers\<close>

type_synonym genl_attrs = "caiman_net_attr \<Rightarrow> bytes option"

abbreviation (input) IFNAMSIZ :: nat where "IFNAMSIZ \<equiv> 16"
abbreviation (input) PATH_MAX :: nat where "PATH_MAX \<equiv> 4096"

definition cmd_vm_add :: "kenv \<Rightarrow> genl_attrs \<Rightarrow> kmod \<Rightarrow> (kmod \<times> int) option" where
  [ctx_defs]: "cmd_vm_add env attrs s =
     (case (attrs KVM_NET_ATTR_VM_ID, attrs KVM_NET_ATTR_MAC, attrs KVM_NET_ATTR_UPLINK) of
        (Some a_id, Some a_mac, Some a_up) \<Rightarrow>
          let i = nla_get_u32 env a_id;
              mac = nla_memcpy env a_mac 6;
              ifname = nla_strlcpy env a_up IFNAMSIZ
          in (case dev_get_by_name env ifname of
                None \<Rightarrow> Some (s, - ENODEV)
              | Some dev \<Rightarrow>
                  let s = kcall_log (Dev_get dev) s;
                      (s, ctx) = caiman_net_ctx_alloc env i mac dev s;
                      s = kcall_log (Dev_put dev) s
                  in Some (s, case ctx of Inl e \<Rightarrow> e | Inr _ \<Rightarrow> 0))
      | _ \<Rightarrow> Some (s, - EINVAL))"

definition cmd_vm_del :: "kenv \<Rightarrow> genl_attrs \<Rightarrow> kmod \<Rightarrow> (kmod \<times> int) option" where
  [ctx_defs]: "cmd_vm_del env attrs s =
     (case attrs KVM_NET_ATTR_VM_ID of
        None \<Rightarrow> Some (s, - EINVAL)
      | Some a_id \<Rightarrow> do {
          q \<leftarrow> caiman_net_ctx_find env (nla_get_u32 env a_id) s;
          (case q of
             None \<Rightarrow> Some (s, - ENOENT)
           | Some p \<Rightarrow> do {
               s1 \<leftarrow> caiman_net_xdp_detach env (Some p) s;
               s2 \<leftarrow> caiman_net_ctx_free (Some p) s1;
               Some (s2, 0) }) })"

text \<open>
  A put appends its attribute when the message has room and otherwise returns an error, which the
  handler ignores. Without room \<open>nla_nest_start\<close> returns null, which \<open>nla_nest_end\<close> would write through.
\<close>

definition nla_put :: "kenv \<Rightarrow> reply_attr \<Rightarrow> reply_attr list \<Rightarrow> reply_attr list" where
  [ctx_defs]: "nla_put env a msg = (if nla_room env msg a then msg @ [a] else msg)"

definition cmd_vm_stats :: "kenv \<Rightarrow> genl_attrs \<Rightarrow> kmod \<Rightarrow> (kmod \<times> int) option" where
  [ctx_defs]: "cmd_vm_stats env attrs s =
     (case attrs KVM_NET_ATTR_VM_ID of
        None \<Rightarrow> Some (s, - EINVAL)
      | Some a_id \<Rightarrow> do {
          let i = nla_get_u32 env a_id;
          q \<leftarrow> caiman_net_ctx_find env i s;
          (case q of
             None \<Rightarrow> Some (s, - ENOENT)
           | Some p \<Rightarrow>
               if \<not> genlmsg_new_ok env then Some (s, - ENOMEM)
               else if \<not> genlmsg_put_ok env then Some (s, - EMSGSIZE)
               else do {
                 c \<leftarrow> heap s p;
                 let msg = nla_put env (Put_u32 KVM_NET_ATTR_VM_ID i) [];
                 (if \<not> nla_room env msg (Nest_start KVM_NET_ATTR_STATS) then None
                  else
                    let msg = msg @ [Nest_start KVM_NET_ATTR_STATS];
                        msg = nla_put env (Put_u64 1 (ctx_rx_packets c)) msg;
                        msg = nla_put env (Put_u64 2 (ctx_tx_packets c)) msg;
                        msg = nla_put env (Put_u64 3 (ctx_rx_bytes c)) msg;
                        msg = nla_put env (Put_u64 4 (ctx_tx_bytes c)) msg;
                        msg = msg @ [Nest_end]
                    in Some (kcall_log (Genl_reply msg) s, genlmsg_reply env msg)) }) })"

definition cmd_xdp_attach :: "kenv \<Rightarrow> genl_attrs \<Rightarrow> kmod \<Rightarrow> (kmod \<times> int) option" where
  [ctx_defs]: "cmd_xdp_attach env attrs s =
     (case (attrs KVM_NET_ATTR_VM_ID, attrs KVM_NET_ATTR_BPF_OBJ) of
        (Some a_id, Some a_obj) \<Rightarrow> do {
          let i = nla_get_u32 env a_id;
          let obj_path = nla_strlcpy env a_obj PATH_MAX;
          q \<leftarrow> caiman_net_ctx_find env i s;
          (case q of
             None \<Rightarrow> Some (s, - ENOENT)
           | Some p \<Rightarrow> caiman_net_xdp_attach env p obj_path s) }
      | _ \<Rightarrow> Some (s, - EINVAL))"

definition cmd_xdp_detach :: "kenv \<Rightarrow> genl_attrs \<Rightarrow> kmod \<Rightarrow> (kmod \<times> int) option" where
  [ctx_defs]: "cmd_xdp_detach env attrs s =
     (case attrs KVM_NET_ATTR_VM_ID of
        None \<Rightarrow> Some (s, - EINVAL)
      | Some a_id \<Rightarrow> do {
          q \<leftarrow> caiman_net_ctx_find env (nla_get_u32 env a_id) s;
          (case q of
             None \<Rightarrow> Some (s, - ENOENT)
           | Some p \<Rightarrow> do {
               s1 \<leftarrow> caiman_net_xdp_detach env (Some p) s;
               Some (s1, 0) }) })"

section \<open>Operations table and module entry points\<close>

text \<open>A handler together with whether its table entry carries \<open>GENL_ADMIN_PERM\<close>.\<close>

record genl_op =
  op_cmd :: caiman_net_cmd
  doit :: "kenv \<Rightarrow> genl_attrs \<Rightarrow> kmod \<Rightarrow> (kmod \<times> int) option"
  admin_perm :: bool

definition caiman_net_ops :: "genl_op list" where
  "caiman_net_ops =
     [\<lparr>op_cmd = KVM_NET_CMD_VM_ADD, doit = cmd_vm_add, admin_perm = True\<rparr>,
      \<lparr>op_cmd = KVM_NET_CMD_VM_DEL, doit = cmd_vm_del, admin_perm = True\<rparr>,
      \<lparr>op_cmd = KVM_NET_CMD_VM_STATS, doit = cmd_vm_stats, admin_perm = False\<rparr>,
      \<lparr>op_cmd = KVM_NET_CMD_XDP_ATTACH, doit = cmd_xdp_attach, admin_perm = True\<rparr>,
      \<lparr>op_cmd = KVM_NET_CMD_XDP_DETACH, doit = cmd_xdp_detach, admin_perm = True\<rparr>]"

definition caiman_net_netlink_init :: "kenv \<Rightarrow> kmod \<Rightarrow> kmod \<times> int" where
  [ctx_defs]: "caiman_net_netlink_init env s =
     (s\<lparr>family_registered := (if genl_register_family env = 0 then True else family_registered s)\<rparr>,
      genl_register_family env)"

definition caiman_net_netlink_exit :: "kmod \<Rightarrow> kmod" where
  [ctx_defs]: "caiman_net_netlink_exit s = s\<lparr>family_registered := False\<rparr>"

definition caiman_net_init :: "kenv \<Rightarrow> kmod \<Rightarrow> kmod \<times> int" where
  [ctx_defs]: "caiman_net_init env s =
     (let (s, err) = caiman_net_netlink_init env s in
      if err \<noteq> 0 then (s, err)
      else let err = caiman_net_xdp_init in
           if err \<noteq> 0 then (caiman_net_netlink_exit s, err)
           else (s, 0))"

definition caiman_net_exit :: "kmod \<Rightarrow> kmod" where
  [ctx_defs]: "caiman_net_exit s = caiman_net_netlink_exit (caiman_net_xdp_exit s)"

section \<open>The module as a state machine\<close>

text \<open>
  A step loads the freshly inserted module, delivers one message to the handler of a table entry
  while the family is registered, or unloads the module. The environment may differ from step to step; the bucket function may not,
  the allocator returns unused blocks, and a reply has room for its attributes.
\<close>

inductive kmod_step :: "(u32 \<Rightarrow> nat) \<Rightarrow> kmod \<Rightarrow> kmod \<Rightarrow> bool" for hb where
  load: "kmod_step hb init_kmod (fst (caiman_net_init env init_kmod))"
| message: "family_registered s \<Longrightarrow> hash_min env = hb \<Longrightarrow> fresh_alloc env s \<Longrightarrow>
     (\<And>msg a. nla_room env msg a) \<Longrightarrow> op \<in> set caiman_net_ops \<Longrightarrow>
     doit op env attrs s = Some (s', r) \<Longrightarrow> kmod_step hb s s'"
| unload: "family_registered s \<Longrightarrow> kmod_step hb s (caiman_net_exit s)"

inductive kmod_reachable :: "(u32 \<Rightarrow> nat) \<Rightarrow> kmod \<Rightarrow> bool" for hb where
  start: "kmod_reachable hb init_kmod"
| step: "kmod_reachable hb s \<Longrightarrow> kmod_step hb s s' \<Longrightarrow> kmod_reachable hb s'"

inductive_cases kmod_stepE: "kmod_step hb s s'"

section \<open>Specification\<close>

text \<open>
  The control plane as its clients see it: each VM id has a stack of contexts, newest on top, and
  every command acts on the top of the stack of its id. The answer is the handler's return value.
\<close>

type_synonym vm_registry = "u32 \<Rightarrow> caiman_net_ctx list"

definition attach_result :: "kenv \<Rightarrow> netdev \<Rightarrow> string \<Rightarrow> int + bprog" where
  "attach_result env dev path =
     (case bpf_prog_get_type_path env path of
        Inl e \<Rightarrow> Inl e
      | Inr g \<Rightarrow>
          let drv = dev_xdp_attach env dev (Some g) XDP_FLAGS_DRV_MODE;
              err = (if drv = - EOPNOTSUPP then dev_xdp_attach env dev (Some g) XDP_FLAGS_SKB_MODE else drv)
          in if err = 0 then Inr g else Inl err)"

definition stats_msg :: "u32 \<Rightarrow> caiman_net_ctx \<Rightarrow> reply_attr list" where
  "stats_msg i c =
     [Put_u32 KVM_NET_ATTR_VM_ID i, Nest_start KVM_NET_ATTR_STATS, Put_u64 1 (ctx_rx_packets c),
      Put_u64 2 (ctx_tx_packets c), Put_u64 3 (ctx_rx_bytes c), Put_u64 4 (ctx_tx_bytes c), Nest_end]"

fun registry_spec ::
  "kenv \<times> caiman_net_cmd \<times> genl_attrs \<Rightarrow> vm_registry \<Rightarrow> vm_registry \<times> int" where
  "registry_spec (env, cmd, attrs) v =
     (case map_option (nla_get_u32 env) (attrs KVM_NET_ATTR_VM_ID) of
        None \<Rightarrow> (v, - EINVAL)
      | Some i \<Rightarrow>
          (case cmd of
             KVM_NET_CMD_VM_ADD \<Rightarrow>
               (case (attrs KVM_NET_ATTR_MAC, attrs KVM_NET_ATTR_UPLINK) of
                  (Some m, Some up) \<Rightarrow>
                    (case dev_get_by_name env (nla_strlcpy env up IFNAMSIZ) of
                       None \<Rightarrow> (v, - ENODEV)
                     | Some dev \<Rightarrow>
                         if kzalloc env = None then (v, - ENOMEM)
                         else (v(i := new_ctx i (nla_memcpy env m 6) dev # v i), 0))
                | _ \<Rightarrow> (v, - EINVAL))
           | KVM_NET_CMD_VM_DEL \<Rightarrow> (if v i = [] then (v, - ENOENT) else (v(i := tl (v i)), 0))
           | KVM_NET_CMD_VM_STATS \<Rightarrow>
               (if v i = [] then (v, - ENOENT)
                else if \<not> genlmsg_new_ok env then (v, - ENOMEM)
                else if \<not> genlmsg_put_ok env then (v, - EMSGSIZE)
                else (v, genlmsg_reply env (stats_msg i (hd (v i)))))
           | KVM_NET_CMD_XDP_ATTACH \<Rightarrow>
               (case attrs KVM_NET_ATTR_BPF_OBJ of
                  None \<Rightarrow> (v, - EINVAL)
                | Some obj \<Rightarrow>
                    if v i = [] then (v, - ENOENT)
                    else (case attach_result env (uplink (hd (v i))) (nla_strlcpy env obj PATH_MAX) of
                            Inl e \<Rightarrow> (v, e)
                          | Inr g \<Rightarrow> (v(i := (hd (v i))\<lparr>xdp_prog := Some g\<rparr> # tl (v i)), 0)))
           | KVM_NET_CMD_XDP_DETACH \<Rightarrow>
               (if v i = [] then (v, - ENOENT)
                else (v(i := (hd (v i))\<lparr>xdp_prog := None\<rparr> # tl (v i)), 0))
           | KVM_NET_CMD_UNSPEC \<Rightarrow> (v, - EOPNOTSUPP)))"

text \<open>The handler the operations table has for a command.\<close>

definition handle ::
  "kenv \<times> caiman_net_cmd \<times> genl_attrs \<Rightarrow> kmod \<Rightarrow> (kmod \<times> int) option" where
  "handle = (\<lambda>(env, cmd, attrs) s.
     case List.find (\<lambda>op. op_cmd op = cmd) caiman_net_ops of
       None \<Rightarrow> None
     | Some op \<Rightarrow> doit op env attrs s)"

text \<open>What the kernel promises a handler: buckets by one function, fresh blocks, room in replies.\<close>

definition kernel_ok :: "(u32 \<Rightarrow> nat) \<Rightarrow> kenv \<times> caiman_net_cmd \<times> genl_attrs \<Rightarrow> kmod \<Rightarrow> bool" where
  "kernel_ok hb = (\<lambda>(env, cmd, attrs) s.
     hash_min env = hb \<and> fresh_alloc env s \<and> (\<forall>msg a. nla_room env msg a) \<and> cmd \<noteq> KVM_NET_CMD_UNSPEC)"

text \<open>A concrete kernel for the witnesses.\<close>

definition sample_kenv :: kenv where
  "sample_kenv = \<lparr>kzalloc = Some 4096, hash_min = (\<lambda>i. unat i mod 256),
     dev_get_by_name = (\<lambda>n. if n = ''eth0'' then Some 2 else None),
     bpf_prog_get_type_path = (\<lambda>_. Inr 77), dev_xdp_attach = (\<lambda>_ _ fl. if fl = XDP_FLAGS_DRV_MODE then - EOPNOTSUPP else 0),
     nla_get_u32 = (\<lambda>bs. of_nat (length bs)), nla_memcpy = (\<lambda>bs n. take n bs),
     nla_strlcpy = (\<lambda>bs n. ''eth0''), genlmsg_new_ok = True, genlmsg_put_ok = True,
     nla_room = (\<lambda>_ _. True), genlmsg_reply = (\<lambda>_. 0), genl_register_family = 0\<rparr>"

section \<open>Lemmas\<close>

lemma ops_handle:
  "op \<in> set caiman_net_ops \<Longrightarrow> doit op env attrs s = handle (env, op_cmd op, attrs) s \<and> op_cmd op \<noteq> KVM_NET_CMD_UNSPEC"
  by (auto simp: caiman_net_ops_def handle_def)

lemma handle_simps:
  "handle (env, KVM_NET_CMD_VM_ADD, attrs) s = cmd_vm_add env attrs s"
  "handle (env, KVM_NET_CMD_VM_DEL, attrs) s = cmd_vm_del env attrs s"
  "handle (env, KVM_NET_CMD_VM_STATS, attrs) s = cmd_vm_stats env attrs s"
  "handle (env, KVM_NET_CMD_XDP_ATTACH, attrs) s = cmd_xdp_attach env attrs s"
  "handle (env, KVM_NET_CMD_XDP_DETACH, attrs) s = cmd_xdp_detach env attrs s"
  by (simp_all add: handle_def caiman_net_ops_def)

lemma kmod_ok_irrel:
  "vm_net_table s' = vm_net_table s \<Longrightarrow> heap s' = heap s \<Longrightarrow>
   (\<And>g. prog_refs g (klog s') = prog_refs g (klog s)) \<Longrightarrow> (\<And>d. dev_refs d (klog s') = dev_refs d (klog s)) \<Longrightarrow>
   kmod_ok hb s' \<longleftrightarrow> kmod_ok hb s"
  by (simp add: kmod_ok_def table_ok_def refs_ok_def)

lemma vm_stack_klog [simp]: "vm_stack hb (s\<lparr>klog := l\<rparr>) = vm_stack hb s"
  by (simp add: vm_stack_def fun_eq_iff)

lemma find_stack:
  assumes "table_ok (hash_min env) s"
  obtains (none) "caiman_net_ctx_find env i s = Some None" "vm_stack (hash_min env) s i = []"
    | (found) p c ps qs where "caiman_net_ctx_find env i s = Some (Some p)" "heap s p = Some c" "vm_id c = i"
      "vm_net_table s (hash_min env i) = ps @ p # qs" "\<forall>q \<in> set ps. vm_id (the (heap s q)) \<noteq> i"
      "vm_stack (hash_min env) s i \<noteq> []" "hd (vm_stack (hash_min env) s i) = c"
proof (cases "List.find (\<lambda>p. vm_id (the (heap s p)) = i) (vm_net_table s (hash_min env i))")
  case None
  then have "caiman_net_ctx_find env i s = Some None" by (simp add: find_defined [OF assms])
  with none find_None_iff_stack [OF assms] show thesis by blast
next
  case (Some p)
  then have f: "caiman_net_ctx_find env i s = Some (Some p)" by (simp add: find_defined [OF assms])
  obtain c ps qs where c: "heap s p = Some c" "vm_id c = i"
    "vm_net_table s (hash_min env i) = ps @ p # qs" "\<forall>q \<in> set ps. vm_id (the (heap s q)) \<noteq> i"
    by (rule find_SomeE [OF assms f])
  from vm_stack_found [of s p c i "hash_min env" ps qs, OF c] found [OF f c] show thesis by simp
qed

lemma fun_upd_pointwise: "f i = x \<Longrightarrow> (\<And>j. j \<noteq> i \<Longrightarrow> f j = g j) \<Longrightarrow> f = g(i := x)"
  by auto

lemma cmd_vm_add_sim:
  assumes ok: "kmod_ok hb s" and k: "kernel_ok hb (env, KVM_NET_CMD_VM_ADD, attrs) s"
  shows "\<exists>s'. cmd_vm_add env attrs s = Some (s', snd (registry_spec (env, KVM_NET_CMD_VM_ADD, attrs) (vm_stack hb s)))
     \<and> kmod_ok hb s' \<and> vm_stack hb s' = fst (registry_spec (env, KVM_NET_CMD_VM_ADD, attrs) (vm_stack hb s))"
proof -
  have tab: "table_ok hb s" and refs: "refs_ok s" using ok by (simp_all add: kmod_ok_def)
  have hb: "hash_min env = hb" using k by (simp add: kernel_ok_def)
  have two: "kmod_ok hb (t\<lparr>klog := klog t @ [Dev_get d, Dev_put d]\<rparr>)" if "kmod_ok hb t" for t d
    using that by (intro kmod_ok_log) (simp_all add: prog_refs_def dev_refs_def)
  show ?thesis
  proof (cases "attrs KVM_NET_ATTR_VM_ID = None \<or> attrs KVM_NET_ATTR_MAC = None \<or> attrs KVM_NET_ATTR_UPLINK = None")
    case True
    with ok show ?thesis by (auto simp: cmd_vm_add_def split: option.split)
  next
    case False
    then obtain a m up where at: "attrs KVM_NET_ATTR_VM_ID = Some a" "attrs KVM_NET_ATTR_MAC = Some m"
      "attrs KVM_NET_ATTR_UPLINK = Some up" by auto
    show ?thesis
    proof (cases "dev_get_by_name env (nla_strlcpy env up IFNAMSIZ)")
      case None
      with ok at show ?thesis by (simp add: cmd_vm_add_def)
    next
      case (Some dev)
      let ?c = "new_ctx (nla_get_u32 env a) (nla_memcpy env m 6) dev"
      show ?thesis
      proof (cases "kzalloc env")
        case None
        with at Some have "cmd_vm_add env attrs s = Some (s\<lparr>klog := klog s @ [Dev_get dev, Dev_put dev]\<rparr>, - ENOMEM)"
          by (simp add: cmd_vm_add_def ctx_alloc_failed kcall_log_def)
        with two [OF ok] at Some None show ?thesis by simp
      next
        case alloc: (Some p)
        then have p: "heap s p = None" using k by (simp add: kernel_ok_def fresh_alloc_def)
        define t where "t = s\<lparr>heap := (heap s)(p \<mapsto> ?c),
          vm_net_table := (vm_net_table s)(hb (vm_id ?c) := p # vm_net_table s (hb (vm_id ?c)))\<rparr>"
        have run: "cmd_vm_add env attrs s = Some (t\<lparr>klog := klog t @ [Dev_get dev, Dev_put dev]\<rparr>, 0)"
          using at Some alloc hb by (simp add: cmd_vm_add_def ctx_alloc_eq kcall_log_def Let_def t_def)
        have "kmod_ok hb t"
          using table_ok_add [OF tab p, of ?c] refs_ok_add [OF refs p, of ?c] by (simp add: kmod_ok_def t_def)
        moreover have "vm_stack hb t = (vm_stack hb s)(vm_id ?c := ?c # vm_stack hb s (vm_id ?c))"
          using vm_stack_add [OF tab p, of ?c] by (auto simp: fun_eq_iff t_def simp del: new_ctx_sel)
        ultimately show ?thesis
          using two [of t dev] run at Some alloc by simp
      qed
    qed
  qed
qed

text \<open>
  The other handlers start with the lookup of the context: without one they answer \<open>-ENOENT\<close>, with one
  they work on the top of the stack.
\<close>

lemma vm_stack_set_found:
  assumes ok: "table_ok hb s" and found: "heap s p = Some c" "vm_id c = i" "vm_net_table s (hb i) = ps @ p # qs"
    "\<forall>q \<in> set ps. vm_id (the (heap s q)) \<noteq> i" and c': "vm_id c' = vm_id c"
  shows "vm_stack hb (s\<lparr>heap := (heap s)(p \<mapsto> c'), klog := l\<rparr>) = (vm_stack hb s)(i := c' # tl (vm_stack hb s i))"
  using vm_stack_upd_found [OF ok, of p c ps qs c' l] vm_stack_upd_other [OF ok, of p c c' _ l] assms
  by (intro fun_upd_pointwise) auto

lemma vm_stack_pop_found:
  assumes ok: "table_ok hb s" and found: "heap s p = Some c" "vm_id c = i" "vm_net_table s (hb i) = ps @ p # qs"
    "\<forall>q \<in> set ps. vm_id (the (heap s q)) \<noteq> i"
  shows "vm_stack hb (s\<lparr>heap := (heap s)(p := None), vm_net_table := (\<lambda>b. remove1 p (vm_net_table s b)), klog := l\<rparr>)
     = (vm_stack hb s)(i := tl (vm_stack hb s i))"
  using vm_stack_del_found [OF ok, of p c ps qs l] vm_stack_del_other [OF ok, of p c _ l] assms
  by (intro fun_upd_pointwise) auto

lemma hd_tl_same: "v i \<noteq> [] \<Longrightarrow> (hd (v i))\<lparr>xdp_prog := xdp_prog (hd (v i))\<rparr> # tl (v i) = v i"
  by simp

lemma cmd_vm_stats_sim:
  assumes ok: "kmod_ok hb s" and k: "kernel_ok hb (env, KVM_NET_CMD_VM_STATS, attrs) s"
  shows "\<exists>s'. cmd_vm_stats env attrs s = Some (s', snd (registry_spec (env, KVM_NET_CMD_VM_STATS, attrs) (vm_stack hb s)))
     \<and> kmod_ok hb s' \<and> vm_stack hb s' = fst (registry_spec (env, KVM_NET_CMD_VM_STATS, attrs) (vm_stack hb s))
     \<and> heap s' = heap s \<and> vm_net_table s' = vm_net_table s"
proof (cases "attrs KVM_NET_ATTR_VM_ID")
  case None
  with ok show ?thesis by (simp add: cmd_vm_stats_def)
next
  case (Some a)
  have tab: "table_ok (hash_min env) s" and hb: "hash_min env = hb" and room: "\<And>msg a. nla_room env msg a"
    using ok k by (simp_all add: kmod_ok_def kernel_ok_def)
  from tab show ?thesis
  proof (cases rule: find_stack [where i = "nla_get_u32 env a"])
    case none
    with ok Some hb show ?thesis by (simp add: cmd_vm_stats_def)
  next
    case (found p c ps qs)
    have "kmod_ok hb (s\<lparr>klog := klog s @ [Genl_reply msg]\<rparr>)" for msg
      using ok by (intro kmod_ok_log) simp_all
    with found Some hb room ok show ?thesis
      by (simp add: cmd_vm_stats_def nla_put_def kcall_log_def stats_msg_def Let_def)
  qed
qed

lemma cmd_xdp_detach_sim:
  assumes ok: "kmod_ok hb s" and k: "kernel_ok hb (env, KVM_NET_CMD_XDP_DETACH, attrs) s"
  shows "\<exists>s'. cmd_xdp_detach env attrs s = Some (s', snd (registry_spec (env, KVM_NET_CMD_XDP_DETACH, attrs) (vm_stack hb s)))
     \<and> kmod_ok hb s' \<and> vm_stack hb s' = fst (registry_spec (env, KVM_NET_CMD_XDP_DETACH, attrs) (vm_stack hb s))"
proof (cases "attrs KVM_NET_ATTR_VM_ID")
  case None
  with ok show ?thesis by (simp add: cmd_xdp_detach_def)
next
  case (Some a)
  have tab: "table_ok (hash_min env) s" and hb: "hash_min env = hb"
    using ok k by (simp_all add: kmod_ok_def kernel_ok_def)
  from tab show ?thesis
  proof (cases rule: find_stack [where i = "nla_get_u32 env a"])
    case none
    with ok Some hb show ?thesis by (simp add: cmd_xdp_detach_def)
  next
    case (found p c ps qs)
    obtain s' where s': "caiman_net_xdp_detach env (Some p) s = Some s'"
      using xdp_detach_eq [of s p c env] found(2) by (cases "xdp_prog c") auto
    have "vm_stack hb s' = (vm_stack hb s)(nla_get_u32 env a :=
        c\<lparr>xdp_prog := None\<rparr> # tl (vm_stack hb s (nla_get_u32 env a)))"
    proof (cases "xdp_prog c")
      case None
      then have "c\<lparr>xdp_prog := None\<rparr> = c" by simp
      moreover have "s' = s" using None s' xdp_detach_eq [of s p c env] found(2) by simp
      ultimately show ?thesis
        using found(6,7) hb by (simp add: fun_eq_iff) (metis list.collapse)
    next
      case (Some g)
      with s' xdp_detach_eq [of s p c env] found(2) show ?thesis
        using vm_stack_set_found [OF tab [unfolded hb], of p c "nla_get_u32 env a" ps qs "c\<lparr>xdp_prog := None\<rparr>"] found hb
        by auto
    qed
    with found Some hb s' kmod_ok_detach [of hb s p c, OF ok found(2) s'] show ?thesis
      by (simp add: cmd_xdp_detach_def)
  qed
qed

lemma cmd_xdp_attach_sim:
  assumes ok: "kmod_ok hb s" and k: "kernel_ok hb (env, KVM_NET_CMD_XDP_ATTACH, attrs) s"
  shows "\<exists>s'. cmd_xdp_attach env attrs s = Some (s', snd (registry_spec (env, KVM_NET_CMD_XDP_ATTACH, attrs) (vm_stack hb s)))
     \<and> kmod_ok hb s' \<and> vm_stack hb s' = fst (registry_spec (env, KVM_NET_CMD_XDP_ATTACH, attrs) (vm_stack hb s))"
proof (cases "attrs KVM_NET_ATTR_VM_ID = None \<or> attrs KVM_NET_ATTR_BPF_OBJ = None")
  case True
  with ok show ?thesis by (auto simp: cmd_xdp_attach_def split: option.split)
next
  case False
  then obtain a obj where at: "attrs KVM_NET_ATTR_VM_ID = Some a" "attrs KVM_NET_ATTR_BPF_OBJ = Some obj"
    by auto
  have tab: "table_ok (hash_min env) s" and hb: "hash_min env = hb"
    using ok k by (simp_all add: kmod_ok_def kernel_ok_def)
  from tab show ?thesis
  proof (cases rule: find_stack [where i = "nla_get_u32 env a"])
    case none
    with ok at hb show ?thesis by (simp add: cmd_xdp_attach_def)
  next
    case (found p c ps qs)
    let ?path = "nla_strlcpy env obj PATH_MAX" and ?i = "nla_get_u32 env a"
    obtain s' r where run: "caiman_net_xdp_attach env p ?path s = Some (s', r)"
      using xdp_attach_defined [of s, OF found(2)] by blast
    have "(vm_stack hb s', r) = (case attach_result env (uplink c) ?path of
        Inl e \<Rightarrow> (vm_stack hb s, e)
      | Inr g \<Rightarrow> ((vm_stack hb s)(?i := c\<lparr>xdp_prog := Some g\<rparr> # tl (vm_stack hb s ?i)), 0))"
    proof (cases "attach_result env (uplink c) ?path")
      case (Inl e)
      then have "vm_stack hb s' = vm_stack hb s \<and> r = e"
        using run found(2) by (auto simp: caiman_net_xdp_attach_def attach_result_def kcall_log_def Let_def
            split: sum.splits if_splits)
      with Inl show ?thesis by auto
    next
      case (Inr g)
      then have "s' = s\<lparr>heap := (heap s)(p \<mapsto> c\<lparr>xdp_prog := Some g\<rparr>), klog := klog s'\<rparr> \<and> r = 0"
        using run found(2) by (auto simp: caiman_net_xdp_attach_def attach_result_def kcall_log_def Let_def
            split: sum.splits if_splits option.splits)
      with Inr vm_stack_set_found [OF tab [unfolded hb], of p c ?i ps qs "c\<lparr>xdp_prog := Some g\<rparr>" "klog s'"] found hb
      show ?thesis by simp
    qed
    with found at hb run kmod_ok_attach [of hb s p c, OF ok found(2) run] show ?thesis
      by (auto simp: cmd_xdp_attach_def split: sum.splits)
  qed
qed

lemma cmd_vm_del_sim:
  assumes ok: "kmod_ok hb s" and k: "kernel_ok hb (env, KVM_NET_CMD_VM_DEL, attrs) s"
  shows "\<exists>s'. cmd_vm_del env attrs s = Some (s', snd (registry_spec (env, KVM_NET_CMD_VM_DEL, attrs) (vm_stack hb s)))
     \<and> kmod_ok hb s' \<and> vm_stack hb s' = fst (registry_spec (env, KVM_NET_CMD_VM_DEL, attrs) (vm_stack hb s))"
proof (cases "attrs KVM_NET_ATTR_VM_ID")
  case None
  with ok show ?thesis by (simp add: cmd_vm_del_def)
next
  case (Some a)
  have tab: "table_ok (hash_min env) s" and hb: "hash_min env = hb"
    using ok k by (simp_all add: kmod_ok_def kernel_ok_def)
  from tab show ?thesis
  proof (cases rule: find_stack [where i = "nla_get_u32 env a"])
    case none
    with ok Some hb show ?thesis by (simp add: cmd_vm_del_def)
  next
    case (found p c ps qs)
    let ?i = "nla_get_u32 env a"
    let ?c = "c\<lparr>xdp_prog := None\<rparr>"
    obtain s1 where s1: "caiman_net_xdp_detach env (Some p) s = Some s1"
      using xdp_detach_eq [of s p c env] found(2) by (cases "xdp_prog c") auto
    have h1: "\<exists>l. s1 = s\<lparr>heap := (heap s)(p \<mapsto> ?c), klog := l\<rparr>"
    proof (cases "xdp_prog c")
      case None
      then have "s1 = s" "(heap s)(p \<mapsto> ?c) = heap s"
        using s1 xdp_detach_eq [of s p c env] found(2) by (auto simp: fun_eq_iff)
      then show ?thesis by (intro exI [of _ "klog s"]) simp
    next
      case (Some g)
      with s1 xdp_detach_eq [of s p c env] found(2) show ?thesis by auto
    qed
    then have p1: "heap s1 p = Some ?c" by auto
    have ok1: "kmod_ok hb s1" by (rule kmod_ok_detach [OF ok found(2) s1])
    let ?l = "klog s1 @ [Synchronize_rcu]"
    let ?s2 = "s1\<lparr>heap := (heap s1)(p := None), vm_net_table := (\<lambda>b. remove1 p (vm_net_table s1 b)), klog := ?l\<rparr>"
    have s2: "caiman_net_ctx_free (Some p) s1 = Some ?s2"
      using ctx_free_eq [of s1, OF p1] by simp
    have "?s2 = s\<lparr>heap := (heap s)(p := None), vm_net_table := (\<lambda>b. remove1 p (vm_net_table s b)), klog := ?l\<rparr>"
      using h1 by auto
    then have stack: "vm_stack hb ?s2 = (vm_stack hb s)(?i := tl (vm_stack hb s ?i))"
      using vm_stack_pop_found [OF tab [unfolded hb], of p c ?i ps qs ?l] found hb by simp
    have "kmod_ok hb ?s2"
      using ok1 table_ok_del [of hb s1, where p = p] refs_ok_del [of s1 p ?c] p1
      by (simp add: kmod_ok_def)
    with stack found Some hb s1 s2 show ?thesis
      by (simp add: cmd_vm_del_def)
  qed
qed

lemma handle_sim:
  assumes "kmod_ok hb s" "kernel_ok hb (env, cmd, attrs) s"
  shows "\<exists>s'. handle (env, cmd, attrs) s = Some (s', snd (registry_spec (env, cmd, attrs) (vm_stack hb s)))
     \<and> kmod_ok hb s' \<and> vm_stack hb s' = fst (registry_spec (env, cmd, attrs) (vm_stack hb s))"
proof (cases cmd)
  case KVM_NET_CMD_UNSPEC
  with assms(2) show ?thesis by (simp add: kernel_ok_def)
next
  case KVM_NET_CMD_VM_ADD
  show ?thesis unfolding KVM_NET_CMD_VM_ADD handle_simps
    using assms KVM_NET_CMD_VM_ADD by (intro cmd_vm_add_sim) auto
next
  case KVM_NET_CMD_VM_DEL
  show ?thesis unfolding KVM_NET_CMD_VM_DEL handle_simps
    using assms KVM_NET_CMD_VM_DEL by (intro cmd_vm_del_sim) auto
next
  case KVM_NET_CMD_VM_STATS
  show ?thesis unfolding KVM_NET_CMD_VM_STATS handle_simps
    using assms KVM_NET_CMD_VM_STATS cmd_vm_stats_sim by blast
next
  case KVM_NET_CMD_XDP_ATTACH
  show ?thesis unfolding KVM_NET_CMD_XDP_ATTACH handle_simps
    using assms KVM_NET_CMD_XDP_ATTACH by (intro cmd_xdp_attach_sim) auto
next
  case KVM_NET_CMD_XDP_DETACH
  show ?thesis unfolding KVM_NET_CMD_XDP_DETACH handle_simps
    using assms KVM_NET_CMD_XDP_DETACH by (intro cmd_xdp_detach_sim) auto
qed

text \<open>The handlers implement the registry.\<close>

interpretation registry: simulation "kmod_ok hb" "kernel_ok hb" "vm_stack hb" handle registry_spec
  for hb
proof
  fix s :: kmod and c :: "kenv \<times> caiman_net_cmd \<times> genl_attrs"
  obtain env cmd attrs where c: "c = (env, cmd, attrs)" by (cases c)
  assume "kmod_ok hb s" "kernel_ok hb c s"
  with handle_sim show "\<exists>s'. handle c s = Some (s', snd (registry_spec c (vm_stack hb s)))
      \<and> kmod_ok hb s' \<and> vm_stack hb s' = fst (registry_spec c (vm_stack hb s))"
    unfolding c by blast
qed

lemma kmod_ok_init: "kmod_ok hb init_kmod"
  by (simp add: kmod_ok_def table_ok_def refs_ok_def init_kmod_def holders_def prog_refs_def dev_refs_def)

lemma vm_stack_init: "vm_stack hb init_kmod = (\<lambda>_. [])"
  by (simp add: vm_stack_def init_kmod_def fun_eq_iff)

lemma init_exit_sel:
  "vm_net_table (fst (caiman_net_init env s)) = vm_net_table s" "heap (fst (caiman_net_init env s)) = heap s"
  "klog (fst (caiman_net_init env s)) = klog s"
  "vm_net_table (caiman_net_exit s) = vm_net_table s" "heap (caiman_net_exit s) = heap s"
  "klog (caiman_net_exit s) = klog s"
  by (simp_all add: ctx_defs)

lemma kmod_step_ok: "kmod_step hb s s' \<Longrightarrow> kmod_ok hb s \<Longrightarrow> kmod_ok hb s'"
proof (induction rule: kmod_step.induct)
  case (load env)
  then show ?case by (elim kmod_ok_irrel [THEN iffD2, rotated 4]) (simp_all add: init_exit_sel)
next
  case (message s env op attrs s' r)
  then show ?case
    using handle_sim [of hb s env "op_cmd op" attrs] ops_handle [of op env attrs s]
    by (auto simp: kernel_ok_def)
next
  case (unload s)
  then show ?case by (elim kmod_ok_irrel [THEN iffD2, rotated 4]) (simp_all add: init_exit_sel)
qed

lemma reachable_ok: "kmod_reachable hb s \<Longrightarrow> kmod_ok hb s"
  by (induction rule: kmod_reachable.induct) (auto intro: kmod_ok_init kmod_step_ok)

text \<open>Error paths, handler by handler.\<close>

definition unchanged :: "kmod \<Rightarrow> kmod \<Rightarrow> bool" where
  "unchanged s s' \<longleftrightarrow> vm_net_table s' = vm_net_table s \<and> heap s' = heap s
     \<and> (\<forall>g. prog_refs g (klog s') = prog_refs g (klog s)) \<and> (\<forall>d. dev_refs d (klog s') = dev_refs d (klog s))"

lemma cmd_vm_add_failed: "cmd_vm_add env attrs s = Some (s', r) \<Longrightarrow> r \<noteq> 0 \<Longrightarrow> unchanged s s'"
  by (auto simp: cmd_vm_add_def caiman_net_ctx_alloc_def kcall_log_def Let_def unchanged_def prog_refs_def
      dev_refs_def split: option.splits)

lemma cmd_vm_del_failed: "cmd_vm_del env attrs s = Some (s', r) \<Longrightarrow> r \<noteq> 0 \<Longrightarrow> unchanged s s'"
  by (auto simp: cmd_vm_del_def unchanged_def split: option.splits bind_splits)

lemma cmd_xdp_detach_failed: "cmd_xdp_detach env attrs s = Some (s', r) \<Longrightarrow> r \<noteq> 0 \<Longrightarrow> unchanged s s'"
  by (auto simp: cmd_xdp_detach_def unchanged_def split: option.splits bind_splits)

lemma xdp_attach_failed:
  assumes "caiman_net_xdp_attach env p path s = Some (s', r)" "r \<noteq> 0"
  shows "unchanged s s'"
proof -
  obtain c where "heap s p = Some c" using assms(1) by (auto simp: caiman_net_xdp_attach_def split: bind_splits)
  with assms(1) show ?thesis
    by (cases rule: xdp_attach_cases) (use assms(2) in \<open>auto simp: unchanged_def\<close>)
qed

lemma cmd_xdp_attach_failed: "cmd_xdp_attach env attrs s = Some (s', r) \<Longrightarrow> r \<noteq> 0 \<Longrightarrow> unchanged s s'"
  by (auto simp: cmd_xdp_attach_def Let_def dest: xdp_attach_failed split: option.splits bind_splits)
    (simp_all add: unchanged_def)

lemma cmd_vm_stats_unchanged: "cmd_vm_stats env attrs s = Some (s', r) \<Longrightarrow> unchanged s s'"
  by (auto simp: cmd_vm_stats_def Let_def unchanged_def split: option.splits bind_splits if_splits)

text \<open>A reachable state with a context: the module loaded and one machine added.\<close>

lemma sample_add_reachable:
  "\<exists>s. kmod_reachable (\<lambda>i. unat i mod 256) s \<and> heap s 4096 = Some (new_ctx 4 [1, 2, 3, 4] 2)"
proof -
  let ?hb = "\<lambda>i :: u32. unat i mod 256" and ?s = "fst (caiman_net_init sample_kenv init_kmod)"
  let ?s' = "fst (the (cmd_vm_add sample_kenv (\<lambda>_. Some [1, 2, 3, 4]) ?s))"
  have "kmod_reachable ?hb ?s"
    by (rule kmod_reachable.step [OF kmod_reachable.start kmod_step.load])
  moreover have "kmod_step ?hb ?s ?s'"
    by (rule kmod_step.message [where env = sample_kenv and attrs = "\<lambda>_. Some [1, 2, 3, 4]" and r = 0
          and op = "\<lparr>op_cmd = KVM_NET_CMD_VM_ADD, doit = cmd_vm_add, admin_perm = True\<rparr>"])
      (simp_all add: ctx_defs init_kmod_def sample_kenv_def fresh_alloc_def caiman_net_ops_def)
  ultimately have "kmod_reachable ?hb ?s'" by (rule kmod_reachable.step)
  moreover have "heap ?s' 4096 = Some (new_ctx 4 [1, 2, 3, 4] 2)"
    by (simp add: ctx_defs init_kmod_def sample_kenv_def)
  ultimately show ?thesis by blast
qed

section \<open>Properties\<close>

text \<open>
  C4. Memory and reference safety of the module: in every state reachable by loading the module and
  delivering messages to its handlers, the hash table chains exactly the allocated contexts, each once
  and in the bucket of its id, the module holds on every BPF program exactly one reference per context
  that points to it, and it holds no references on devices.
\<close>

theorem kmod_reachable_ok:
  assumes "kmod_reachable hb s"
  shows "table_ok hb s \<and> finite (dom (heap s))
     \<and> (\<forall>g. prog_refs g (klog s) = int (card (holders (heap s) g))) \<and> (\<forall>d. dev_refs d (klog s) = 0)"
  using reachable_ok [OF assms] by (simp add: kmod_ok_def refs_ok_def)

theorem kmod_reachable_ok_witness:
  "\<exists>s. heap s 4096 = Some (new_ctx 4 [1, 2, 3, 4] 2) \<and> table_ok (\<lambda>i. unat i mod 256) s \<and> dev_refs 2 (klog s) = 0"
proof -
  obtain s where s: "kmod_reachable (\<lambda>i. unat i mod 256) s" "heap s 4096 = Some (new_ctx 4 [1, 2, 3, 4] 2)"
    using sample_add_reachable by blast
  from kmod_reachable_ok [OF s(1)] s(2) show ?thesis by blast
qed

text \<open>
  C3. The handlers implement a registry of per-VM stacks: from a consistent state every sequence of
  commands runs without touching freed memory, returns exactly the codes the registry specification
  returns (missing attributes, unknown devices and VMs, failed allocations, the errors of the XDP
  attach with its fall back to generic mode), and leaves the registry in the specified state.
\<close>

theorem handlers_refine_registry:
  assumes "kmod_ok hb s" "run_pre (kernel_ok hb) handle cs s"
  shows "\<exists>s'. run_impl handle cs s = Some (s', snd (run_spec registry_spec cs (vm_stack hb s)))
     \<and> kmod_ok hb s' \<and> vm_stack hb s' = fst (run_spec registry_spec cs (vm_stack hb s))"
  using assms by (rule registry.run_refines)

theorem handlers_refine_registry_witness:
  "\<exists>s'. run_impl handle
      [(sample_kenv, KVM_NET_CMD_VM_ADD, \<lambda>_. Some [1, 2, 3, 4]),
       (sample_kenv\<lparr>kzalloc := None\<rparr>, KVM_NET_CMD_XDP_ATTACH, \<lambda>_. Some [1, 2, 3, 4])]
      init_kmod = Some (s', [0, 0])
    \<and> vm_stack (\<lambda>i. unat i mod 256) s' 4 = [(new_ctx 4 [1, 2, 3, 4] 2)\<lparr>xdp_prog := Some 77\<rparr>]"
proof -
  let ?hb = "\<lambda>i :: u32. unat i mod 256"
  let ?cs = "[(sample_kenv, KVM_NET_CMD_VM_ADD, \<lambda>_. Some [1, 2, 3, 4]),
     (sample_kenv\<lparr>kzalloc := None\<rparr>, KVM_NET_CMD_XDP_ATTACH, \<lambda>_. Some [1, 2, 3, 4])]"
  have "run_pre (kernel_ok ?hb) handle ?cs init_kmod"
    by (simp add: kernel_ok_def sample_kenv_def fresh_alloc_def init_kmod_def split: option.split prod.split)
  from handlers_refine_registry [OF kmod_ok_init this] show ?thesis
    by (auto simp: vm_stack_init sample_kenv_def attach_result_def)
qed

text \<open>
  C9. Failed commands change nothing: whenever a handler returns an error code, the table and every
  context are as before and the references on programs and devices are balanced.
\<close>

theorem failed_command_no_effect:
  assumes "handle (env, cmd, attrs) s = Some (s', r)" "r \<noteq> 0"
  shows "vm_net_table s' = vm_net_table s \<and> heap s' = heap s
     \<and> (\<forall>g. prog_refs g (klog s') = prog_refs g (klog s)) \<and> (\<forall>d. dev_refs d (klog s') = dev_refs d (klog s))"
proof -
  have "unchanged s s'"
    using assms
    by (cases cmd) (auto simp: handle_simps dest: cmd_vm_add_failed cmd_vm_del_failed cmd_xdp_attach_failed
        cmd_xdp_detach_failed cmd_vm_stats_unchanged, simp add: handle_def caiman_net_ops_def)
  then show ?thesis by (simp add: unchanged_def)
qed

theorem failed_command_no_effect_witness:
  "\<exists>s'. handle (sample_kenv, KVM_NET_CMD_VM_DEL, \<lambda>_. Some [1, 2, 3, 4]) init_kmod = Some (s', - ENOENT)
     \<and> heap s' = heap init_kmod"
proof -
  have "handle (sample_kenv, KVM_NET_CMD_VM_DEL, \<lambda>_. Some [1, 2, 3, 4]) init_kmod = Some (init_kmod, - ENOENT)"
    by (simp add: handle_simps cmd_vm_del_def caiman_net_ctx_find_def init_kmod_def)
  from this failed_command_no_effect [OF this] show ?thesis by simp
qed

text \<open>
  Only the commands that need administrator rights write: the handlers of the operations table
  without \<open>GENL_ADMIN_PERM\<close> leave the table and every context unchanged, and take no references.
\<close>

theorem unprivileged_commands_read_only:
  assumes "op \<in> set caiman_net_ops" "\<not> admin_perm op" "doit op env attrs s = Some (s', r)"
  shows "vm_net_table s' = vm_net_table s \<and> heap s' = heap s
     \<and> (\<forall>g. prog_refs g (klog s') = prog_refs g (klog s)) \<and> (\<forall>d. dev_refs d (klog s') = dev_refs d (klog s))"
proof -
  have "doit op = cmd_vm_stats" using assms(1,2) by (auto simp: caiman_net_ops_def)
  with assms(3) have "unchanged s s'" by (simp add: cmd_vm_stats_unchanged)
  then show ?thesis by (simp add: unchanged_def)
qed

theorem unprivileged_commands_read_only_witness:
  "heap (fst (the (cmd_vm_stats sample_kenv (\<lambda>_. Some [1]) init_kmod))) = heap init_kmod"
proof -
  let ?op = "\<lparr>op_cmd = KVM_NET_CMD_VM_STATS, doit = cmd_vm_stats, admin_perm = False\<rparr>"
  have run: "doit ?op sample_kenv (\<lambda>_. Some [1]) init_kmod = Some (init_kmod, - ENOENT)"
    by (simp add: cmd_vm_stats_def caiman_net_ctx_find_def init_kmod_def)
  have "?op \<in> set caiman_net_ops" by (simp add: caiman_net_ops_def)
  from unprivileged_commands_read_only [OF this _ run] run show ?thesis by simp
qed

end
