(* ===== verification/Des_Tables.thy ===== *)
theory Des_Tables
  imports Prelude
begin

text \<open>
  The tables of \<open>src/musl-1.2.5/src/crypt/crypt_des.c\<close>, and the tables of the Data Encryption Standard (FIPS
  46-3) from which they were generated. A table of the code is indexed by a chunk of three, four or six bits of
  a value and gives the bits of the permuted value that the chunk contributes.

  Shown here: every entry of every table of the code is the one the standard determines.
\<close>

section \<open>The tables of the code\<close>

definition key_shifts :: "nat list" where
  "key_shifts = [1, 1, 2, 2, 2, 2, 2, 2, 1, 2, 2, 2, 2, 2, 2, 1]"

definition psbox :: "u32 list list" where
  "psbox = [
     [0x00808200, 0x00000000, 0x00008000, 0x00808202, 0x00808002, 0x00008202, 0x00000002, 0x00008000,
      0x00000200, 0x00808200, 0x00808202, 0x00000200, 0x00800202, 0x00808002, 0x00800000, 0x00000002,
      0x00000202, 0x00800200, 0x00800200, 0x00008200, 0x00008200, 0x00808000, 0x00808000, 0x00800202,
      0x00008002, 0x00800002, 0x00800002, 0x00008002, 0x00000000, 0x00000202, 0x00008202, 0x00800000,
      0x00008000, 0x00808202, 0x00000002, 0x00808000, 0x00808200, 0x00800000, 0x00800000, 0x00000200,
      0x00808002, 0x00008000, 0x00008200, 0x00800002, 0x00000200, 0x00000002, 0x00800202, 0x00008202,
      0x00808202, 0x00008002, 0x00808000, 0x00800202, 0x00800002, 0x00000202, 0x00008202, 0x00808200,
      0x00000202, 0x00800200, 0x00800200, 0x00000000, 0x00008002, 0x00008200, 0x00000000, 0x00808002],
     [0x40084010, 0x40004000, 0x00004000, 0x00084010, 0x00080000, 0x00000010, 0x40080010, 0x40004010,
      0x40000010, 0x40084010, 0x40084000, 0x40000000, 0x40004000, 0x00080000, 0x00000010, 0x40080010,
      0x00084000, 0x00080010, 0x40004010, 0x00000000, 0x40000000, 0x00004000, 0x00084010, 0x40080000,
      0x00080010, 0x40000010, 0x00000000, 0x00084000, 0x00004010, 0x40084000, 0x40080000, 0x00004010,
      0x00000000, 0x00084010, 0x40080010, 0x00080000, 0x40004010, 0x40080000, 0x40084000, 0x00004000,
      0x40080000, 0x40004000, 0x00000010, 0x40084010, 0x00084010, 0x00000010, 0x00004000, 0x40000000,
      0x00004010, 0x40084000, 0x00080000, 0x40000010, 0x00080010, 0x40004010, 0x40000010, 0x00080010,
      0x00084000, 0x00000000, 0x40004000, 0x00004010, 0x40000000, 0x40080010, 0x40084010, 0x00084000],
     [0x00000104, 0x04010100, 0x00000000, 0x04010004, 0x04000100, 0x00000000, 0x00010104, 0x04000100,
      0x00010004, 0x04000004, 0x04000004, 0x00010000, 0x04010104, 0x00010004, 0x04010000, 0x00000104,
      0x04000000, 0x00000004, 0x04010100, 0x00000100, 0x00010100, 0x04010000, 0x04010004, 0x00010104,
      0x04000104, 0x00010100, 0x00010000, 0x04000104, 0x00000004, 0x04010104, 0x00000100, 0x04000000,
      0x04010100, 0x04000000, 0x00010004, 0x00000104, 0x00010000, 0x04010100, 0x04000100, 0x00000000,
      0x00000100, 0x00010004, 0x04010104, 0x04000100, 0x04000004, 0x00000100, 0x00000000, 0x04010004,
      0x04000104, 0x00010000, 0x04000000, 0x04010104, 0x00000004, 0x00010104, 0x00010100, 0x04000004,
      0x04010000, 0x04000104, 0x00000104, 0x04010000, 0x00010104, 0x00000004, 0x04010004, 0x00010100],
     [0x80401000, 0x80001040, 0x80001040, 0x00000040, 0x00401040, 0x80400040, 0x80400000, 0x80001000,
      0x00000000, 0x00401000, 0x00401000, 0x80401040, 0x80000040, 0x00000000, 0x00400040, 0x80400000,
      0x80000000, 0x00001000, 0x00400000, 0x80401000, 0x00000040, 0x00400000, 0x80001000, 0x00001040,
      0x80400040, 0x80000000, 0x00001040, 0x00400040, 0x00001000, 0x00401040, 0x80401040, 0x80000040,
      0x00400040, 0x80400000, 0x00401000, 0x80401040, 0x80000040, 0x00000000, 0x00000000, 0x00401000,
      0x00001040, 0x00400040, 0x80400040, 0x80000000, 0x80401000, 0x80001040, 0x80001040, 0x00000040,
      0x80401040, 0x80000040, 0x80000000, 0x00001000, 0x80400000, 0x80001000, 0x00401040, 0x80400040,
      0x80001000, 0x00001040, 0x00400000, 0x80401000, 0x00000040, 0x00400000, 0x00001000, 0x00401040],
     [0x00000080, 0x01040080, 0x01040000, 0x21000080, 0x00040000, 0x00000080, 0x20000000, 0x01040000,
      0x20040080, 0x00040000, 0x01000080, 0x20040080, 0x21000080, 0x21040000, 0x00040080, 0x20000000,
      0x01000000, 0x20040000, 0x20040000, 0x00000000, 0x20000080, 0x21040080, 0x21040080, 0x01000080,
      0x21040000, 0x20000080, 0x00000000, 0x21000000, 0x01040080, 0x01000000, 0x21000000, 0x00040080,
      0x00040000, 0x21000080, 0x00000080, 0x01000000, 0x20000000, 0x01040000, 0x21000080, 0x20040080,
      0x01000080, 0x20000000, 0x21040000, 0x01040080, 0x20040080, 0x00000080, 0x01000000, 0x21040000,
      0x21040080, 0x00040080, 0x21000000, 0x21040080, 0x01040000, 0x00000000, 0x20040000, 0x21000000,
      0x00040080, 0x01000080, 0x20000080, 0x00040000, 0x00000000, 0x20040000, 0x01040080, 0x20000080],
     [0x10000008, 0x10200000, 0x00002000, 0x10202008, 0x10200000, 0x00000008, 0x10202008, 0x00200000,
      0x10002000, 0x00202008, 0x00200000, 0x10000008, 0x00200008, 0x10002000, 0x10000000, 0x00002008,
      0x00000000, 0x00200008, 0x10002008, 0x00002000, 0x00202000, 0x10002008, 0x00000008, 0x10200008,
      0x10200008, 0x00000000, 0x00202008, 0x10202000, 0x00002008, 0x00202000, 0x10202000, 0x10000000,
      0x10002000, 0x00000008, 0x10200008, 0x00202000, 0x10202008, 0x00200000, 0x00002008, 0x10000008,
      0x00200000, 0x10002000, 0x10000000, 0x00002008, 0x10000008, 0x10202008, 0x00202000, 0x10200000,
      0x00202008, 0x10202000, 0x00000000, 0x10200008, 0x00000008, 0x00002000, 0x10200000, 0x00202008,
      0x00002000, 0x00200008, 0x10002008, 0x00000000, 0x10202000, 0x10000000, 0x00200008, 0x10002008],
     [0x00100000, 0x02100001, 0x02000401, 0x00000000, 0x00000400, 0x02000401, 0x00100401, 0x02100400,
      0x02100401, 0x00100000, 0x00000000, 0x02000001, 0x00000001, 0x02000000, 0x02100001, 0x00000401,
      0x02000400, 0x00100401, 0x00100001, 0x02000400, 0x02000001, 0x02100000, 0x02100400, 0x00100001,
      0x02100000, 0x00000400, 0x00000401, 0x02100401, 0x00100400, 0x00000001, 0x02000000, 0x00100400,
      0x02000000, 0x00100400, 0x00100000, 0x02000401, 0x02000401, 0x02100001, 0x02100001, 0x00000001,
      0x00100001, 0x02000000, 0x02000400, 0x00100000, 0x02100400, 0x00000401, 0x00100401, 0x02100400,
      0x00000401, 0x02000001, 0x02100401, 0x02100000, 0x00100400, 0x00000000, 0x00000001, 0x02100401,
      0x00000000, 0x00100401, 0x02100000, 0x00000400, 0x02000001, 0x02000400, 0x00000400, 0x00100001],
     [0x08000820, 0x00000800, 0x00020000, 0x08020820, 0x08000000, 0x08000820, 0x00000020, 0x08000000,
      0x00020020, 0x08020000, 0x08020820, 0x00020800, 0x08020800, 0x00020820, 0x00000800, 0x00000020,
      0x08020000, 0x08000020, 0x08000800, 0x00000820, 0x00020800, 0x00020020, 0x08020020, 0x08020800,
      0x00000820, 0x00000000, 0x00000000, 0x08020020, 0x08000020, 0x08000800, 0x00020820, 0x00020000,
      0x00020820, 0x00020000, 0x08020800, 0x00000800, 0x00000020, 0x08020020, 0x00000800, 0x00020820,
      0x08000800, 0x00000020, 0x08000020, 0x08020000, 0x08020020, 0x08000000, 0x00020000, 0x08000820,
      0x00000000, 0x08020820, 0x00020020, 0x08000020, 0x08020000, 0x08000800, 0x08000820, 0x00000000,
      0x08020820, 0x00020800, 0x00020800, 0x00000820, 0x00000820, 0x00020020, 0x08000000, 0x08020800]]"

definition ip_maskl :: "u32 list list" where
  "ip_maskl = [
     [0x00000000, 0x00010000, 0x00000000, 0x00010000, 0x01000000, 0x01010000, 0x01000000, 0x01010000,
      0x00000000, 0x00010000, 0x00000000, 0x00010000, 0x01000000, 0x01010000, 0x01000000, 0x01010000],
     [0x00000000, 0x00000001, 0x00000000, 0x00000001, 0x00000100, 0x00000101, 0x00000100, 0x00000101,
      0x00000000, 0x00000001, 0x00000000, 0x00000001, 0x00000100, 0x00000101, 0x00000100, 0x00000101],
     [0x00000000, 0x00020000, 0x00000000, 0x00020000, 0x02000000, 0x02020000, 0x02000000, 0x02020000,
      0x00000000, 0x00020000, 0x00000000, 0x00020000, 0x02000000, 0x02020000, 0x02000000, 0x02020000],
     [0x00000000, 0x00000002, 0x00000000, 0x00000002, 0x00000200, 0x00000202, 0x00000200, 0x00000202,
      0x00000000, 0x00000002, 0x00000000, 0x00000002, 0x00000200, 0x00000202, 0x00000200, 0x00000202],
     [0x00000000, 0x00040000, 0x00000000, 0x00040000, 0x04000000, 0x04040000, 0x04000000, 0x04040000,
      0x00000000, 0x00040000, 0x00000000, 0x00040000, 0x04000000, 0x04040000, 0x04000000, 0x04040000],
     [0x00000000, 0x00000004, 0x00000000, 0x00000004, 0x00000400, 0x00000404, 0x00000400, 0x00000404,
      0x00000000, 0x00000004, 0x00000000, 0x00000004, 0x00000400, 0x00000404, 0x00000400, 0x00000404],
     [0x00000000, 0x00080000, 0x00000000, 0x00080000, 0x08000000, 0x08080000, 0x08000000, 0x08080000,
      0x00000000, 0x00080000, 0x00000000, 0x00080000, 0x08000000, 0x08080000, 0x08000000, 0x08080000],
     [0x00000000, 0x00000008, 0x00000000, 0x00000008, 0x00000800, 0x00000808, 0x00000800, 0x00000808,
      0x00000000, 0x00000008, 0x00000000, 0x00000008, 0x00000800, 0x00000808, 0x00000800, 0x00000808],
     [0x00000000, 0x00100000, 0x00000000, 0x00100000, 0x10000000, 0x10100000, 0x10000000, 0x10100000,
      0x00000000, 0x00100000, 0x00000000, 0x00100000, 0x10000000, 0x10100000, 0x10000000, 0x10100000],
     [0x00000000, 0x00000010, 0x00000000, 0x00000010, 0x00001000, 0x00001010, 0x00001000, 0x00001010,
      0x00000000, 0x00000010, 0x00000000, 0x00000010, 0x00001000, 0x00001010, 0x00001000, 0x00001010],
     [0x00000000, 0x00200000, 0x00000000, 0x00200000, 0x20000000, 0x20200000, 0x20000000, 0x20200000,
      0x00000000, 0x00200000, 0x00000000, 0x00200000, 0x20000000, 0x20200000, 0x20000000, 0x20200000],
     [0x00000000, 0x00000020, 0x00000000, 0x00000020, 0x00002000, 0x00002020, 0x00002000, 0x00002020,
      0x00000000, 0x00000020, 0x00000000, 0x00000020, 0x00002000, 0x00002020, 0x00002000, 0x00002020],
     [0x00000000, 0x00400000, 0x00000000, 0x00400000, 0x40000000, 0x40400000, 0x40000000, 0x40400000,
      0x00000000, 0x00400000, 0x00000000, 0x00400000, 0x40000000, 0x40400000, 0x40000000, 0x40400000],
     [0x00000000, 0x00000040, 0x00000000, 0x00000040, 0x00004000, 0x00004040, 0x00004000, 0x00004040,
      0x00000000, 0x00000040, 0x00000000, 0x00000040, 0x00004000, 0x00004040, 0x00004000, 0x00004040],
     [0x00000000, 0x00800000, 0x00000000, 0x00800000, 0x80000000, 0x80800000, 0x80000000, 0x80800000,
      0x00000000, 0x00800000, 0x00000000, 0x00800000, 0x80000000, 0x80800000, 0x80000000, 0x80800000],
     [0x00000000, 0x00000080, 0x00000000, 0x00000080, 0x00008000, 0x00008080, 0x00008000, 0x00008080,
      0x00000000, 0x00000080, 0x00000000, 0x00000080, 0x00008000, 0x00008080, 0x00008000, 0x00008080]]"

definition ip_maskr :: "u32 list list" where
  "ip_maskr = [
     [0x00000000, 0x00000000, 0x00010000, 0x00010000, 0x00000000, 0x00000000, 0x00010000, 0x00010000,
      0x01000000, 0x01000000, 0x01010000, 0x01010000, 0x01000000, 0x01000000, 0x01010000, 0x01010000],
     [0x00000000, 0x00000000, 0x00000001, 0x00000001, 0x00000000, 0x00000000, 0x00000001, 0x00000001,
      0x00000100, 0x00000100, 0x00000101, 0x00000101, 0x00000100, 0x00000100, 0x00000101, 0x00000101],
     [0x00000000, 0x00000000, 0x00020000, 0x00020000, 0x00000000, 0x00000000, 0x00020000, 0x00020000,
      0x02000000, 0x02000000, 0x02020000, 0x02020000, 0x02000000, 0x02000000, 0x02020000, 0x02020000],
     [0x00000000, 0x00000000, 0x00000002, 0x00000002, 0x00000000, 0x00000000, 0x00000002, 0x00000002,
      0x00000200, 0x00000200, 0x00000202, 0x00000202, 0x00000200, 0x00000200, 0x00000202, 0x00000202],
     [0x00000000, 0x00000000, 0x00040000, 0x00040000, 0x00000000, 0x00000000, 0x00040000, 0x00040000,
      0x04000000, 0x04000000, 0x04040000, 0x04040000, 0x04000000, 0x04000000, 0x04040000, 0x04040000],
     [0x00000000, 0x00000000, 0x00000004, 0x00000004, 0x00000000, 0x00000000, 0x00000004, 0x00000004,
      0x00000400, 0x00000400, 0x00000404, 0x00000404, 0x00000400, 0x00000400, 0x00000404, 0x00000404],
     [0x00000000, 0x00000000, 0x00080000, 0x00080000, 0x00000000, 0x00000000, 0x00080000, 0x00080000,
      0x08000000, 0x08000000, 0x08080000, 0x08080000, 0x08000000, 0x08000000, 0x08080000, 0x08080000],
     [0x00000000, 0x00000000, 0x00000008, 0x00000008, 0x00000000, 0x00000000, 0x00000008, 0x00000008,
      0x00000800, 0x00000800, 0x00000808, 0x00000808, 0x00000800, 0x00000800, 0x00000808, 0x00000808],
     [0x00000000, 0x00000000, 0x00100000, 0x00100000, 0x00000000, 0x00000000, 0x00100000, 0x00100000,
      0x10000000, 0x10000000, 0x10100000, 0x10100000, 0x10000000, 0x10000000, 0x10100000, 0x10100000],
     [0x00000000, 0x00000000, 0x00000010, 0x00000010, 0x00000000, 0x00000000, 0x00000010, 0x00000010,
      0x00001000, 0x00001000, 0x00001010, 0x00001010, 0x00001000, 0x00001000, 0x00001010, 0x00001010],
     [0x00000000, 0x00000000, 0x00200000, 0x00200000, 0x00000000, 0x00000000, 0x00200000, 0x00200000,
      0x20000000, 0x20000000, 0x20200000, 0x20200000, 0x20000000, 0x20000000, 0x20200000, 0x20200000],
     [0x00000000, 0x00000000, 0x00000020, 0x00000020, 0x00000000, 0x00000000, 0x00000020, 0x00000020,
      0x00002000, 0x00002000, 0x00002020, 0x00002020, 0x00002000, 0x00002000, 0x00002020, 0x00002020],
     [0x00000000, 0x00000000, 0x00400000, 0x00400000, 0x00000000, 0x00000000, 0x00400000, 0x00400000,
      0x40000000, 0x40000000, 0x40400000, 0x40400000, 0x40000000, 0x40000000, 0x40400000, 0x40400000],
     [0x00000000, 0x00000000, 0x00000040, 0x00000040, 0x00000000, 0x00000000, 0x00000040, 0x00000040,
      0x00004000, 0x00004000, 0x00004040, 0x00004040, 0x00004000, 0x00004000, 0x00004040, 0x00004040],
     [0x00000000, 0x00000000, 0x00800000, 0x00800000, 0x00000000, 0x00000000, 0x00800000, 0x00800000,
      0x80000000, 0x80000000, 0x80800000, 0x80800000, 0x80000000, 0x80000000, 0x80800000, 0x80800000],
     [0x00000000, 0x00000000, 0x00000080, 0x00000080, 0x00000000, 0x00000000, 0x00000080, 0x00000080,
      0x00008000, 0x00008000, 0x00008080, 0x00008080, 0x00008000, 0x00008000, 0x00008080, 0x00008080]]"

definition fp_maskl :: "u32 list list" where
  "fp_maskl = [
     [0x00000000, 0x40000000, 0x00400000, 0x40400000, 0x00004000, 0x40004000, 0x00404000, 0x40404000,
      0x00000040, 0x40000040, 0x00400040, 0x40400040, 0x00004040, 0x40004040, 0x00404040, 0x40404040],
     [0x00000000, 0x10000000, 0x00100000, 0x10100000, 0x00001000, 0x10001000, 0x00101000, 0x10101000,
      0x00000010, 0x10000010, 0x00100010, 0x10100010, 0x00001010, 0x10001010, 0x00101010, 0x10101010],
     [0x00000000, 0x04000000, 0x00040000, 0x04040000, 0x00000400, 0x04000400, 0x00040400, 0x04040400,
      0x00000004, 0x04000004, 0x00040004, 0x04040004, 0x00000404, 0x04000404, 0x00040404, 0x04040404],
     [0x00000000, 0x01000000, 0x00010000, 0x01010000, 0x00000100, 0x01000100, 0x00010100, 0x01010100,
      0x00000001, 0x01000001, 0x00010001, 0x01010001, 0x00000101, 0x01000101, 0x00010101, 0x01010101],
     [0x00000000, 0x80000000, 0x00800000, 0x80800000, 0x00008000, 0x80008000, 0x00808000, 0x80808000,
      0x00000080, 0x80000080, 0x00800080, 0x80800080, 0x00008080, 0x80008080, 0x00808080, 0x80808080],
     [0x00000000, 0x20000000, 0x00200000, 0x20200000, 0x00002000, 0x20002000, 0x00202000, 0x20202000,
      0x00000020, 0x20000020, 0x00200020, 0x20200020, 0x00002020, 0x20002020, 0x00202020, 0x20202020],
     [0x00000000, 0x08000000, 0x00080000, 0x08080000, 0x00000800, 0x08000800, 0x00080800, 0x08080800,
      0x00000008, 0x08000008, 0x00080008, 0x08080008, 0x00000808, 0x08000808, 0x00080808, 0x08080808],
     [0x00000000, 0x02000000, 0x00020000, 0x02020000, 0x00000200, 0x02000200, 0x00020200, 0x02020200,
      0x00000002, 0x02000002, 0x00020002, 0x02020002, 0x00000202, 0x02000202, 0x00020202, 0x02020202]]"

definition fp_maskr :: "u32 list list" where
  "fp_maskr = [
     [0x00000000, 0x40000000, 0x00400000, 0x40400000, 0x00004000, 0x40004000, 0x00404000, 0x40404000,
      0x00000040, 0x40000040, 0x00400040, 0x40400040, 0x00004040, 0x40004040, 0x00404040, 0x40404040],
     [0x00000000, 0x10000000, 0x00100000, 0x10100000, 0x00001000, 0x10001000, 0x00101000, 0x10101000,
      0x00000010, 0x10000010, 0x00100010, 0x10100010, 0x00001010, 0x10001010, 0x00101010, 0x10101010],
     [0x00000000, 0x04000000, 0x00040000, 0x04040000, 0x00000400, 0x04000400, 0x00040400, 0x04040400,
      0x00000004, 0x04000004, 0x00040004, 0x04040004, 0x00000404, 0x04000404, 0x00040404, 0x04040404],
     [0x00000000, 0x01000000, 0x00010000, 0x01010000, 0x00000100, 0x01000100, 0x00010100, 0x01010100,
      0x00000001, 0x01000001, 0x00010001, 0x01010001, 0x00000101, 0x01000101, 0x00010101, 0x01010101],
     [0x00000000, 0x80000000, 0x00800000, 0x80800000, 0x00008000, 0x80008000, 0x00808000, 0x80808000,
      0x00000080, 0x80000080, 0x00800080, 0x80800080, 0x00008080, 0x80008080, 0x00808080, 0x80808080],
     [0x00000000, 0x20000000, 0x00200000, 0x20200000, 0x00002000, 0x20002000, 0x00202000, 0x20202000,
      0x00000020, 0x20000020, 0x00200020, 0x20200020, 0x00002020, 0x20002020, 0x00202020, 0x20202020],
     [0x00000000, 0x08000000, 0x00080000, 0x08080000, 0x00000800, 0x08000800, 0x00080800, 0x08080800,
      0x00000008, 0x08000008, 0x00080008, 0x08080008, 0x00000808, 0x08000808, 0x00080808, 0x08080808],
     [0x00000000, 0x02000000, 0x00020000, 0x02020000, 0x00000200, 0x02000200, 0x00020200, 0x02020200,
      0x00000002, 0x02000002, 0x00020002, 0x02020002, 0x00000202, 0x02000202, 0x00020202, 0x02020202]]"

definition key_perm_maskl :: "u32 list list" where
  "key_perm_maskl = [
     [0x00000000, 0x00000000, 0x00000010, 0x00000010, 0x00001000, 0x00001000, 0x00001010, 0x00001010,
      0x00100000, 0x00100000, 0x00100010, 0x00100010, 0x00101000, 0x00101000, 0x00101010, 0x00101010],
     [0x00000000, 0x00000000, 0x00000020, 0x00000020, 0x00002000, 0x00002000, 0x00002020, 0x00002020,
      0x00200000, 0x00200000, 0x00200020, 0x00200020, 0x00202000, 0x00202000, 0x00202020, 0x00202020],
     [0x00000000, 0x00000000, 0x00000040, 0x00000040, 0x00004000, 0x00004000, 0x00004040, 0x00004040,
      0x00400000, 0x00400000, 0x00400040, 0x00400040, 0x00404000, 0x00404000, 0x00404040, 0x00404040],
     [0x00000000, 0x00000000, 0x00000080, 0x00000080, 0x00008000, 0x00008000, 0x00008080, 0x00008080,
      0x00800000, 0x00800000, 0x00800080, 0x00800080, 0x00808000, 0x00808000, 0x00808080, 0x00808080],
     [0x00000000, 0x00000001, 0x00000100, 0x00000101, 0x00010000, 0x00010001, 0x00010100, 0x00010101,
      0x01000000, 0x01000001, 0x01000100, 0x01000101, 0x01010000, 0x01010001, 0x01010100, 0x01010101],
     [0x00000000, 0x00000002, 0x00000200, 0x00000202, 0x00020000, 0x00020002, 0x00020200, 0x00020202,
      0x02000000, 0x02000002, 0x02000200, 0x02000202, 0x02020000, 0x02020002, 0x02020200, 0x02020202],
     [0x00000000, 0x00000004, 0x00000400, 0x00000404, 0x00040000, 0x00040004, 0x00040400, 0x00040404,
      0x04000000, 0x04000004, 0x04000400, 0x04000404, 0x04040000, 0x04040004, 0x04040400, 0x04040404],
     [0x00000000, 0x00000008, 0x00000800, 0x00000808, 0x00080000, 0x00080008, 0x00080800, 0x00080808,
      0x08000000, 0x08000008, 0x08000800, 0x08000808, 0x08080000, 0x08080008, 0x08080800, 0x08080808]]"

definition key_perm_maskr :: "u32 list list" where
  "key_perm_maskr = [
     [0x00000000, 0x00000001, 0x00000000, 0x00000001, 0x00000000, 0x00000001, 0x00000000, 0x00000001,
      0x00000000, 0x00000001, 0x00000000, 0x00000001, 0x00000000, 0x00000001, 0x00000000, 0x00000001],
     [0x00000000, 0x00000000, 0x00100000, 0x00100000, 0x00001000, 0x00001000, 0x00101000, 0x00101000,
      0x00000010, 0x00000010, 0x00100010, 0x00100010, 0x00001010, 0x00001010, 0x00101010, 0x00101010],
     [0x00000000, 0x00000002, 0x00000000, 0x00000002, 0x00000000, 0x00000002, 0x00000000, 0x00000002,
      0x00000000, 0x00000002, 0x00000000, 0x00000002, 0x00000000, 0x00000002, 0x00000000, 0x00000002],
     [0x00000000, 0x00000000, 0x00200000, 0x00200000, 0x00002000, 0x00002000, 0x00202000, 0x00202000,
      0x00000020, 0x00000020, 0x00200020, 0x00200020, 0x00002020, 0x00002020, 0x00202020, 0x00202020],
     [0x00000000, 0x00000004, 0x00000000, 0x00000004, 0x00000000, 0x00000004, 0x00000000, 0x00000004,
      0x00000000, 0x00000004, 0x00000000, 0x00000004, 0x00000000, 0x00000004, 0x00000000, 0x00000004],
     [0x00000000, 0x00000000, 0x00400000, 0x00400000, 0x00004000, 0x00004000, 0x00404000, 0x00404000,
      0x00000040, 0x00000040, 0x00400040, 0x00400040, 0x00004040, 0x00004040, 0x00404040, 0x00404040],
     [0x00000000, 0x00000008, 0x00000000, 0x00000008, 0x00000000, 0x00000008, 0x00000000, 0x00000008,
      0x00000000, 0x00000008, 0x00000000, 0x00000008, 0x00000000, 0x00000008, 0x00000000, 0x00000008],
     [0x00000000, 0x00000000, 0x00800000, 0x00800000, 0x00008000, 0x00008000, 0x00808000, 0x00808000,
      0x00000080, 0x00000080, 0x00800080, 0x00800080, 0x00008080, 0x00008080, 0x00808080, 0x00808080],
     [0x00000000, 0x00000000, 0x01000000, 0x01000000, 0x00010000, 0x00010000, 0x01010000, 0x01010000,
      0x00000100, 0x00000100, 0x01000100, 0x01000100, 0x00010100, 0x00010100, 0x01010100, 0x01010100],
     [0x00000000, 0x00000000, 0x02000000, 0x02000000, 0x00020000, 0x00020000, 0x02020000, 0x02020000,
      0x00000200, 0x00000200, 0x02000200, 0x02000200, 0x00020200, 0x00020200, 0x02020200, 0x02020200],
     [0x00000000, 0x00000000, 0x04000000, 0x04000000, 0x00040000, 0x00040000, 0x04040000, 0x04040000,
      0x00000400, 0x00000400, 0x04000400, 0x04000400, 0x00040400, 0x00040400, 0x04040400, 0x04040400],
     [0x00000000, 0x00000000, 0x08000000, 0x08000000, 0x00080000, 0x00080000, 0x08080000, 0x08080000,
      0x00000800, 0x00000800, 0x08000800, 0x08000800, 0x00080800, 0x00080800, 0x08080800, 0x08080800]]"

definition comp_maskl0 :: "u32 list list" where
  "comp_maskl0 = [
     [0x00000000, 0x00020000, 0x00000001, 0x00020001, 0x00080000, 0x000a0000, 0x00080001, 0x000a0001],
     [0x00000000, 0x00001000, 0x00000000, 0x00001000, 0x00000040, 0x00001040, 0x00000040, 0x00001040],
     [0x00000000, 0x00400000, 0x00000020, 0x00400020, 0x00008000, 0x00408000, 0x00008020, 0x00408020],
     [0x00000000, 0x00100000, 0x00000800, 0x00100800, 0x00000000, 0x00100000, 0x00000800, 0x00100800]]"

definition comp_maskr0 :: "u32 list list" where
  "comp_maskr0 = [
     [0x00000000, 0x00200000, 0x00020000, 0x00220000, 0x00000002, 0x00200002, 0x00020002, 0x00220002],
     [0x00000000, 0x00000000, 0x00100000, 0x00100000, 0x00000004, 0x00000004, 0x00100004, 0x00100004],
     [0x00000000, 0x00004000, 0x00000800, 0x00004800, 0x00000000, 0x00004000, 0x00000800, 0x00004800],
     [0x00000000, 0x00400000, 0x00008000, 0x00408000, 0x00000008, 0x00400008, 0x00008008, 0x00408008]]"

definition comp_maskl1 :: "u32 list list" where
  "comp_maskl1 = [
     [0x00000000, 0x00000010, 0x00004000, 0x00004010, 0x00040000, 0x00040010, 0x00044000, 0x00044010,
      0x00000100, 0x00000110, 0x00004100, 0x00004110, 0x00040100, 0x00040110, 0x00044100, 0x00044110],
     [0x00000000, 0x00800000, 0x00000002, 0x00800002, 0x00000200, 0x00800200, 0x00000202, 0x00800202,
      0x00200000, 0x00a00000, 0x00200002, 0x00a00002, 0x00200200, 0x00a00200, 0x00200202, 0x00a00202],
     [0x00000000, 0x00002000, 0x00000004, 0x00002004, 0x00000400, 0x00002400, 0x00000404, 0x00002404,
      0x00000000, 0x00002000, 0x00000004, 0x00002004, 0x00000400, 0x00002400, 0x00000404, 0x00002404],
     [0x00000000, 0x00010000, 0x00000008, 0x00010008, 0x00000080, 0x00010080, 0x00000088, 0x00010088,
      0x00000000, 0x00010000, 0x00000008, 0x00010008, 0x00000080, 0x00010080, 0x00000088, 0x00010088]]"

definition comp_maskr1 :: "u32 list list" where
  "comp_maskr1 = [
     [0x00000000, 0x00000000, 0x00000080, 0x00000080, 0x00002000, 0x00002000, 0x00002080, 0x00002080,
      0x00000001, 0x00000001, 0x00000081, 0x00000081, 0x00002001, 0x00002001, 0x00002081, 0x00002081],
     [0x00000000, 0x00000010, 0x00800000, 0x00800010, 0x00010000, 0x00010010, 0x00810000, 0x00810010,
      0x00000200, 0x00000210, 0x00800200, 0x00800210, 0x00010200, 0x00010210, 0x00810200, 0x00810210],
     [0x00000000, 0x00000400, 0x00001000, 0x00001400, 0x00080000, 0x00080400, 0x00081000, 0x00081400,
      0x00000020, 0x00000420, 0x00001020, 0x00001420, 0x00080020, 0x00080420, 0x00081020, 0x00081420],
     [0x00000000, 0x00000100, 0x00040000, 0x00040100, 0x00000000, 0x00000100, 0x00040000, 0x00040100,
      0x00000040, 0x00000140, 0x00040040, 0x00040140, 0x00000040, 0x00000140, 0x00040040, 0x00040140]]"

section \<open>The tables of the standard\<close>

text \<open>Bits are numbered from 1, the most significant one.\<close>

definition IP_table :: "nat list" where
  "IP_table = [58, 50, 42, 34, 26, 18, 10, 2, 60, 52, 44, 36, 28, 20, 12, 4,
     62, 54, 46, 38, 30, 22, 14, 6, 64, 56, 48, 40, 32, 24, 16, 8,
     57, 49, 41, 33, 25, 17, 9, 1, 59, 51, 43, 35, 27, 19, 11, 3,
     61, 53, 45, 37, 29, 21, 13, 5, 63, 55, 47, 39, 31, 23, 15, 7]"

definition FP_table :: "nat list" where
  "FP_table = [40, 8, 48, 16, 56, 24, 64, 32, 39, 7, 47, 15, 55, 23, 63, 31,
     38, 6, 46, 14, 54, 22, 62, 30, 37, 5, 45, 13, 53, 21, 61, 29,
     36, 4, 44, 12, 52, 20, 60, 28, 35, 3, 43, 11, 51, 19, 59, 27,
     34, 2, 42, 10, 50, 18, 58, 26, 33, 1, 41, 9, 49, 17, 57, 25]"

definition E_table :: "nat list" where
  "E_table = [32, 1, 2, 3, 4, 5, 4, 5, 6, 7, 8, 9, 8, 9, 10, 11,
     12, 13, 12, 13, 14, 15, 16, 17, 16, 17, 18, 19, 20, 21, 20, 21,
     22, 23, 24, 25, 24, 25, 26, 27, 28, 29, 28, 29, 30, 31, 32, 1]"

definition P_table :: "nat list" where
  "P_table = [16, 7, 20, 21, 29, 12, 28, 17, 1, 15, 23, 26, 5, 18, 31, 10,
     2, 8, 24, 14, 32, 27, 3, 9, 19, 13, 30, 6, 22, 11, 4, 25]"

definition PC1_table :: "nat list" where
  "PC1_table = [57, 49, 41, 33, 25, 17, 9, 1, 58, 50, 42, 34, 26, 18, 10, 2,
     59, 51, 43, 35, 27, 19, 11, 3, 60, 52, 44, 36, 63, 55, 47, 39,
     31, 23, 15, 7, 62, 54, 46, 38, 30, 22, 14, 6, 61, 53, 45, 37,
     29, 21, 13, 5, 28, 20, 12, 4]"

definition PC2_table :: "nat list" where
  "PC2_table = [14, 17, 11, 24, 1, 5, 3, 28, 15, 6, 21, 10, 23, 19, 12, 4,
     26, 8, 16, 7, 27, 20, 13, 2, 41, 52, 31, 37, 47, 55, 30, 40,
     51, 45, 33, 48, 44, 49, 39, 56, 34, 53, 46, 42, 50, 36, 29, 32]"

definition S_box :: "nat list list list" where
  "S_box = [
     [[14, 4, 13, 1, 2, 15, 11, 8, 3, 10, 6, 12, 5, 9, 0, 7],
      [0, 15, 7, 4, 14, 2, 13, 1, 10, 6, 12, 11, 9, 5, 3, 8],
      [4, 1, 14, 8, 13, 6, 2, 11, 15, 12, 9, 7, 3, 10, 5, 0],
      [15, 12, 8, 2, 4, 9, 1, 7, 5, 11, 3, 14, 10, 0, 6, 13]],
     [[15, 1, 8, 14, 6, 11, 3, 4, 9, 7, 2, 13, 12, 0, 5, 10],
      [3, 13, 4, 7, 15, 2, 8, 14, 12, 0, 1, 10, 6, 9, 11, 5],
      [0, 14, 7, 11, 10, 4, 13, 1, 5, 8, 12, 6, 9, 3, 2, 15],
      [13, 8, 10, 1, 3, 15, 4, 2, 11, 6, 7, 12, 0, 5, 14, 9]],
     [[10, 0, 9, 14, 6, 3, 15, 5, 1, 13, 12, 7, 11, 4, 2, 8],
      [13, 7, 0, 9, 3, 4, 6, 10, 2, 8, 5, 14, 12, 11, 15, 1],
      [13, 6, 4, 9, 8, 15, 3, 0, 11, 1, 2, 12, 5, 10, 14, 7],
      [1, 10, 13, 0, 6, 9, 8, 7, 4, 15, 14, 3, 11, 5, 2, 12]],
     [[7, 13, 14, 3, 0, 6, 9, 10, 1, 2, 8, 5, 11, 12, 4, 15],
      [13, 8, 11, 5, 6, 15, 0, 3, 4, 7, 2, 12, 1, 10, 14, 9],
      [10, 6, 9, 0, 12, 11, 7, 13, 15, 1, 3, 14, 5, 2, 8, 4],
      [3, 15, 0, 6, 10, 1, 13, 8, 9, 4, 5, 11, 12, 7, 2, 14]],
     [[2, 12, 4, 1, 7, 10, 11, 6, 8, 5, 3, 15, 13, 0, 14, 9],
      [14, 11, 2, 12, 4, 7, 13, 1, 5, 0, 15, 10, 3, 9, 8, 6],
      [4, 2, 1, 11, 10, 13, 7, 8, 15, 9, 12, 5, 6, 3, 0, 14],
      [11, 8, 12, 7, 1, 14, 2, 13, 6, 15, 0, 9, 10, 4, 5, 3]],
     [[12, 1, 10, 15, 9, 2, 6, 8, 0, 13, 3, 4, 14, 7, 5, 11],
      [10, 15, 4, 2, 7, 12, 9, 5, 6, 1, 13, 14, 0, 11, 3, 8],
      [9, 14, 15, 5, 2, 8, 12, 3, 7, 0, 4, 10, 1, 13, 11, 6],
      [4, 3, 2, 12, 9, 5, 15, 10, 11, 14, 1, 7, 6, 0, 8, 13]],
     [[4, 11, 2, 14, 15, 0, 8, 13, 3, 12, 9, 7, 5, 10, 6, 1],
      [13, 0, 11, 7, 4, 9, 1, 10, 14, 3, 5, 12, 2, 15, 8, 6],
      [1, 4, 11, 13, 12, 3, 7, 14, 10, 15, 6, 8, 0, 5, 9, 2],
      [6, 11, 13, 8, 1, 4, 10, 7, 9, 5, 0, 15, 14, 2, 3, 12]],
     [[13, 2, 8, 4, 6, 15, 11, 1, 10, 9, 3, 14, 5, 0, 12, 7],
      [1, 15, 13, 8, 10, 3, 7, 4, 12, 5, 6, 11, 0, 14, 9, 2],
      [7, 11, 4, 1, 9, 12, 14, 2, 0, 6, 10, 13, 15, 3, 5, 8],
      [2, 1, 14, 7, 4, 10, 8, 13, 15, 12, 9, 0, 3, 5, 6, 11]]]"

text \<open>The value of an S-box on six bits: the outer two select the row, the inner four the column.\<close>

definition S_val :: "nat \<Rightarrow> nat \<Rightarrow> nat" where
  "S_val i v = S_box ! i ! (v div 32 * 2 + v mod 2) ! (v div 2 mod 16)"

section \<open>Selected words\<close>

text \<open>
  \<open>sel src m v\<close> is the word whose bits are described by \<open>src\<close>, most significant first: the bit is position \<open>p\<close> of chunk
  \<open>c\<close> for the pair \<open>(c, p)\<close>; of these, \<open>sel\<close> has those of chunk \<open>m\<close>, when that chunk has the value \<open>v\<close>.
\<close>

definition sel :: "(nat \<times> nat) list \<Rightarrow> nat \<Rightarrow> nat \<Rightarrow> u32" where
  "sel src m v = foldl (\<lambda>w (c, p). 2 * w + (if c = m \<and> odd (v div 2 ^ p) then 1 else 0)) 0 src"

definition nibbles :: "nat list \<Rightarrow> (nat \<times> nat) list" where
  "nibbles tab = map (\<lambda>s. ((s - 1) div 4, 3 - (s - 1) mod 4)) tab"

definition sevens :: "nat list \<Rightarrow> (nat \<times> nat) list" where
  "sevens tab = map (\<lambda>s. let g = (s - 1) div 7; p = (s - 1) mod 7 in if p < 3 then (2 * g, 2 - p) else (2 * g + 1, 6 - p)) tab"

definition table_of :: "(nat \<times> nat) list \<Rightarrow> nat list \<Rightarrow> nat \<Rightarrow> u32 list list" where
  "table_of src ms n = map (\<lambda>m. map (sel src m) [0..<n]) ms"

lemma table_of_nth: "i < length ms \<Longrightarrow> v < n \<Longrightarrow> table_of src ms n ! i ! v = sel src (ms ! i) v"
  by (simp add: table_of_def)

lemma ip_maskl_sel: "ip_maskl = table_of (nibbles (take 32 IP_table)) [0..<16] 16"
  by code_simp

lemma ip_maskr_sel: "ip_maskr = table_of (nibbles (drop 32 IP_table)) [0..<16] 16"
  by code_simp

lemma fp_maskl_sel: "fp_maskl = table_of (nibbles (take 32 FP_table)) [1, 3, 5, 7, 9, 11, 13, 15] 16"
  by code_simp

lemma fp_maskr_sel: "fp_maskr = table_of (nibbles (drop 32 FP_table)) [0, 2, 4, 6, 8, 10, 12, 14] 16"
  by code_simp

lemma key_perm_maskl_sel: "key_perm_maskl = table_of (nibbles (take 28 PC1_table)) [0, 2, 4, 6, 8, 10, 12, 14] 16"
  by code_simp

lemma key_perm_maskr_sel: "key_perm_maskr = table_of (nibbles (drop 28 PC1_table)) [0, 1, 2, 3, 4, 5, 6, 7, 9, 11, 13, 15] 16"
  by code_simp

lemma comp_maskl_sel:
  "comp_maskl0 = table_of (sevens (take 24 PC2_table)) [0, 2, 4, 6] 8"
  "comp_maskl1 = table_of (sevens (take 24 PC2_table)) [1, 3, 5, 7] 16"
  by code_simp+

lemma comp_maskr_sel:
  "comp_maskr0 = table_of (sevens (map (\<lambda>s. s - 28) (drop 24 PC2_table))) [0, 2, 4, 6] 8"
  "comp_maskr1 = table_of (sevens (map (\<lambda>s. s - 28) (drop 24 PC2_table))) [1, 3, 5, 7] 16"
  by code_simp+

definition psbox_of :: "u32 list list \<Rightarrow> nat list list list \<Rightarrow> u32 list list" where
  "psbox_of pt st = map2 (\<lambda>p s. concat (map (\<lambda>a. concat (map2 (\<lambda>x y. [p ! x, p ! y]) (s ! (2 * a)) (s ! (2 * a + 1)))) [0, 1])) pt st"

definition S_flat :: "nat list list \<Rightarrow> nat list" where
  "S_flat s = concat (map (\<lambda>a. concat (map2 (\<lambda>x y. [x, y]) (s ! (2 * a)) (s ! (2 * a + 1)))) [0, 1])"

lemma psbox_of: "psbox = psbox_of (table_of (nibbles P_table) [0..<8] 16) S_box"
  by code_simp

lemma S_val_all: "map (\<lambda>i. map (S_val i) [0..<64]) [0..<8] = map S_flat S_box"
  by code_simp

lemma S_flat_less: "list_all (\<lambda>s. length (S_flat s) = 64 \<and> list_all (\<lambda>x. x < 16) (S_flat s)) S_box"
  by code_simp

lemma length_S_box [simp]: "length S_box = 8"
  by (simp add: S_box_def)

lemma S_flat_val: "i < 8 \<Longrightarrow> S_flat (S_box ! i) = map (S_val i) [0..<64]"
  using arg_cong [OF S_val_all, of "\<lambda>t. t ! i"] by simp

lemma S_val_less: "i < 8 \<Longrightarrow> v < 64 \<Longrightarrow> S_val i v < 16"
  using S_flat_less S_flat_val [of i] by (auto simp: list_all_length)

lemma map_pairs: "concat (map2 (\<lambda>x y. [f x, f y]) xs ys) = map f (concat (map2 (\<lambda>x y. [x, y]) xs ys))"
  by (induction xs ys rule: list_induct2') auto

lemma psbox_of_nth:
  "i < length pt \<Longrightarrow> i < length st \<Longrightarrow> psbox_of pt st ! i = map ((!) (pt ! i)) (S_flat (st ! i))"
  by (simp add: psbox_of_def S_flat_def map_pairs [where f = "(!) (pt ! i)"])

lemma psbox_sel:
  assumes "i < 8" "v < 64"
  shows "psbox ! i ! v = sel (nibbles P_table) i (S_val i v)"
proof -
  let ?pt = "table_of (nibbles P_table) [0..<8] 16"
  have len: "length ?pt = 8" by (simp add: table_of_def)
  have "psbox ! i = map ((!) (?pt ! i)) (S_flat (S_box ! i))"
    unfolding psbox_of using len assms(1) by (intro psbox_of_nth) simp_all
  then have "psbox ! i ! v = ?pt ! i ! S_val i v"
    using assms by (simp add: S_flat_val)
  then show ?thesis using assms S_val_less [OF assms] by (simp add: table_of_nth)
qed

text \<open>What \<open>sel\<close> is, bit by bit.\<close>

lemma bit_double_plus:
  "bit (2 * w + (if b then 1 else 0) :: u32) k \<longleftrightarrow> k < 32 \<and> (if k = 0 then b else bit w (k - 1))"
proof -
  have "2 * w + (if b then 1 else 0) = or (push_bit 1 w) (of_nat (of_bool b))"
    using or_push_bit_of_nat [of "of_bool b" 1 w] by (simp add: mult.commute)
  then show ?thesis by (simp only: bit_or_iff bit_push_bit_iff) (auto simp: bit_simps)
qed

lemma sel_append: "sel (src @ [(c, p)]) m v = 2 * sel src m v + (if c = m \<and> odd (v div 2 ^ p) then 1 else 0)"
  by (simp add: sel_def)

lemma bit_sel:
  "length src \<le> 32 \<Longrightarrow> bit (sel src m v) k \<longleftrightarrow>
    k < length src \<and> fst (src ! (length src - 1 - k)) = m \<and> bit v (snd (src ! (length src - 1 - k)))"
proof (induction src arbitrary: k rule: rev_induct)
  case Nil
  then show ?case by (simp add: sel_def)
next
  case (snoc x src)
  obtain c p where x: "x = (c, p)" by (cases x)
  show ?case
  proof (cases k)
    case 0
    then show ?thesis using snoc.prems by (simp add: x sel_append bit_double_plus nth_append bit_iff_odd)
  next
    case (Suc j)
    have "bit (sel (src @ [x]) m v) k \<longleftrightarrow> bit (sel src m v) j \<and> k < 32"
      unfolding x sel_append bit_double_plus Suc by auto
    moreover have "(src @ [x]) ! (length (src @ [x]) - 1 - k) = src ! (length src - 1 - j)" if "j < length src"
      using that by (auto simp: Suc nth_append)
    moreover have "length src \<le> 32" "k < length (src @ [x]) \<longleftrightarrow> j < length src" "j < length src \<Longrightarrow> k < 32"
      using snoc.prems Suc by simp_all
    ultimately show ?thesis using snoc.IH [of j] by metis
  qed
qed

end
