(* ===== verification/Des.thy ===== *)
theory Des
  imports Des_Tables
begin

text \<open>
  The block cipher of \<open>src/musl-1.2.5/src/crypt/crypt_des.c\<close> (\<open>__des_setkey\<close>, \<open>__do_des\<close>, \<open>des_cipher\<close>) and its use
  in \<open>encrypt.c\<close> (\<open>setkey\<close>, \<open>encrypt\<close>). The code works on 32-bit halves and permutes by looking up the
  contribution of each chunk of a value in a table; the expansion, the S-boxes, the salt of
  \<open>crypt\<close> and the iteration without the permutations in between are all done on words.

  Shown here: for every key, block, salt and number of iterations the code computes the cipher of the
  standard (FIPS 46-3), stated on lists of bits with the tables of the standard, with the salt exchanging
  outputs of the expansion; decryption with the reversed keys undoes encryption.
\<close>

section \<open>The code\<close>

record expanded_key =
  ek_l :: "u32 list"
  ek_r :: "u32 list"

text \<open>Four bytes from offset \<open>i\<close>, the first one most significant.\<close>

definition rawword :: "bytes \<Rightarrow> nat \<Rightarrow> u32" where
  "rawword b i = or (or (or (ucast (b ! (i + 3))) (push_bit 8 (ucast (b ! (i + 2))))) (push_bit 16 (ucast (b ! (i + 1))))) (push_bit 24 (ucast (b ! i)))"

text \<open>\<open>table[i][(w >> ibit) & mask]\<close>.\<close>

definition tab_at :: "u32 list list \<Rightarrow> nat \<Rightarrow> u32 \<Rightarrow> nat \<Rightarrow> u32 \<Rightarrow> u32" where
  "tab_at T i w ibit m = T ! i ! unat (and (drop_bit ibit w) m)"

text \<open>The key permutation and the compression of \<open>__des_setkey\<close>.\<close>

definition key_perm :: "u32 \<Rightarrow> u32 \<Rightarrow> u32 \<times> u32" where
  "key_perm rawkey0 rawkey1 = foldl (\<lambda>(k0, k1) i.
     let ibit = 28 - 8 * i; j = 2 * i;
         k0 = or k0 (or (tab_at key_perm_maskl i rawkey0 ibit 0xf) (tab_at key_perm_maskl (i + 4) rawkey1 ibit 0xf));
         k1 = or k1 (tab_at key_perm_maskr j rawkey0 ibit 0xf);
         ibit = ibit - 4;
         k1 = or k1 (or (tab_at key_perm_maskr (j + 1) rawkey0 ibit 0xf) (tab_at key_perm_maskr (i + 8) rawkey1 ibit 0xf))
     in (k0, k1)) (0, 0) [0..<4]"

definition key_comp :: "u32 \<Rightarrow> u32 \<Rightarrow> u32 \<times> u32" where
  "key_comp t0 t1 = foldl (\<lambda>(kl, kr) i.
     let ibit = 25 - 7 * i;
         kl = or kl (tab_at comp_maskl0 i t0 ibit 7);
         kr = or kr (tab_at comp_maskr0 i t1 ibit 7);
         ibit = ibit - 4;
         kl = or kl (tab_at comp_maskl1 i t0 ibit 0xf);
         kr = or kr (tab_at comp_maskr1 i t1 ibit 0xf)
     in (kl, kr)) (0, 0) [0..<4]"

fun key_rounds :: "u32 \<Rightarrow> u32 \<Rightarrow> nat \<Rightarrow> nat list \<Rightarrow> (u32 \<times> u32) list" where
  "key_rounds k0 k1 shifts [] = []"
| "key_rounds k0 k1 shifts (s # ss) =
     (let shifts = shifts + s;
          t0 = or (push_bit shifts k0) (drop_bit (28 - shifts) k0);
          t1 = or (push_bit shifts k1) (drop_bit (28 - shifts) k1)
      in key_comp t0 t1 # key_rounds k0 k1 shifts ss)"

definition des_setkey :: "bytes \<Rightarrow> expanded_key" where
  "des_setkey key =
     (let rawkey0 = rawword key 0; rawkey1 = rawword key 4;
          (k0, k1) = key_perm rawkey0 rawkey1;
          ks = key_rounds k0 k1 0 key_shifts
      in \<lparr>ek_l = map fst ks, ek_r = map snd ks\<rparr>)"

text \<open>The permutations of \<open>__do_des\<close>.\<close>

definition ip_perm :: "u32 \<Rightarrow> u32 \<Rightarrow> u32 \<times> u32" where
  "ip_perm l_in r_in = (if or l_in r_in \<noteq> 0 then
     foldl (\<lambda>(l, r) i. let ibit = 28 - 4 * i in
       (or l (or (tab_at ip_maskl i l_in ibit 0xf) (tab_at ip_maskl (i + 8) r_in ibit 0xf)),
        or r (or (tab_at ip_maskr i l_in ibit 0xf) (tab_at ip_maskr (i + 8) r_in ibit 0xf)))) (0, 0) [0..<8]
     else (0, 0))"

definition fp_perm :: "u32 \<Rightarrow> u32 \<Rightarrow> u32 \<times> u32" where
  "fp_perm l r = foldl (\<lambda>(lo, ro) i.
     let ibit = 28 - 8 * i;
         ro = or ro (or (tab_at fp_maskr i l ibit 0xf) (tab_at fp_maskr (i + 4) r ibit 0xf));
         ibit = ibit - 4;
         lo = or lo (or (tab_at fp_maskl i l ibit 0xf) (tab_at fp_maskl (i + 4) r ibit 0xf))
     in (lo, ro)) (0, 0) [0..<4]"

text \<open>One round: the expansion, the salt, the key, and the S-boxes with the P permutation.\<close>

definition expand_l :: "u32 \<Rightarrow> u32" where
  "expand_l r = or (or (or (or (push_bit 23 (and r 0x00000001)) (drop_bit 9 (and r 0xf8000000)))
     (drop_bit 11 (and r 0x1f800000))) (drop_bit 13 (and r 0x01f80000))) (drop_bit 15 (and r 0x001f8000))"

definition expand_r :: "u32 \<Rightarrow> u32" where
  "expand_r r = or (or (or (or (push_bit 7 (and r 0x0001f800)) (push_bit 5 (and r 0x00001f80)))
     (push_bit 3 (and r 0x000001f8))) (push_bit 1 (and r 0x0000001f))) (drop_bit 31 (and r 0x80000000))"

definition des_sp :: "u32 \<Rightarrow> u32 \<Rightarrow> u32" where
  "des_sp r48l r48r =
     or (or (or (or (or (or (or (psbox ! 0 ! unat (drop_bit 18 r48l)) (tab_at psbox 1 r48l 12 0x3f)) (tab_at psbox 2 r48l 6 0x3f))
       (tab_at psbox 3 r48l 0 0x3f)) (psbox ! 4 ! unat (drop_bit 18 r48r))) (tab_at psbox 5 r48r 12 0x3f))
       (tab_at psbox 6 r48r 6 0x3f)) (tab_at psbox 7 r48r 0 0x3f)"

definition des_round :: "u32 \<Rightarrow> u32 \<times> u32 \<Rightarrow> u32 \<times> u32 \<Rightarrow> u32 \<times> u32" where
  "des_round saltbits = (\<lambda>(l, r) (kl, kr).
     let r48l = expand_l r; r48r = expand_r r;
         f = and (xor r48l r48r) saltbits;
         r48l = xor r48l (xor f kl);
         r48r = xor r48r (xor f kr);
         f = des_sp r48l r48r;
         f = xor f l
     in (r, f))"

definition des_rounds :: "u32 \<Rightarrow> expanded_key \<Rightarrow> u32 \<times> u32 \<Rightarrow> u32 \<times> u32" where
  "des_rounds saltbits ekey lr = prod.swap (foldl (des_round saltbits) lr (zip (ek_l ekey) (ek_r ekey)))"

definition do_des :: "u32 \<Rightarrow> u32 \<Rightarrow> u32 \<Rightarrow> u32 \<Rightarrow> expanded_key \<Rightarrow> u32 \<times> u32" where
  "do_des l_in r_in count saltbits ekey =
     (let (l, r) = (des_rounds saltbits ekey ^^ unat count) (ip_perm l_in r_in) in fp_perm l r)"

definition des_cipher :: "bytes \<Rightarrow> u32 \<Rightarrow> u32 \<Rightarrow> expanded_key \<Rightarrow> bytes" where
  "des_cipher inp count saltbits ekey =
     (let (l_out, r_out) = do_des (rawword inp 0) (rawword inp 4) count saltbits ekey
      in [ucast (drop_bit 24 l_out), ucast (drop_bit 16 l_out), ucast (drop_bit 8 l_out), ucast l_out,
          ucast (drop_bit 24 r_out), ucast (drop_bit 16 r_out), ucast (drop_bit 8 r_out), ucast r_out])"

section \<open>\<open>encrypt.c\<close>\<close>

text \<open>The characters of the key and of the block are bits, of which the lowest bit counts.\<close>

definition pack_bits :: "nat \<Rightarrow> bytes \<Rightarrow> 'w::len word" where
  "pack_bits n cs = foldl (\<lambda>b j. or b (push_bit (n - 1 - j) (ucast (and (cs ! j) 1)))) 0 [0..<n]"

definition setkey :: "bytes \<Rightarrow> expanded_key" where
  "setkey key = des_setkey (map (\<lambda>i. pack_bits 8 (drop (8 * i) key)) [0..<8])"

definition encrypt :: "expanded_key \<Rightarrow> bytes \<Rightarrow> bool \<Rightarrow> bytes" where
  "encrypt ekey block edflag =
     (let b0 = pack_bits 32 block; b1 = pack_bits 32 (drop 32 block);
          key = (if edflag then \<lparr>ek_l = map (\<lambda>i. ek_l ekey ! (15 - i)) [0..<16], ek_r = map (\<lambda>i. ek_r ekey ! (15 - i)) [0..<16]\<rparr> else ekey);
          (b0, b1) = do_des b0 b1 1 0 key
      in concat (map (\<lambda>b. map (\<lambda>i. and (ucast (drop_bit (31 - i) b)) 1) [0..<32]) [b0, b1]))"

section \<open>The standard\<close>

definition permute :: "nat list \<Rightarrow> bool list \<Rightarrow> bool list" where
  "permute tab bs = map (\<lambda>s. bs ! (s - 1)) tab"

definition xor_bits :: "bool list \<Rightarrow> bool list \<Rightarrow> bool list" where
  "xor_bits = map2 (\<noteq>)"

definition bits_val :: "bool list \<Rightarrow> nat" where
  "bits_val bs = foldl (\<lambda>n b. 2 * n + of_bool b) 0 bs"

definition nibble_bits :: "nat \<Rightarrow> bool list" where
  "nibble_bits n = map (\<lambda>p. bit n p) [3, 2, 1, 0]"

definition s_boxes :: "bool list \<Rightarrow> bool list" where
  "s_boxes bs = concat (map (\<lambda>i. nibble_bits (S_val i (bits_val (take 6 (drop (6 * i) bs))))) [0..<8])"

text \<open>The salt exchanges output \<open>i\<close> and output \<open>i + 24\<close> of the expansion.\<close>

definition salted :: "bool list \<Rightarrow> bool list \<Rightarrow> bool list" where
  "salted salt e = map (\<lambda>i. if salt ! (i mod 24) then e ! ((i + 24) mod 48) else e ! i) [0..<48]"

definition cipher_f :: "bool list \<Rightarrow> bool list \<Rightarrow> bool list \<Rightarrow> bool list" where
  "cipher_f salt R K = permute P_table (s_boxes (xor_bits (salted salt (permute E_table R)) K))"

definition feistel :: "bool list \<Rightarrow> bool list \<times> bool list \<Rightarrow> bool list \<Rightarrow> bool list \<times> bool list" where
  "feistel salt = (\<lambda>(L, R) K. (R, xor_bits L (cipher_f salt R K)))"

definition des_block :: "bool list list \<Rightarrow> bool list \<Rightarrow> bool list \<Rightarrow> bool list" where
  "des_block Ks salt block =
     (let b = permute IP_table block;
          (L, R) = foldl (feistel salt) (take 32 b, drop 32 b) Ks
      in permute FP_table (R @ L))"

fun shift_keys :: "bool list \<Rightarrow> bool list \<Rightarrow> nat list \<Rightarrow> bool list list" where
  "shift_keys C D [] = []"
| "shift_keys C D (s # ss) =
     (let C = rotate s C; D = rotate s D in permute PC2_table (C @ D) # shift_keys C D ss)"

definition key_schedule :: "bool list \<Rightarrow> bool list list" where
  "key_schedule key = (let cd = permute PC1_table key
     in shift_keys (take 28 cd) (drop 28 cd) [1, 1, 2, 2, 2, 2, 2, 2, 1, 2, 2, 2, 2, 2, 2, 1])"

text \<open>The bits of a word, most significant first.\<close>

definition bits :: "nat \<Rightarrow> 'w::len word \<Rightarrow> bool list" where
  "bits n w = map (bit w) (rev [0..<n])"

section \<open>Looking up is permuting\<close>

lemma length_bits [simp]: "length (bits n w) = n"
  by (simp add: bits_def)

lemma nth_bits [simp]: "i < n \<Longrightarrow> bits n w ! i = bit w (n - 1 - i)"
  by (simp add: bits_def rev_nth)

lemma bits_eqI: "length bs = n \<Longrightarrow> (\<And>k. k < n \<Longrightarrow> bit w k = bs ! (n - 1 - k)) \<Longrightarrow> bits n w = bs"
  by (rule nth_equalityI) simp_all

lemma length_permute [simp]: "length (permute tab bs) = length tab"
  by (simp add: permute_def)

lemma nth_permute [simp]: "i < length tab \<Longrightarrow> permute tab bs ! i = bs ! (tab ! i - 1)"
  by (simp add: permute_def)

lemma foldl_pair: "foldl (\<lambda>(a, b) i. (F a i, G b i)) (a0, b0) xs = (foldl F a0 xs, foldl G b0 xs)"
  by (induction xs arbitrary: a0 b0) auto

lemma bit_foldl_or: "bit (foldl (\<lambda>a i. or a (h i)) a0 xs) k \<longleftrightarrow> bit a0 k \<or> (\<exists>i \<in> set xs. bit (h i) k)" for a0 :: u32
  by (induction xs arbitrary: a0) (auto simp: bit_or_iff)

text \<open>The chunks of a word.\<close>

definition chunk :: "nat \<Rightarrow> nat \<Rightarrow> u32 \<Rightarrow> nat" where
  "chunk ibit n w = unat (take_bit n (drop_bit ibit w))"

lemma mask_chunk:
  "unat (and (drop_bit ibit w) 0xf) = chunk ibit 4 w" "unat (and (drop_bit ibit w) 7) = chunk ibit 3 w"
  "unat (and (drop_bit ibit w) 0x3f) = chunk ibit 6 w"
  by (simp_all add: chunk_def take_bit_eq_mask mask_eq_exp_minus_1)

lemma bit_chunk: "bit (chunk ibit n w) p \<longleftrightarrow> p < n \<and> bit w (ibit + p)"
  by (auto simp: chunk_def bit_unsigned_iff bit_take_bit_iff bit_drop_bit_eq dest: bit_imp_le_length)

lemma chunk_less: "chunk ibit n w < 2 ^ n"
  unfolding chunk_def unsigned_take_bit_eq by (rule take_bit_nat_less_exp)

lemma chunk_less16 [simp]: "chunk ibit 4 w < 16" "chunk ibit 3 w < 8" "chunk ibit 6 w < 64"
  using chunk_less [of ibit 4 w] chunk_less [of ibit 3 w] chunk_less [of ibit 6 w] by simp_all

text \<open>A word put together from the contributions of the chunks \<open>M\<close> with the values \<open>nv\<close>.\<close>

lemma sel_union:
  assumes "length src \<le> 32" "\<forall>x \<in> set src. fst x \<in> M"
  shows "(\<exists>m \<in> M. bit (sel src m (nv m)) k) \<longleftrightarrow>
    k < length src \<and> bit (nv (fst (src ! (length src - 1 - k)))) (snd (src ! (length src - 1 - k)))"
proof -
  have "fst (src ! (length src - 1 - k)) \<in> M" if "k < length src" using assms(2) that by auto
  then show ?thesis using bit_sel [OF assms(1)] by auto
qed

lemma bits_sel:
  assumes "\<And>k. bit W k \<longleftrightarrow> (\<exists>m \<in> M. bit (sel src m (nv m)) k)" "length src = length tab"
    and "length tab \<le> 32" "\<forall>x \<in> set src. fst x \<in> M"
    and "\<And>i. i < length tab \<Longrightarrow> bs ! (tab ! i - 1) = bit (nv (fst (src ! i))) (snd (src ! i))"
  shows "bits (length tab) W = permute tab bs" "bit W k \<Longrightarrow> k < length tab"
proof -
  have W: "bit W k \<longleftrightarrow> k < length tab \<and> bit (nv (fst (src ! (length tab - 1 - k)))) (snd (src ! (length tab - 1 - k)))" for k
    using assms(1-4) sel_union [of src M nv k] by simp
  then show "bits (length tab) W = permute tab bs" using assms(5) by (intro bits_eqI) simp_all
  show "bit W k \<Longrightarrow> k < length tab" using W [of k] by blast
qed

lemma bits_permute:
  assumes "\<And>k. bit W k \<longleftrightarrow> (\<exists>m \<in> M. bit (sel (nibbles tab) m (nv m)) k)"
    and "length tab \<le> 32" "\<forall>s \<in> set tab. (s - 1) div 4 \<in> M"
    and "\<forall>s \<in> set tab. bs ! (s - 1) = bit (nv ((s - 1) div 4)) (3 - (s - 1) mod 4)"
  shows "bits (length tab) W = permute tab bs" "bit W k \<Longrightarrow> k < length tab"
  using assms bits_sel [OF assms(1), of tab bs] by (auto simp: nibbles_def)

text \<open>The nibbles of two words.\<close>

definition nib2 :: "u32 \<Rightarrow> u32 \<Rightarrow> nat \<Rightarrow> nat" where
  "nib2 l r m = (if m < 8 then chunk (28 - 4 * m) 4 l else chunk (28 - 4 * (m - 8)) 4 r)"

lemma nib2_bits:
  assumes "s < 64"
  shows "(bits 32 l @ bits 32 r) ! s = bit (nib2 l r (s div 4)) (3 - s mod 4)"
proof -
  have idx: "28 - 4 * (t div 4) + (3 - t mod 4) = 31 - t" if "t < 32" for t :: nat
  proof -
    have "t = 4 * (t div 4) + t mod 4" "t mod 4 < 4" "t div 4 < 8" using that by simp_all
    then show ?thesis by linarith
  qed
  show ?thesis
  proof (cases "s < 32")
    case True
    then show ?thesis by (auto simp: nib2_def nth_append bit_chunk idx less_mult_imp_div_less)
  next
    case False
    define t where "t = s - 32"
    have t: "s = t + 8 * 4" "t < 32" using False assms by (simp_all add: t_def)
    moreover have "s div 4 = 8 + t div 4" "s mod 4 = t mod 4" unfolding t(1) by (rule div_mult_self1, simp) (rule mod_mult_self1)
    ultimately show ?thesis by (auto simp: nib2_def nth_append bit_chunk idx less_mult_imp_div_less)
  qed
qed

lemma tab_at_sel:
  "i < length ms \<Longrightarrow> tab_at (table_of src ms 16) i w ibit 0xf = sel src (ms ! i) (chunk ibit 4 w)"
  "i < length ms \<Longrightarrow> tab_at (table_of src ms 8) i w ibit 7 = sel src (ms ! i) (chunk ibit 3 w)"
  by (simp_all add: tab_at_def mask_chunk table_of_nth)

text \<open>The initial and the final permutation.\<close>

lemma set_upt8: "(\<exists>m \<in> {0..<16}. P m) \<longleftrightarrow> (\<exists>i \<in> {0..<8}. P i \<or> P (i + 8))" for P :: "nat \<Rightarrow> bool"
proof
  assume "\<exists>m \<in> {0..<16}. P m"
  then obtain m where "m < 16" "P m" by auto
  then show "\<exists>i \<in> {0..<8}. P i \<or> P (i + 8)"
    by (cases "m < 8") (force, force intro!: bexI [of _ "m - 8"])
qed force

lemma ip_words:
  assumes "length tab = 32" "\<forall>s \<in> set tab. 1 \<le> s \<and> s \<le> 64" "T = table_of (nibbles tab) [0..<16] 16"
  shows "bits 32 (foldl (\<lambda>a i. or a (or (tab_at T i l (28 - 4 * i) 0xf) (tab_at T (i + 8) r (28 - 4 * i) 0xf))) 0 [0..<8]) =
    permute tab (bits 32 l @ bits 32 r)"
    (is "bits 32 ?W = _")
proof -
  have "bits (length tab) ?W = permute tab (bits 32 l @ bits 32 r)"
  proof (rule bits_permute(1) [where M = "{0..<16}" and nv = "nib2 l r"])
    fix k
    have "bit ?W k \<longleftrightarrow> (\<exists>i \<in> {0..<8}. bit (sel (nibbles tab) i (nib2 l r i)) k \<or> bit (sel (nibbles tab) (i + 8) (nib2 l r (i + 8))) k)"
      unfolding bit_foldl_or by (auto simp: assms(3) tab_at_sel bit_or_iff nib2_def)
    then show "bit ?W k \<longleftrightarrow> (\<exists>m \<in> {0..<16}. bit (sel (nibbles tab) m (nib2 l r m)) k)" by (simp only: set_upt8)
  next
    show "\<forall>s \<in> set tab. (bits 32 l @ bits 32 r) ! (s - 1) = bit (nib2 l r ((s - 1) div 4)) (3 - (s - 1) mod 4)"
      using assms(2) by (intro ballI nib2_bits) auto
  qed (use assms in auto)
  then show ?thesis by (simp only: assms(1))
qed

lemma IP_table_facts:
  "length (take 32 IP_table) = 32" "length (drop 32 IP_table) = 32" "\<forall>s \<in> set IP_table. 1 \<le> s \<and> s \<le> 64" "length IP_table = 64"
  by (simp_all add: IP_table_def)

lemma ip_perm_bits:
  "bits 32 (fst (ip_perm l r)) @ bits 32 (snd (ip_perm l r)) = permute IP_table (bits 32 l @ bits 32 r)"
proof (cases "or l r = 0")
  case False
  let ?L = "foldl (\<lambda>a i. or a (or (tab_at ip_maskl i l (28 - 4 * i) 0xf) (tab_at ip_maskl (i + 8) r (28 - 4 * i) 0xf))) 0 [0..<8]"
  let ?R = "foldl (\<lambda>a i. or a (or (tab_at ip_maskr i l (28 - 4 * i) 0xf) (tab_at ip_maskr (i + 8) r (28 - 4 * i) 0xf))) 0 [0..<8]"
  have "ip_perm l r = (?L, ?R)"
    unfolding ip_perm_def using False by (simp only: Let_def foldl_pair if_True simp_thms)
  moreover have "bits 32 ?L = permute (take 32 IP_table) (bits 32 l @ bits 32 r)"
    using IP_table_facts by (intro ip_words ip_maskl_sel) (auto dest: in_set_takeD)
  moreover have "bits 32 ?R = permute (drop 32 IP_table) (bits 32 l @ bits 32 r)"
    using IP_table_facts by (intro ip_words ip_maskr_sel) (auto dest: in_set_dropD)
  ultimately show ?thesis by (simp add: permute_def map_append [symmetric] del: map_append)
next
  case True
  then have z: "l = 0" "r = 0" by (auto simp: or_eq_0_iff)
  have zero: "(bits 32 (0 :: u32) @ bits 32 (0 :: u32)) ! i = False" if "i < 64" for i
    using that by (simp add: nth_append)
  have "permute IP_table (bits 32 (0 :: u32) @ bits 32 (0 :: u32)) = replicate 64 False"
  proof (intro nth_equalityI)
    fix i assume "i < length (permute IP_table (bits 32 (0 :: u32) @ bits 32 (0 :: u32)))"
    then have "i < 64" "IP_table ! i \<in> set IP_table" using IP_table_facts(4) by simp_all
    then have "i < 64" "IP_table ! i - 1 < 64" using IP_table_facts(3) by force+
    then show "permute IP_table (bits 32 (0 :: u32) @ bits 32 (0 :: u32)) ! i = replicate 64 False ! i"
      using zero IP_table_facts(4) by simp
  qed (simp add: IP_table_facts)
  moreover have "bits 32 (0 :: u32) = replicate 32 False" by (intro bits_eqI) simp_all
  ultimately show ?thesis by (simp add: ip_perm_def z replicate_add [symmetric])
qed

lemma FP_table_facts:
  "length (take 32 FP_table) = 32" "length (drop 32 FP_table) = 32" "\<forall>s \<in> set FP_table. 1 \<le> s \<and> s \<le> 64" "length FP_table = 64"
  "\<forall>s \<in> set (take 32 FP_table). odd ((s - 1) div 4) \<and> (s - 1) div 4 < 16" "\<forall>s \<in> set (drop 32 FP_table). even ((s - 1) div 4) \<and> (s - 1) div 4 < 16"
  by (simp_all add: FP_table_def)

text \<open>The rows of the final permutation are for every second nibble.\<close>

lemma fp_words:
  fixes l r :: u32
  assumes "length tab \<le> 32" "\<forall>s \<in> set tab. 1 \<le> s \<and> s \<le> 64" "T = table_of (nibbles tab) (map (\<lambda>i. 2 * i + d) [0..<8]) 16" "d < 2"
    and "\<forall>s \<in> set tab. (s - 1) div 4 mod 2 = d"
  defines "W \<equiv> foldl (\<lambda>a i. or a (or (tab_at T i l (28 - 8 * i - 4 * d) 0xf) (tab_at T (i + 4) r (28 - 8 * i - 4 * d) 0xf))) 0 [0..<4]"
  shows "bits (length tab) W = permute tab (bits 32 l @ bits 32 r)" "bit W k \<Longrightarrow> k < length tab"
proof -
  let ?M = "{m. m < 16 \<and> m mod 2 = d}"
  have M: "(\<exists>m \<in> ?M. P m) \<longleftrightarrow> (\<exists>i \<in> {0..<4}. P (2 * i + d) \<or> P (2 * (i + 4) + d))" for P :: "nat \<Rightarrow> bool"
  proof
    assume "\<exists>m \<in> ?M. P m"
    then obtain m where m: "m < 16" "m mod 2 = d" "P m" by auto
    define q where "q = m div 2"
    have q: "m = 2 * q + d" "q < 8" using m mult_div_mod_eq [of 2 m] by (simp_all add: q_def)
    show "\<exists>i \<in> {0..<4}. P (2 * i + d) \<or> P (2 * (i + 4) + d)"
    proof (cases "q < 4")
      case True
      with m q show ?thesis by force
    next
      case False
      then have "m = 2 * (q - 4 + 4) + d" "q - 4 < 4" using q by simp_all
      with m(3) show ?thesis by (metis atLeastLessThan_iff le0)
    qed
  next
    assume "\<exists>i \<in> {0..<4}. P (2 * i + d) \<or> P (2 * (i + 4) + d)"
    then obtain i where "i < 4" "P (2 * i + d) \<or> P (2 * (i + 4) + d)" by auto
    then have "\<exists>q < 8. P (2 * q + d)"
    proof (elim disjE)
      assume "P (2 * i + d)"
      with \<open>i < 4\<close> show ?thesis by (intro exI [of _ i]) simp
    next
      assume "P (2 * (i + 4) + d)"
      with \<open>i < 4\<close> show ?thesis by (intro exI [of _ "i + 4"]) simp
    qed
    then obtain q where "q < 8" "P (2 * q + d)" by blast
    with assms(4) show "\<exists>m \<in> ?M. P m" by (intro bexI [of _ "2 * q + d"]) auto
  qed
  have 1: "bit W k \<longleftrightarrow> (\<exists>m \<in> ?M. bit (sel (nibbles tab) m (nib2 l r m)) k)" for k
  proof -
    have "bit W k \<longleftrightarrow> (\<exists>i \<in> {0..<4}. bit (sel (nibbles tab) (2 * i + d) (nib2 l r (2 * i + d))) k \<or>
        bit (sel (nibbles tab) (2 * (i + 4) + d) (nib2 l r (2 * (i + 4) + d))) k)"
      unfolding bit_foldl_or W_def using assms(4) by (auto simp: assms(3) tab_at_sel bit_or_iff nib2_def algebra_simps diff_diff_add)
    then show ?thesis by (simp only: M)
  qed
  have 2: "\<forall>s \<in> set tab. (bits 32 l @ bits 32 r) ! (s - 1) = bit (nib2 l r ((s - 1) div 4)) (3 - (s - 1) mod 4)"
    using assms(2) by (intro ballI nib2_bits) auto
  have 3: "\<forall>s \<in> set tab. (s - 1) div 4 \<in> ?M"
    using assms(2,5) by (auto simp: less_mult_imp_div_less)
  show "bits (length tab) W = permute tab (bits 32 l @ bits 32 r)" "bit W k \<Longrightarrow> k < length tab"
    using bits_permute [OF 1 assms(1) 3 2] by blast+
qed

lemma fp_rows: "map (\<lambda>i. 2 * i + 0) [0..<8] = [0::nat, 2, 4, 6, 8, 10, 12, 14]" "map (\<lambda>i. 2 * i + 1) [0..<8] = [1::nat, 3, 5, 7, 9, 11, 13, 15]"
  by (simp_all add: upt_rec)

lemma fp_perm_bits:
  "bits 32 (fst (fp_perm l r)) @ bits 32 (snd (fp_perm l r)) = permute FP_table (bits 32 l @ bits 32 r)"
proof -
  let ?L = "foldl (\<lambda>a i. or a (or (tab_at fp_maskl i l (28 - 8 * i - 4 * 1) 0xf) (tab_at fp_maskl (i + 4) r (28 - 8 * i - 4 * 1) 0xf))) 0 [0..<4]"
  let ?R = "foldl (\<lambda>a i. or a (or (tab_at fp_maskr i l (28 - 8 * i - 4 * 0) 0xf) (tab_at fp_maskr (i + 4) r (28 - 8 * i - 4 * 0) 0xf))) 0 [0..<4]"
  have "fp_perm l r = (?L, ?R)"
    unfolding fp_perm_def by (simp only: Let_def foldl_pair mult_1_right mult_zero_right diff_zero)
  moreover have "bits 32 ?L = permute (take 32 FP_table) (bits 32 l @ bits 32 r)"
    using fp_words(1) [OF _ _ fp_maskl_sel [folded fp_rows], of l r] FP_table_facts
    by (simp add: odd_iff_mod_2_eq_one) (meson in_set_takeD)
  moreover have "bits 32 ?R = permute (drop 32 FP_table) (bits 32 l @ bits 32 r)"
    using fp_words(1) [OF _ _ fp_maskr_sel [folded fp_rows], of l r] FP_table_facts
    by (simp add: even_iff_mod_2_eq_zero) (meson in_set_dropD)
  ultimately show ?thesis by (simp add: permute_def map_append [symmetric] del: map_append)
qed

section \<open>The round function\<close>

lemma upt24: "rev [0..<24] = [23, 22, 21, 20, 19, 18, 17, 16, 15, 14, 13, 12, 11, 10, 9, 8, 7, 6, 5, 4, 3, 2, 1, 0::nat]"
  by code_simp

lemma permute_bits32: "\<forall>s \<in> set tab. 1 \<le> s \<and> s \<le> 32 \<Longrightarrow> permute tab (bits 32 r) = map (\<lambda>s. bit r (32 - s)) tab"
  by (auto simp: permute_def)

lemma E_table_bits: "bits 24 (expand_l r) @ bits 24 (expand_r r) = permute E_table (bits 32 r)"
proof -
  have "\<forall>s \<in> set E_table. 1 \<le> s \<and> s \<le> 32" by (simp add: E_table_def)
  then have p: "permute E_table (bits 32 r) = map (\<lambda>s. bit r (32 - s)) E_table" by (rule permute_bits32)
  have "bits 24 (expand_l r) = map (\<lambda>s. bit r (32 - s)) (take 24 E_table)"
    unfolding bits_def upt24 by (simp add: E_table_def expand_l_def bit_simps)
  moreover have "bits 24 (expand_r r) = map (\<lambda>s. bit r (32 - s)) (drop 24 E_table)"
    unfolding bits_def upt24 expand_r_def
    by (simp only: list.map bit_or_iff bit_push_bit_iff bit_drop_bit_eq bit_and_iff) (simp add: E_table_def bit_and_iff)
  ultimately show ?thesis by (simp add: p map_append [symmetric] del: map_append)
qed

lemma expand_less: "bit (expand_l r) k \<Longrightarrow> k < 24" "bit (expand_r r) k \<Longrightarrow> k < 24"
proof -
  have "k < 24" if k: "bit (expand_l r) k \<or> bit (expand_r r) k"
  proof (rule ccontr)
    assume "\<not> k < 24"
    moreover have "k < 32" using k by (auto dest: bit_imp_le_length)
    ultimately consider "k = 24" | "k = 25" | "k = 26" | "k = 27" | "k = 28" | "k = 29" | "k = 30" | "k = 31" by linarith
    then show False using k by cases (simp_all add: expand_l_def expand_r_def bit_simps)
  qed
  then show "bit (expand_l r) k \<Longrightarrow> k < 24" "bit (expand_r r) k \<Longrightarrow> k < 24" by blast+
qed

lemma length_E_table [simp]: "length E_table = 48"
  by (simp add: E_table_def)

text \<open>Words of 24 bits.\<close>

definition w24 :: "u32 \<Rightarrow> bool" where
  "w24 w \<longleftrightarrow> (\<forall>k. bit w k \<longrightarrow> k < 24)"

lemma salted_words:
  fixes salt :: u32
  assumes "w24 a" "w24 b"
  defines "f \<equiv> and (xor a b) salt"
  shows "salted (bits 24 salt) (bits 24 a @ bits 24 b) = bits 24 (xor a f) @ bits 24 (xor b f)" "w24 (xor a f)" "w24 (xor b f)"
proof -
  show "salted (bits 24 salt) (bits 24 a @ bits 24 b) = bits 24 (xor a f) @ bits 24 (xor b f)"
  proof (rule nth_equalityI)
    fix i assume "i < length (salted (bits 24 salt) (bits 24 a @ bits 24 b))"
    then have i: "i < 48" by (simp add: salted_def)
    show "salted (bits 24 salt) (bits 24 a @ bits 24 b) ! i = (bits 24 (xor a f) @ bits 24 (xor b f)) ! i"
    proof (cases "i < 24")
      case True
      then have "i mod 24 = i" "(i + 24) mod 48 = i + 24" by simp_all
      then have "salted (bits 24 salt) (bits 24 a @ bits 24 b) ! i = (if bit salt (23 - i) then bit b (23 - i) else bit a (23 - i))"
        using True i by (simp add: salted_def nth_append)
      then show ?thesis using True by (auto simp: nth_append f_def bit_xor_iff bit_and_iff)
    next
      case False
      define t where "t = i - 24"
      have t: "i = t + 24" "t < 24" using False i by (simp_all add: t_def)
      then have "i mod 24 = t" "(i + 24) mod 48 = t" by simp_all
      then have "salted (bits 24 salt) (bits 24 a @ bits 24 b) ! i = (if bit salt (23 - t) then bit a (23 - t) else bit b (23 - t))"
        using t i by (simp add: salted_def nth_append)
      then show ?thesis using t by (auto simp: nth_append f_def bit_xor_iff bit_and_iff)
    qed
  qed (simp add: salted_def)
  show "w24 (xor a f)" "w24 (xor b f)" using assms(1,2) by (auto simp: w24_def f_def bit_xor_iff bit_and_iff)
qed

lemma xor_bits_words: "xor_bits (bits n a @ bits n b) (bits n c @ bits n d) = bits n (xor a c) @ bits n (xor b d)"
  by (rule nth_equalityI) (auto simp: xor_bits_def nth_append bit_simps)

text \<open>The S-boxes, six bits at a time.\<close>

lemma bits_val_append: "bits_val (bs @ [b]) = 2 * bits_val bs + of_bool b"
  by (simp add: bits_val_def)

lemma bits_val_horner: "bits_val bs = horner_sum of_bool 2 (rev bs)"
  by (induction bs rule: rev_induct) (simp_all add: bits_val_append bits_val_def)

lemma bit_bits_val: "bit (bits_val bs) p \<longleftrightarrow> p < length bs \<and> bs ! (length bs - 1 - p)"
  by (auto simp: bits_val_horner bit_horner_sum_bit_iff rev_nth)

lemma bits_val_chunk:
  assumes "length bs = n" "\<And>p. p < n \<Longrightarrow> bs ! (n - 1 - p) = bit w (ibit + p)"
  shows "bits_val bs = chunk ibit n w"
  using assms by (intro bit_eqI) (auto simp: bit_bits_val bit_chunk)

lemma chunk_top: "w24 w \<Longrightarrow> unat (drop_bit 18 w) = chunk 18 6 w"
  by (intro bit_eqI) (auto simp: bit_chunk bit_unsigned_iff bit_drop_bit_eq w24_def dest: bit_imp_le_length)

definition six :: "u32 \<Rightarrow> u32 \<Rightarrow> nat \<Rightarrow> nat" where
  "six a b i = (if i < 4 then chunk (18 - 6 * i) 6 a else chunk (18 - 6 * (i - 4)) 6 b)"

lemma six_bits:
  assumes "i < 8"
  shows "bits_val (take 6 (drop (6 * i) (bits 24 a @ bits 24 b))) = six a b i"
proof (cases "i < 4")
  case True
  then have "bits_val (take 6 (drop (6 * i) (bits 24 a @ bits 24 b))) = chunk (18 - 6 * i) 6 a"
    by (intro bits_val_chunk) (auto simp: nth_append intro!: arg_cong [where f = "bit a"])
  then show ?thesis using True by (simp add: six_def)
next
  case False
  then have "bits_val (take 6 (drop (6 * i) (bits 24 a @ bits 24 b))) = chunk (18 - 6 * (i - 4)) 6 b"
    using assms by (intro bits_val_chunk) (auto simp: nth_append intro!: arg_cong [where f = "bit b"])
  then show ?thesis using False by (simp add: six_def)
qed

lemma length_s_boxes [simp]: "length (s_boxes bs) = 32"
  by (simp add: s_boxes_def nibble_bits_def length_concat comp_def sum_list_triv)

lemma nth_concat_const:
  assumes "\<And>i. i < n \<Longrightarrow> length (f i) = 4" "t < 4 * n"
  shows "concat (map f [0..<n]) ! t = f (t div 4) ! (t mod 4)"
  using assms
proof (induction n)
  case (Suc n)
  have len: "length (concat (map f [0..<n])) = 4 * n"
  proof -
    have "map (length \<circ> f) [0..<n] = map (\<lambda>_. 4) [0..<n]" using Suc.prems(1) by simp
    then show ?thesis by (simp only: length_concat map_map sum_list_triv) simp
  qed
  show ?case
  proof (cases "t < 4 * n")
    case True
    with Suc len show ?thesis by (simp add: nth_append)
  next
    case False
    then have "t div 4 = n" using Suc.prems(2) by (simp add: div_nat_eqI)
    moreover from this have "t mod 4 = t - 4 * n" using mult_div_mod_eq [of 4 t] by linarith
    ultimately have "t div 4 = n" "t mod 4 = t - 4 * n" .
    with False len show ?thesis by (simp add: nth_append)
  qed
qed simp

lemma nth_s_boxes:
  assumes "t < 32"
  shows "s_boxes bs ! t = bit (S_val (t div 4) (bits_val (take 6 (drop (6 * (t div 4)) bs)))) (3 - t mod 4)"
proof -
  have "nibble_bits n ! k = bit n (3 - k)" if "k < 4" for n k
    using that by (auto simp: nibble_bits_def less_Suc_eq numeral_eq_Suc)
  moreover have "s_boxes bs ! t = nibble_bits (S_val (t div 4) (bits_val (take 6 (drop (6 * (t div 4)) bs)))) ! (t mod 4)"
    unfolding s_boxes_def by (rule nth_concat_const) (use assms in \<open>simp_all add: nibble_bits_def\<close>)
  ultimately show ?thesis by simp
qed

lemma P_table_facts: "length P_table = 32" "\<forall>s \<in> set P_table. 1 \<le> s \<and> s \<le> 32"
  by (simp_all add: P_table_def)

lemma des_sp_bits:
  assumes "w24 a" "w24 b"
  shows "bits 32 (des_sp a b) = permute P_table (s_boxes (bits 24 a @ bits 24 b))"
proof -
  let ?s = "\<lambda>i. psbox ! i ! six a b i"
  have six: "six a b i < 64" for i by (simp add: six_def)
  have "des_sp a b = or (or (or (or (or (or (or (?s 0) (?s 1)) (?s 2)) (?s 3)) (?s 4)) (?s 5)) (?s 6)) (?s 7)"
    by (simp add: des_sp_def tab_at_def mask_chunk mask_chunk(3) [of 0 a, simplified] mask_chunk(3) [of 0 b, simplified] chunk_top [OF assms(1)] chunk_top [OF assms(2)] six_def)
  then have "bit (des_sp a b) k \<longleftrightarrow> (\<exists>i \<in> {0..<8}. bit (?s i) k)" for k
    by (simp add: bit_or_iff atLeastLessThan_nat_numeral) blast
  then have W: "bit (des_sp a b) k \<longleftrightarrow> (\<exists>m \<in> {0..<8}. bit (sel (nibbles P_table) m (S_val m (six a b m))) k)" for k
    using psbox_sel six by (metis (no_types, lifting) atLeastLessThan_iff)
  have "\<forall>s \<in> set P_table. s_boxes (bits 24 a @ bits 24 b) ! (s - 1) = bit (S_val ((s - 1) div 4) (six a b ((s - 1) div 4))) (3 - (s - 1) mod 4)"
  proof
    fix s assume "s \<in> set P_table"
    then have "s - 1 < 32" "(s - 1) div 4 < 8" using P_table_facts(2) by (force, force simp: less_mult_imp_div_less)
    then show "s_boxes (bits 24 a @ bits 24 b) ! (s - 1) = bit (S_val ((s - 1) div 4) (six a b ((s - 1) div 4))) (3 - (s - 1) mod 4)"
      by (simp only: nth_s_boxes six_bits)
  qed
  then have "bits (length P_table) (des_sp a b) = permute P_table (s_boxes (bits 24 a @ bits 24 b))"
    using P_table_facts by (intro bits_permute(1) [OF W]) (auto simp: less_mult_imp_div_less)
  then show ?thesis by (simp only: P_table_facts(1))
qed

text \<open>A round of the code is a round of the standard.\<close>

lemma xor_bits_word: "xor_bits (bits n a) (bits n c) = bits n (xor a c)"
  by (rule nth_equalityI) (auto simp: xor_bits_def bit_xor_iff)

lemma des_round_bits:
  assumes "w24 kl" "w24 kr"
  shows "map_prod (bits 32) (bits 32) (des_round salt (l, r) (kl, kr)) =
    feistel (bits 24 salt) (bits 32 l, bits 32 r) (bits 24 kl @ bits 24 kr)"
proof -
  define a where "a = expand_l r"
  define b where "b = expand_r r"
  define f where "f = and (xor a b) salt"
  have ab: "w24 a" "w24 b" using expand_less by (auto simp: w24_def a_def b_def)
  note s = salted_words [OF ab, of salt, folded f_def]
  have k: "w24 (xor a (xor f kl))" "w24 (xor b (xor f kr))"
    using s(2,3) assms by (auto simp: w24_def bit_xor_iff)
  have "cipher_f (bits 24 salt) (bits 32 r) (bits 24 kl @ bits 24 kr) =
    permute P_table (s_boxes (bits 24 (xor a (xor f kl)) @ bits 24 (xor b (xor f kr))))"
    unfolding cipher_f_def E_table_bits [symmetric] a_def [symmetric] b_def [symmetric] s(1) xor_bits_words
    by (simp only: xor.assoc)
  also have "\<dots> = bits 32 (des_sp (xor a (xor f kl)) (xor b (xor f kr)))" using des_sp_bits [OF k] by simp
  finally show ?thesis
    by (simp add: feistel_def des_round_def Let_def a_def [symmetric] b_def [symmetric] f_def [symmetric] xor_bits_word xor.commute)
qed

lemma des_foldl_bits:
  assumes "\<forall>(kl, kr) \<in> set ks. w24 kl \<and> w24 kr"
  shows "map_prod (bits 32) (bits 32) (foldl (des_round salt) lr ks) =
    foldl (feistel (bits 24 salt)) (map_prod (bits 32) (bits 32) lr) (map (\<lambda>(kl, kr). bits 24 kl @ bits 24 kr) ks)"
  using assms
proof (induction ks arbitrary: lr)
  case (Cons k ks)
  obtain kl kr l r where "k = (kl, kr)" "lr = (l, r)" by (metis surj_pair)
  then show ?case using Cons des_round_bits [of kl kr salt l r] by simp
qed simp

definition lr_bits :: "u32 \<times> u32 \<Rightarrow> bool list" where
  "lr_bits lr = bits 32 (fst lr) @ bits 32 (snd lr)"

definition ekey_ok :: "expanded_key \<Rightarrow> bool" where
  "ekey_ok ek \<longleftrightarrow> length (ek_l ek) = 16 \<and> length (ek_r ek) = 16 \<and> (\<forall>w \<in> set (ek_l ek) \<union> set (ek_r ek). w24 w)"

definition subkeys :: "expanded_key \<Rightarrow> bool list list" where
  "subkeys ek = map2 (\<lambda>kl kr. bits 24 kl @ bits 24 kr) (ek_l ek) (ek_r ek)"

lemma permute_inverse:
  assumes "length tab = n" "length tab' = n" "\<forall>i < n. tab' ! i - 1 < n \<and> tab ! (tab' ! i - 1) = i + 1" "length bs = n"
  shows "permute tab' (permute tab bs) = bs"
  using assms by (intro nth_equalityI) auto

lemma inverse_tables:
  "list_all (\<lambda>i. FP_table ! i - 1 < 64 \<and> IP_table ! (FP_table ! i - 1) = i + 1) [0..<64]"
  "list_all (\<lambda>i. IP_table ! i - 1 < 64 \<and> FP_table ! (IP_table ! i - 1) = i + 1) [0..<64]"
  by code_simp+

lemma IP_FP: "length bs = 64 \<Longrightarrow> permute IP_table (permute FP_table bs) = bs" "length bs = 64 \<Longrightarrow> permute FP_table (permute IP_table bs) = bs"
  using inverse_tables IP_table_facts(4) FP_table_facts(4)
  by (auto intro!: permute_inverse [where n = 64] simp: list_all_iff)

lemma length_lr_bits [simp]: "length (lr_bits lr) = 64"
  by (simp add: lr_bits_def)

text \<open>The whole cipher: the permutations between the iterations cancel.\<close>

lemma des_rounds_bits:
  assumes "ekey_ok ek" "lr_bits lr = permute IP_table block" "length block = 64"
  shows "lr_bits (des_rounds salt ek lr) = permute IP_table (des_block (subkeys ek) (bits 24 salt) block)"
proof -
  let ?ks = "zip (ek_l ek) (ek_r ek)"
  have ks: "\<forall>(kl, kr) \<in> set ?ks. w24 kl \<and> w24 kr"
    using assms(1) by (auto simp: ekey_ok_def dest: set_zip_leftD set_zip_rightD)
  have sk: "map (\<lambda>(kl, kr). bits 24 kl @ bits 24 kr) ?ks = subkeys ek" by (simp add: subkeys_def)
  obtain L R where LR: "foldl (des_round salt) lr ?ks = (L, R)" by (metis surj_pair)
  have "(take 32 (permute IP_table block), drop 32 (permute IP_table block)) = map_prod (bits 32) (bits 32) lr"
    by (simp add: assms(2) [symmetric] lr_bits_def map_prod_def split: prod.splits)
  then have "foldl (feistel (bits 24 salt)) (take 32 (permute IP_table block), drop 32 (permute IP_table block)) (subkeys ek) = (bits 32 L, bits 32 R)"
    using des_foldl_bits [OF ks, of salt lr] by (simp add: sk LR)
  then have "des_block (subkeys ek) (bits 24 salt) block = permute FP_table (bits 32 R @ bits 32 L)"
    by (simp add: des_block_def Let_def)
  then show ?thesis by (simp add: des_rounds_def LR lr_bits_def IP_FP)
qed

lemma do_des_bits:
  assumes "ekey_ok ek"
  shows "lr_bits (do_des l r count salt ek) = (des_block (subkeys ek) (bits 24 salt) ^^ unat count) (lr_bits (l, r))"
proof -
  let ?D = "des_block (subkeys ek) (bits 24 salt)"
  have len: "length (?D b) = 64" for b
    by (simp add: des_block_def Let_def FP_table_facts split: prod.splits)
  have lenn: "length ((?D ^^ n) (lr_bits (l, r))) = 64" for n
    by (induction n) (simp_all add: len)
  have "lr_bits ((des_rounds salt ek ^^ n) (ip_perm l r)) = permute IP_table ((?D ^^ n) (lr_bits (l, r)))" for n
  proof (induction n)
    case 0
    show ?case using ip_perm_bits [of l r] by (simp add: lr_bits_def)
  next
    case (Suc n)
    then show ?case using des_rounds_bits [OF assms Suc lenn, of salt] by simp
  qed
  moreover obtain l' r' where "(des_rounds salt ek ^^ unat count) (ip_perm l r) = (l', r')" by (metis surj_pair)
  ultimately show ?thesis
    using fp_perm_bits [of l' r'] lenn IP_FP(2) by (simp add: do_des_def lr_bits_def) (metis fst_conv snd_conv)
qed

section \<open>The key schedule\<close>

lemma bit_rawword:
  assumes "k < 32"
  shows "bit (rawword b i) k = bit (b ! (i + 3 - k div 8)) (k mod 8)"
proof -
  have "bit (x :: u8) n \<longleftrightarrow> n < 8 \<and> bit x n" for x n using bit_imp_le_length [of x n] by auto
  then have "bit (rawword b i) k \<longleftrightarrow> k < 8 \<and> bit (b ! (i + 3)) k \<or> 8 \<le> k \<and> k < 16 \<and> bit (b ! (i + 2)) (k - 8) \<or>
    16 \<le> k \<and> k < 24 \<and> bit (b ! (i + 1)) (k - 16) \<or> 24 \<le> k \<and> bit (b ! i) (k - 24)"
    unfolding rawword_def bit_or_iff bit_push_bit_iff bit_ucast_iff using assms by (auto dest: bit_imp_le_length)
  moreover have "k div 8 = 0 \<and> k mod 8 = k" if "k < 8" using that by simp
  moreover have "k div 8 = 1 \<and> k mod 8 = k - 8" if "8 \<le> k" "k < 16" using that by (auto simp: div_nat_eqI le_mod_geq)
  moreover have "k div 8 = 2 \<and> k mod 8 = k - 16" if "16 \<le> k" "k < 24" using that by (auto simp: div_nat_eqI le_mod_geq)
  moreover have "k div 8 = 3 \<and> k mod 8 = k - 24" if "24 \<le> k" using that assms by (auto simp: div_nat_eqI le_mod_geq)
  ultimately show ?thesis by (cases "k < 8"; cases "k < 16"; cases "k < 24") auto
qed

lemma length_concat8: "\<forall>x \<in> set xss. length x = 8 \<Longrightarrow> length (concat xss) = 8 * length xss"
  by (induction xss) auto

lemma nth_concat8:
  "\<forall>x \<in> set xss. length x = 8 \<Longrightarrow> t < 8 * length xss \<Longrightarrow> concat xss ! t = xss ! (t div 8) ! (t mod 8)"
proof (induction xss arbitrary: t)
  case (Cons x xss)
  show ?case
  proof (cases "t < 8")
    case False
    then obtain u where "t = u + 8" by (metis add.commute le_Suc_ex linorder_not_less)
    moreover have "(u + 8) div 8 = Suc (u div 8)" by (simp add: div_add_self2)
    ultimately show ?thesis using Cons by (simp add: nth_append)
  qed (use Cons in \<open>simp add: nth_append\<close>)
qed simp

lemma rawword_bits:
  assumes "length key = 8"
  shows "bits 32 (rawword key 0) @ bits 32 (rawword key 4) = concat (map (bits 8) key)"
proof (rule nth_equalityI)
  show "length (bits 32 (rawword key 0) @ bits 32 (rawword key 4)) = length (concat (map (bits 8) key))"
    using assms length_concat8 [of "map (bits 8) key"] by simp
  fix t assume "t < length (bits 32 (rawword key 0) @ bits 32 (rawword key 4))"
  then have t: "t < 64" by simp
  have "concat (map (bits 8) key) ! t = bit (key ! (t div 8)) (7 - t mod 8)"
    using nth_concat8 [of "map (bits 8) key" t] t assms by (simp add: less_mult_imp_div_less)
  moreover have idx: "3 - (31 - u) div 8 = u div 8 \<and> (31 - u) mod 8 = 7 - u mod 8 \<and> (31 - u) div 8 \<le> 3" if "u < 32" for u :: nat
  proof -
    define q m where "q = u div 8" and "m = u mod 8"
    have "u = 8 * q + m" "m < 8" "q < 4" using that by (simp_all add: q_def m_def)
    then have "31 - u = 8 * (3 - q) + (7 - m)" "7 - m < 8" by simp_all
    then have "(31 - u) div 8 = 3 - q" "(31 - u) mod 8 = 7 - m" by (simp_all add: div_nat_eqI)
    then show ?thesis using \<open>q < 4\<close> by (simp add: q_def m_def)
  qed
  moreover have "(bits 32 (rawword key 0) @ bits 32 (rawword key 4)) ! t = bit (key ! (t div 8)) (7 - t mod 8)"
  proof (cases "t < 32")
    case True
    then show ?thesis using idx [OF True] by (simp add: nth_append bit_rawword)
  next
    case False
    define u where "u = t - 32"
    have u: "t = u + 4 * 8" "u < 32" using False t by (simp_all add: u_def)
    have "t div 8 = 4 + u div 8" "t mod 8 = u mod 8" unfolding u(1) by (rule div_mult_self1, simp) (rule mod_mult_self1)
    moreover have "4 + 3 - (31 - u) div 8 = 4 + u div 8" using idx [OF u(2)] by linarith
    ultimately show ?thesis using u idx [OF u(2)] by (simp add: nth_append bit_rawword)
  qed
  ultimately show "(bits 32 (rawword key 0) @ bits 32 (rawword key 4)) ! t = concat (map (bits 8) key) ! t" by simp
qed

lemma PC1_facts:
  "length (take 28 PC1_table) = 28" "length (drop 28 PC1_table) = 28" "\<forall>s \<in> set PC1_table. 1 \<le> s \<and> s \<le> 64"
  "\<forall>s \<in> set (take 28 PC1_table). (s - 1) div 4 mod 2 = 0"
  "\<forall>s \<in> set (drop 28 PC1_table). (s - 1) div 4 \<in> {0, 1, 2, 3, 4, 5, 6, 7, 9, 11, 13, 15}"
  by (simp_all add: PC1_table_def)

lemma key_perm_words:
  defines "W0 \<equiv> \<lambda>a b. foldl (\<lambda>a' i. or a' (or (tab_at key_perm_maskl i a (28 - 8 * i - 4 * 0) 0xf) (tab_at key_perm_maskl (i + 4) b (28 - 8 * i - 4 * 0) 0xf))) 0 [0..<4]"
    and "W1 \<equiv> \<lambda>a b. foldl (\<lambda>a' i. or (or a' (tab_at key_perm_maskr (2 * i) a (28 - 8 * i) 0xf))
      (or (tab_at key_perm_maskr (2 * i + 1) a (28 - 8 * i - 4) 0xf) (tab_at key_perm_maskr (i + 8) b (28 - 8 * i - 4) 0xf))) 0 [0..<4]"
  shows "key_perm a b = (W0 a b, W1 a b)"
    and "bits 28 (W0 a b) = permute (take 28 PC1_table) (bits 32 a @ bits 32 b)" "bit (W0 a b) k \<Longrightarrow> k < 28"
    and "bits 28 (W1 a b) = permute (drop 28 PC1_table) (bits 32 a @ bits 32 b)" "bit (W1 a b) k \<Longrightarrow> k < 28"
proof -
  show "key_perm a b = (W0 a b, W1 a b)"
    unfolding key_perm_def W0_def W1_def by (simp only: Let_def foldl_pair mult_zero_right diff_zero)
  have s: "\<forall>s \<in> set (take 28 PC1_table). 1 \<le> s \<and> s \<le> 64" "\<forall>s \<in> set (drop 28 PC1_table). 1 \<le> s \<and> s \<le> 64"
    using PC1_facts(3) by (meson in_set_takeD in_set_dropD)+
  have l: "length (take 28 PC1_table) \<le> 32" "length (drop 28 PC1_table) \<le> 32" by (simp_all only: PC1_facts)
  note fw = fp_words [OF l(1) s(1) key_perm_maskl_sel [folded fp_rows] _ PC1_facts(4), of a b, unfolded PC1_facts(1)]
  show "bits 28 (W0 a b) = permute (take 28 PC1_table) (bits 32 a @ bits 32 b)" "bit (W0 a b) k \<Longrightarrow> k < 28"
    unfolding W0_def using fw by simp_all
  let ?M = "{0, 1, 2, 3, 4, 5, 6, 7, 9, 11, 13, 15} :: nat set" and ?src = "nibbles (drop 28 PC1_table)"
  have 1: "bit (W1 a b) k \<longleftrightarrow> (\<exists>m \<in> ?M. bit (sel ?src m (nib2 a b m)) k)" for k
    unfolding W1_def key_perm_maskr_sel
    by (simp add: upt_rec tab_at_sel bit_or_iff nib2_def) blast
  have 2: "\<forall>s \<in> set (drop 28 PC1_table). (bits 32 a @ bits 32 b) ! (s - 1) = bit (nib2 a b ((s - 1) div 4)) (3 - (s - 1) mod 4)"
    using s(2) by (intro ballI nib2_bits) auto
  note bp = bits_permute [OF 1 l(2) PC1_facts(5) 2, unfolded PC1_facts(2)]
  show "bits 28 (W1 a b) = permute (drop 28 PC1_table) (bits 32 a @ bits 32 b)" "bit (W1 a b) k \<Longrightarrow> k < 28"
    using bp by blast+
qed

lemma key_perm_bits:
  "bits 28 (fst (key_perm a b)) = permute (take 28 PC1_table) (bits 32 a @ bits 32 b)" "bit (fst (key_perm a b)) k \<Longrightarrow> k < 28"
  "bits 28 (snd (key_perm a b)) = permute (drop 28 PC1_table) (bits 32 a @ bits 32 b)" "bit (snd (key_perm a b)) k \<Longrightarrow> k < 28"
  unfolding key_perm_words(1) fst_conv snd_conv by (fact key_perm_words(2-5))+

text \<open>The rotation of a 28-bit half.\<close>

definition rot28 :: "nat \<Rightarrow> u32 \<Rightarrow> u32" where
  "rot28 s k = or (push_bit s k) (drop_bit (28 - s) k)"

lemma rot28_bits:
  assumes "s \<le> 28" "\<And>p. bit k p \<Longrightarrow> p < 28"
  shows "bits 28 (rot28 s k) = rotate s (bits 28 k)"
proof (rule nth_equalityI)
  fix i assume "i < length (bits 28 (rot28 s k))"
  then have i: "i < 28" by simp
  have "rotate s (bits 28 k) ! i = bit k (27 - (s + i) mod 28)" using i by (simp add: nth_rotate)
  also have "(s + i) mod 28 = (if s + i < 28 then s + i else s + i - 28)" using assms(1) i by (simp add: mod_if)
  also have "bit k (27 - (if s + i < 28 then s + i else s + i - 28)) = bit (rot28 s k) (27 - i)"
  proof (cases "s + i < 28")
    case True
    have "\<not> bit k (28 - s + (27 - i))" using True assms(2) by force
    moreover have "s \<le> 27 - i" "27 - i < 32" "27 - i - s = 27 - (s + i)" using True i by simp_all
    ultimately show ?thesis using True by (simp add: rot28_def bit_or_iff bit_push_bit_iff bit_drop_bit_eq)
  next
    case False
    then have "28 - s + (27 - i) = 27 - (s + i - 28)" using assms(1) i by simp
    then show ?thesis using False i by (auto simp: rot28_def bit_or_iff bit_push_bit_iff bit_drop_bit_eq)
  qed
  finally show "bits 28 (rot28 s k) ! i = rotate s (bits 28 k) ! i" using i by simp
qed simp

text \<open>The compression: groups of seven bits, looked up as three and four.\<close>

definition sev :: "u32 \<Rightarrow> nat \<Rightarrow> nat" where
  "sev t m = (if even m then chunk (25 - 7 * (m div 2)) 3 t else chunk (21 - 7 * (m div 2)) 4 t)"

lemma sevens_nth: "i < length tab \<Longrightarrow> sevens tab ! i =
    (let g = (tab ! i - 1) div 7; p = (tab ! i - 1) mod 7 in if p < 3 then (2 * g, 2 - p) else (2 * g + 1, 6 - p))"
  by (simp add: sevens_def)

lemma sev_bits:
  assumes "i < length tab" "1 \<le> tab ! i" "tab ! i \<le> 28"
  shows "bits 28 t ! (tab ! i - 1) = bit (sev t (fst (sevens tab ! i))) (snd (sevens tab ! i))"
proof -
  define n where "n = tab ! i - 1"
  define g p where "g = n div 7" and "p = n mod 7"
  have n: "n = 7 * g + p" "p < 7" "g < 4" using assms(2,3) by (simp_all add: n_def g_def p_def)
  have "sevens tab ! i = (if p < 3 then (2 * g, 2 - p) else (2 * g + 1, 6 - p))"
    using assms(1) by (simp add: sevens_nth Let_def n_def g_def p_def)
  moreover have "bits 28 t ! n = bit t (27 - n)" using n by simp
  moreover have "25 - 7 * g + (2 - p) = 27 - n" if "p < 3" using n that by linarith
  moreover have "21 - 7 * g + (6 - p) = 27 - n" if "\<not> p < 3" using n that by linarith
  ultimately show ?thesis unfolding n_def [symmetric] using n(2) by (auto simp: sev_def bit_chunk)
qed

lemma comp_words:
  fixes t :: u32
  assumes "T0 = table_of (sevens tab) [0, 2, 4, 6] 8" "T1 = table_of (sevens tab) [1, 3, 5, 7] 16"
    and "length tab = 24" "\<forall>s \<in> set tab. 1 \<le> s \<and> s \<le> 28"
  defines "W \<equiv> foldl (\<lambda>a i. or (or a (tab_at T0 i t (25 - 7 * i) 7)) (tab_at T1 i t (25 - 7 * i - 4) 0xf)) 0 [0..<4]"
  shows "bits 24 W = permute tab (bits 28 t)" "bit W k \<Longrightarrow> k < 24"
proof -
  have 1: "bit W k \<longleftrightarrow> (\<exists>m \<in> {0, 1, 2, 3, 4, 5, 6, 7}. bit (sel (sevens tab) m (sev t m)) k)" for k
    unfolding W_def assms(1,2) by (simp add: upt_rec tab_at_sel bit_or_iff sev_def)
  have 2: "\<forall>x \<in> set (sevens tab). fst x \<in> {0, 1, 2, 3, 4, 5, 6, 7}"
  proof
    fix x assume "x \<in> set (sevens tab)"
    then obtain i where i: "i < length tab" "x = sevens tab ! i" by (auto simp: in_set_conv_nth sevens_def)
    then have "tab ! i \<in> set tab" by simp
    then have "(tab ! i - 1) div 7 < 4" using assms(4) by (auto simp: less_mult_imp_div_less)
    then show "fst x \<in> {0, 1, 2, 3, 4, 5, 6, 7}" using i by (auto simp: sevens_nth Let_def)
  qed
  have 3: "bits 28 t ! (tab ! i - 1) = bit (sev t (fst (sevens tab ! i))) (snd (sevens tab ! i))" if "i < length tab" for i
    using that assms(4) by (intro sev_bits) auto
  have "bits (length tab) W = permute tab (bits 28 t)"
    by (rule bits_sel(1) [OF 1 _ _ 2 3]) (simp_all add: sevens_def assms(3))
  then show "bits 24 W = permute tab (bits 28 t)" by (simp only: assms(3))
  have "bit W k \<Longrightarrow> k < length tab"
    by (rule bits_sel(2) [OF 1 _ _ 2 3]) (simp_all add: sevens_def assms(3))
  then show "bit W k \<Longrightarrow> k < 24" by (simp only: assms(3))
qed

lemma PC2_facts:
  "length (take 24 PC2_table) = 24" "length (map (\<lambda>s. s - 28) (drop 24 PC2_table)) = 24"
  "\<forall>s \<in> set (take 24 PC2_table). 1 \<le> s \<and> s \<le> 28" "\<forall>s \<in> set (map (\<lambda>s. s - 28) (drop 24 PC2_table)). 1 \<le> s \<and> s \<le> 28"
  "\<forall>s \<in> set (drop 24 PC2_table). 29 \<le> s"
  by (simp_all add: PC2_table_def)

lemma key_comp_bits:
  "bits 24 (fst (key_comp t0 t1)) @ bits 24 (snd (key_comp t0 t1)) = permute PC2_table (bits 28 t0 @ bits 28 t1)"
  "w24 (fst (key_comp t0 t1))" "w24 (snd (key_comp t0 t1))"
proof -
  let ?L = "foldl (\<lambda>a i. or (or a (tab_at comp_maskl0 i t0 (25 - 7 * i) 7)) (tab_at comp_maskl1 i t0 (25 - 7 * i - 4) 0xf)) 0 [0..<4]"
  let ?R = "foldl (\<lambda>a i. or (or a (tab_at comp_maskr0 i t1 (25 - 7 * i) 7)) (tab_at comp_maskr1 i t1 (25 - 7 * i - 4) 0xf)) 0 [0..<4]"
  have k: "key_comp t0 t1 = (?L, ?R)"
    unfolding key_comp_def by (simp only: Let_def foldl_pair)
  note cl = comp_words [OF comp_maskl_sel PC2_facts(1,3), of t0]
  note cr = comp_words [OF comp_maskr_sel PC2_facts(2,4), of t1]
  have "permute (take 24 PC2_table) (bits 28 t0 @ bits 28 t1) = permute (take 24 PC2_table) (bits 28 t0)"
    using PC2_facts(3) by (auto simp: permute_def nth_append)
  moreover have "permute (drop 24 PC2_table) (bits 28 t0 @ bits 28 t1) = permute (map (\<lambda>s. s - 28) (drop 24 PC2_table)) (bits 28 t1)"
    using PC2_facts(5) by (auto simp: permute_def nth_append intro!: arg_cong [where f = "(!) (bits 28 t1)"])
  moreover have "permute PC2_table b = permute (take 24 PC2_table) b @ permute (drop 24 PC2_table) b" for b
    by (simp add: permute_def map_append [symmetric] del: map_append)
  ultimately show "bits 24 (fst (key_comp t0 t1)) @ bits 24 (snd (key_comp t0 t1)) = permute PC2_table (bits 28 t0 @ bits 28 t1)"
    using cl(1) cr(1) by (simp add: k)
  show "w24 (fst (key_comp t0 t1))" "w24 (snd (key_comp t0 t1))" using cl(2) cr(2) by (auto simp: k w24_def)
qed

lemma key_rounds_bits:
  assumes "\<And>p. bit k0 p \<Longrightarrow> p < 28" "\<And>p. bit k1 p \<Longrightarrow> p < 28" "sh + sum_list ss \<le> 28"
  shows "map (\<lambda>(kl, kr). bits 24 kl @ bits 24 kr) (key_rounds k0 k1 sh ss) =
      shift_keys (rotate sh (bits 28 k0)) (rotate sh (bits 28 k1)) ss \<and>
    (\<forall>(kl, kr) \<in> set (key_rounds k0 k1 sh ss). w24 kl \<and> w24 kr) \<and> length (key_rounds k0 k1 sh ss) = length ss"
  using assms(3)
proof (induction ss arbitrary: sh)
  case (Cons s ss)
  have "sh + s \<le> 28" using Cons.prems by simp
  then have "bits 28 (rot28 (sh + s) k0) = rotate s (rotate sh (bits 28 k0))" "bits 28 (rot28 (sh + s) k1) = rotate s (rotate sh (bits 28 k1))"
    using assms by (simp_all add: rot28_bits rotate_rotate add.commute)
  moreover note key_comp_bits [of "rot28 (sh + s) k0" "rot28 (sh + s) k1"]
  moreover have "(sh + s) + sum_list ss \<le> 28" using Cons.prems by simp
  note ih = Cons.IH [OF this]
  ultimately show ?case
    using ih by (auto simp: Let_def rot28_def [symmetric] rotate_rotate add.commute split: prod.splits)
qed simp

lemma des_setkey_schedule:
  assumes "length key = 8"
  shows "ekey_ok (des_setkey key)" "subkeys (des_setkey key) = key_schedule (concat (map (bits 8) key))"
proof -
  define a b where "a = rawword key 0" and "b = rawword key 4"
  obtain k0 k1 where k: "key_perm a b = (k0, k1)" by (metis surj_pair)
  have k0: "bits 28 k0 = permute (take 28 PC1_table) (bits 32 a @ bits 32 b)" "\<And>p. bit k0 p \<Longrightarrow> p < 28"
    and k1: "bits 28 k1 = permute (drop 28 PC1_table) (bits 32 a @ bits 32 b)" "\<And>p. bit k1 p \<Longrightarrow> p < 28"
    using key_perm_bits [of a b] by (simp_all only: k fst_conv snd_conv)
  have ks: "sum_list key_shifts = 28" "length key_shifts = 16" by (simp_all add: key_shifts_def)
  have kr: "map (\<lambda>(kl, kr). bits 24 kl @ bits 24 kr) (key_rounds k0 k1 0 key_shifts) = shift_keys (bits 28 k0) (bits 28 k1) key_shifts \<and>
    (\<forall>(kl, kr) \<in> set (key_rounds k0 k1 0 key_shifts). w24 kl \<and> w24 kr) \<and> length (key_rounds k0 k1 0 key_shifts) = 16"
    using key_rounds_bits [of k0 k1 0 key_shifts] k0(2) k1(2) ks by simp
  have e: "des_setkey key = \<lparr>ek_l = map fst (key_rounds k0 k1 0 key_shifts), ek_r = map snd (key_rounds k0 k1 0 key_shifts)\<rparr>"
    by (simp add: des_setkey_def Let_def a_def [symmetric] b_def [symmetric] k)
  show "ekey_ok (des_setkey key)" using kr by (auto simp: e ekey_ok_def)
  have "subkeys (des_setkey key) = shift_keys (bits 28 k0) (bits 28 k1) key_shifts"
    using kr by (simp add: subkeys_def e zip_map_fst_snd)
  also have "\<dots> = key_schedule (concat (map (bits 8) key))"
    unfolding key_schedule_def key_shifts_def [symmetric] rawword_bits [OF assms, symmetric] Let_def k0(1) k1(1) a_def b_def
    by (simp only: permute_def take_map drop_map)
  finally show "subkeys (des_setkey key) = key_schedule (concat (map (bits 8) key))" .
qed

section \<open>Decryption\<close>

lemma xor_bits_cancel: "length L = length X \<Longrightarrow> xor_bits (xor_bits L X) X = L"
  by (rule nth_equalityI) (auto simp: xor_bits_def)

lemma length_cipher_f [simp]: "length (cipher_f salt R K) = 32"
  by (simp add: cipher_f_def P_table_facts)

lemma feistel_inverse:
  "length L = 32 \<Longrightarrow> length R = 32 \<Longrightarrow>
   foldl (feistel salt) (prod.swap (foldl (feistel salt) (L, R) Ks)) (rev Ks) = (R, L) \<and>
   length (fst (foldl (feistel salt) (L, R) Ks)) = 32 \<and> length (snd (foldl (feistel salt) (L, R) Ks)) = 32"
proof (induction Ks rule: rev_induct)
  case (snoc K Ks)
  obtain L' R' where LR: "foldl (feistel salt) (L, R) Ks = (L', R')" by (metis surj_pair)
  have len: "length L' = 32" "length R' = 32" using snoc LR by simp_all
  have step: "feistel salt (L', R') K = (R', xor_bits L' (cipher_f salt R' K))" by (simp add: feistel_def)
  have "feistel salt (prod.swap (feistel salt (L', R') K)) K = prod.swap (L', R')"
    using len by (simp add: feistel_def xor_bits_cancel)
  with snoc LR len step show ?case by (simp add: xor_bits_def)
qed simp

lemma des_block_inverse:
  assumes "length b = 64"
  shows "des_block (rev Ks) salt (des_block Ks salt b) = b"
proof -
  define c where "c = permute IP_table b"
  have c: "length c = 64" by (simp add: c_def IP_table_facts)
  obtain L R where LR: "foldl (feistel salt) (take 32 c, drop 32 c) Ks = (L, R)" by (metis surj_pair)
  have fi: "foldl (feistel salt) (R, L) (rev Ks) = (drop 32 c, take 32 c)" "length L = 32" "length R = 32"
    using feistel_inverse [of "take 32 c" "drop 32 c" salt Ks] c by (simp_all add: LR)
  have d: "des_block Ks salt b = permute FP_table (R @ L)" by (simp add: des_block_def c_def [symmetric] LR)
  have "permute IP_table (permute FP_table (R @ L)) = R @ L" using fi by (intro IP_FP) simp
  then have "des_block (rev Ks) salt (des_block Ks salt b) = permute FP_table (take 32 c @ drop 32 c)"
    unfolding d using fi by (simp add: des_block_def)
  then show ?thesis using assms by (simp add: c_def IP_FP)
qed

lemma bit_pack_bits:
  fixes n :: nat
  assumes "n \<le> LENGTH('w)" "k < n"
  shows "bit (pack_bits n cs :: 'w::len word) k \<longleftrightarrow> bit (cs ! (n - 1 - k)) 0"
proof -
  have fold: "bit (foldl (\<lambda>b j. or b (h j)) a0 xs) k \<longleftrightarrow> bit a0 k \<or> (\<exists>j \<in> set xs. bit (h j) k)" for a0 :: "'w word" and h and xs :: "nat list"
    by (induction xs arbitrary: a0) (auto simp: bit_or_iff)
  have low: "bit (ucast (and c 1) :: 'w word) p \<longleftrightarrow> p = 0 \<and> bit (c :: u8) 0" for c p
    by (cases "p = 0") (simp_all add: bit_ucast_iff bit_and_iff bit_1_iff)
  have one: "bit (push_bit (n - 1 - j) (ucast (and (cs ! j) 1)) :: 'w word) k \<longleftrightarrow> j = n - 1 - k \<and> bit (cs ! j) 0" if "j < n" for j
  proof -
    have "n - 1 - j \<le> k \<and> k - (n - 1 - j) = 0 \<longleftrightarrow> j = n - 1 - k" using that assms(2) by linarith
    then show ?thesis unfolding bit_push_bit_iff low using assms by auto
  qed
  have "(\<exists>j \<in> set [0..<n]. bit (push_bit (n - 1 - j) (ucast (and (cs ! j) 1)) :: 'w word) k) \<longleftrightarrow>
    (\<exists>j \<in> set [0..<n]. j = n - 1 - k \<and> bit (cs ! j) 0)"
    by (rule bex_cong) (simp_all only: one set_upt atLeastLessThan_iff)
  also have "\<dots> \<longleftrightarrow> bit (cs ! (n - 1 - k)) 0" using assms(2) by auto
  finally show ?thesis unfolding pack_bits_def fold by simp
qed

lemma bits_pack_bits: "n \<le> LENGTH('w) \<Longrightarrow> n \<le> length cs \<Longrightarrow> bits n (pack_bits n cs :: 'w::len word) = map (\<lambda>c. bit c 0) (take n cs)"
  by (rule bits_eqI) (auto simp: bit_pack_bits)

lemma subkeys_rev:
  assumes "ekey_ok ek"
  shows "ekey_ok \<lparr>ek_l = map (\<lambda>i. ek_l ek ! (15 - i)) [0..<16], ek_r = map (\<lambda>i. ek_r ek ! (15 - i)) [0..<16]\<rparr>"
    and "subkeys \<lparr>ek_l = map (\<lambda>i. ek_l ek ! (15 - i)) [0..<16], ek_r = map (\<lambda>i. ek_r ek ! (15 - i)) [0..<16]\<rparr> = rev (subkeys ek)"
proof -
  have r: "map (\<lambda>i. xs ! (15 - i)) [0..<16] = rev xs" if "length xs = 16" for xs :: "u32 list"
    using that by (intro nth_equalityI) (auto simp: rev_nth)
  from assms show "ekey_ok \<lparr>ek_l = map (\<lambda>i. ek_l ek ! (15 - i)) [0..<16], ek_r = map (\<lambda>i. ek_r ek ! (15 - i)) [0..<16]\<rparr>"
    by (simp add: ekey_ok_def r)
  from assms show "subkeys \<lparr>ek_l = map (\<lambda>i. ek_l ek ! (15 - i)) [0..<16], ek_r = map (\<lambda>i. ek_r ek ! (15 - i)) [0..<16]\<rparr> = rev (subkeys ek)"
    by (simp add: subkeys_def ekey_ok_def r zip_rev rev_map)
qed

lemma encrypt_block:
  assumes "ekey_ok ek" "length block = 64"
  shows "encrypt ek block ed = map of_bool (des_block (if ed then rev (subkeys ek) else subkeys ek) (replicate 24 False) (map (\<lambda>c. bit c 0) block))"
proof -
  define key where "key = (if ed then \<lparr>ek_l = map (\<lambda>i. ek_l ek ! (15 - i)) [0..<16], ek_r = map (\<lambda>i. ek_r ek ! (15 - i)) [0..<16]\<rparr> else ek)"
  define b0 b1 where "b0 = (pack_bits 32 block :: u32)" and "b1 = (pack_bits 32 (drop 32 block) :: u32)"
  obtain c0 c1 where c: "do_des b0 b1 1 0 key = (c0, c1)" by (metis surj_pair)
  have k: "ekey_ok key" "subkeys key = (if ed then rev (subkeys ek) else subkeys ek)"
    using assms(1) subkeys_rev [OF assms(1)] by (auto simp: key_def)
  have z: "bits 24 (0 :: u32) = replicate 24 False" by (intro bits_eqI) simp_all
  have "bits 32 b0 @ bits 32 b1 = map (\<lambda>c. bit c 0) block"
    using assms(2) by (simp add: b0_def b1_def bits_pack_bits map_append [symmetric] del: map_append)
  then have lr: "bits 32 c0 @ bits 32 c1 = des_block (subkeys key) (replicate 24 False) (map (\<lambda>c. bit c 0) block)"
    using do_des_bits [OF k(1), of b0 b1 1 0] by (simp add: c lr_bits_def z)
  have "map (\<lambda>i. and (ucast (drop_bit (31 - i) w)) 1) [0..<32] = (map of_bool (bits 32 w) :: bytes)" for w :: u32
  proof (rule nth_equalityI)
    fix i assume "i < length (map (\<lambda>i. and (ucast (drop_bit (31 - i) w)) 1 :: u8) [0..<32])"
    then have i: "i < 32" by simp
    have "and (ucast (drop_bit (31 - i) w)) 1 = (of_bool (bit w (31 - i)) :: u8)"
      by (rule bit_word_eqI) (auto simp: bit_simps)
    with i show "map (\<lambda>i. and (ucast (drop_bit (31 - i) w)) 1) [0..<32] ! i = (map of_bool (bits 32 w) :: bytes) ! i" by simp
  qed simp
  then have "encrypt ek block ed = map of_bool (bits 32 c0 @ bits 32 c1)"
    by (simp add: encrypt_def key_def [symmetric] b0_def [symmetric] b1_def [symmetric] c)
  then show ?thesis by (simp only: lr k(2))
qed

section \<open>Properties\<close>

text \<open>
  C13. \<open>__des_setkey\<close> and \<open>__do_des\<close> compute the Data Encryption Standard: for every key, block, salt and number of
  iterations, the result is the cipher of the standard (its initial permutation, sixteen rounds with the expansion,
  the S-boxes and the permutation of its tables under the keys of its schedule, and its final permutation), applied as often
  as told, where a bit of the salt exchanges two outputs of the expansion.
\<close>

theorem do_des_standard:
  assumes "length key = 8"
  shows "lr_bits (do_des l r count salt (des_setkey key)) =
    (des_block (key_schedule (concat (map (bits 8) key))) (bits 24 salt) ^^ unat count) (lr_bits (l, r))"
  using do_des_bits [OF des_setkey_schedule(1) [OF assms]] des_setkey_schedule(2) [OF assms] by simp

theorem do_des_standard_witness:
  "lr_bits (do_des 0x01234567 0x89abcdef 1 0 (des_setkey [0x13, 0x34, 0x57, 0x79, 0x9b, 0xbc, 0xdf, 0xf1])) =
    (des_block (key_schedule (concat (map (bits 8) [0x13, 0x34, 0x57, 0x79, 0x9b, 0xbc, 0xdf, 0xf1 :: u8]))) (bits 24 (0 :: u32)) ^^ unat (1 :: u32)) (lr_bits (0x01234567, 0x89abcdef))"
  by (rule do_des_standard) simp

text \<open>
  C15. Decrypting undoes encrypting: \<open>encrypt\<close> with the flag set gives back the block that \<open>encrypt\<close> without it was given,
  for every key set by \<open>setkey\<close> and every block of 64 characters, of which the lowest bits count.
\<close>

theorem encrypt_decrypt:
  assumes "length block = 64"
  shows "encrypt (setkey key) (encrypt (setkey key) block False) True = map (\<lambda>c. and c 1) block"
proof -
  have ok: "ekey_ok (setkey key)" unfolding setkey_def by (rule des_setkey_schedule(1)) simp
  let ?b = "map (\<lambda>c. bit c 0) block" and ?z = "replicate 24 False"
  have e: "encrypt (setkey key) block False = map of_bool (des_block (subkeys (setkey key)) ?z ?b)"
    using encrypt_block [OF ok assms, of False] by simp
  have "length (des_block (subkeys (setkey key)) ?z ?b) = 64" by (simp add: des_block_def Let_def FP_table_facts split: prod.splits)
  then have "encrypt (setkey key) (encrypt (setkey key) block False) True =
    map of_bool (des_block (rev (subkeys (setkey key))) ?z (des_block (subkeys (setkey key)) ?z ?b))"
    using encrypt_block [OF ok, of "encrypt (setkey key) block False" True] by (simp add: e comp_def)
  also have "\<dots> = map of_bool ?b" using assms by (simp add: des_block_inverse)
  also have "\<dots> = map (\<lambda>c. and c 1) block" by (simp add: and_one_eq mod_2_eq_odd bit_0)
  finally show ?thesis .
qed

theorem encrypt_decrypt_witness:
  "encrypt (setkey (replicate 64 1)) (encrypt (setkey (replicate 64 1)) (replicate 64 0) False) True = replicate 64 0"
  using encrypt_decrypt [of "replicate 64 0" "replicate 64 1"] by simp

end
