(* ===== verification/Crypt_Hash.thy ===== *)
theory Crypt_Hash
  imports Prelude
begin

text \<open>
  The message digests behind \<open>crypt\<close>: MD5, SHA-256 and SHA-512 of \<open>src/musl-1.2.5/src/crypt/crypt_md5.c\<close>,
  \<open>crypt_sha256.c\<close> and \<open>crypt_sha512.c\<close>. The three files have the same context (processed length, hash
  state, block buffer) and the same \<open>update\<close> and \<open>pad\<close> up to the block size, the position of the length
  and its byte order; those are written once here, with these as arguments, and instantiated as in the
  files. The locale \<open>block_hash\<close> states what they need of \<open>processblock\<close> and shows that feeding a message
  in pieces of any sizes, into a context with any garbage, computes the digest of the concatenation.
\<close>

section \<open>The context and its operations\<close>

text \<open>\<open>struct md5\<close>, \<open>struct sha256\<close> and \<open>struct sha512\<close>.\<close>

record 'w hash_ctx =
  hash_len :: u64
  hash_h :: "'w list"
  hash_buf :: bytes

type_synonym md5 = "u32 hash_ctx"
type_synonym sha256 = "u32 hash_ctx"
type_synonym sha512 = "u64 hash_ctx"

text \<open>
  \<open>memcpy(buf + off, src, n)\<close> and \<open>memset\<close>. A copy behind the end of the buffer would lengthen the
  list; that the buffer keeps its length is part of the invariant below.
\<close>

definition poke :: "bytes \<Rightarrow> nat \<Rightarrow> bytes \<Rightarrow> bytes" where
  "poke b off src = take off b @ src @ drop (off + length src) b"

text \<open>The loop \<open>for (; len >= B; len -= B, p += B) processblock(s, p)\<close>.\<close>

function process_blocks :: "nat \<Rightarrow> ('s \<Rightarrow> bytes \<Rightarrow> 's) \<Rightarrow> 's \<Rightarrow> bytes \<Rightarrow> 's \<times> bytes" where
  "process_blocks B pb s p =
     (if B = 0 \<or> length p < B then (s, p) else process_blocks B pb (pb s (take B p)) (drop B p))"
  by pat_completeness auto

termination
  by (relation "measure (\<lambda>(B, pb, s, p). length p)") auto

declare process_blocks.simps [simp del]

definition hash_update :: "nat \<Rightarrow> ('w hash_ctx \<Rightarrow> bytes \<Rightarrow> 'w hash_ctx) \<Rightarrow> 'w hash_ctx \<Rightarrow> bytes \<Rightarrow> 'w hash_ctx" where
  "hash_update B pb s p =
     (let r = unat (hash_len s) mod B;
          s = s\<lparr>hash_len := hash_len s + of_nat (length p)\<rparr>
      in if r \<noteq> 0 \<and> length p < B - r then s\<lparr>hash_buf := poke (hash_buf s) r p\<rparr>
         else let (s, p) =
                  (if r \<noteq> 0
                   then let s = s\<lparr>hash_buf := poke (hash_buf s) r (take (B - r) p)\<rparr>
                        in (pb s (hash_buf s), drop (B - r) p)
                   else (s, p));
                (s, p) = process_blocks B pb s p
              in s\<lparr>hash_buf := poke (hash_buf s) 0 p\<rparr>)"

definition hash_pad :: "nat \<Rightarrow> nat \<Rightarrow> nat \<Rightarrow> (u64 \<Rightarrow> bytes) \<Rightarrow> ('w hash_ctx \<Rightarrow> bytes \<Rightarrow> 'w hash_ctx) \<Rightarrow>
    'w hash_ctx \<Rightarrow> 'w hash_ctx" where
  "hash_pad B lim off enc pb s =
     (let r = unat (hash_len s) mod B;
          s = s\<lparr>hash_buf := poke (hash_buf s) r [0x80]\<rparr>;
          r = r + 1;
          (s, r) =
            (if r > lim
             then let s = s\<lparr>hash_buf := poke (hash_buf s) r (replicate (B - r) 0)\<rparr> in (pb s (hash_buf s), 0)
             else (s, r));
          s = s\<lparr>hash_buf := poke (hash_buf s) r (replicate (off - r) 0)\<rparr>;
          s = s\<lparr>hash_len := hash_len s * 8\<rparr>;
          s = s\<lparr>hash_buf := poke (hash_buf s) off (enc (hash_len s))\<rparr>
      in pb s (hash_buf s))"

definition le64_bytes :: "u64 \<Rightarrow> bytes" where
  "le64_bytes n = [ucast n, ucast (drop_bit 8 n), ucast (drop_bit 16 n), ucast (drop_bit 24 n),
     ucast (drop_bit 32 n), ucast (drop_bit 40 n), ucast (drop_bit 48 n), ucast (drop_bit 56 n)]"

definition be64_bytes :: "u64 \<Rightarrow> bytes" where
  "be64_bytes n = [ucast (drop_bit 56 n), ucast (drop_bit 48 n), ucast (drop_bit 40 n), ucast (drop_bit 32 n),
     ucast (drop_bit 24 n), ucast (drop_bit 16 n), ucast (drop_bit 8 n), ucast n]"

section \<open>MD5\<close>

definition rol :: "u32 \<Rightarrow> nat \<Rightarrow> u32" where
  "rol n k = or (push_bit k n) (drop_bit (32 - k) n)"

definition md5_tab :: "u32 list" where
  "md5_tab =
     [0xd76aa478, 0xe8c7b756, 0x242070db, 0xc1bdceee, 0xf57c0faf, 0x4787c62a, 0xa8304613, 0xfd469501] @
     [0x698098d8, 0x8b44f7af, 0xffff5bb1, 0x895cd7be, 0x6b901122, 0xfd987193, 0xa679438e, 0x49b40821] @
     [0xf61e2562, 0xc040b340, 0x265e5a51, 0xe9b6c7aa, 0xd62f105d, 0x02441453, 0xd8a1e681, 0xe7d3fbc8] @
     [0x21e1cde6, 0xc33707d6, 0xf4d50d87, 0x455a14ed, 0xa9e3e905, 0xfcefa3f8, 0x676f02d9, 0x8d2a4c8a] @
     [0xfffa3942, 0x8771f681, 0x6d9d6122, 0xfde5380c, 0xa4beea44, 0x4bdecfa9, 0xf6bb4b60, 0xbebfbc70] @
     [0x289b7ec6, 0xeaa127fa, 0xd4ef3085, 0x04881d05, 0xd9d4d039, 0xe6db99e5, 0x1fa27cf8, 0xc4ac5665] @
     [0xf4292244, 0x432aff97, 0xab9423a7, 0xfc93a039, 0x655b59c3, 0x8f0ccc92, 0xffeff47d, 0x85845dd1] @
     [0x6fa87e4f, 0xfe2ce6e0, 0xa3014314, 0x4e0811a1, 0xf7537e82, 0xbd3af235, 0x2ad7d2bb, 0xeb86d391]"

definition md5_F :: "u32 \<Rightarrow> u32 \<Rightarrow> u32 \<Rightarrow> u32" where
  "md5_F x y z = xor z (and x (xor y z))"

definition md5_G :: "u32 \<Rightarrow> u32 \<Rightarrow> u32 \<Rightarrow> u32" where
  "md5_G x y z = xor y (and z (xor y x))"

definition md5_H :: "u32 \<Rightarrow> u32 \<Rightarrow> u32 \<Rightarrow> u32" where
  "md5_H x y z = xor (xor x y) z"

definition md5_I :: "u32 \<Rightarrow> u32 \<Rightarrow> u32 \<Rightarrow> u32" where
  "md5_I x y z = xor y (or x (not z))"

text \<open>\<open>FF\<close>, \<open>GG\<close>, \<open>HH\<close> and \<open>II\<close>: the new value of the first variable.\<close>

definition md5_op :: "(u32 \<Rightarrow> u32 \<Rightarrow> u32 \<Rightarrow> u32) \<Rightarrow> u32 \<Rightarrow> u32 \<Rightarrow> u32 \<Rightarrow> u32 \<Rightarrow> u32 \<Rightarrow> nat \<Rightarrow> u32 \<Rightarrow> u32" where
  "md5_op f a b c d w s t = rol (a + (f b c d + w + t)) s + b"

text \<open>
  One pass of a \<open>while\<close> loop: four operations with the roles of the variables rotated; \<open>w i\<close> is the
  index of the message word for step \<open>i\<close>.
\<close>

definition md5_four :: "(u32 \<Rightarrow> u32 \<Rightarrow> u32 \<Rightarrow> u32) \<Rightarrow> (nat \<Rightarrow> nat) \<Rightarrow> nat \<Rightarrow> nat \<Rightarrow> nat \<Rightarrow> nat \<Rightarrow> u32 list \<Rightarrow>
    nat \<Rightarrow> u32 \<times> u32 \<times> u32 \<times> u32 \<Rightarrow> u32 \<times> u32 \<times> u32 \<times> u32" where
  "md5_four f w s1 s2 s3 s4 W i = (\<lambda>(a, b, c, d).
     let a = md5_op f a b c d (W ! w i) s1 (md5_tab ! i); i = i + 1;
         d = md5_op f d a b c (W ! w i) s2 (md5_tab ! i); i = i + 1;
         c = md5_op f c d a b (W ! w i) s3 (md5_tab ! i); i = i + 1;
         b = md5_op f b c d a (W ! w i) s4 (md5_tab ! i)
     in (a, b, c, d))"

definition md5_words :: "bytes \<Rightarrow> u32 list" where
  "md5_words buf = map (\<lambda>i. or (or (or (ucast (buf ! (4 * i))) (push_bit 8 (ucast (buf ! (4 * i + 1)))))
     (push_bit 16 (ucast (buf ! (4 * i + 2))))) (push_bit 24 (ucast (buf ! (4 * i + 3))))) [0..<16]"

definition md5_rounds :: "u32 list \<Rightarrow> u32 \<times> u32 \<times> u32 \<times> u32 \<Rightarrow> u32 \<times> u32 \<times> u32 \<times> u32" where
  "md5_rounds W s =
     (let s = foldl (\<lambda>s i. md5_four md5_F (\<lambda>i. i) 7 12 17 22 W i s) s [0, 4, 8, 12];
          s = foldl (\<lambda>s i. md5_four md5_G (\<lambda>i. (5 * i + 1) mod 16) 5 9 14 20 W i s) s [16, 20, 24, 28];
          s = foldl (\<lambda>s i. md5_four md5_H (\<lambda>i. (3 * i + 5) mod 16) 4 11 16 23 W i s) s [32, 36, 40, 44]
      in foldl (\<lambda>s i. md5_four md5_I (\<lambda>i. 7 * i mod 16) 6 10 15 21 W i s) s [48, 52, 56, 60])"

definition md5_compress :: "u32 list \<Rightarrow> bytes \<Rightarrow> u32 list" where
  "md5_compress h buf =
     (let (a, b, c, d) = md5_rounds (md5_words buf) (h ! 0, h ! 1, h ! 2, h ! 3)
      in [h ! 0 + a, h ! 1 + b, h ! 2 + c, h ! 3 + d])"

definition md5_processblock :: "md5 \<Rightarrow> bytes \<Rightarrow> md5" where
  "md5_processblock s buf = s\<lparr>hash_h := md5_compress (hash_h s) buf\<rparr>"

definition md5_pad :: "md5 \<Rightarrow> md5" where
  "md5_pad = hash_pad 64 56 56 le64_bytes md5_processblock"

definition md5_init :: "md5 \<Rightarrow> md5" where
  "md5_init s = s\<lparr>hash_len := 0, hash_h := [0x67452301, 0xefcdab89, 0x98badcfe, 0x10325476]\<rparr>"

definition le32_bytes :: "u32 \<Rightarrow> bytes" where
  "le32_bytes w = [ucast w, ucast (drop_bit 8 w), ucast (drop_bit 16 w), ucast (drop_bit 24 w)]"

definition md5_sum :: "md5 \<Rightarrow> bytes" where
  "md5_sum s = (let s = md5_pad s in concat (map (\<lambda>i. le32_bytes (hash_h s ! i)) [0..<4]))"

definition md5_update :: "md5 \<Rightarrow> bytes \<Rightarrow> md5" where
  "md5_update = hash_update 64 md5_processblock"

section \<open>SHA-256\<close>

definition ror32 :: "u32 \<Rightarrow> nat \<Rightarrow> u32" where
  "ror32 n k = or (drop_bit k n) (push_bit (32 - k) n)"

definition sha256_K :: "u32 list" where
  "sha256_K =
     [0x428a2f98, 0x71374491, 0xb5c0fbcf, 0xe9b5dba5, 0x3956c25b, 0x59f111f1, 0x923f82a4, 0xab1c5ed5] @
     [0xd807aa98, 0x12835b01, 0x243185be, 0x550c7dc3, 0x72be5d74, 0x80deb1fe, 0x9bdc06a7, 0xc19bf174] @
     [0xe49b69c1, 0xefbe4786, 0x0fc19dc6, 0x240ca1cc, 0x2de92c6f, 0x4a7484aa, 0x5cb0a9dc, 0x76f988da] @
     [0x983e5152, 0xa831c66d, 0xb00327c8, 0xbf597fc7, 0xc6e00bf3, 0xd5a79147, 0x06ca6351, 0x14292967] @
     [0x27b70a85, 0x2e1b2138, 0x4d2c6dfc, 0x53380d13, 0x650a7354, 0x766a0abb, 0x81c2c92e, 0x92722c85] @
     [0xa2bfe8a1, 0xa81a664b, 0xc24b8b70, 0xc76c51a3, 0xd192e819, 0xd6990624, 0xf40e3585, 0x106aa070] @
     [0x19a4c116, 0x1e376c08, 0x2748774c, 0x34b0bcb5, 0x391c0cb3, 0x4ed8aa4a, 0x5b9cca4f, 0x682e6ff3] @
     [0x748f82ee, 0x78a5636f, 0x84c87814, 0x8cc70208, 0x90befffa, 0xa4506ceb, 0xbef9a3f7, 0xc67178f2]"

definition Ch :: "'w::len word \<Rightarrow> 'w word \<Rightarrow> 'w word \<Rightarrow> 'w word" where
  "Ch x y z = xor z (and x (xor y z))"

definition Maj :: "'w::len word \<Rightarrow> 'w word \<Rightarrow> 'w word \<Rightarrow> 'w word" where
  "Maj x y z = or (and x y) (and z (or x y))"

definition sha256_S0 :: "u32 \<Rightarrow> u32" where
  "sha256_S0 x = xor (xor (ror32 x 2) (ror32 x 13)) (ror32 x 22)"

definition sha256_S1 :: "u32 \<Rightarrow> u32" where
  "sha256_S1 x = xor (xor (ror32 x 6) (ror32 x 11)) (ror32 x 25)"

definition sha256_R0 :: "u32 \<Rightarrow> u32" where
  "sha256_R0 x = xor (xor (ror32 x 7) (ror32 x 18)) (drop_bit 3 x)"

definition sha256_R1 :: "u32 \<Rightarrow> u32" where
  "sha256_R1 x = xor (xor (ror32 x 17) (ror32 x 19)) (drop_bit 10 x)"

definition sha256_words :: "bytes \<Rightarrow> u32 list" where
  "sha256_words buf = map (\<lambda>i. or (or (or (push_bit 24 (ucast (buf ! (4 * i)))) (push_bit 16 (ucast (buf ! (4 * i + 1)))))
     (push_bit 8 (ucast (buf ! (4 * i + 2))))) (ucast (buf ! (4 * i + 3)))) [0..<16]"

definition sha256_schedule :: "bytes \<Rightarrow> u32 list" where
  "sha256_schedule buf = foldl
     (\<lambda>W i. W @ [sha256_R1 (W ! (i - 2)) + W ! (i - 7) + sha256_R0 (W ! (i - 15)) + W ! (i - 16)])
     (sha256_words buf) [16..<64]"

text \<open>One round on the eight working variables, for both SHA-2 functions.\<close>

definition sha2_round :: "('w::len word \<Rightarrow> 'w word) \<Rightarrow> ('w word \<Rightarrow> 'w word) \<Rightarrow> 'w word \<Rightarrow> 'w word \<Rightarrow> 'w word list \<Rightarrow> 'w word list" where
  "sha2_round S0 S1 k w v = (case v of [a, b, c, d, e, f, g, h] \<Rightarrow>
     (let t1 = h + S1 e + Ch e f g + k + w; t2 = S0 a + Maj a b c
      in [t1 + t2, a, b, c, d + t1, e, f, g]) | _ \<Rightarrow> v)"

definition sha256_compress :: "u32 list \<Rightarrow> bytes \<Rightarrow> u32 list" where
  "sha256_compress h buf =
     (let W = sha256_schedule buf;
          v = foldl (\<lambda>v i. sha2_round sha256_S0 sha256_S1 (sha256_K ! i) (W ! i) v) h [0..<64]
      in map2 (+) h v)"

definition sha256_processblock :: "sha256 \<Rightarrow> bytes \<Rightarrow> sha256" where
  "sha256_processblock s buf = s\<lparr>hash_h := sha256_compress (hash_h s) buf\<rparr>"

definition sha256_pad :: "sha256 \<Rightarrow> sha256" where
  "sha256_pad = hash_pad 64 56 56 be64_bytes sha256_processblock"

definition sha256_init :: "sha256 \<Rightarrow> sha256" where
  "sha256_init s = s\<lparr>hash_len := 0, hash_h := [0x6a09e667, 0xbb67ae85, 0x3c6ef372, 0xa54ff53a,
     0x510e527f, 0x9b05688c, 0x1f83d9ab, 0x5be0cd19]\<rparr>"

definition be32_bytes :: "u32 \<Rightarrow> bytes" where
  "be32_bytes w = [ucast (drop_bit 24 w), ucast (drop_bit 16 w), ucast (drop_bit 8 w), ucast w]"

definition sha256_sum :: "sha256 \<Rightarrow> bytes" where
  "sha256_sum s = (let s = sha256_pad s in concat (map (\<lambda>i. be32_bytes (hash_h s ! i)) [0..<8]))"

definition sha256_update :: "sha256 \<Rightarrow> bytes \<Rightarrow> sha256" where
  "sha256_update = hash_update 64 sha256_processblock"

section \<open>SHA-512\<close>

definition ror64 :: "u64 \<Rightarrow> nat \<Rightarrow> u64" where
  "ror64 n k = or (drop_bit k n) (push_bit (64 - k) n)"

definition sha512_K :: "u64 list" where
  "sha512_K =
     [0x428a2f98d728ae22, 0x7137449123ef65cd, 0xb5c0fbcfec4d3b2f, 0xe9b5dba58189dbbc] @
     [0x3956c25bf348b538, 0x59f111f1b605d019, 0x923f82a4af194f9b, 0xab1c5ed5da6d8118] @
     [0xd807aa98a3030242, 0x12835b0145706fbe, 0x243185be4ee4b28c, 0x550c7dc3d5ffb4e2] @
     [0x72be5d74f27b896f, 0x80deb1fe3b1696b1, 0x9bdc06a725c71235, 0xc19bf174cf692694] @
     [0xe49b69c19ef14ad2, 0xefbe4786384f25e3, 0x0fc19dc68b8cd5b5, 0x240ca1cc77ac9c65] @
     [0x2de92c6f592b0275, 0x4a7484aa6ea6e483, 0x5cb0a9dcbd41fbd4, 0x76f988da831153b5] @
     [0x983e5152ee66dfab, 0xa831c66d2db43210, 0xb00327c898fb213f, 0xbf597fc7beef0ee4] @
     [0xc6e00bf33da88fc2, 0xd5a79147930aa725, 0x06ca6351e003826f, 0x142929670a0e6e70] @
     [0x27b70a8546d22ffc, 0x2e1b21385c26c926, 0x4d2c6dfc5ac42aed, 0x53380d139d95b3df] @
     [0x650a73548baf63de, 0x766a0abb3c77b2a8, 0x81c2c92e47edaee6, 0x92722c851482353b] @
     [0xa2bfe8a14cf10364, 0xa81a664bbc423001, 0xc24b8b70d0f89791, 0xc76c51a30654be30] @
     [0xd192e819d6ef5218, 0xd69906245565a910, 0xf40e35855771202a, 0x106aa07032bbd1b8] @
     [0x19a4c116b8d2d0c8, 0x1e376c085141ab53, 0x2748774cdf8eeb99, 0x34b0bcb5e19b48a8] @
     [0x391c0cb3c5c95a63, 0x4ed8aa4ae3418acb, 0x5b9cca4f7763e373, 0x682e6ff3d6b2b8a3] @
     [0x748f82ee5defb2fc, 0x78a5636f43172f60, 0x84c87814a1f0ab72, 0x8cc702081a6439ec] @
     [0x90befffa23631e28, 0xa4506cebde82bde9, 0xbef9a3f7b2c67915, 0xc67178f2e372532b] @
     [0xca273eceea26619c, 0xd186b8c721c0c207, 0xeada7dd6cde0eb1e, 0xf57d4f7fee6ed178] @
     [0x06f067aa72176fba, 0x0a637dc5a2c898a6, 0x113f9804bef90dae, 0x1b710b35131c471b] @
     [0x28db77f523047d84, 0x32caab7b40c72493, 0x3c9ebe0a15c9bebc, 0x431d67c49c100d4c] @
     [0x4cc5d4becb3e42b6, 0x597f299cfc657e2a, 0x5fcb6fab3ad6faec, 0x6c44198c4a475817]"

definition sha512_S0 :: "u64 \<Rightarrow> u64" where
  "sha512_S0 x = xor (xor (ror64 x 28) (ror64 x 34)) (ror64 x 39)"

definition sha512_S1 :: "u64 \<Rightarrow> u64" where
  "sha512_S1 x = xor (xor (ror64 x 14) (ror64 x 18)) (ror64 x 41)"

definition sha512_R0 :: "u64 \<Rightarrow> u64" where
  "sha512_R0 x = xor (xor (ror64 x 1) (ror64 x 8)) (drop_bit 7 x)"

definition sha512_R1 :: "u64 \<Rightarrow> u64" where
  "sha512_R1 x = xor (xor (ror64 x 19) (ror64 x 61)) (drop_bit 6 x)"

definition sha512_words :: "bytes \<Rightarrow> u64 list" where
  "sha512_words buf = map (\<lambda>i. or (or (or (or (or (or (or
      (push_bit 56 (ucast (buf ! (8 * i)))) (push_bit 48 (ucast (buf ! (8 * i + 1)))))
      (push_bit 40 (ucast (buf ! (8 * i + 2))))) (push_bit 32 (ucast (buf ! (8 * i + 3)))))
      (push_bit 24 (ucast (buf ! (8 * i + 4))))) (push_bit 16 (ucast (buf ! (8 * i + 5)))))
      (push_bit 8 (ucast (buf ! (8 * i + 6))))) (ucast (buf ! (8 * i + 7)))) [0..<16]"

definition sha512_schedule :: "bytes \<Rightarrow> u64 list" where
  "sha512_schedule buf = foldl
     (\<lambda>W i. W @ [sha512_R1 (W ! (i - 2)) + W ! (i - 7) + sha512_R0 (W ! (i - 15)) + W ! (i - 16)])
     (sha512_words buf) [16..<80]"

definition sha512_compress :: "u64 list \<Rightarrow> bytes \<Rightarrow> u64 list" where
  "sha512_compress h buf =
     (let W = sha512_schedule buf;
          v = foldl (\<lambda>v i. sha2_round sha512_S0 sha512_S1 (sha512_K ! i) (W ! i) v) h [0..<80]
      in map2 (+) h v)"

definition sha512_processblock :: "sha512 \<Rightarrow> bytes \<Rightarrow> sha512" where
  "sha512_processblock s buf = s\<lparr>hash_h := sha512_compress (hash_h s) buf\<rparr>"

definition sha512_pad :: "sha512 \<Rightarrow> sha512" where
  "sha512_pad = hash_pad 128 112 120 be64_bytes sha512_processblock"

definition sha512_init :: "sha512 \<Rightarrow> sha512" where
  "sha512_init s = s\<lparr>hash_len := 0, hash_h := [0x6a09e667f3bcc908, 0xbb67ae8584caa73b, 0x3c6ef372fe94f82b,
     0xa54ff53a5f1d36f1, 0x510e527fade682d1, 0x9b05688c2b3e6c1f, 0x1f83d9abfb41bd6b, 0x5be0cd19137e2179]\<rparr>"

definition sha512_sum :: "sha512 \<Rightarrow> bytes" where
  "sha512_sum s = (let s = sha512_pad s in concat (map (\<lambda>i. be64_bytes (hash_h s ! i)) [0..<8]))"

definition sha512_update :: "sha512 \<Rightarrow> bytes \<Rightarrow> sha512" where
  "sha512_update = hash_update 128 sha512_processblock"

section \<open>Streaming is sound\<close>

text \<open>
  The specification: absorb the full blocks of the padded message one after the other. The padding is
  that of RFC 1321 and FIPS 180: a one bit, zeros, and the length of the message in bits modulo \<open>2^64\<close>,
  up to a multiple of the block size.
\<close>

function absorb :: "nat \<Rightarrow> ('h \<Rightarrow> bytes \<Rightarrow> 'h) \<Rightarrow> 'h \<Rightarrow> bytes \<Rightarrow> 'h \<times> bytes" where
  "absorb B cf h m =
     (if B = 0 \<or> length m < B then (h, m) else absorb B cf (cf h (take B m)) (drop B m))"
  by pat_completeness auto

termination
  by (relation "measure (\<lambda>(B, cf, h, m). length m)") auto

declare absorb.simps [simp del]

definition md_padding :: "nat \<Rightarrow> nat \<Rightarrow> nat \<Rightarrow> (u64 \<Rightarrow> bytes) \<Rightarrow> nat \<Rightarrow> bytes" where
  "md_padding B lim off enc n =
     0x80 # replicate ((lim + B - 1 - n mod B) mod B + (off - lim)) 0 @ enc (8 * of_nat n)"

definition md_digest :: "nat \<Rightarrow> nat \<Rightarrow> nat \<Rightarrow> (u64 \<Rightarrow> bytes) \<Rightarrow> ('h \<Rightarrow> bytes \<Rightarrow> 'h) \<Rightarrow> 'h \<Rightarrow> bytes \<Rightarrow> 'h" where
  "md_digest B lim off enc cf iv m = fst (absorb B cf iv (m @ md_padding B lim off enc (length m)))"

lemma absorb_less: "length m < B \<Longrightarrow> absorb B cf h m = (h, m)"
  by (simp add: absorb.simps)

lemma absorb_ge: "0 < B \<Longrightarrow> B \<le> length m \<Longrightarrow> absorb B cf h m = absorb B cf (cf h (take B m)) (drop B m)"
  by (subst absorb.simps) simp

lemma process_blocks_less: "length p < B \<Longrightarrow> process_blocks B pb s p = (s, p)"
  by (simp add: process_blocks.simps)

lemma absorb_append:
  "absorb B cf h (m @ n) = (case absorb B cf h m of (h', r) \<Rightarrow> absorb B cf h' (r @ n))"
proof (induction B cf h m rule: absorb.induct)
  case (1 B cf h m)
  show ?case
  proof (cases "B = 0 \<or> length m < B")
    case True
    then show ?thesis by (simp add: absorb.simps [of B cf h m])
  next
    case False
    then have "absorb B cf h (m @ n) = absorb B cf (cf h (take B m)) (drop B m @ n)"
      by (subst absorb.simps) (simp add: not_less)
    with 1 False show ?thesis by (simp add: absorb.simps [of B cf h m])
  qed
qed

lemma length_absorb: "0 < B \<Longrightarrow> length (snd (absorb B cf h m)) = length m mod B"
proof (induction B cf h m rule: absorb.induct)
  case (1 B cf h m)
  then show ?case by (cases "length m < B") (simp_all add: absorb.simps [of B cf h m] le_mod_geq)
qed

lemma absorb_block: "0 < B \<Longrightarrow> length m = B \<Longrightarrow> absorb B cf h m = (cf h m, [])"
  by (simp add: absorb.simps)

lemma length_poke [simp]: "off + length src \<le> length b \<Longrightarrow> length (poke b off src) = length b"
  by (simp add: poke_def)

lemma take_poke: "off + length src \<le> length b \<Longrightarrow> take (off + length src) (poke b off src) = take off b @ src"
  by (simp add: poke_def)

lemma poke_adjacent:
  "off + length x \<le> length b \<Longrightarrow> k = off + length x \<Longrightarrow> poke (poke b off x) k y = poke b off (x @ y)"
  by (simp add: poke_def ac_simps)

lemma poke_to_end: "off + length src = length b \<Longrightarrow> poke b off src = take off b @ src"
  by (simp add: poke_def)

lemma take_poke_0: "length src \<le> length b \<Longrightarrow> take (length src) (poke b 0 src) = src"
  by (simp add: poke_def)

locale block_hash =
  fixes B lim off :: nat
    and enc :: "u64 \<Rightarrow> bytes"
    and cf :: "'w list \<Rightarrow> bytes \<Rightarrow> 'w list"
    and pb :: "'w hash_ctx \<Rightarrow> bytes \<Rightarrow> 'w hash_ctx"
    and iv :: "'w list"
  assumes pb: "pb s b = s\<lparr>hash_h := cf (hash_h s) b\<rparr>"
    and sizes: "0 < lim" "lim \<le> off" "off + 8 = B" "B dvd 2 ^ 64"
    and enc: "length (enc n) = 8"
begin

text \<open>A context that has been fed the message \<open>m\<close>.\<close>

definition fed :: "'w hash_ctx \<Rightarrow> bytes \<Rightarrow> bool" where
  "fed s m \<longleftrightarrow> hash_len s = of_nat (length m) \<and> length (hash_buf s) = B \<and>
     absorb B cf iv m = (hash_h s, take (length m mod B) (hash_buf s))"

lemma B_pos: "0 < B"
  using sizes by simp

lemma residue: "unat (of_nat n :: u64) mod B = n mod B"
  using sizes(4) by (simp add: unat_of_nat mod_mod_cancel take_bit_eq_mod)

lemma process_blocks_absorb:
  "process_blocks B pb s p = (s\<lparr>hash_h := fst (absorb B cf (hash_h s) p)\<rparr>, snd (absorb B cf (hash_h s) p))"
proof (induction "length p" arbitrary: s p rule: less_induct)
  case less
  show ?case
  proof (cases "length p < B")
    case True
    then show ?thesis by (simp add: process_blocks.simps [of B pb s p] absorb.simps [of B cf _ p])
  next
    case False
    with less.hyps [of "drop B p" "pb s (take B p)"] B_pos show ?thesis
      by (simp add: process_blocks.simps [of B pb s p] absorb.simps [of B cf _ p] pb)
  qed
qed

lemma fed_init: "length (hash_buf s) = B \<Longrightarrow> fed (s\<lparr>hash_len := 0, hash_h := iv\<rparr>) []"
  using B_pos by (simp add: fed_def absorb_less)

lemma fed_update:
  assumes "fed s m"
  shows "fed (hash_update B pb s p) (m @ p)"
proof -
  define r where "r = length m mod B"
  have s: "hash_len s = of_nat (length m)" "length (hash_buf s) = B"
    "absorb B cf iv m = (hash_h s, take r (hash_buf s))"
    using assms by (simp_all add: fed_def r_def)
  have r: "r < B" "unat (hash_len s) mod B = r" using B_pos s(1) by (simp_all add: r_def residue)
  have all: "absorb B cf iv (m @ p) = absorb B cf (hash_h s) (take r (hash_buf s) @ p)"
    by (simp add: absorb_append [of B cf iv m p] s(3))
  have len: "(length m + length p) mod B = (r + length p) mod B" by (simp add: r_def mod_add_left_eq)
  show ?thesis
  proof (cases "r + length p < B")
    case True
    then have "absorb B cf iv (m @ p) = (hash_h s, take r (hash_buf s) @ p)"
      using s(2) r by (simp add: all absorb_less)
    with True s r len take_poke [of r p "hash_buf s"] show ?thesis
      by (auto simp: fed_def hash_update_def Let_def process_blocks_less)
  next
    case False
    then have nl: "\<not> length p < B - r" by linarith
    define b1 where "b1 = (if r = 0 then hash_buf s else poke (hash_buf s) r (take (B - r) p))"
    define h1 where "h1 = (if r = 0 then hash_h s else cf (hash_h s) b1)"
    define p1 where "p1 = (if r = 0 then p else drop (B - r) p)"
    have b1: "length b1 = B" "r \<noteq> 0 \<Longrightarrow> b1 = take r (hash_buf s) @ take (B - r) p"
      using False s(2) r by (auto simp: b1_def poke_def)
    have absorb1: "absorb B cf iv (m @ p) = absorb B cf h1 p1"
      using False s(2) r b1(2) B_pos by (simp add: all h1_def p1_def absorb_ge)
    define h2 q where "h2 = fst (absorb B cf h1 p1)" and "q = snd (absorb B cf h1 p1)"
    have q: "length q = (r + length p) mod B"
      using length_absorb [OF B_pos, of cf iv "m @ p"] len by (simp add: absorb1 q_def)
    have upd: "hash_update B pb s p =
      s\<lparr>hash_len := of_nat (length (m @ p)), hash_h := h2, hash_buf := poke b1 0 q\<rparr>"
      using nl r s(1) by (simp add: hash_update_def Let_def process_blocks_absorb pb h2_def q_def h1_def p1_def b1_def)
    have "length q < B" using q B_pos by simp
    then show ?thesis
      using take_poke_0 [of q b1] b1(1) q len by (simp add: upd fed_def absorb1 h2_def q_def)
  qed
qed

lemma fed_updates: "fed s m \<Longrightarrow> fed (foldl (hash_update B pb) s ps) (m @ concat ps)"
proof (induction ps arbitrary: s m)
  case (Cons p ps)
  from Cons.IH [OF fed_update [OF Cons.prems]] show ?case by simp
qed simp

text \<open>Padding the buffered rest of the message and absorbing it gives the digest.\<close>

lemma pad_digest:
  assumes "fed s m"
  shows "hash_h (hash_pad B lim off enc pb s) = md_digest B lim off enc cf iv m"
proof -
  define r where "r = length m mod B"
  have s: "hash_len s = of_nat (length m)" "length (hash_buf s) = B"
    "absorb B cf iv m = (hash_h s, take r (hash_buf s))"
    using assms by (simp_all add: fed_def r_def)
  have r: "r < B" "unat (hash_len s) mod B = r" using B_pos s(1) by (simp_all add: r_def residue)
  let ?t = "take r (hash_buf s)" and ?e = "enc (8 * of_nat (length m))"
  have dig: "md_digest B lim off enc cf iv m = fst (absorb B cf (hash_h s) (?t @ md_padding B lim off enc (length m)))"
    by (simp add: md_digest_def absorb_append [of B cf iv m] s(3))
  show ?thesis
  proof (cases "r + 1 > lim")
    case False
    then have "(lim + B - 1 - r) mod B = lim - 1 - r"
      using sizes mod_add_self2 [of "lim - 1 - r" B] by simp
    then have "md_padding B lim off enc (length m) = 0x80 # replicate (off - (r + 1)) 0 @ ?e"
      using False sizes by (simp add: md_padding_def r_def)
    moreover have "poke (poke (poke (hash_buf s) r [0x80]) (r + 1) (replicate (off - (r + 1)) 0)) off ?e
        = ?t @ 0x80 # replicate (off - (r + 1)) 0 @ ?e"
      using False sizes s(2) r enc by (simp add: poke_adjacent, simp add: poke_to_end)
    ultimately show ?thesis
      using False sizes s(1,2) r enc B_pos
      by (simp add: dig absorb_block hash_pad_def Let_def pb mult.commute)
  next
    case True
    define b1 where "b1 = ?t @ 0x80 # replicate (B - (r + 1)) 0"
    have b1: "poke (poke (hash_buf s) r [0x80]) (r + 1) (replicate (B - (r + 1)) 0) = b1" "length b1 = B"
      using r s(2) by (simp_all add: b1_def poke_adjacent) (simp add: poke_to_end)
    have "lim + B - 1 - r = B - (r + 1) + lim" "B - (r + 1) + lim < B"
      using True sizes(1) r(1) by linarith+
    then have "(lim + B - 1 - r) mod B + (off - lim) = (B - (r + 1)) + off"
      using sizes(2) by simp
    then have "?t @ md_padding B lim off enc (length m) = b1 @ replicate off 0 @ ?e"
      by (simp add: md_padding_def r_def [symmetric] b1_def replicate_add)
    moreover have "poke (poke b1 0 (replicate off 0)) off ?e = replicate off 0 @ ?e"
      using sizes b1(2) enc by (simp add: poke_adjacent, simp add: poke_to_end)
    moreover have "absorb B cf (hash_h s) (b1 @ replicate off 0 @ ?e) = (cf (cf (hash_h s) b1) (replicate off 0 @ ?e), [])"
      using b1 B_pos sizes enc by (simp add: absorb_append [of B cf _ b1] absorb_block)
    ultimately show ?thesis
      using True s(1) r b1 by (simp add: dig hash_pad_def Let_def pb mult.commute)
  qed
qed

lemma pad_buf:
  assumes "fed s m"
  shows "length (hash_buf (hash_pad B lim off enc pb s)) = B"
proof -
  define r where "r = length m mod B"
  have s: "unat (hash_len s) mod B = r" "length (hash_buf s) = B" "r < B"
    using assms B_pos by (simp_all add: fed_def residue r_def)
  show ?thesis
    using s sizes enc by (cases "r + 1 > lim") (simp_all add: hash_pad_def Let_def pb)
qed

lemma streaming:
  assumes "length (hash_buf g) = B"
  shows "hash_h (hash_pad B lim off enc pb (foldl (hash_update B pb) (g\<lparr>hash_len := 0, hash_h := iv\<rparr>) ps))
         = md_digest B lim off enc cf iv (concat ps)"
  using pad_digest [OF fed_updates [OF fed_init [OF assms], of ps]] by simp

end

lemma length_enc [simp]: "length (le64_bytes n) = 8" "length (be64_bytes n) = 8"
    "length (le32_bytes w) = 4" "length (be32_bytes w) = 4"
  by (simp_all add: le64_bytes_def be64_bytes_def le32_bytes_def be32_bytes_def)

interpretation md5: block_hash 64 56 56 le64_bytes md5_compress md5_processblock
  "[0x67452301, 0xefcdab89, 0x98badcfe, 0x10325476]"
  by unfold_locales (simp_all add: md5_processblock_def dvd_def)

interpretation sha256: block_hash 64 56 56 be64_bytes sha256_compress sha256_processblock
  "[0x6a09e667, 0xbb67ae85, 0x3c6ef372, 0xa54ff53a, 0x510e527f, 0x9b05688c, 0x1f83d9ab, 0x5be0cd19]"
  by unfold_locales (simp_all add: sha256_processblock_def)

interpretation sha512: block_hash 128 112 120 be64_bytes sha512_compress sha512_processblock
  "[0x6a09e667f3bcc908, 0xbb67ae8584caa73b, 0x3c6ef372fe94f82b, 0xa54ff53a5f1d36f1,
    0x510e527fade682d1, 0x9b05688c2b3e6c1f, 0x1f83d9abfb41bd6b, 0x5be0cd19137e2179]"
  by unfold_locales (simp_all add: sha512_processblock_def)

text \<open>The digests of whole messages, as the standards define them.\<close>

definition md5_digest :: "bytes \<Rightarrow> bytes" where
  "md5_digest m = concat (map (\<lambda>i. le32_bytes (md_digest 64 56 56 le64_bytes md5_compress
     [0x67452301, 0xefcdab89, 0x98badcfe, 0x10325476] m ! i)) [0..<4])"

definition sha256_digest :: "bytes \<Rightarrow> bytes" where
  "sha256_digest m = concat (map (\<lambda>i. be32_bytes (md_digest 64 56 56 be64_bytes sha256_compress
     [0x6a09e667, 0xbb67ae85, 0x3c6ef372, 0xa54ff53a, 0x510e527f, 0x9b05688c, 0x1f83d9ab, 0x5be0cd19] m ! i)) [0..<8])"

definition sha512_digest :: "bytes \<Rightarrow> bytes" where
  "sha512_digest m = concat (map (\<lambda>i. be64_bytes (md_digest 128 112 120 be64_bytes sha512_compress
     [0x6a09e667f3bcc908, 0xbb67ae8584caa73b, 0x3c6ef372fe94f82b, 0xa54ff53a5f1d36f1,
      0x510e527fade682d1, 0x9b05688c2b3e6c1f, 0x1f83d9abfb41bd6b, 0x5be0cd19137e2179] m ! i)) [0..<8])"

lemma md5_stream: "length (hash_buf g) = 64 \<Longrightarrow> md5_sum (foldl md5_update (md5_init g) ps) = md5_digest (concat ps)"
  using md5.streaming [of g ps] by (simp add: md5_sum_def md5_digest_def md5_pad_def md5_update_def md5_init_def Let_def)

lemma sha256_stream:
  "length (hash_buf g) = 64 \<Longrightarrow> sha256_sum (foldl sha256_update (sha256_init g) ps) = sha256_digest (concat ps)"
  using sha256.streaming [of g ps]
  by (simp add: sha256_sum_def sha256_digest_def sha256_pad_def sha256_update_def sha256_init_def Let_def)

lemma sha512_stream:
  "length (hash_buf g) = 128 \<Longrightarrow> sha512_sum (foldl sha512_update (sha512_init g) ps) = sha512_digest (concat ps)"
  using sha512.streaming [of g ps]
  by (simp add: sha512_sum_def sha512_digest_def sha512_pad_def sha512_update_def sha512_init_def Let_def)

section \<open>Properties\<close>

text \<open>
  C21. Whatever garbage a context holds before \<open>init\<close>, and however a message is cut into the pieces given
  to \<open>update\<close>, \<open>sum\<close> returns the digest of the whole message: the MD5, SHA-256 and SHA-512 compression
  functions folded over the blocks of the message padded as RFC 1321 and FIPS 180 say, with the bit
  length modulo \<open>2^64\<close>. The contexts are the ones of \<open>crypt\<close>, with block buffers of 64, 64 and 128 bytes.
\<close>

theorem hash_streaming:
  assumes "length (hash_buf g) = 64" "length (hash_buf g') = 64" "length (hash_buf g'') = 128"
  shows "md5_sum (foldl md5_update (md5_init g) ps) = md5_digest (concat ps) \<and>
    sha256_sum (foldl sha256_update (sha256_init g') ps) = sha256_digest (concat ps) \<and>
    sha512_sum (foldl sha512_update (sha512_init g'') ps) = sha512_digest (concat ps)"
  using assms by (simp add: md5_stream sha256_stream sha512_stream)

theorem hash_streaming_witness:
  "md5_sum (foldl md5_update (md5_init \<lparr>hash_len = 7, hash_h = [], hash_buf = replicate 64 1\<rparr>) [[97], [98, 99]]) = md5_digest [97, 98, 99]"
  using hash_streaming [of "\<lparr>hash_len = 7, hash_h = [], hash_buf = replicate 64 1\<rparr>"
    "\<lparr>hash_len = 7, hash_h = [], hash_buf = replicate 64 1\<rparr>"
    "\<lparr>hash_len = 7, hash_h = [], hash_buf = replicate 128 1\<rparr>" "[[97], [98, 99]]"] by simp

end
