(* ===== verification/Ctype.thy ===== *)
theory Ctype
  imports Prelude
begin

text \<open>
  Character classification of the C library, \<open>src/musl-1.2.5/src/ctype\<close>. An \<open>int\<close> argument is its
  32-bit pattern; \<open>(unsigned)c-'0' < 10\<close> is the wrap-around range test the sources use. The main
  result is that the range tests, which accept any \<open>int\<close>, decide exactly the classes of the C locale.
\<close>

section \<open>Operations\<close>

definition isdigit :: "u32 \<Rightarrow> bool" where
  "isdigit c = (c - 48 < 10)"

definition isalpha :: "u32 \<Rightarrow> bool" where
  "isalpha c = ((or c 32) - 97 < 26)"

definition islower :: "u32 \<Rightarrow> bool" where
  "islower c = (c - 97 < 26)"

definition isupper :: "u32 \<Rightarrow> bool" where
  "isupper c = (c - 65 < 26)"

definition isprint :: "u32 \<Rightarrow> bool" where
  "isprint c = (c - 0x20 < 0x5f)"

definition isgraph :: "u32 \<Rightarrow> bool" where
  "isgraph c = (c - 0x21 < 0x5e)"

definition isspace :: "u32 \<Rightarrow> bool" where
  "isspace c = (c = 32 \<or> c - 9 < 5)"

definition isalnum :: "u32 \<Rightarrow> bool" where
  "isalnum c = (isalpha c \<or> isdigit c)"

definition isblank :: "u32 \<Rightarrow> bool" where
  "isblank c = (c = 32 \<or> c = 9)"

definition iscntrl :: "u32 \<Rightarrow> bool" where
  "iscntrl c = (c < 0x20 \<or> c = 0x7f)"

definition ispunct :: "u32 \<Rightarrow> bool" where
  "ispunct c = (isgraph c \<and> \<not> isalnum c)"

definition isxdigit :: "u32 \<Rightarrow> bool" where
  "isxdigit c = (isdigit c \<or> (or c 32) - 97 < 6)"

definition isascii :: "u32 \<Rightarrow> bool" where
  "isascii c = (and c (not 0x7f) = 0)"

definition toascii :: "u32 \<Rightarrow> u32" where
  "toascii c = and c 0x7f"

definition tolower :: "u32 \<Rightarrow> u32" where
  "tolower c = (if isupper c then or c 32 else c)"

definition toupper :: "u32 \<Rightarrow> u32" where
  "toupper c = (if islower c then and c 0x5f else c)"

section \<open>The classes as sets of characters\<close>

lemma wrap_range_iff:
  fixes c a n :: u32
  assumes "unat a + unat n \<le> 2 ^ 32"
  shows "c - a < n \<longleftrightarrow> unat a \<le> unat c \<and> unat c < unat a + unat n"
proof (cases "a \<le> c")
  case True
  then show ?thesis by (auto simp: word_less_nat_alt word_le_nat_alt unat_sub)
next
  case False
  then have "unat (c - a) = 2 ^ 32 + unat c - unat a"
    by (simp add: unat_sub_if' word_le_nat_alt)
  with False assms show ?thesis by (simp add: word_less_nat_alt word_le_nat_alt)
qed

lemma unat_or_32: "unat (or c 32 :: u32) = (if odd (unat c div 32) then unat c else unat c + 32)"
proof -
  have "or n 32 = (if odd (n div 32) then n else n + 32)" for n :: nat
  proof -
    have "or n 32 = set_bit 5 n" by (simp add: set_bit_eq_or push_bit_eq_mult)
    also have "\<dots> = n + of_bool (\<not> bit n 5) * 2 ^ 5" by (rule set_bit_eq)
    finally show ?thesis by (simp add: bit_iff_odd)
  qed
  from this [of "unat c"] show ?thesis by (simp add: unsigned_or_eq)
qed

named_theorems ctype_iff \<open>classes of characters as ranges of codes\<close>

lemma isdigit_iff [ctype_iff]: "isdigit c \<longleftrightarrow> unat c \<in> {48..57}"
  by (auto simp: isdigit_def wrap_range_iff)

lemma islower_iff [ctype_iff]: "islower c \<longleftrightarrow> unat c \<in> {97..122}"
  by (auto simp: islower_def wrap_range_iff)

lemma isupper_iff [ctype_iff]: "isupper c \<longleftrightarrow> unat c \<in> {65..90}"
  by (auto simp: isupper_def wrap_range_iff)

lemma isprint_iff [ctype_iff]: "isprint c \<longleftrightarrow> unat c \<in> {32..126}"
  by (auto simp: isprint_def wrap_range_iff)

lemma isgraph_iff [ctype_iff]: "isgraph c \<longleftrightarrow> unat c \<in> {33..126}"
  by (auto simp: isgraph_def wrap_range_iff)

lemma u32_eq_iff: "(c :: u32) = d \<longleftrightarrow> unat c = unat d"
  by (simp add: word_unat_eq_iff)

lemma isspace_iff [ctype_iff]: "isspace c \<longleftrightarrow> unat c = 32 \<or> unat c \<in> {9..13}"
  by (auto simp: isspace_def wrap_range_iff u32_eq_iff)

lemma isblank_iff [ctype_iff]: "isblank c \<longleftrightarrow> unat c \<in> {9, 32}"
  by (auto simp: isblank_def u32_eq_iff)

lemma iscntrl_iff [ctype_iff]: "iscntrl c \<longleftrightarrow> unat c \<in> {0..31} \<union> {127}"
  by (auto simp: iscntrl_def u32_eq_iff word_less_nat_alt)

lemma or_32_range:
  assumes "n \<le> 26" "0 < n"
  shows "or c 32 - 97 < (of_nat n :: u32) \<longleftrightarrow> unat c \<in> {65..<65 + n} \<union> {97..<97 + n}"
proof -
  have n: "unat (of_nat n :: u32) = n" using assms by (simp add: unat_of_nat)
  have k2: "m div 32 = 2" if "65 \<le> m" "m < 91" for m :: nat using that by simp
  have k3: "m div 32 = 3" if "97 \<le> m" "m < 123" for m :: nat using that by simp
  let ?m = "if odd (unat c div 32) then unat c else unat c + 32"
  have "or c 32 - 97 < (of_nat n :: u32) \<longleftrightarrow> 97 \<le> ?m \<and> ?m < 97 + n"
    using assms by (subst wrap_range_iff) (simp_all add: n unat_or_32)
  also have "\<dots> \<longleftrightarrow> (65 \<le> unat c \<and> unat c < 65 + n) \<or> (97 \<le> unat c \<and> unat c < 97 + n)"
    using assms k2 [of "unat c"] k3 [of "unat c"] by (cases "odd (unat c div 32)") auto
  finally show ?thesis by simp
qed

lemma isalpha_iff [ctype_iff]: "isalpha c \<longleftrightarrow> unat c \<in> {65..90} \<union> {97..122}"
  using or_32_range [of 26 c] by (auto simp: isalpha_def)

lemma isxdigit_iff [ctype_iff]: "isxdigit c \<longleftrightarrow> unat c \<in> {48..57} \<union> {65..70} \<union> {97..102}"
  using or_32_range [of 6 c] by (auto simp: isxdigit_def isdigit_iff)

lemma isascii_iff [ctype_iff]: "isascii c \<longleftrightarrow> unat c \<in> {0..127}"
proof -
  have "and c (not (mask 7)) = 0 \<longleftrightarrow> take_bit 7 c = c"
    by (auto simp: bit_eq_iff bit_simps)
  also have "\<dots> \<longleftrightarrow> unat c mod 128 = unat c"
    by (simp add: u32_eq_iff take_bit_eq_mod unat_mod)
  also have "\<dots> \<longleftrightarrow> unat c < 128" by auto
  finally show ?thesis by (auto simp: isascii_def mask_eq_exp_minus_1)
qed

lemma unat_tolower: "unat (tolower c) = (if unat c \<in> {65..90} then unat c + 32 else unat c)"
proof (cases "unat c \<in> {65..90}")
  case True
  then have "unat c div 32 = 2" by auto
  with True show ?thesis by (simp add: tolower_def isupper_iff unat_or_32)
qed (auto simp: tolower_def isupper_iff)

lemma unat_toupper: "unat (toupper c) = (if unat c \<in> {97..122} then unat c - 32 else unat c)"
proof (cases "unat c \<in> {97..122}")
  case True
  have "list_all (\<lambda>n. and n 0x5f = n - (32 :: nat)) [97..<123]" by code_simp
  moreover have "unat c \<in> set [97..<123]" using True by (simp only: set_upt) auto
  ultimately have "and (unat c) 0x5f = unat c - 32" by (simp only: list_all_iff)
  with True show ?thesis by (simp add: toupper_def islower_iff unsigned_and_eq)
qed (auto simp: toupper_def islower_iff)

section \<open>Properties\<close>

text \<open>
  The classification functions decide, for every \<open>int\<close> argument (negative ones included), exactly
  the character classes of the C locale; the case conversions map exactly the letters.
\<close>

theorem ctype_C_locale:
  "(isdigit c = (unat c \<in> {48..57})) \<and>
   (isupper c = (unat c \<in> {65..90})) \<and>
   (islower c = (unat c \<in> {97..122})) \<and>
   (isalpha c = (isupper c \<or> islower c)) \<and>
   (isalnum c = (isalpha c \<or> isdigit c)) \<and>
   (isspace c = (unat c \<in> {9..13} \<union> {32})) \<and>
   (isblank c = (unat c \<in> {9, 32})) \<and>
   (iscntrl c = (unat c \<in> {0..31} \<union> {127})) \<and>
   (isxdigit c = (unat c \<in> {48..57} \<union> {65..70} \<union> {97..102})) \<and>
   (isprint c = (isgraph c \<or> unat c = 32)) \<and>
   (isgraph c = (isalnum c \<or> ispunct c)) \<and>
   (isascii c = (isprint c \<or> iscntrl c)) \<and>
   ((isprint c \<and> iscntrl c) = False) \<and>
   (tolower c = (if isupper c then c + 32 else c)) \<and>
   (toupper c = (if islower c then c - 32 else c)) \<and>
   (unat (toascii c) = unat c mod 128)"
proof -
  have "unat (toascii c) = unat c mod 128"
    using take_bit_eq_mask [of 7 c] unat_mod [of c 128]
    by (simp add: toascii_def mask_eq_exp_minus_1 take_bit_eq_mod)
  moreover have less: "unat c < 2 ^ 32" using unsigned_less [of c, where ?'a = nat] by simp
  have "tolower c = (if isupper c then c + 32 else c)"
    using less by (auto simp: u32_eq_iff unat_tolower isupper_iff unat_word_ariths)
  moreover have "toupper c = (if islower c then c - 32 else c)"
    using less by (auto simp: u32_eq_iff unat_toupper islower_iff unat_sub_if')
  moreover have "isalpha c = (isupper c \<or> islower c)" "isprint c = (isgraph c \<or> unat c = 32)"
    "isascii c = (isprint c \<or> iscntrl c)"
    by (auto simp: ctype_iff)
  ultimately show ?thesis
    by (intro conjI) (auto simp: ctype_iff isalnum_def ispunct_def)
qed

end
