(* ===== verification/Intscan.thy ===== *)
theory Intscan
  imports Ctype
begin

text \<open>
  Integer parsing of the C library: \<open>src/musl-1.2.5/src/internal/intscan.c\<close>, the string
  pseudo-files of \<open>internal/shgetc.c\<close> and the \<open>strto*\<close> family of \<open>stdlib/strtol.c\<close>. A string is the
  list of the bytes of its object from the pointer on, terminator included; a read behind the object is
  \<open>None\<close>. The scanner keeps the \<open>unsigned\<close> and \<open>unsigned long long\<close> accumulators of the source with
  their overflow guards. The main results: \<open>strtoul\<close> and \<open>strtol\<close> return the value of the digits or
  the clamped limit with \<open>ERANGE\<close>, for every length of the numeral, and stop after the last digit.
\<close>

section \<open>String pseudo-files\<close>

abbreviation (input) ERANGE :: int where "ERANGE \<equiv> 34"

record shfile =
  sh_buf :: bytes
  sh_rpos :: nat
  sh_cnt :: int
  sh_limit :: int

definition sh_fromstring :: "bytes \<Rightarrow> shfile" where
  "sh_fromstring s = \<lparr>sh_buf = s, sh_rpos = 0, sh_cnt = 0, sh_limit = 0\<rparr>"

text \<open>\<open>rend\<close> of a string pseudo-file is the end of the address space, so \<open>shend\<close> is never reached.\<close>

definition shlim :: "shfile \<Rightarrow> int \<Rightarrow> shfile" where
  "shlim f lim = f\<lparr>sh_limit := lim, sh_cnt := - int (sh_rpos f)\<rparr>"

definition shcnt :: "shfile \<Rightarrow> int" where
  "shcnt f = sh_cnt f + int (sh_rpos f)"

definition shgetc :: "shfile \<Rightarrow> (u32 \<times> shfile) option" where
  "shgetc f = do { b \<leftarrow> rd8 (sh_buf f) (sh_rpos f); Some (ucast b, f\<lparr>sh_rpos := sh_rpos f + 1\<rparr>) }"

definition shunget :: "shfile \<Rightarrow> shfile" where
  "shunget f = (if sh_limit f \<ge> 0 then f\<lparr>sh_rpos := sh_rpos f - 1\<rparr> else f)"

section \<open>The scanner\<close>

text \<open>The table of digit values; index 0 is the entry for \<open>EOF\<close>.\<close>

definition digit_table :: "nat list" where
  "digit_table = 255 # replicate 48 255 @ [0..<10] @ replicate 7 255 @ [10..<36] @ replicate 6 255 @
     [10..<36] @ replicate 133 255"

definition digit_val :: "u32 \<Rightarrow> nat" where
  "digit_val c = digit_table ! (unat c + 1)"

text \<open>
  The shape of every scanning loop of the source, \<open>for (; p(c, a); c = shgetc(f)) a = g(c, a)\<close>.
\<close>

function scan_loop :: "(u32 \<Rightarrow> 'a \<Rightarrow> bool) \<Rightarrow> (u32 \<Rightarrow> 'a \<Rightarrow> 'a) \<Rightarrow> 'a \<Rightarrow> u32 \<Rightarrow> shfile \<Rightarrow> ('a \<times> u32 \<times> shfile) option" where
  "scan_loop p g a c f =
     (if p c a
      then (case shgetc f of None \<Rightarrow> None | Some (c', f') \<Rightarrow> scan_loop p g (g c a) c' f')
      else Some (a, c, f))"
  by pat_completeness auto

termination
  by (relation "measure (\<lambda>(p, g, a, c, f). length (sh_buf f) - sh_rpos f)")
    (auto simp: shgetc_def rd8_def split: if_splits bind_splits)

declare scan_loop.simps [simp del]

text \<open>The accumulation loops for base 10, for powers of two and for the other bases.\<close>

definition scan_dec :: "u32 \<Rightarrow> shfile \<Rightarrow> (u64 \<times> u32 \<times> shfile) option" where
  "scan_dec c f = do {
     (x, c, f) \<leftarrow> scan_loop (\<lambda>c x. isdigit c \<and> x \<le> 0xffffffff div 10 - 1) (\<lambda>c x. x * 10 + (c - 48)) (0 :: u32) c f;
     scan_loop (\<lambda>c y. isdigit c \<and> y \<le> 0xffffffffffffffff div 10 \<and> 10 * y \<le> 0xffffffffffffffff - ucast (c - 48))
       (\<lambda>c y. y * 10 + ucast (c - 48)) (ucast x :: u64) c f }"

definition pow2_shift :: "nat \<Rightarrow> nat" where
  "pow2_shift base = [0, 1, 2, 4, 7, 3, 6, 5] ! ((0x17 * base) div 32 mod 8)"

definition scan_pow2 :: "nat \<Rightarrow> u32 \<Rightarrow> shfile \<Rightarrow> (u64 \<times> u32 \<times> shfile) option" where
  "scan_pow2 base c f = (let bs = pow2_shift base in do {
     (x, c, f) \<leftarrow> scan_loop (\<lambda>c x. digit_val c < base \<and> x \<le> 0xffffffff div 32)
       (\<lambda>c x. or (push_bit bs x) (of_nat (digit_val c))) (0 :: u32) c f;
     scan_loop (\<lambda>c y. digit_val c < base \<and> y \<le> drop_bit bs 0xffffffffffffffff)
       (\<lambda>c y. or (push_bit bs y) (of_nat (digit_val c))) (ucast x :: u64) c f })"

definition scan_base :: "nat \<Rightarrow> u32 \<Rightarrow> shfile \<Rightarrow> (u64 \<times> u32 \<times> shfile) option" where
  "scan_base base c f = do {
     (x, c, f) \<leftarrow> scan_loop (\<lambda>c x. digit_val c < base \<and> x \<le> 0xffffffff div 36 - 1)
       (\<lambda>c x. x * of_nat base + of_nat (digit_val c)) (0 :: u32) c f;
     scan_loop (\<lambda>c y. digit_val c < base \<and> y \<le> 0xffffffffffffffff div of_nat base \<and>
                      of_nat base * y \<le> 0xffffffffffffffff - of_nat (digit_val c))
       (\<lambda>c y. y * of_nat base + of_nat (digit_val c)) (ucast x :: u64) c f }"

text \<open>
  From the point where the base is known: accumulate, skip the digits of a value that does not fit,
  push the terminating character back and clamp. The result is the value, \<open>errno\<close> if it is set, and
  the file.
\<close>

definition scan_finish :: "nat \<Rightarrow> bool \<Rightarrow> u64 \<Rightarrow> u32 \<Rightarrow> shfile \<Rightarrow> (u64 \<times> int option \<times> shfile) option" where
  "scan_finish base neg lim c f = do {
     (y, c, f) \<leftarrow> (if base = 10 then scan_dec c f
                  else if and base (base - 1) = 0 then scan_pow2 base c f
                  else scan_base base c f);
     (y, err, neg, f) \<leftarrow>
       (if \<not> (base = 10 \<and> \<not> isdigit c) \<and> digit_val c < base
        then do { (_, c, f) \<leftarrow> scan_loop (\<lambda>c _. digit_val c < base) (\<lambda>_ a. a) () c f;
                  Some (lim, Some ERANGE, if and lim 1 \<noteq> 0 then False else neg, f) }
        else Some (y, None, neg, f));
     let f = shunget f;
     if y \<ge> lim \<and> and lim 1 = 0 \<and> \<not> neg then Some (lim - 1, Some ERANGE, f)
     else if y > lim then Some (lim, Some ERANGE, f)
     else (let n = (if neg then - 1 else 0) in Some (xor y n - n, err, f)) }"

definition intscan :: "shfile \<Rightarrow> u32 \<Rightarrow> bool \<Rightarrow> u64 \<Rightarrow> (u64 \<times> int option \<times> shfile) option" where
  "intscan f base pok lim =
     (if base > 36 \<or> base = 1 then Some (0, Some EINVAL, f) else do {
     (c, f) \<leftarrow> shgetc f;
     (_, c, f) \<leftarrow> scan_loop (\<lambda>c _. isspace c) (\<lambda>_ a. a) () c f;
     (neg, c, f) \<leftarrow> (if c = 43 \<or> c = 45 then do { (c', f) \<leftarrow> shgetc f; Some (c = 45, c', f) }
                    else Some (False, c, f));
     if (base = 0 \<or> base = 16) \<and> c = 48 then do {
       (c, f) \<leftarrow> shgetc f;
       if or c 32 = 120 then do {
         (c, f) \<leftarrow> shgetc f;
         if digit_val c \<ge> 16
         then (let f = shunget f in Some (0, None, if pok then shunget f else shlim f 0))
         else scan_finish 16 neg lim c f }
       else scan_finish (if base = 0 then 8 else unat base) neg lim c f }
     else (let b = (if base = 0 then 10 else unat base) in
       if digit_val c \<ge> b then Some (0, Some EINVAL, shlim (shunget f) 0)
       else scan_finish b neg lim c f) })"

section \<open>The \<open>strto*\<close> family\<close>

text \<open>The result is the value, \<open>errno\<close> if it is set, and the offset stored through the end pointer.\<close>

definition strtox :: "bytes \<Rightarrow> u32 \<Rightarrow> u64 \<Rightarrow> (u64 \<times> int option \<times> int) option" where
  "strtox s base lim = do {
     (y, err, f) \<leftarrow> intscan (shlim (sh_fromstring s) 0) base True lim;
     Some (y, err, shcnt f) }"

definition strtoull :: "bytes \<Rightarrow> u32 \<Rightarrow> (u64 \<times> int option \<times> int) option" where
  "strtoull s base = strtox s base 0xffffffffffffffff"

definition strtoll :: "bytes \<Rightarrow> u32 \<Rightarrow> (u64 \<times> int option \<times> int) option" where
  "strtoll s base = strtox s base 0x8000000000000000"

definition strtoul :: "bytes \<Rightarrow> u32 \<Rightarrow> (u64 \<times> int option \<times> int) option" where
  "strtoul s base = strtox s base 0xffffffffffffffff"

definition strtol :: "bytes \<Rightarrow> u32 \<Rightarrow> (u64 \<times> int option \<times> int) option" where
  "strtol s base = strtox s base 0x8000000000000000"

section \<open>Digits and numerals\<close>

definition dval :: "u8 \<Rightarrow> nat" where
  "dval d = digit_val (ucast d)"

definition numeral_val :: "nat \<Rightarrow> nat \<Rightarrow> bytes \<Rightarrow> nat" where
  "numeral_val b v ds = foldl (\<lambda>v d. v * b + dval d) v ds"

lemma numeral_val_simps [simp]:
  "numeral_val b v [] = v"
  "numeral_val b v (d # ds) = numeral_val b (v * b + dval d) ds"
  "numeral_val b v (ds @ es) = numeral_val b (numeral_val b v ds) es"
  by (simp_all add: numeral_val_def)

lemma numeral_val_mono: "0 < b \<Longrightarrow> v \<le> numeral_val b v ds"
proof (induction ds arbitrary: v)
  case (Cons d ds)
  have "v \<le> v * b + dval d" using Cons.prems by (simp add: trans_le_add1)
  also have "\<dots> \<le> numeral_val b (v * b + dval d) ds" by (rule Cons.IH [OF Cons.prems])
  finally show ?case by simp
qed simp

lemma digit_table_nth: "n < 256 \<Longrightarrow> digit_table ! Suc n = (if 48 \<le> n \<and> n \<le> 57 then n - 48
     else if 65 \<le> n \<and> n \<le> 90 then n - 55 else if 97 \<le> n \<and> n \<le> 122 then n - 87 else 255)"
  by (auto simp: digit_table_def nth_append simp del: upt_conv_Cons upt_rec_numeral)

lemma dval_eq: "dval d = (if 48 \<le> unat d \<and> unat d \<le> 57 then unat d - 48
     else if 65 \<le> unat d \<and> unat d \<le> 90 then unat d - 55
     else if 97 \<le> unat d \<and> unat d \<le> 122 then unat d - 87 else 255)"
  by (simp add: dval_def digit_val_def digit_table_nth)

lemma isdigit_dval: "isdigit (ucast d) \<longleftrightarrow> dval d < 10"
  by (auto simp: isdigit_iff dval_eq)

lemma digit_minus_48: "isdigit (ucast d) \<Longrightarrow> ucast d - (48 :: u32) = of_nat (dval d)"
  by (auto simp: isdigit_iff dval_eq word_unat_eq_iff unat_sub_if' unat_of_nat)

section \<open>Runs of the scanning loop\<close>

lemma shgetc_eq:
  "sh_buf f = pre @ x # post \<Longrightarrow> sh_rpos f = length pre \<Longrightarrow> shgetc f = Some (ucast x, f\<lparr>sh_rpos := length pre + 1\<rparr>)"
  by (simp add: shgetc_def rd8_def)

text \<open>
  A loop that has the digits \<open>ds\<close> and then the stop character \<open>r\<close> ahead of it consumes a prefix of the
  digits on which its condition holds, and stops at the first digit where it fails or at \<open>r\<close>.
\<close>

lemma scan_loop_split:
  assumes "\<And>a. \<not> p (ucast r) a"
    and "sh_buf f = pre @ ds @ r # post" and "sh_rpos f = length pre + 1"
  shows "\<exists>ds1 ds2. ds = ds1 @ ds2 \<and>
    scan_loop p g a (ucast (hd (ds @ [r]))) f =
      Some (foldl (\<lambda>a d. g (ucast d) a) a ds1, ucast (hd (ds2 @ [r])), f\<lparr>sh_rpos := length pre + 1 + length ds1\<rparr>) \<and>
    (ds2 \<noteq> [] \<longrightarrow> \<not> p (ucast (hd ds2)) (foldl (\<lambda>a d. g (ucast d) a) a ds1)) \<and>
    (\<forall>us d vs. ds1 = us @ d # vs \<longrightarrow> p (ucast d) (foldl (\<lambda>a d. g (ucast d) a) a us))"
  using assms(2,3)
proof (induction ds arbitrary: a f pre)
  case Nil
  have "f\<lparr>sh_rpos := Suc (length pre)\<rparr> = f" using Nil by simp
  with assms(1) show ?case by (simp add: scan_loop.simps)
next
  case (Cons d ds)
  show ?case
  proof (cases "p (ucast d) a")
    case False
    have "f\<lparr>sh_rpos := Suc (length pre)\<rparr> = f" using Cons by simp
    with False have "scan_loop p g a (ucast (hd ((d # ds) @ [r]))) f = Some (a, ucast d, f\<lparr>sh_rpos := length pre + 1\<rparr>)"
      by (simp add: scan_loop.simps)
    with False show ?thesis by (intro exI [of _ "[]"] exI [of _ "d # ds"]) simp
  next
    case True
    let ?f = "f\<lparr>sh_rpos := length pre + 2\<rparr>"
    have get: "shgetc f = Some (ucast (hd (ds @ [r])), ?f)"
      using Cons.prems by (cases ds) (simp_all add: shgetc_def rd8_def nth_append)
    have "sh_buf ?f = (pre @ [d]) @ ds @ r # post" "sh_rpos ?f = length (pre @ [d]) + 1"
      using Cons.prems by simp_all
    from Cons.IH [OF this, of "g (ucast d) a"] obtain ds1 ds2 where IH: "ds = ds1 @ ds2"
      "scan_loop p g (g (ucast d) a) (ucast (hd (ds @ [r]))) ?f =
         Some (foldl (\<lambda>a d. g (ucast d) a) (g (ucast d) a) ds1, ucast (hd (ds2 @ [r])),
           ?f\<lparr>sh_rpos := length (pre @ [d]) + 1 + length ds1\<rparr>)"
      "ds2 \<noteq> [] \<longrightarrow> \<not> p (ucast (hd ds2)) (foldl (\<lambda>a d. g (ucast d) a) (g (ucast d) a) ds1)"
      "\<forall>us e vs. ds1 = us @ e # vs \<longrightarrow> p (ucast e) (foldl (\<lambda>a d. g (ucast d) a) (g (ucast d) a) us)"
      by (elim exE conjE)
    have "\<forall>us e vs. d # ds1 = us @ e # vs \<longrightarrow> p (ucast e) (foldl (\<lambda>a d. g (ucast d) a) a us)"
      using IH(4) True by (auto simp: Cons_eq_append_conv)
    with IH get True show ?thesis
      by (intro exI [of _ "d # ds1"] exI [of _ ds2]) (simp add: scan_loop.simps [of p g a "ucast d" f])
  qed
qed

lemma scan_loop_all:
  assumes "\<And>a. \<not> p (ucast r) a" "\<And>d a. d \<in> set ds \<Longrightarrow> p (ucast d) a"
    and "sh_buf f = pre @ ds @ r # post" "sh_rpos f = length pre + 1"
  shows "scan_loop p g a (ucast (hd (ds @ [r]))) f =
    Some (foldl (\<lambda>a d. g (ucast d) a) a ds, ucast r, f\<lparr>sh_rpos := length pre + 1 + length ds\<rparr>)"
proof -
  obtain ds1 ds2 where *: "ds = ds1 @ ds2"
    "scan_loop p g a (ucast (hd (ds @ [r]))) f =
      Some (foldl (\<lambda>a d. g (ucast d) a) a ds1, ucast (hd (ds2 @ [r])), f\<lparr>sh_rpos := length pre + 1 + length ds1\<rparr>)"
    "ds2 \<noteq> [] \<longrightarrow> \<not> p (ucast (hd ds2)) (foldl (\<lambda>a d. g (ucast d) a) a ds1)"
    using scan_loop_split [of p r f pre ds post g a] assms(1,3,4) by metis
  have "ds2 = []"
    using *(1,3) assms(2) by (metis hd_in_set in_set_conv_decomp append_assoc list.set_sel(1) Un_iff set_append)
  with * show ?thesis by simp
qed

lemma fold_exact:
  fixes g :: "u32 \<Rightarrow> 'w::len word \<Rightarrow> 'w word"
  assumes step: "\<And>d a. p (ucast d) a \<Longrightarrow> dval d < b \<Longrightarrow> unat (g (ucast d) a) = unat a * b + dval d"
    and "\<forall>us d vs. ds = us @ d # vs \<longrightarrow> p (ucast d) (foldl (\<lambda>a d. g (ucast d) a) a us)"
    and "\<forall>d \<in> set ds. dval d < b"
  shows "unat (foldl (\<lambda>a d. g (ucast d) a) a ds) = numeral_val b (unat a) ds"
  using assms(2,3)
proof (induction ds rule: rev_induct)
  case (snoc d ds)
  have "\<forall>us e vs. ds = us @ e # vs \<longrightarrow> p (ucast e) (foldl (\<lambda>a d. g (ucast d) a) a us)"
    using snoc.prems(1) by auto
  with snoc have "unat (foldl (\<lambda>a d. g (ucast d) a) a ds) = numeral_val b (unat a) ds" by simp
  moreover have "p (ucast d) (foldl (\<lambda>a d. g (ucast d) a) a ds)" using snoc.prems(1) by simp
  ultimately show ?case using step snoc.prems(2) by simp
qed simp

section \<open>The accumulation loops are exact\<close>

text \<open>
  A scanner of base \<open>b\<close> reads the longest prefix of the digits whose value fits 64 bits and leaves the
  rest; what it returns is that value.
\<close>

definition accumulates :: "nat \<Rightarrow> (u32 \<Rightarrow> shfile \<Rightarrow> (u64 \<times> u32 \<times> shfile) option) \<Rightarrow> bool" where
  "accumulates b S \<longleftrightarrow> (\<forall>ds r pre post f.
     (\<forall>d \<in> set ds. dval d < b) \<longrightarrow> b \<le> dval r \<longrightarrow> sh_buf f = pre @ ds @ r # post \<longrightarrow> sh_rpos f = length pre + 1 \<longrightarrow>
     (\<exists>ds1 ds2 y. ds = ds1 @ ds2 \<and>
        S (ucast (hd (ds @ [r]))) f = Some (y, ucast (hd (ds2 @ [r])), f\<lparr>sh_rpos := length pre + 1 + length ds1\<rparr>) \<and>
        unat y = numeral_val b 0 ds1 \<and> (ds2 \<noteq> [] \<longrightarrow> 2 ^ 64 \<le> numeral_val b (unat y) [hd ds2])))"

lemma two_phase_accumulates:
  fixes g1 :: "u32 \<Rightarrow> u32 \<Rightarrow> u32" and g2 :: "u32 \<Rightarrow> u64 \<Rightarrow> u64"
  assumes S: "S = (\<lambda>c f. do { (x, c, f) \<leftarrow> scan_loop p1 g1 0 c f; scan_loop p2 g2 (ucast x) c f })"
    and stop: "\<And>r a. b \<le> dval r \<Longrightarrow> \<not> p1 (ucast r) a" "\<And>r a. b \<le> dval r \<Longrightarrow> \<not> p2 (ucast r) a"
    and step1: "\<And>d a. p1 (ucast d) a \<Longrightarrow> dval d < b \<Longrightarrow> unat (g1 (ucast d) a) = unat a * b + dval d"
    and step2: "\<And>d a. p2 (ucast d) a \<Longrightarrow> dval d < b \<Longrightarrow> unat (g2 (ucast d) a) = unat a * b + dval d"
    and full: "\<And>d a. \<not> p2 (ucast d) a \<Longrightarrow> dval d < b \<Longrightarrow> 2 ^ 64 \<le> unat a * b + dval d"
  shows "accumulates b S"
  unfolding accumulates_def
proof (intro allI impI)
  fix ds r pre post and f :: shfile
  assume ds: "\<forall>d \<in> set ds. dval d < b" and r: "b \<le> dval r"
    and f: "sh_buf f = pre @ ds @ r # post" "sh_rpos f = length pre + 1"
  let ?F1 = "foldl (\<lambda>a d. g1 (ucast d) a) 0" and ?F2 = "\<lambda>x. foldl (\<lambda>a d. g2 (ucast d) a) (ucast (x :: u32))"
  obtain d1 d2 where 1: "ds = d1 @ d2"
    "scan_loop p1 g1 0 (ucast (hd (ds @ [r]))) f =
       Some (?F1 d1, ucast (hd (d2 @ [r])), f\<lparr>sh_rpos := length pre + 1 + length d1\<rparr>)"
    "\<forall>us d vs. d1 = us @ d # vs \<longrightarrow> p1 (ucast d) (?F1 us)"
    using scan_loop_split [of p1 r f pre ds post g1 0] stop(1) [OF r] f by metis
  let ?f = "f\<lparr>sh_rpos := length pre + 1 + length d1\<rparr>" and ?x = "?F1 d1"
  have f2: "sh_buf ?f = (pre @ d1) @ d2 @ r # post" "sh_rpos ?f = length (pre @ d1) + 1" using f 1 by simp_all
  obtain d3 d4 where 2: "d2 = d3 @ d4"
    "scan_loop p2 g2 (ucast ?x) (ucast (hd (d2 @ [r]))) ?f =
       Some (?F2 ?x d3, ucast (hd (d4 @ [r])), ?f\<lparr>sh_rpos := length (pre @ d1) + 1 + length d3\<rparr>)"
    "d4 \<noteq> [] \<longrightarrow> \<not> p2 (ucast (hd d4)) (?F2 ?x d3)"
    "\<forall>us d vs. d3 = us @ d # vs \<longrightarrow> p2 (ucast d) (?F2 ?x us)"
    using scan_loop_split [of p2 r ?f "pre @ d1" d2 post g2 "ucast ?x", OF stop(2) [OF r] f2] by (elim exE conjE)
  have "unat ?x = numeral_val b 0 d1"
    using fold_exact [of p1 b g1, OF step1 1(3)] ds 1(1) by simp
  moreover have "unat (ucast ?x :: u64) = unat ?x"
    using unsigned_less [of ?x, where ?'a = nat] by (simp add: unsigned_ucast_eq take_bit_nat_eq_self_iff)
  moreover have "unat (?F2 ?x d3) = numeral_val b (unat (ucast ?x :: u64)) d3"
    using fold_exact [of p2 b g2, OF step2 2(4)] ds 1(1) 2(1) by simp
  ultimately have y: "unat (?F2 ?x d3) = numeral_val b 0 (d1 @ d3)" by simp
  have "d4 \<noteq> [] \<Longrightarrow> 2 ^ 64 \<le> numeral_val b (unat (?F2 ?x d3)) [hd d4]"
    using full [of "hd d4" "?F2 ?x d3"] 2(1,3) 1(1) ds by (cases d4) auto
  with y 1 2 show "\<exists>ds1 ds2 y. ds = ds1 @ ds2 \<and>
        S (ucast (hd (ds @ [r]))) f = Some (y, ucast (hd (ds2 @ [r])), f\<lparr>sh_rpos := length pre + 1 + length ds1\<rparr>) \<and>
        unat y = numeral_val b 0 ds1 \<and> (ds2 \<noteq> [] \<longrightarrow> 2 ^ 64 \<le> numeral_val b (unat y) [hd ds2])"
    by (intro exI [of _ "d1 @ d3"] exI [of _ d4] exI [of _ "?F2 ?x d3"]) (simp add: S add.assoc)
qed

lemma unat_madd:
  fixes a :: "'w::len word"
  assumes "unat a * b + d < 2 ^ LENGTH('w)"
  shows "unat (a * of_nat b + of_nat d) = unat a * b + d"
proof -
  have "a * of_nat b + of_nat d = of_nat (unat a * b + d)" by simp
  then show ?thesis using assms by (simp only:) (simp add: unat_of_nat take_bit_nat_eq_self del: of_nat_add of_nat_mult)
qed

lemma unat_madd_u32: "unat a * b + d < 2 ^ 32 \<Longrightarrow> unat ((a :: u32) * of_nat b + of_nat d) = unat a * b + d"
  by (rule unat_madd) simp

lemma unat_madd_u64: "unat a * b + d < 2 ^ 64 \<Longrightarrow> unat ((a :: u64) * of_nat b + of_nat d) = unat a * b + d"
  by (rule unat_madd) simp

text \<open>The two comparisons that guard the 64-bit accumulator decide whether the next value fits.\<close>

lemma guard_u64_iff:
  fixes y :: u64
  assumes "0 < b" "b \<le> 36" "d < b"
  shows "y \<le> 0xffffffffffffffff div of_nat b \<and> of_nat b * y \<le> 0xffffffffffffffff - of_nat d
         \<longleftrightarrow> unat y * b + d < 2 ^ 64"
proof -
  have b: "unat (of_nat b :: u64) = b" and d: "unat (of_nat d :: u64) = d"
    using assms by (simp_all add: unat_of_nat)
  have 1: "y \<le> 0xffffffffffffffff div of_nat b \<longleftrightarrow> unat y \<le> 0xffffffffffffffff div b"
    by (simp add: word_le_nat_alt unat_div b)
  have 2: "unat (0xffffffffffffffff - of_nat d :: u64) = 0xffffffffffffffff - d"
    using assms d by (subst unat_sub) (simp_all add: word_le_nat_alt)
  have 3: "unat y \<le> 0xffffffffffffffff div b \<longleftrightarrow> unat y * b \<le> 0xffffffffffffffff"
    using assms by (simp add: less_eq_div_iff_mult_less_eq)
  have 4: "unat (of_nat b * y) = unat y * b" if "unat y * b \<le> 0xffffffffffffffff"
    using unat_madd_u64 [of y b 0] that by (simp add: mult.commute)
  show ?thesis
    using 1 2 3 4 assms by (auto simp: word_le_nat_alt)
qed

lemma scan_dec_accumulates: "accumulates 10 scan_dec"
proof (rule two_phase_accumulates [where
        ?p1.0 = "\<lambda>c x. isdigit c \<and> x \<le> 0xffffffff div 10 - 1" and ?g1.0 = "\<lambda>c x. x * 10 + (c - 48)" and
        ?p2.0 = "\<lambda>c y. isdigit c \<and> y \<le> 0xffffffffffffffff div 10 \<and> 10 * y \<le> 0xffffffffffffffff - ucast (c - 48)" and
        ?g2.0 = "\<lambda>c y. y * 10 + ucast (c - 48)"])
  have cast: "ucast (ucast d - (48 :: u32)) = (of_nat (dval d) :: u64)" if "dval d < 10" for d
    using that digit_minus_48 [of d]
    by (simp add: isdigit_dval word_unat_eq_iff unat_of_nat unsigned_ucast_eq take_bit_nat_eq_self_iff)
  fix d :: u8
  show "unat (a * 10 + (ucast d - 48)) = unat a * 10 + dval d"
    if "isdigit (ucast d) \<and> a \<le> 0xffffffff div 10 - 1" "dval d < 10" for a :: u32
    using that digit_minus_48 [of d] unat_madd_u32 [of a 10 "dval d"] by (simp add: word_le_nat_alt)
  show "unat (a * 10 + ucast (ucast d - (48 :: u32))) = unat a * 10 + dval d"
    if "isdigit (ucast d) \<and> a \<le> 0xffffffffffffffff div 10 \<and> 10 * a \<le> 0xffffffffffffffff - ucast (ucast d - (48 :: u32))"
       "dval d < 10" for a :: u64
    using that guard_u64_iff [of 10 "dval d" a] unat_madd_u64 [of a 10 "dval d"] by (simp add: cast)
  show "2 ^ 64 \<le> unat a * 10 + dval d"
    if "\<not> (isdigit (ucast d) \<and> a \<le> 0xffffffffffffffff div 10 \<and> 10 * a \<le> 0xffffffffffffffff - ucast (ucast d - (48 :: u32)))"
       "dval d < 10" for a :: u64
    using that guard_u64_iff [of 10 "dval d" a] by (auto simp: cast isdigit_dval)
qed (auto simp: scan_dec_def fun_eq_iff isdigit_dval)

lemma scan_base_accumulates:
  assumes "2 \<le> b" "b \<le> 36"
  shows "accumulates b (scan_base b)"
proof (rule two_phase_accumulates [where
        ?p1.0 = "\<lambda>c x. digit_val c < b \<and> x \<le> 0xffffffff div 36 - 1" and
        ?g1.0 = "\<lambda>c x. x * of_nat b + of_nat (digit_val c)" and
        ?p2.0 = "\<lambda>c y. digit_val c < b \<and> y \<le> 0xffffffffffffffff div of_nat b \<and>
                      of_nat b * y \<le> 0xffffffffffffffff - of_nat (digit_val c)" and
        ?g2.0 = "\<lambda>c y. y * of_nat b + of_nat (digit_val c)"])
  fix d :: u8
  show "unat (a * of_nat b + of_nat (digit_val (ucast d))) = unat a * b + dval d"
    if "digit_val (ucast d) < b \<and> a \<le> 0xffffffff div 36 - 1" "dval d < b" for a :: u32
  proof -
    have "unat a \<le> 119304646" using that by (simp add: word_le_nat_alt)
    then have "unat a * b \<le> 119304646 * 36" using assms by (intro mult_mono) auto
    with that assms show ?thesis by (simp add: dval_def [symmetric] unat_madd_u32)
  qed
qed (use assms guard_u64_iff [of b] in \<open>auto simp: scan_base_def fun_eq_iff unat_madd_u64 not_less simp flip: dval_def\<close>)

lemma pow2_shift_eq: "b \<in> {2, 4, 8, 16, 32} \<Longrightarrow> 2 ^ pow2_shift b = b \<and> pow2_shift b \<le> 5"
  by (auto simp: pow2_shift_def)

lemma pow2_iff:
  assumes "2 \<le> b" "b \<le> (36 :: nat)"
  shows "and b (b - 1) = 0 \<longleftrightarrow> b \<in> {2, 4, 8, 16, 32}"
proof -
  have "list_all (\<lambda>b. and b (b - 1) = 0 \<longleftrightarrow> b \<in> {2, 4, 8, 16, 32 :: nat}) [2..<37]" by code_simp
  moreover have "b \<in> set [2..<37]" using assms by (simp only: set_upt) auto
  ultimately show ?thesis by (simp only: list_all_iff)
qed

lemma scan_pow2_accumulates:
  assumes "b \<in> {2, 4, 8, 16, 32}"
  shows "accumulates b (scan_pow2 b)"
proof -
  define bs where "bs = pow2_shift b"
  have bs: "2 ^ bs = b" "bs \<le> 5" using pow2_shift_eq [OF assms] by (simp_all add: bs_def)
  have b: "b \<le> 32" "0 < b" using assms by auto
  have or: "or (push_bit bs a) (of_nat d) = a * of_nat b + of_nat d" if "d < b" for d and a :: "'w::len word"
    using or_push_bit_of_nat [of d bs a] that bs(1) by auto
  have guard: "a \<le> drop_bit bs 0xffffffffffffffff \<longleftrightarrow> unat a * b + d < 2 ^ 64" if "d < b" for a :: u64 and d
  proof -
    have "a \<le> drop_bit bs 0xffffffffffffffff \<longleftrightarrow> unat a \<le> 0xffffffffffffffff div b"
      using bs(1) drop_bit_eq_div [of bs "0xffffffffffffffff :: nat"]
      by (simp add: word_le_nat_alt unsigned_drop_bit_eq)
    also have "\<dots> \<longleftrightarrow> unat a * b + d < 2 ^ 64"
      using assms that by auto
    finally show ?thesis .
  qed
  show ?thesis
  proof (rule two_phase_accumulates [where
        ?p1.0 = "\<lambda>c x. digit_val c < b \<and> x \<le> 0xffffffff div 32" and
        ?g1.0 = "\<lambda>c x. or (push_bit bs x) (of_nat (digit_val c))" and
        ?p2.0 = "\<lambda>c y. digit_val c < b \<and> y \<le> drop_bit bs 0xffffffffffffffff" and
        ?g2.0 = "\<lambda>c y. or (push_bit bs y) (of_nat (digit_val c))"])
    fix d :: u8
    show "unat (or (push_bit bs a) (of_nat (digit_val (ucast d)))) = unat a * b + dval d"
      if "digit_val (ucast d) < b \<and> a \<le> 0xffffffff div 32" "dval d < b" for a :: u32
    proof -
      have "unat a \<le> 134217727" using that by (simp add: word_le_nat_alt)
      then have "unat a * b \<le> 134217727 * 32" using b by (intro mult_mono) auto
      with that b show ?thesis by (simp add: dval_def [symmetric] or unat_madd_u32)
    qed
  qed (auto simp: scan_pow2_def bs_def Let_def fun_eq_iff or [unfolded bs_def] guard [unfolded bs_def]
        unat_madd_u64 not_less simp flip: dval_def)
qed

lemma scanner_accumulates:
  assumes "2 \<le> b" "b \<le> 36"
  shows "accumulates b (if b = 10 then scan_dec else if and b (b - 1) = 0 then scan_pow2 b else scan_base b)"
  using assms pow2_iff [OF assms] scan_pow2_accumulates [of b]
  by (auto simp: scan_dec_accumulates scan_base_accumulates)

section \<open>Clamping\<close>

text \<open>The value and \<open>errno\<close> for a numeral of value \<open>n\<close>, negated when \<open>neg\<close>, under the limit \<open>lim\<close>.\<close>

definition clamp :: "bool \<Rightarrow> u64 \<Rightarrow> nat \<Rightarrow> u64 \<times> int option" where
  "clamp neg lim n =
     (if and lim 1 = 0 \<and> \<not> neg \<and> unat lim \<le> n then (lim - 1, Some ERANGE)
      else if unat lim < n then (lim, Some ERANGE)
      else (if neg then - of_nat n else of_nat n, None))"

lemma not_plus_one_word: "not y + 1 = - (y :: 'w::len word)"
  by (simp add: minus_eq_not_plus_1)

lemma scan_finish_eq:
  assumes b: "2 \<le> b" "b \<le> 36" and ds: "\<forall>d \<in> set ds. dval d < b" and r: "b \<le> dval r"
    and f: "sh_buf f = pre @ ds @ r # post" "sh_rpos f = length pre + 1" "0 \<le> sh_limit f"
    and lim: "lim = 0x8000000000000000 \<or> lim = 0xffffffffffffffff"
  shows "scan_finish b neg lim (ucast (hd (ds @ [r]))) f =
    (let (v, e) = clamp neg lim (numeral_val b 0 ds) in Some (v, e, f\<lparr>sh_rpos := length pre + length ds\<rparr>))"
proof -
  let ?S = "if b = 10 then scan_dec else if and b (b - 1) = 0 then scan_pow2 b else scan_base b"
  obtain d1 d2 y where acc: "ds = d1 @ d2"
    "?S (ucast (hd (ds @ [r]))) f = Some (y, ucast (hd (d2 @ [r])), f\<lparr>sh_rpos := length pre + 1 + length d1\<rparr>)"
    "unat y = numeral_val b 0 d1" "d2 \<noteq> [] \<longrightarrow> 2 ^ 64 \<le> numeral_val b (unat y) [hd d2]"
    using scanner_accumulates [OF b] ds r f(1,2) unfolding accumulates_def by metis
  have S: "(if b = 10 then scan_dec (ucast (hd (ds @ [r]))) f else if and b (b - 1) = 0
    then scan_pow2 b (ucast (hd (ds @ [r]))) f else scan_base b (ucast (hd (ds @ [r]))) f) =
    Some (y, ucast (hd (d2 @ [r])), f\<lparr>sh_rpos := length pre + 1 + length d1\<rparr>)"
    using acc(2) by (simp split: if_splits)
  show ?thesis
  proof (cases "d2 = []")
    case True
    then have y: "unat y = numeral_val b 0 ds" using acc by simp
    then have "of_nat (numeral_val b 0 ds) = y" by (metis word_of_nat_eq_iff unat_of_nat of_nat_unat ucast_id)
    with True y show ?thesis
      unfolding scan_finish_def S using r f lim acc(1)
      by (auto simp: clamp_def shunget_def Let_def dval_def [symmetric] word_le_nat_alt word_less_nat_alt not_plus_one_word)
  next
    case False
    let ?f = "f\<lparr>sh_rpos := length pre + 1 + length d1\<rparr>"
    have "2 ^ 64 \<le> numeral_val b 0 (d1 @ [hd d2])" using acc(3,4) False by simp
    also have "\<dots> \<le> numeral_val b (numeral_val b 0 (d1 @ [hd d2])) (tl d2)" using b by (intro numeral_val_mono) simp
    also have "\<dots> = numeral_val b 0 ds" using acc(1) False by (cases d2) simp_all
    finally have big: "2 ^ 64 \<le> numeral_val b 0 ds" .
    have digit: "digit_val (ucast (hd (d2 @ [r]))) < b" using False ds acc(1) by (cases d2) (auto simp: dval_def)
    then have dec: "\<not> (b = 10 \<and> \<not> isdigit (ucast (hd (d2 @ [r]))))" by (auto simp: isdigit_dval dval_def)
    have "scan_loop (\<lambda>c _. digit_val c < b) (\<lambda>_ a. a) () (ucast (hd (d2 @ [r]))) ?f =
        Some ((), ucast r, ?f\<lparr>sh_rpos := length (pre @ d1) + 1 + length d2\<rparr>)"
      using ds acc(1) r f by (subst scan_loop_all [of _ r d2 ?f "pre @ d1" post]) (auto simp: dval_def)
    then show ?thesis
      unfolding scan_finish_def S using r f lim acc(1) big digit dec
      by (auto simp: clamp_def shunget_def Let_def not_plus_one_word)
  qed
qed

section \<open>Numerals of \<open>strto*\<close>\<close>

text \<open>
  A numeral of base \<open>b\<close>: white space, an optional sign, digits, and what follows, which does not start
  with a digit. In base 16 the text is not a \<open>0x\<close> prefix.
\<close>

definition numeral_at :: "nat \<Rightarrow> bytes \<Rightarrow> bytes \<Rightarrow> bytes \<Rightarrow> bytes \<Rightarrow> bool" where
  "numeral_at b ws sg ds rest \<longleftrightarrow> (\<forall>w \<in> set ws. isspace (ucast w)) \<and> sg \<in> {[], [43], [45]} \<and>
     ds \<noteq> [] \<and> (\<forall>d \<in> set ds. dval d < b) \<and> rest \<noteq> [] \<and> b \<le> dval (hd rest) \<and>
     \<not> (b = 16 \<and> ds = [48] \<and> hd rest \<in> {88, 120})"

lemma isspace_not_digit: "isspace (ucast d) \<Longrightarrow> dval d = 255"
  by (auto simp: isspace_iff dval_eq)

lemma intscan_eq:
  assumes b: "2 \<le> b" "b \<le> 36" and n: "numeral_at b ws sg ds rest"
    and lim: "lim = 0x8000000000000000 \<or> lim = 0xffffffffffffffff"
  shows "strtox (ws @ sg @ ds @ rest) (of_nat b) lim =
    (let (v, e) = clamp (sg = [45]) lim (numeral_val b 0 ds)
     in Some (v, e, int (length ws + length sg + length ds)))"
proof -
  obtain d ds' where d: "ds = d # ds'" using n by (cases ds) (auto simp: numeral_at_def)
  obtain r post where r: "rest = r # post" using n by (cases rest) (auto simp: numeral_at_def)
  have ub: "unat (of_nat b :: u32) = b" using b by (simp add: unat_of_nat)
  define f where "f = shlim (sh_fromstring (ws @ sg @ ds @ rest)) 0"
  have f: "sh_buf f = ws @ sg @ ds @ rest" "sh_rpos f = 0" "sh_limit f = 0" "sh_cnt f = 0"
    by (simp_all add: f_def shlim_def sh_fromstring_def)
  let ?h = "hd (sg @ [d])" and ?at = "\<lambda>k. f\<lparr>sh_rpos := k\<rparr>"
  have 1: "shgetc f = Some (ucast (hd (ws @ [?h])), ?at 1)"
    using f d by (cases ws; cases sg) (simp_all add: shgetc_def rd8_def)
  have sp: "\<not> isspace (ucast ?h)"
    using n d isspace_not_digit [of d] b by (auto simp: numeral_at_def isspace_iff)
  have 2: "scan_loop (\<lambda>c _. isspace c) (\<lambda>_ a. a) () (ucast (hd (ws @ [?h]))) (?at 1) =
      Some ((), ucast ?h, ?at (length ws + 1))"
    using n sp f d by (subst scan_loop_all [of _ ?h ws _ "[]" "tl (sg @ ds) @ rest"])
      (auto simp: numeral_at_def neq_Nil_conv)
  have sgn: "(if ucast ?h = (43 :: u32) \<or> ucast ?h = (45 :: u32)
       then do { (c', f) \<leftarrow> shgetc (?at (length ws + 1)); Some (ucast ?h = (45 :: u32), c', f) }
       else Some (False, ucast ?h, ?at (length ws + 1))) =
     Some (sg = [45], ucast d, ?at (length ws + length sg + 1))"
    using n d b f by (auto simp: numeral_at_def shgetc_def rd8_def nth_append dval_eq u32_eq_iff)
  let ?p = "length ws + length sg"
  have base: "\<not> (36 < (of_nat b :: u32) \<or> (of_nat b :: u32) = 1)" "(of_nat b :: u32) \<noteq> 0"
    "(of_nat b :: u32) = 16 \<longleftrightarrow> b = 16"
    using b ub by (auto simp: word_less_nat_alt u32_eq_iff)
  have c48: "ucast d = (48 :: u32) \<longleftrightarrow> d = 48"
    by (simp add: word_unat_eq_iff)
  note scan = strtox_def [of "ws @ sg @ ds @ rest" "of_nat b" lim, folded f_def,
      unfolded intscan_def if_not_P [OF base(1)] 1 2 sgn Option.bind.bind_lunit prod.case]
  show ?thesis
  proof (cases "b = 16 \<and> d = 48")
    case False
    have dig: "digit_val (ucast d) < b" using n d by (auto simp: numeral_at_def dval_def)
    have fin: "scan_finish b neg lim (ucast d) (?at (?p + 1)) =
      (let (v, e) = clamp neg lim (numeral_val b 0 ds) in Some (v, e, ?at (?p + length ds)))" for neg
      using scan_finish_eq [OF b, of ds r "?at (?p + 1)" "ws @ sg" post lim neg] n lim f d r
      by (simp add: numeral_at_def)
    show ?thesis
      using base c48 False dig fin [of "sg = [45]"]
      unfolding scan by (auto simp: ub shcnt_def f Let_def split: prod.splits)
  next
    case True
    let ?c = "hd (ds' @ [r])"
    have get: "shgetc (?at (?p + 1)) = Some (ucast ?c, ?at (?p + 2))"
      using f d r by (cases ds') (simp_all add: shgetc_def rd8_def nth_append)
    have x: "or (ucast ?c) 32 \<noteq> (120 :: u32)"
    proof -
      have "unat ?c \<noteq> 120" "unat ?c \<noteq> 88"
        using n d r True by (cases ds'; auto simp: numeral_at_def dval_eq word_unat_eq_iff)+
      then show ?thesis by (auto simp: u32_eq_iff unat_or_32; presburger)
    qed
    have fin: "scan_finish 16 neg lim (ucast ?c) (?at (?p + 2)) =
      (let (v, e) = clamp neg lim (numeral_val 16 0 ds) in Some (v, e, ?at (?p + length ds)))" for neg
      using scan_finish_eq [of 16 ds' r "?at (?p + 2)" "ws @ sg @ [d]" post lim neg] n lim f d r True
      by (simp add: numeral_at_def dval_eq)
    show ?thesis
      using base c48 True x get fin [of "sg = [45]"]
      unfolding scan by (auto simp: ub shcnt_def f Let_def split: prod.splits)
  qed
qed

section \<open>Properties\<close>

text \<open>
  C24. \<open>strtol\<close> on a numeral of any length and any base from 2 to 36 never reads behind its end, returns
  the integer it denotes clamped to the range of \<open>long\<close>, sets \<open>errno\<close> to \<open>ERANGE\<close> exactly when it
  clamps, and leaves the end pointer behind the last digit.
\<close>

theorem strtol_clamps:
  assumes "2 \<le> b" "b \<le> 36" "numeral_at b ws sg ds rest"
    and "v = (if sg = [45] then - int (numeral_val b 0 ds) else int (numeral_val b 0 ds))"
  shows "\<exists>y. strtol (ws @ sg @ ds @ rest) (of_nat b) =
      Some (y, if v < - (2 ^ 63) \<or> 2 ^ 63 \<le> v then Some ERANGE else None, int (length ws + length sg + length ds)) \<and>
    sint y = max (- (2 ^ 63)) (min (2 ^ 63 - 1) v)"
proof -
  define n where "n = numeral_val b 0 ds"
  have s: "sint (of_int k :: u64) = k" if "- (2 ^ 63) \<le> k" "k < 2 ^ 63" for k
    using that by (simp add: int_word_sint)
  have s1: "n < 2 ^ 63 \<Longrightarrow> sint (of_nat n :: u64) = int n" and s2: "n \<le> 2 ^ 63 \<Longrightarrow> sint (- of_nat n :: u64) = - int n"
    using s [of "int n"] s [of "- int n"] by simp_all
  show ?thesis
    using intscan_eq [OF assms(1-3), of "0x8000000000000000"] s1 s2 assms(4)
    by (auto simp: strtol_def clamp_def n_def [symmetric])
qed

text \<open>Witness: \<open>"  -9223372036854775809x"\<close>, one below the smallest \<open>long\<close>, is clamped.\<close>

theorem strtol_clamps_witness:
  "\<exists>y. strtol ([32, 32] @ [45] @ [57,50,50,51,51,55,50,48,51,54,56,53,52,55,55,53,56,48,57] @ [120, 0]) (of_nat 10) =
     Some (y, Some ERANGE, 22) \<and> sint y = - (2 ^ 63)"
proof -
  have "numeral_at 10 [32, 32] [45] [57,50,50,51,51,55,50,48,51,54,56,53,52,55,55,53,56,48,57] [120, 0]"
    by (simp add: numeral_at_def isspace_iff dval_eq)
  from strtol_clamps [OF _ _ this refl] show ?thesis
    by (simp add: dval_eq)
qed

text \<open>
  \<open>strtoul\<close> on a numeral of any length returns the value of its digits, negated modulo \<open>2^64\<close> after a
  minus sign, when the digits fit 64 bits, and \<open>ULONG_MAX\<close> with \<open>ERANGE\<close> otherwise.
\<close>

theorem strtoul_value:
  assumes "2 \<le> b" "b \<le> 36" "numeral_at b ws sg ds rest"
  shows "strtoul (ws @ sg @ ds @ rest) (of_nat b) =
    (let n = numeral_val b 0 ds in
     Some (if n < 2 ^ 64 then (if sg = [45] then - of_nat n else of_nat n) else - 1,
       if n < 2 ^ 64 then None else Some ERANGE, int (length ws + length sg + length ds)))"
  using intscan_eq [OF assms, of "0xffffffffffffffff"] by (simp add: strtoul_def clamp_def Let_def split: if_splits)

theorem strtoul_value_witness:
  "strtoul ([] @ [] @ [102, 70] @ [44, 0]) (of_nat 16) = Some (255, None, 2)"
proof -
  have "numeral_at 16 [] [] [102, 70] [44, 0]" by (simp add: numeral_at_def dval_eq)
  from strtoul_value [OF _ _ this] show ?thesis by (simp add: dval_eq)
qed

end
