(* ===== verification/Crypt.thy ===== *)
theory Crypt
  imports Crypt_Hash Intscan
begin

text \<open>
  The digest-based password hashes of the C library: \<open>md5crypt\<close>, \<open>sha256crypt\<close>, \<open>sha512crypt\<close> with their self
  tests, of \<open>src/musl-1.2.5/src/crypt\<close>. A C string is the list of its
  characters without the terminator; a pointer into it is a suffix, and reading behind the last
  character gives the terminator. A null result is \<open>None\<close>. The contexts on the stack are not
  initialised: they are the arguments \<open>g\<close> with arbitrary contents. The dispatcher \<open>crypt_r\<close> is in \<open>Crypt_R\<close>.

  Shown here: the digest part computes the published algorithm on whole messages, whatever the
  garbage on the stack; the result of a hash is a fixed point (hashing the same key with a stored hash
  as the setting returns the stored hash, which is how a password is verified); the results fit the
  buffer of \<open>crypt\<close>.
\<close>

section \<open>Common parts\<close>

definition b64 :: bytes where
  "b64 = [46, 47, 48, 49, 50, 51, 52, 53, 54, 55, 56, 57, 65, 66, 67, 68, 69, 70, 71, 72, 73, 74, 75, 76,
     77, 78, 79, 80, 81, 82, 83, 84, 85, 86, 87, 88, 89, 90, 97, 98, 99, 100, 101, 102, 103, 104, 105, 106,
     107, 108, 109, 110, 111, 112, 113, 114, 115, 116, 117, 118, 119, 120, 121, 122]"

fun to64 :: "nat \<Rightarrow> nat \<Rightarrow> bytes" where
  "to64 u 0 = []"
| "to64 u (Suc n) = b64 ! (u mod 64) # to64 (u div 64) n"

definition pack3 :: "bytes \<Rightarrow> nat \<times> nat \<times> nat \<Rightarrow> nat" where
  "pack3 md = (\<lambda>(i, j, k). unat (or (or (push_bit 16 (ucast (md ! i))) (push_bit 8 (ucast (md ! j))))
     (ucast (md ! k)) :: u32))"

text \<open>\<open>sprintf("%u")\<close>.\<close>

fun dec_digits :: "nat \<Rightarrow> bytes" where
  "dec_digits n = (if n < 10 then [48 + of_nat n] else dec_digits (n div 10) @ [48 + of_nat (n mod 10)])"

declare dec_digits.simps [simp del]

text \<open>The character at an offset of a string.\<close>

definition chr_at :: "bytes \<Rightarrow> nat \<Rightarrow> u8" where
  "chr_at s i = (if i < length s then s ! i else 0)"

definition strnlen_c :: "bytes \<Rightarrow> nat \<Rightarrow> nat" where
  "strnlen_c s n = min (length s) n"

text \<open>\<open>strncmp(s, lit, strlen(lit)) == 0\<close>.\<close>

definition has_prefix :: "bytes \<Rightarrow> bytes \<Rightarrow> bool" where
  "has_prefix lit s \<longleftrightarrow> take (length lit) s = lit"

section \<open>\<open>md5crypt\<close>\<close>

text \<open>The loop that feeds the digest again and again, \<open>n\<close> bytes in all (\<open>hashmd\<close> of the SHA files).\<close>

fun feed_repeat :: "nat \<Rightarrow> ('s \<Rightarrow> bytes \<Rightarrow> 's) \<Rightarrow> 's \<Rightarrow> nat \<Rightarrow> bytes \<Rightarrow> 's" where
  "feed_repeat L upd s n md =
     (if 0 < L \<and> L < n then feed_repeat L upd (upd s md) (n - L) md else upd s (take n md))"

declare feed_repeat.simps [simp del]

text \<open>The loop over the bits of the key length, \<open>for (i = klen; i; i >>= 1)\<close>.\<close>

fun feed_bits :: "('s \<Rightarrow> bytes \<Rightarrow> 's) \<Rightarrow> bytes \<Rightarrow> bytes \<Rightarrow> nat \<Rightarrow> 's \<Rightarrow> 's" where
  "feed_bits upd one zero i s =
     (if i = 0 then s else feed_bits upd one zero (i div 2) (upd s (if odd i then one else zero)))"

declare feed_bits.simps [simp del]

definition md5crypt_round :: "bytes \<Rightarrow> bytes \<Rightarrow> bytes \<times> md5 \<Rightarrow> nat \<Rightarrow> bytes \<times> md5" where
  "md5crypt_round key salt = (\<lambda>(md, ctx) i.
     let ctx = md5_init ctx;
         ctx = md5_update ctx (if i mod 2 \<noteq> 0 then key else md);
         ctx = (if i mod 3 \<noteq> 0 then md5_update ctx salt else ctx);
         ctx = (if i mod 7 \<noteq> 0 then md5_update ctx key else ctx);
         ctx = md5_update ctx (if i mod 2 \<noteq> 0 then md else key)
     in (md5_sum ctx, md5_pad ctx))"

text \<open>
  The digest of \<open>key\<close> and \<open>salt\<close>; the digest array is modified in place (\<open>md[0] = 0\<close>) after its first
  use, and the context left by one \<open>sum\<close> is reused by the next \<open>init\<close>.
\<close>

definition md5crypt_md :: "md5 \<Rightarrow> bytes \<Rightarrow> bytes \<Rightarrow> bytes" where
  "md5crypt_md ctx key salt =
     (let klen = length key;
          ctx = md5_init ctx;
          ctx = md5_update ctx key;
          ctx = md5_update ctx salt;
          ctx = md5_update ctx key;
          md = md5_sum ctx; ctx = md5_pad ctx;
          ctx = md5_init ctx;
          ctx = md5_update ctx key;
          ctx = md5_update ctx ([36, 49, 36] @ salt);
          ctx = feed_repeat 16 md5_update ctx klen md;
          md = md[0 := 0];
          ctx = feed_bits md5_update (take 1 md) (take 1 key) klen ctx;
          md = md5_sum ctx; ctx = md5_pad ctx
      in fst (foldl (md5crypt_round key salt) (md, ctx) [0..<1000]))"

fun md5_salt_len :: "nat \<Rightarrow> bytes \<Rightarrow> nat" where
  "md5_salt_len n [] = 0"
| "md5_salt_len n (c # s) = (if n = 0 \<or> c = 36 then 0 else Suc (md5_salt_len (n - 1) s))"

definition md5_encode :: "bytes \<Rightarrow> bytes" where
  "md5_encode md = concat (map (\<lambda>t. to64 (pack3 md t) 4)
     [(0, 6, 12), (1, 7, 13), (2, 8, 14), (3, 9, 15), (4, 10, 5)])
     @ to64 (unat (md ! 11)) 2"

definition md5crypt :: "md5 \<Rightarrow> bytes \<Rightarrow> bytes \<Rightarrow> bytes option" where
  "md5crypt g key setting =
     (let klen = strnlen_c key 30001 in
      if klen > 30000 then None
      else if \<not> has_prefix [36, 49, 36] setting then None
      else let salt = drop 3 setting; slen = md5_salt_len 8 salt;
               md = md5crypt_md g key (take slen salt)
           in Some (take (3 + slen) setting @ [36] @ md5_encode md))"

section \<open>\<open>sha256crypt\<close> and \<open>sha512crypt\<close>\<close>

text \<open>
  The two files share this code up to the digest functions and their size \<open>L\<close>; it is written once
  over them.
\<close>

definition sha_round :: "nat \<Rightarrow> ('s \<Rightarrow> 's) \<Rightarrow> ('s \<Rightarrow> bytes \<Rightarrow> 's) \<Rightarrow> ('s \<Rightarrow> bytes) \<Rightarrow> ('s \<Rightarrow> 's) \<Rightarrow>
    nat \<Rightarrow> bytes \<Rightarrow> nat \<Rightarrow> bytes \<Rightarrow> bytes \<times> 's \<Rightarrow> nat \<Rightarrow> bytes \<times> 's" where
  "sha_round L init upd sm pad klen kmd slen smd = (\<lambda>(md, ctx) i.
     let ctx = init ctx;
         ctx = (if i mod 2 \<noteq> 0 then feed_repeat L upd ctx klen kmd else upd ctx md);
         ctx = (if i mod 3 \<noteq> 0 then upd ctx (take slen smd) else ctx);
         ctx = (if i mod 7 \<noteq> 0 then feed_repeat L upd ctx klen kmd else ctx);
         ctx = (if i mod 2 \<noteq> 0 then upd ctx md else feed_repeat L upd ctx klen kmd)
     in (sm ctx, pad ctx))"

definition shacrypt_md :: "nat \<Rightarrow> ('s \<Rightarrow> 's) \<Rightarrow> ('s \<Rightarrow> bytes \<Rightarrow> 's) \<Rightarrow> ('s \<Rightarrow> bytes) \<Rightarrow> ('s \<Rightarrow> 's) \<Rightarrow>
    's \<Rightarrow> bytes \<Rightarrow> bytes \<Rightarrow> nat \<Rightarrow> bytes" where
  "shacrypt_md L init upd sm pad ctx key salt rounds =
     (let klen = length key; slen = length salt;
          ctx = init ctx;
          ctx = upd ctx key;
          ctx = upd ctx salt;
          ctx = upd ctx key;
          md = sm ctx; ctx = pad ctx;
          ctx = init ctx;
          ctx = upd ctx key;
          ctx = upd ctx salt;
          ctx = feed_repeat L upd ctx klen md;
          ctx = feed_bits upd md key klen ctx;
          md = sm ctx; ctx = pad ctx;
          ctx = init ctx;
          ctx = foldl (\<lambda>ctx i. upd ctx key) ctx [0..<klen];
          kmd = sm ctx; ctx = pad ctx;
          ctx = init ctx;
          ctx = foldl (\<lambda>ctx i. upd ctx salt) ctx [0..<16 + unat (md ! 0)];
          smd = sm ctx; ctx = pad ctx
      in fst (foldl (sha_round L init upd sm pad klen kmd slen smd) (md, ctx) [0..<rounds]))"

definition sha256crypt_md :: "sha256 \<Rightarrow> bytes \<Rightarrow> bytes \<Rightarrow> nat \<Rightarrow> bytes" where
  "sha256crypt_md = shacrypt_md 32 sha256_init sha256_update sha256_sum sha256_pad"

definition sha512crypt_md :: "sha512 \<Rightarrow> bytes \<Rightarrow> bytes \<Rightarrow> nat \<Rightarrow> bytes" where
  "sha512crypt_md = shacrypt_md 64 sha512_init sha512_update sha512_sum sha512_pad"

text \<open>
  The optional \<open>rounds=n$\<close> field: the number of rounds, the text of the field in the result, and the
  rest of the setting.
\<close>

definition rounds_lit :: bytes where
  "rounds_lit = [114, 111, 117, 110, 100, 115, 61]"

definition parse_rounds :: "bytes \<Rightarrow> (nat \<times> bytes \<times> bytes) option" where
  "parse_rounds salt =
     (if has_prefix rounds_lit salt
      then let salt = drop 7 salt in
           if \<not> isdigit (ucast (chr_at salt 0)) then None
           else do {
             (u, err, cnt) \<leftarrow> strtoul (salt @ [0]) 10;
             if chr_at salt (nat cnt) \<noteq> 36 then None
             else let salt = drop (nat cnt + 1) salt in
                  if u < 1000 then Some (1000, rounds_lit @ dec_digits 1000 @ [36], salt)
                  else if u > 9999999 then None
                  else Some (unat u, rounds_lit @ dec_digits (unat u) @ [36], salt) }
      else Some (5000, [], salt))"

fun salt_len :: "nat \<Rightarrow> bytes \<Rightarrow> nat option" where
  "salt_len n [] = Some 0"
| "salt_len n (c # s) =
     (if n = 0 \<or> c = 36 then Some 0
      else if c = 10 \<or> c = 58 then None
      else map_option Suc (salt_len (n - 1) s))"

definition sha256_encode :: "bytes \<Rightarrow> bytes" where
  "sha256_encode md = concat (map (\<lambda>t. to64 (pack3 md t) 4)
     [(0, 10, 20), (21, 1, 11), (12, 22, 2), (3, 13, 23), (24, 4, 14), (15, 25, 5), (6, 16, 26),
     (27, 7, 17), (18, 28, 8), (9, 19, 29)])
     @ to64 (unat (or (push_bit 8 (ucast (md ! 31))) (ucast (md ! 30)) :: u32)) 3"

definition sha512_encode :: "bytes \<Rightarrow> bytes" where
  "sha512_encode md = concat (map (\<lambda>t. to64 (pack3 md t) 4)
     [(0, 21, 42), (22, 43, 1), (44, 2, 23), (3, 24, 45), (25, 46, 4), (47, 5, 26), (6, 27, 48),
     (28, 49, 7), (50, 8, 29), (9, 30, 51), (31, 52, 10), (53, 11, 32), (12, 33, 54), (34, 55, 13),
     (56, 14, 35), (15, 36, 57), (37, 58, 16), (59, 17, 38), (18, 39, 60), (40, 61, 19), (62, 20, 41)])
     @ to64 (unat (md ! 63)) 2"

definition shacrypt :: "bytes \<Rightarrow> ('s \<Rightarrow> bytes \<Rightarrow> bytes \<Rightarrow> nat \<Rightarrow> bytes) \<Rightarrow> (bytes \<Rightarrow> bytes) \<Rightarrow> 's \<Rightarrow> bytes \<Rightarrow> bytes \<Rightarrow> bytes option" where
  "shacrypt prefix crypt_md encode g key setting =
     (let klen = strnlen_c key 257 in
      if klen > 256 then None
      else if \<not> has_prefix prefix setting then None
      else do {
        (r, rounds, salt) \<leftarrow> parse_rounds (drop 3 setting);
        slen \<leftarrow> salt_len 16 salt;
        let md = crypt_md g key (take slen salt) r;
        Some (prefix @ rounds @ take slen salt @ [36] @ encode md) })"

definition sha256crypt :: "sha256 \<Rightarrow> bytes \<Rightarrow> bytes \<Rightarrow> bytes option" where
  "sha256crypt = shacrypt [36, 53, 36] sha256crypt_md sha256_encode"

definition sha512crypt :: "sha512 \<Rightarrow> bytes \<Rightarrow> bytes \<Rightarrow> bytes option" where
  "sha512crypt = shacrypt [36, 54, 36] sha512crypt_md sha512_encode"

section \<open>Self tests and the dispatcher\<close>

definition testkey :: bytes where
  "testkey = [88, 121, 48, 49, 64, 35, 1, 2, 128, 127, 255, 13, 10, 129, 9, 32, 33]"

text \<open>\<open>if (!p || q != testbuf || memcmp(testbuf, testhash, sizeof testhash)) return "*"; return p;\<close>\<close>

definition self_tested :: "bytes option \<Rightarrow> bytes option \<Rightarrow> bytes \<Rightarrow> bytes" where
  "self_tested p q testhash =
     (case (p, q) of (Some out, Some t) \<Rightarrow> if t \<noteq> testhash then [42] else out | _ \<Rightarrow> [42])"

definition crypt_md5 :: "md5 \<Rightarrow> md5 \<Rightarrow> bytes \<Rightarrow> bytes \<Rightarrow> bytes" where
  "crypt_md5 g g' key setting = self_tested (md5crypt g key setting)
     (md5crypt g' testkey [36, 49, 36, 97, 98, 99, 100, 48, 49, 50, 51, 36])
     [36, 49, 36, 97, 98, 99, 100, 48, 49, 50, 51, 36, 57, 81, 99, 103, 56, 68, 121, 118, 105, 101, 107, 86,
     51, 116, 68, 71, 77, 90, 121, 110, 74, 49]"

definition crypt_sha256 :: "sha256 \<Rightarrow> sha256 \<Rightarrow> bytes \<Rightarrow> bytes \<Rightarrow> bytes" where
  "crypt_sha256 g g' key setting = self_tested (sha256crypt g key setting)
     (sha256crypt g' testkey
       [36, 53, 36, 114, 111, 117, 110, 100, 115, 61, 49, 50, 51, 52, 36, 97, 98, 99, 48, 49, 50, 51, 52, 53,
       54, 55, 56, 57, 36])
     [36, 53, 36, 114, 111, 117, 110, 100, 115, 61, 49, 50, 51, 52, 36, 97, 98, 99, 48, 49, 50, 51, 52, 53,
     54, 55, 56, 57, 36, 51, 86, 102, 68, 106, 80, 116, 48, 53, 86, 72, 70, 110, 52, 55, 67, 47, 111, 106,
     70, 90, 54, 75, 82, 80, 89, 114, 79, 106, 106, 49, 108, 76, 98, 72, 46, 100, 107, 70, 51, 98, 90, 54]"

definition crypt_sha512 :: "sha512 \<Rightarrow> sha512 \<Rightarrow> bytes \<Rightarrow> bytes \<Rightarrow> bytes" where
  "crypt_sha512 g g' key setting = self_tested (sha512crypt g key setting)
     (sha512crypt g' testkey
       [36, 54, 36, 114, 111, 117, 110, 100, 115, 61, 49, 50, 51, 52, 36, 97, 98, 99, 48, 49, 50, 51, 52, 53,
       54, 55, 56, 57, 36])
     [36, 54, 36, 114, 111, 117, 110, 100, 115, 61, 49, 50, 51, 52, 36, 97, 98, 99, 48, 49, 50, 51, 52, 53,
     54, 55, 56, 57, 36, 66, 67, 112, 116, 56, 122, 76, 114, 99, 47, 82, 99, 121, 117, 88, 109, 67, 68, 79,
     69, 49, 65, 76, 113, 77, 88, 66, 50, 77, 72, 54, 110, 49, 103, 56, 57, 49, 72, 104, 70, 106, 56, 46,
     119, 55, 76, 120, 71, 118, 46, 70, 84, 107, 113, 113, 54, 86, 120, 99, 47, 107, 109, 51, 89, 48, 106, 69,
     48, 106, 50, 52, 106, 89, 53, 80, 73, 118, 47, 111, 79, 117, 54, 114, 101, 103, 49]"

text \<open>
  The stack garbage of one call: the contexts of the hash and of its self test, for each of the three
  functions.
\<close>

record crypt_stack =
  stk_md5 :: "md5 \<times> md5"
  stk_sha256 :: "sha256 \<times> sha256"
  stk_sha512 :: "sha512 \<times> sha512"

section \<open>The digest part computes the published algorithm\<close>

text \<open>The first \<open>n\<close> bytes of \<open>md\<close> repeated, and what the bits of the key length contribute.\<close>

definition repeat_to :: "nat \<Rightarrow> bytes \<Rightarrow> bytes" where
  "repeat_to n md = take n (concat (replicate n md))"

fun bits_text :: "bytes \<Rightarrow> bytes \<Rightarrow> nat \<Rightarrow> bytes" where
  "bits_text one zero i =
     (if i = 0 then [] else (if odd i then one else zero) @ bits_text one zero (i div 2))"

declare bits_text.simps [simp del]

text \<open>One strengthening round, and the steps of SHA-crypt and MD5-crypt, over a digest \<open>H\<close> of whole messages.\<close>

definition mix_step :: "(bytes \<Rightarrow> bytes) \<Rightarrow> bytes \<Rightarrow> bytes \<Rightarrow> bytes \<Rightarrow> nat \<Rightarrow> bytes" where
  "mix_step H P S A i = H ((if odd i then P else A) @ (if i mod 3 \<noteq> 0 then S else []) @
     (if i mod 7 \<noteq> 0 then P else []) @ (if odd i then A else P))"

definition shacrypt_spec :: "(bytes \<Rightarrow> bytes) \<Rightarrow> bytes \<Rightarrow> bytes \<Rightarrow> nat \<Rightarrow> bytes" where
  "shacrypt_spec H key salt rounds =
     (let n = length key;
          B = H (key @ salt @ key);
          A = H (key @ salt @ repeat_to n B @ bits_text B key n);
          P = repeat_to n (H (concat (replicate n key)));
          S = take (length salt) (H (concat (replicate (16 + unat (A ! 0)) salt)))
      in foldl (mix_step H P S) A [0..<rounds])"

definition md5crypt_spec :: "(bytes \<Rightarrow> bytes) \<Rightarrow> bytes \<Rightarrow> bytes \<Rightarrow> bytes" where
  "md5crypt_spec H key salt =
     (let n = length key;
          B = H (key @ salt @ key);
          A = H (key @ [36, 49, 36] @ salt @ repeat_to n B @ bits_text [0] (take 1 key) n)
      in foldl (mix_step H key salt) A [0..<1000])"

lemma repeat_to_split:
  assumes "length md = L" "0 < L" "L < n"
  shows "md @ repeat_to (n - L) md = repeat_to n md"
proof -
  have "concat (replicate n md) = md @ concat (replicate (n - L) md) @ concat (replicate (L - 1) md)"
  proof -
    have "n = Suc ((n - L) + (L - 1))" using assms by simp
    then show ?thesis by (metis concat.simps(2) concat_append replicate_Suc replicate_add)
  qed
  moreover have "n - L \<le> length (concat (replicate (n - L) md))"
    using assms by (simp add: length_concat sum_list_replicate)
  ultimately show ?thesis using assms by (simp add: repeat_to_def)
qed

lemma repeat_to_short: "length md = L \<Longrightarrow> 0 < L \<Longrightarrow> n \<le> L \<Longrightarrow> repeat_to n md = take n md"
  by (cases n) (simp_all add: repeat_to_def)

locale digest_ctx =
  fixes ok :: "'s \<Rightarrow> bool"
    and init :: "'s \<Rightarrow> 's"
    and upd :: "'s \<Rightarrow> bytes \<Rightarrow> 's"
    and sm :: "'s \<Rightarrow> bytes"
    and pad :: "'s \<Rightarrow> 's"
    and fed :: "'s \<Rightarrow> bytes \<Rightarrow> bool"
    and H :: "bytes \<Rightarrow> bytes"
    and L :: nat
  assumes init_fed: "ok s \<Longrightarrow> fed (init s) []"
    and upd_fed: "fed s m \<Longrightarrow> fed (upd s p) (m @ p)"
    and sm_fed: "fed s m \<Longrightarrow> sm s = H m"
    and pad_ok: "fed s m \<Longrightarrow> ok (pad s)"
    and length_H: "length (H m) = L"
    and L_pos: "0 < L"
begin

lemma feed_repeat_fed:
  "fed s m \<Longrightarrow> length md = L \<Longrightarrow> fed (feed_repeat L upd s n md) (m @ repeat_to n md)"
proof (induction n arbitrary: s m rule: less_induct)
  case (less n)
  show ?case
  proof (cases "L < n")
    case True
    have "fed (feed_repeat L upd (upd s md) (n - L) md) ((m @ md) @ repeat_to (n - L) md)"
      using True L_pos less.prems by (intro less.IH upd_fed) simp_all
    with True L_pos less.prems show ?thesis
      by (simp add: feed_repeat.simps [of L upd s n] repeat_to_split)
  next
    case False
    with L_pos less.prems upd_fed [of s m "take n md"] show ?thesis
      by (simp add: feed_repeat.simps [of L upd s n] repeat_to_short)
  qed
qed

lemma feed_bits_fed: "fed s m \<Longrightarrow> fed (feed_bits upd one zero i s) (m @ bits_text one zero i)"
proof (induction i arbitrary: s m rule: less_induct)
  case (less i)
  show ?case
  proof (cases "i = 0")
    case True
    with less.prems show ?thesis by (simp add: feed_bits.simps bits_text.simps)
  next
    case False
    have "fed (feed_bits upd one zero (i div 2) (upd s (if odd i then one else zero)))
        ((m @ (if odd i then one else zero)) @ bits_text one zero (i div 2))"
      using False less.prems by (intro less.IH upd_fed) simp_all
    with False show ?thesis
      by (simp add: feed_bits.simps [of upd one zero i] bits_text.simps [of one zero i])
  qed
qed

lemma feed_copies: "fed s m \<Longrightarrow> fed (foldl (\<lambda>ctx i. upd ctx p) s is) (m @ concat (replicate (length is) p))"
proof (induction "is" arbitrary: s m)
  case (Cons i "is")
  from Cons.IH [OF upd_fed [OF Cons.prems]] show ?case by simp
qed simp

lemma sha_round_eq:
  assumes "ok ctx" "length kmd = L"
  shows "fst (sha_round L init upd sm pad n kmd k smd (A, ctx) i) = mix_step H (repeat_to n kmd) (take k smd) A i"
    and "ok (snd (sha_round L init upd sm pad n kmd k smd (A, ctx) i))"
proof -
  define c1 where "c1 = (if i mod 2 \<noteq> 0 then feed_repeat L upd (init ctx) n kmd else upd (init ctx) A)"
  define c2 where "c2 = (if i mod 3 \<noteq> 0 then upd c1 (take k smd) else c1)"
  define c3 where "c3 = (if i mod 7 \<noteq> 0 then feed_repeat L upd c2 n kmd else c2)"
  define c4 where "c4 = (if i mod 2 \<noteq> 0 then upd c3 A else feed_repeat L upd c3 n kmd)"
  let ?P = "repeat_to n kmd"
  have rep: "fed (feed_repeat L upd c n kmd) (m @ ?P)" if "fed c m" for c m
    using feed_repeat_fed [OF that assms(2)] .
  have opt: "fed (if b then c' else c) (m @ (if b then x else []))" if "fed c m" "fed c' (m @ x)" for b c c' m x
    using that by simp
  have alt: "fed (if b then c' else c'') (m @ (if b then x else y))" if "fed c' (m @ x)" "fed c'' (m @ y)" for b c' c'' m x y
    using that by simp
  have odd: "i mod 2 \<noteq> 0 \<longleftrightarrow> odd i" by (simp add: odd_iff_mod_2_eq_one)
  have "fed (init ctx) []" by (rule init_fed [OF assms(1)])
  then have "fed c1 ([] @ (if odd i then ?P else A))"
    unfolding c1_def odd by (intro alt rep upd_fed)
  then have "fed c2 (([] @ (if odd i then ?P else A)) @ (if i mod 3 \<noteq> 0 then take k smd else []))"
    unfolding c2_def by (intro opt upd_fed)
  then have "fed c3 ((([] @ (if odd i then ?P else A)) @ (if i mod 3 \<noteq> 0 then take k smd else [])) @ (if i mod 7 \<noteq> 0 then ?P else []))"
    unfolding c3_def by (intro opt rep)
  then have "fed c4 (((([] @ (if odd i then ?P else A)) @ (if i mod 3 \<noteq> 0 then take k smd else [])) @ (if i mod 7 \<noteq> 0 then ?P else []))
      @ (if odd i then A else ?P))"
    unfolding c4_def odd by (intro alt rep upd_fed)
  then have c4: "fed c4 ((if odd i then ?P else A) @ (if i mod 3 \<noteq> 0 then take k smd else []) @
      (if i mod 7 \<noteq> 0 then ?P else []) @ (if odd i then A else ?P))"
    by (simp only: append_assoc append_Nil)
  have "sha_round L init upd sm pad n kmd k smd (A, ctx) i = (sm c4, pad c4)"
    by (simp only: sha_round_def Let_def prod.case c4_def c3_def c2_def c1_def)
  with sm_fed [OF c4] pad_ok [OF c4]
  show "fst (sha_round L init upd sm pad n kmd k smd (A, ctx) i) = mix_step H ?P (take k smd) A i"
    and "ok (snd (sha_round L init upd sm pad n kmd k smd (A, ctx) i))"
    by (simp_all only: mix_step_def fst_conv snd_conv)
qed

lemma sha_rounds_eq:
  assumes "ok ctx" "length kmd = L"
  shows "fst (foldl (sha_round L init upd sm pad n kmd k smd) (A, ctx) is) =
    foldl (mix_step H (repeat_to n kmd) (take k smd)) A is"
  using assms(1)
proof (induction "is" arbitrary: A ctx)
  case (Cons i "is")
  obtain A' ctx' where eq: "sha_round L init upd sm pad n kmd k smd (A, ctx) i = (A', ctx')" by (metis surj_pair)
  have "ok ctx'" "A' = mix_step H (repeat_to n kmd) (take k smd) A i"
    using sha_round_eq [OF Cons.prems assms(2), of n k smd A i] by (simp_all add: eq)
  with Cons.IH [of ctx' A'] show ?case by (simp add: eq)
qed simp

lemma shacrypt_md_eq:
  assumes "ok g"
  shows "shacrypt_md L init upd sm pad g key salt rounds = shacrypt_spec H key salt rounds"
proof -
  define n c1 md1 where "n = length key" and "c1 = upd (upd (upd (init g) key) salt) key" and "md1 = sm c1"
  have c1: "fed c1 (key @ salt @ key)"
    using upd_fed [OF upd_fed [OF upd_fed [OF init_fed [OF assms]]], of key salt key] by (simp add: c1_def)
  define c2 where "c2 = feed_bits upd md1 key n (feed_repeat L upd (upd (upd (init (pad c1)) key) salt) n md1)"
  have md1: "md1 = H (key @ salt @ key)" using sm_fed [OF c1] by (simp add: md1_def)
  have c2: "fed c2 (key @ salt @ repeat_to n md1 @ bits_text md1 key n)"
    using feed_bits_fed [OF feed_repeat_fed [OF upd_fed [OF upd_fed [OF init_fed [OF pad_ok [OF c1]]]], of md1 key salt n], of md1 key n]
    by (simp add: c2_def md1 length_H)
  define c3 where "c3 = foldl (\<lambda>ctx i. upd ctx key) (init (pad c2)) [0..<n]"
  have c3: "fed c3 (concat (replicate n key))"
    using feed_copies [OF init_fed [OF pad_ok [OF c2]], of key "[0..<n]"] by (simp add: c3_def)
  define c4 where "c4 = foldl (\<lambda>ctx i. upd ctx salt) (init (pad c3)) [0..<16 + unat (sm c2 ! 0)]"
  have c4: "fed c4 (concat (replicate (16 + unat (sm c2 ! 0)) salt))"
    using feed_copies [OF init_fed [OF pad_ok [OF c3]], of salt "[0..<16 + unat (sm c2 ! 0)]"] by (simp add: c4_def)
  have "shacrypt_md L init upd sm pad g key salt rounds =
      fst (foldl (sha_round L init upd sm pad n (sm c3) (length salt) (sm c4)) (sm c2, pad c4) [0..<rounds])"
    by (simp only: shacrypt_md_def Let_def c4_def c3_def c2_def c1_def md1_def n_def)
  also have "\<dots> = shacrypt_spec H key salt rounds"
    unfolding sha_rounds_eq [OF pad_ok [OF c4] length_H [of "concat (replicate n key)", folded sm_fed [OF c3]]]
    by (simp only: sm_fed [OF c2] sm_fed [OF c3] sm_fed [OF c4] shacrypt_spec_def Let_def n_def md1)
  finally show ?thesis .
qed

end

lemma sha256_H [simp]: "length (sha256_digest m) = 32"
  by (simp add: sha256_digest_def length_concat sum_list_triv comp_def)

lemma sha512_H [simp]: "length (sha512_digest m) = 64"
  by (simp add: sha512_digest_def length_concat sum_list_triv comp_def)

lemma md5_H [simp]: "length (md5_digest m) = 16"
  by (simp add: md5_digest_def length_concat sum_list_triv comp_def)

lemma sha256_sum_fed: "sha256.fed s m \<Longrightarrow> sha256_sum s = sha256_digest m"
  by (simp add: sha256_sum_def sha256_digest_def sha256_pad_def sha256.pad_digest Let_def)

lemma sha512_sum_fed: "sha512.fed s m \<Longrightarrow> sha512_sum s = sha512_digest m"
  by (simp add: sha512_sum_def sha512_digest_def sha512_pad_def sha512.pad_digest Let_def)

lemma md5_sum_fed: "md5.fed s m \<Longrightarrow> md5_sum s = md5_digest m"
  by (simp add: md5_sum_def md5_digest_def md5_pad_def md5.pad_digest Let_def)

interpretation c256: digest_ctx "\<lambda>s. length (hash_buf s) = 64" sha256_init sha256_update sha256_sum sha256_pad
  sha256.fed sha256_digest 32
  using sha256.fed_init sha256.fed_update sha256.pad_buf
  by unfold_locales (auto simp: sha256_sum_fed sha256_init_def sha256_update_def sha256_pad_def)

interpretation c512: digest_ctx "\<lambda>s. length (hash_buf s) = 128" sha512_init sha512_update sha512_sum sha512_pad
  sha512.fed sha512_digest 64
  using sha512.fed_init sha512.fed_update sha512.pad_buf
  by unfold_locales (auto simp: sha512_sum_fed sha512_init_def sha512_update_def sha512_pad_def)

interpretation cmd5: digest_ctx "\<lambda>s. length (hash_buf s) = 64" md5_init md5_update md5_sum md5_pad
  md5.fed md5_digest 16
  using md5.fed_init md5.fed_update md5.pad_buf
  by unfold_locales (auto simp: md5_sum_fed md5_init_def md5_update_def md5_pad_def)

text \<open>\<open>md5crypt\<close> runs the same kind of rounds over the key and the salt themselves.\<close>

lemma md5crypt_round_eq:
  assumes "length (hash_buf ctx) = 64"
  shows "fst (md5crypt_round key salt (A, ctx) i) = mix_step md5_digest key salt A i"
    and "length (hash_buf (snd (md5crypt_round key salt (A, ctx) i))) = 64"
proof -
  define c1 where "c1 = md5_update (md5_init ctx) (if i mod 2 \<noteq> 0 then key else A)"
  define c2 where "c2 = (if i mod 3 \<noteq> 0 then md5_update c1 salt else c1)"
  define c3 where "c3 = (if i mod 7 \<noteq> 0 then md5_update c2 key else c2)"
  define c4 where "c4 = md5_update c3 (if i mod 2 \<noteq> 0 then A else key)"
  have odd: "i mod 2 \<noteq> 0 \<longleftrightarrow> odd i" by (simp add: odd_iff_mod_2_eq_one)
  have opt: "md5.fed (if b then md5_update c x else c) (m @ (if b then x else []))" if "md5.fed c m" for b c m x
    using that cmd5.upd_fed [OF that, of x] by simp
  have "md5.fed c4 (((([] @ (if odd i then key else A)) @ (if i mod 3 \<noteq> 0 then salt else [])) @
      (if i mod 7 \<noteq> 0 then key else [])) @ (if odd i then A else key))"
    unfolding c4_def c3_def c2_def c1_def odd by (intro cmd5.upd_fed opt cmd5.init_fed assms)
  then have c4: "md5.fed c4 ((if odd i then key else A) @ (if i mod 3 \<noteq> 0 then salt else []) @
      (if i mod 7 \<noteq> 0 then key else []) @ (if odd i then A else key))"
    by (simp only: append_assoc append_Nil)
  have eq: "md5crypt_round key salt (A, ctx) i = (md5_sum c4, md5_pad c4)"
    by (simp only: md5crypt_round_def Let_def prod.case c4_def c3_def c2_def c1_def)
  show "fst (md5crypt_round key salt (A, ctx) i) = mix_step md5_digest key salt A i"
    unfolding eq mix_step_def fst_conv by (rule cmd5.sm_fed [OF c4])
  show "length (hash_buf (snd (md5crypt_round key salt (A, ctx) i))) = 64"
    unfolding eq snd_conv by (rule cmd5.pad_ok [OF c4])
qed

lemma md5crypt_rounds_eq:
  "length (hash_buf ctx) = 64 \<Longrightarrow>
   fst (foldl (md5crypt_round key salt) (A, ctx) is) = foldl (mix_step md5_digest key salt) A is"
proof (induction "is" arbitrary: A ctx)
  case (Cons i "is")
  obtain A' ctx' where eq: "md5crypt_round key salt (A, ctx) i = (A', ctx')" by (metis surj_pair)
  have "length (hash_buf ctx') = 64" "A' = mix_step md5_digest key salt A i"
    using md5crypt_round_eq [OF Cons.prems, of key salt A i] by (simp_all add: eq)
  with Cons.IH [of ctx' A'] show ?case by (simp add: eq)
qed simp

lemma md5crypt_md_eq:
  assumes "length (hash_buf g) = 64"
  shows "md5crypt_md g key salt = md5crypt_spec md5_digest key salt"
proof -
  define n c1 md1 where "n = length key" and "c1 = md5_update (md5_update (md5_update (md5_init g) key) salt) key"
    and "md1 = md5_sum c1"
  have c1: "md5.fed c1 (key @ salt @ key)"
    using cmd5.upd_fed [OF cmd5.upd_fed [OF cmd5.upd_fed [OF cmd5.init_fed [OF assms]]], of key salt key]
    by (simp add: c1_def)
  have md1: "md1 = md5_digest (key @ salt @ key)" using cmd5.sm_fed [OF c1] by (simp add: md1_def)
  define c2 where "c2 = feed_bits md5_update (take 1 (md1[0 := 0])) (take 1 key) n
    (feed_repeat 16 md5_update (md5_update (md5_update (md5_init (md5_pad c1)) key) ([36, 49, 36] @ salt)) n md1)"
  have "length md1 = 16" by (simp add: md1)
  then have zero: "take 1 (md1[0 := 0]) = [0]" by (cases md1) simp_all
  have c2: "md5.fed c2 (key @ [36, 49, 36] @ salt @ repeat_to n md1 @ bits_text [0] (take 1 key) n)"
    using cmd5.feed_bits_fed [OF cmd5.feed_repeat_fed [OF cmd5.upd_fed [OF cmd5.upd_fed [OF cmd5.init_fed
      [OF cmd5.pad_ok [OF c1]]]], of md1 key "[36, 49, 36] @ salt" n], of "[0]" "take 1 key" n]
    unfolding c2_def zero by (simp add: md1)
  have "md5crypt_md g key salt = fst (foldl (md5crypt_round key salt) (md5_sum c2, md5_pad c2) [0..<1000])"
    by (simp only: md5crypt_md_def Let_def c2_def c1_def md1_def n_def)
  also have "\<dots> = md5crypt_spec md5_digest key salt"
    unfolding md5crypt_rounds_eq [OF cmd5.pad_ok [OF c2]]
    by (simp only: cmd5.sm_fed [OF c2] md5crypt_spec_def Let_def n_def md1)
  finally show ?thesis .
qed

section \<open>Settings\<close>

lemma dec_digits_digit: "d \<in> set (dec_digits n) \<Longrightarrow> dval d < 10"
proof (induction n arbitrary: d rule: dec_digits.induct)
  case (1 n)
  have "dval (48 + of_nat k) < 10" if "k < 10" for k
    using that by (simp add: dval_eq unat_word_ariths unat_of_nat)
  with 1 show ?case by (auto simp: dec_digits.simps [of n] split: if_splits)
qed

lemma dval_dec: "k < 10 \<Longrightarrow> dval (48 + of_nat k) = k"
  by (simp add: dval_eq unat_word_ariths unat_of_nat)

lemma numeral_val_dec_digits [simp]: "numeral_val 10 0 (dec_digits n) = n"
proof (induction n rule: dec_digits.induct)
  case (1 n)
  then show ?case by (cases "n < 10") (simp_all add: dec_digits.simps [of n] dval_dec)
qed

lemma dec_digits_ne [simp]: "dec_digits n \<noteq> []"
  by (simp add: dec_digits.simps)

lemma length_dec_digits: "n < 10 ^ k \<Longrightarrow> 0 < k \<Longrightarrow> length (dec_digits n) \<le> k"
proof (induction k arbitrary: n)
  case (Suc k)
  show ?case
  proof (cases "n < 10")
    case False
    with Suc.prems have "n div 10 < 10 ^ k" "0 < k" by (auto simp: less_mult_imp_div_less mult.commute intro: Nat.gr0I)
    with Suc.IH [of "n div 10"] False show ?thesis by (simp add: dec_digits.simps [of n])
  qed (simp add: dec_digits.simps)
qed simp

lemma dval_dollar [simp]: "dval 36 = 255"
  by (simp add: dval_eq)

lemma strtoul_dec_digits:
  assumes "n < 2 ^ 64"
  shows "strtoul (dec_digits n @ 36 # rest) 10 = Some (of_nat n, None, int (length (dec_digits n)))"
proof -
  have "numeral_at 10 [] [] (dec_digits n) (36 # rest)"
    using dec_digits_digit [of _ n] by (auto simp: numeral_at_def)
  from intscan_eq [OF _ _ this, of "0xffffffffffffffff"] assms show ?thesis
    by (simp add: strtoul_def clamp_def)
qed

text \<open>A well formed field is parsed back to the same number of rounds.\<close>

lemma parse_rounds_field:
  assumes "1000 \<le> r" "r \<le> 9999999"
  shows "parse_rounds (rounds_lit @ dec_digits r @ 36 # salt) = Some (r, rounds_lit @ dec_digits r @ [36], salt)"
proof -
  let ?s = "dec_digits r @ 36 # salt"
  have u: "unat (of_nat r :: u64) = r" using assms by (simp add: unat_of_nat)
  have "chr_at ?s 0 \<in> set (dec_digits r)" by (cases "dec_digits r") (simp_all add: chr_at_def)
  then have dig: "isdigit (ucast (chr_at ?s 0))" by (simp add: isdigit_dval dec_digits_digit)
  have st: "strtoul (?s @ [0]) 10 = Some (of_nat r, None, int (length (dec_digits r)))"
    using strtoul_dec_digits [of r "salt @ [0]"] assms by simp
  have "has_prefix rounds_lit (rounds_lit @ ?s)" "drop 7 (rounds_lit @ ?s) = ?s"
    by (simp_all add: has_prefix_def rounds_lit_def)
  then show ?thesis
    using dig st assms u by (simp add: parse_rounds_def chr_at_def word_less_nat_alt Let_def)
qed

lemma parse_rounds_Some:
  assumes "parse_rounds s = Some (r, rounds, salt)"
  shows "(r = 5000 \<and> rounds = [] \<and> salt = s \<and> \<not> has_prefix rounds_lit s) \<or>
    (1000 \<le> r \<and> r \<le> 9999999 \<and> rounds = rounds_lit @ dec_digits r @ [36])"
proof (cases "has_prefix rounds_lit s")
  case False
  with assms show ?thesis by (simp add: parse_rounds_def)
next
  case True
  with assms obtain u err cnt where "strtoul (drop 7 s @ [0]) 10 = Some (u, err, cnt)"
    by (auto simp: parse_rounds_def Let_def split: if_splits bind_splits)
  with True assms show ?thesis
    by (simp add: parse_rounds_def Let_def word_less_nat_alt split: if_splits) auto
qed

lemma salt_len_take:
  "salt_len n s = Some k \<Longrightarrow> salt_len n (take k s @ 36 # t) = Some k \<and> k \<le> n \<and> k \<le> length s \<and>
     (\<forall>c \<in> set (take k s). c \<noteq> 36 \<and> c \<noteq> 10 \<and> c \<noteq> 58)"
proof (induction n s arbitrary: k rule: salt_len.induct)
  case (2 n c s)
  show ?case
  proof (cases "n = 0 \<or> c = 36")
    case True
    with "2.prems" show ?thesis by auto
  next
    case False
    with "2.prems" have c: "c \<noteq> 10" "c \<noteq> 58" by (auto split: if_splits)
    with "2.prems" False obtain k' where k': "k = Suc k'" "salt_len (n - 1) s = Some k'" by auto
    have "\<not> (c = 10 \<or> c = 58)" using c by simp
    from "2.IH" [OF False this k'(2)] have "salt_len (n - 1) (take k' s @ 36 # t) = Some k' \<and> k' \<le> n - 1 \<and>
      k' \<le> length s \<and> (\<forall>c \<in> set (take k' s). c \<noteq> 36 \<and> c \<noteq> 10 \<and> c \<noteq> 58)" by simp
    with False c k'(1) show ?thesis by (cases n) simp_all
  qed
qed simp

lemma md5_salt_len_take:
  "md5_salt_len n (take (md5_salt_len n s) s @ 36 # t) = md5_salt_len n s \<and> md5_salt_len n s \<le> n \<and> md5_salt_len n s \<le> length s"
proof (induction n s rule: md5_salt_len.induct)
  case (2 n c s)
  then show ?case by (cases n) auto
qed simp

section \<open>A stored hash is a fixed point\<close>

lemma has_prefix_rounds: "has_prefix rounds_lit s \<longleftrightarrow> take 7 s = rounds_lit"
  by (simp add: has_prefix_def rounds_lit_def numeral_eq_Suc)

lemma parse_rounds_none: "\<not> has_prefix rounds_lit s \<Longrightarrow> parse_rounds s = Some (5000, [], s)"
  by (simp add: parse_rounds_def)

lemma rounds_lit_prefix:
  assumes "\<not> has_prefix rounds_lit s" "k \<le> length s"
  shows "\<not> has_prefix rounds_lit (take k s @ 36 # t)"
proof
  assume "has_prefix rounds_lit (take k s @ 36 # t)"
  then have pre: "take 7 (take k s @ 36 # t) = rounds_lit" by (simp only: has_prefix_rounds)
  show False
  proof (cases "k < 7")
    case True
    then have "(take 7 (take k s @ 36 # t)) ! k = 36" using assms(2) by (simp add: nth_append)
    moreover have "36 \<notin> set rounds_lit" "length rounds_lit = 7" by (simp_all add: rounds_lit_def)
    then have "rounds_lit ! k \<noteq> 36" using True by (metis nth_mem)
    ultimately show False unfolding pre by simp
  next
    case False
    then have "take 7 (take k s @ 36 # t) = take 7 s" using assms(2) by simp
    with pre assms(1) show False by (simp add: has_prefix_rounds)
  qed
qed

lemma shacrypt_parts:
  assumes "shacrypt pre cmd enc g key s = Some out" and pre: "length pre = 3"
  obtains r rounds salt slen where
    "length key \<le> 256" "parse_rounds (drop 3 s) = Some (r, rounds, salt)" "salt_len 16 salt = Some slen"
    "out = pre @ rounds @ take slen salt @ 36 # enc (cmd g key (take slen salt) r)"
  using assms by (auto simp: shacrypt_def Let_def strnlen_c_def split: if_splits bind_splits)

lemma shacrypt_fixpoint:
  assumes out: "shacrypt pre cmd enc g key s = Some out" and pre: "length pre = 3"
    and indep: "\<And>key salt r. cmd g' key salt r = cmd g key salt r"
  shows "shacrypt pre cmd enc g' key out = Some out"
proof -
  obtain r rounds salt slen where p: "length key \<le> 256" "parse_rounds (drop 3 s) = Some (r, rounds, salt)"
    "salt_len 16 salt = Some slen"
    "out = pre @ rounds @ take slen salt @ 36 # enc (cmd g key (take slen salt) r)"
    by (rule shacrypt_parts [OF out pre])
  let ?h = "enc (cmd g key (take slen salt) r)"
  have sl: "salt_len 16 (take slen salt @ 36 # ?h) = Some slen" "slen \<le> length salt"
    using salt_len_take [OF p(3)] by blast+
  have "parse_rounds (rounds @ take slen salt @ 36 # ?h) = Some (r, rounds, take slen salt @ 36 # ?h)"
    using parse_rounds_Some [OF p(2)]
  proof (elim disjE conjE)
    assume "r = 5000" "rounds = []" "salt = drop 3 s" "\<not> has_prefix rounds_lit (drop 3 s)"
    with rounds_lit_prefix [OF _ sl(2), of ?h] show ?thesis by (simp add: parse_rounds_none)
  next
    assume "1000 \<le> r" "r \<le> 9999999" "rounds = rounds_lit @ dec_digits r @ [36]"
    with parse_rounds_field [of r "take slen salt @ 36 # ?h"] show ?thesis by simp
  qed
  then show ?thesis
    using p(1) sl pre by (simp add: shacrypt_def p(4) indep has_prefix_def strnlen_c_def)
qed

lemma md5crypt_fixpoint:
  assumes out: "md5crypt g key s = Some out"
    and indep: "\<And>key salt. md5crypt_md g' key salt = md5crypt_md g key salt"
  shows "md5crypt g' key out = Some out"
proof -
  define k where "k = md5_salt_len 8 (drop 3 s)"
  have key: "length key \<le> 30000" and pre: "has_prefix [36, 49, 36] s"
    and o: "out = take (3 + k) s @ 36 # md5_encode (md5crypt_md g key (take k (drop 3 s)))"
    using out by (auto simp: md5crypt_def Let_def strnlen_c_def k_def split: if_splits)
  have s: "take (3 + k) s = [36, 49, 36] @ take k (drop 3 s)"
    using pre by (metis has_prefix_def length_Cons list.size(3) numeral_3_eq_3 take_add)
  define u where "u = take k (drop 3 s)"
  have u: "md5_salt_len 8 (u @ 36 # t) = k" "length u = k" for t
    using md5_salt_len_take [of 8 "drop 3 s" t] by (simp_all add: u_def k_def)
  have o2: "out = [36, 49, 36] @ u @ 36 # md5_encode (md5crypt_md g key u)"
    using o s by (simp add: u_def)
  show ?thesis
    using key u by (simp add: md5crypt_def o2 has_prefix_def strnlen_c_def indep Let_def numeral_3_eq_3)
qed

section \<open>The results fit their buffers\<close>

lemma length_to64 [simp]: "length (to64 u n) = n"
  by (induction n arbitrary: u) simp_all

lemma set_to64: "set (to64 u n) \<subseteq> set b64"
proof (induction n arbitrary: u)
  case (Suc n)
  have "length b64 = 64" by (simp add: b64_def)
  then have "b64 ! (u mod 64) \<in> set b64" by (intro nth_mem) simp
  with Suc show ?case by simp
qed simp

lemma length_encode [simp]:
  "length (md5_encode md) = 22" "length (sha256_encode md) = 43" "length (sha512_encode md) = 86"
  by (simp_all add: md5_encode_def sha256_encode_def sha512_encode_def)

lemma set_concat_to64: "set (concat (map (\<lambda>t. to64 (f t) n) ts)) \<subseteq> set b64"
  using set_to64 by fastforce

lemma set_encode:
  "set (md5_encode md) \<subseteq> set b64" "set (sha256_encode md) \<subseteq> set b64" "set (sha512_encode md) \<subseteq> set b64"
  unfolding md5_encode_def sha256_encode_def sha512_encode_def set_append
  by (intro Un_least set_concat_to64 set_to64)+

lemma shacrypt_length:
  assumes "shacrypt pre cmd enc g key s = Some out" "length pre = 3" "\<And>md. length (enc md) = n"
  shows "length out \<le> 35 + n"
proof -
  obtain r rounds salt slen where p: "parse_rounds (drop 3 s) = Some (r, rounds, salt)" "salt_len 16 salt = Some slen"
    "out = pre @ rounds @ take slen salt @ 36 # enc (cmd g key (take slen salt) r)"
    by (rule shacrypt_parts [OF assms(1,2)])
  have "length rounds \<le> 15"
    using parse_rounds_Some [OF p(1)] length_dec_digits [of r 7] by (auto simp: rounds_lit_def)
  moreover have "slen \<le> 16" using salt_len_take [OF p(2)] by blast
  ultimately show ?thesis using assms(2,3) p(3) by simp
qed

lemma shacrypt_chars:
  assumes "shacrypt pre cmd enc g key s = Some out" "length pre = 3" "\<And>md. set (enc md) \<subseteq> set b64"
    and "10 \<notin> set pre" "58 \<notin> set pre"
  shows "10 \<notin> set out \<and> 58 \<notin> set out"
proof -
  obtain r rounds salt slen where p: "parse_rounds (drop 3 s) = Some (r, rounds, salt)" "salt_len 16 salt = Some slen"
    "out = pre @ rounds @ take slen salt @ 36 # enc (cmd g key (take slen salt) r)"
    by (rule shacrypt_parts [OF assms(1,2)])
  have "dval 10 = 255" "dval 58 = 255" by (simp_all add: dval_eq)
  then have "10 \<notin> set (dec_digits r)" "58 \<notin> set (dec_digits r)" using dec_digits_digit [of _ r] by fastforce+
  then have "10 \<notin> set rounds \<and> 58 \<notin> set rounds"
    using parse_rounds_Some [OF p(1)] by (auto simp: rounds_lit_def)
  moreover have "10 \<notin> set (take slen salt) \<and> 58 \<notin> set (take slen salt)" using salt_len_take [OF p(2)] by blast
  moreover have "10 \<notin> set b64" "58 \<notin> set b64" by (simp_all add: b64_def)
  then have "10 \<notin> set (enc (cmd g key (take slen salt) r))" "58 \<notin> set (enc (cmd g key (take slen salt) r))"
    using assms(3) by blast+
  ultimately show ?thesis using assms(4,5) p(3) by simp
qed

section \<open>Properties\<close>

text \<open>Contexts on the stack have block buffers of the declared sizes; their contents are arbitrary.\<close>

definition stack_ok :: "crypt_stack \<Rightarrow> bool" where
  "stack_ok st \<longleftrightarrow> length (hash_buf (fst (stk_md5 st))) = 64 \<and> length (hash_buf (snd (stk_md5 st))) = 64 \<and>
     length (hash_buf (fst (stk_sha256 st))) = 64 \<and> length (hash_buf (snd (stk_sha256 st))) = 64 \<and>
     length (hash_buf (fst (stk_sha512 st))) = 128 \<and> length (hash_buf (snd (stk_sha512 st))) = 128"

lemma crypt_md_indep:
  "length (hash_buf a) = 64 \<Longrightarrow> length (hash_buf a') = 64 \<Longrightarrow> md5crypt_md a key salt = md5crypt_md a' key salt"
  "length (hash_buf b) = 64 \<Longrightarrow> length (hash_buf b') = 64 \<Longrightarrow> sha256crypt_md b key salt r = sha256crypt_md b' key salt r"
  "length (hash_buf c) = 128 \<Longrightarrow> length (hash_buf c') = 128 \<Longrightarrow> sha512crypt_md c key salt r = sha512crypt_md c' key salt r"
  by (simp_all add: md5crypt_md_eq sha256crypt_md_def c256.shacrypt_md_eq sha512crypt_md_def c512.shacrypt_md_eq)

lemma shacrypt_indep:
  "(\<And>key salt r. cmd g' key salt r = cmd g key salt r) \<Longrightarrow> shacrypt pre cmd enc g' key s = shacrypt pre cmd enc g key s"
  by (simp add: shacrypt_def)

lemma self_tested_cases:
  "self_tested p q h = [42] \<or> (p = Some (self_tested p q h) \<and> q = Some h)"
  by (auto simp: self_tested_def split: option.split)

lemma self_tested_prefix:
  "(\<And>out. p = Some out \<Longrightarrow> take 3 out = pre) \<Longrightarrow> self_tested p q h = [42] \<or> take 3 (self_tested p q h) = pre"
  using self_tested_cases [of p q h] by auto

text \<open>A hash function with its self test is a fixed point of its results, or answers the error string.\<close>

lemma self_tested_fixpoint:
  assumes "\<And>out. p = Some out \<Longrightarrow> p' out = Some out" "q' = q" "r = self_tested p q h"
  shows "r = [42] \<or> self_tested (p' r) q' h = r"
  using self_tested_cases [of p q h] assms by (auto simp: self_tested_def)

lemma crypt_results_prefix:
  "md5crypt a key s = Some out \<Longrightarrow> take 3 out = [36, 49, 36]"
  "sha256crypt b key s = Some out \<Longrightarrow> take 3 out = [36, 53, 36]"
  "sha512crypt c key s = Some out \<Longrightarrow> take 3 out = [36, 54, 36]"
proof -
  show "take 3 out = [36, 49, 36]" if out: "md5crypt a key s = Some out"
  proof -
    have s: "take 3 s = [36, 49, 36]"
      using out by (auto simp: md5crypt_def has_prefix_def Let_def numeral_3_eq_3 split: if_splits)
    then have "3 \<le> length s" by (metis length_Cons length_take list.size(3) min.cobounded1 numeral_3_eq_3)
    with out s show ?thesis by (auto simp: md5crypt_def Let_def split: if_splits)
  qed
qed (auto simp: sha256crypt_def sha512crypt_def shacrypt_def split: if_splits bind_splits)

lemma crypt_md5_fixpoint:
  assumes "length (hash_buf a) = 64" "length (hash_buf a') = 64" "length (hash_buf b) = 64" "length (hash_buf b') = 64"
    and o: "out = crypt_md5 a b key s"
  shows "out = [42] \<or> take 3 out = [36, 49, 36] \<and> crypt_md5 a' b' key out = out"
proof -
  have t: "md5crypt b' testkey t = md5crypt b testkey t" for t
    by (simp add: md5crypt_def crypt_md_indep(1) [OF assms(4,3)])
  have "md5crypt a key s = Some out' \<Longrightarrow> md5crypt a' key out' = Some out'" for out'
    by (rule md5crypt_fixpoint [OF _ crypt_md_indep(1) [OF assms(2,1)]])
  from self_tested_fixpoint [of "md5crypt a key s" "md5crypt a' key", OF this t o [unfolded crypt_md5_def]]
  have "out = [42] \<or> crypt_md5 a' b' key out = out" by (simp only: crypt_md5_def)
  moreover have "out = [42] \<or> take 3 out = [36, 49, 36]"
    unfolding o crypt_md5_def by (rule self_tested_prefix) (rule crypt_results_prefix(1))
  ultimately show ?thesis by blast
qed

lemma crypt_sha256_fixpoint:
  assumes "length (hash_buf a) = 64" "length (hash_buf a') = 64" "length (hash_buf b) = 64" "length (hash_buf b') = 64"
    and o: "out = crypt_sha256 a b key s"
  shows "out = [42] \<or> take 3 out = [36, 53, 36] \<and> crypt_sha256 a' b' key out = out"
proof -
  have t: "sha256crypt b' testkey t = sha256crypt b testkey t" for t
    unfolding sha256crypt_def by (rule shacrypt_indep) (rule crypt_md_indep(2) [OF assms(4,3)])
  have "sha256crypt a key s = Some out' \<Longrightarrow> sha256crypt a' key out' = Some out'" for out'
    using shacrypt_fixpoint [of _ sha256crypt_md, OF _ _ crypt_md_indep(2) [OF assms(2,1)]] by (simp add: sha256crypt_def)
  from self_tested_fixpoint [of "sha256crypt a key s" "sha256crypt a' key", OF this t o [unfolded crypt_sha256_def]]
  have "out = [42] \<or> crypt_sha256 a' b' key out = out" by (simp only: crypt_sha256_def)
  moreover have "out = [42] \<or> take 3 out = [36, 53, 36]"
    unfolding o crypt_sha256_def by (rule self_tested_prefix) (rule crypt_results_prefix(2))
  ultimately show ?thesis by blast
qed

lemma crypt_sha512_fixpoint:
  assumes "length (hash_buf a) = 128" "length (hash_buf a') = 128" "length (hash_buf b) = 128" "length (hash_buf b') = 128"
    and o: "out = crypt_sha512 a b key s"
  shows "out = [42] \<or> take 3 out = [36, 54, 36] \<and> crypt_sha512 a' b' key out = out"
proof -
  have t: "sha512crypt b' testkey t = sha512crypt b testkey t" for t
    unfolding sha512crypt_def by (rule shacrypt_indep) (rule crypt_md_indep(3) [OF assms(4,3)])
  have "sha512crypt a key s = Some out' \<Longrightarrow> sha512crypt a' key out' = Some out'" for out'
    using shacrypt_fixpoint [of _ sha512crypt_md, OF _ _ crypt_md_indep(3) [OF assms(2,1)]] by (simp add: sha512crypt_def)
  from self_tested_fixpoint [of "sha512crypt a key s" "sha512crypt a' key", OF this t o [unfolded crypt_sha512_def]]
  have "out = [42] \<or> crypt_sha512 a' b' key out = out" by (simp only: crypt_sha512_def)
  moreover have "out = [42] \<or> take 3 out = [36, 54, 36]"
    unfolding o crypt_sha512_def by (rule self_tested_prefix) (rule crypt_results_prefix(3))
  ultimately show ?thesis by blast
qed

text \<open>Contexts filled with one byte.\<close>

definition garbage_stack :: "u8 \<Rightarrow> crypt_stack" where
  "garbage_stack b = (let g = \<lparr>hash_len = ucast b, hash_h = [], hash_buf = replicate 64 b\<rparr>;
       g' = \<lparr>hash_len = ucast b, hash_h = [], hash_buf = replicate 128 b\<rparr>
     in \<lparr>stk_md5 = (g, g), stk_sha256 = (g, g), stk_sha512 = (g', g')\<rparr>)"

lemma garbage_stack_ok: "stack_ok (garbage_stack b)"
  by (simp add: stack_ok_def garbage_stack_def Let_def)

text \<open>
  C22. The digest part of the three functions is the published algorithm over digests of whole messages:
  the uninitialised contexts, their reuse and the streaming of the repeated pieces do not show.
\<close>

theorem crypt_md_published:
  assumes "stack_ok st"
  shows "md5crypt_md (fst (stk_md5 st)) key salt = md5crypt_spec md5_digest key salt \<and>
    sha256crypt_md (fst (stk_sha256 st)) key salt r = shacrypt_spec sha256_digest key salt r \<and>
    sha512crypt_md (fst (stk_sha512 st)) key salt r = shacrypt_spec sha512_digest key salt r"
  using assms by (simp add: stack_ok_def md5crypt_md_eq sha256crypt_md_def c256.shacrypt_md_eq
    sha512crypt_md_def c512.shacrypt_md_eq)

theorem crypt_md_published_witness:
  "sha256crypt_md (fst (stk_sha256 (garbage_stack 7))) [120] [97] 1 = shacrypt_spec sha256_digest [120] [97] 1"
  using crypt_md_published [OF garbage_stack_ok] by blast

text \<open>The results with their terminators fit 128 bytes; those of the SHA functions have no newline and no colon.\<close>

lemma md5crypt_output:
  assumes "md5crypt a key s = Some out"
  shows "length out + 1 \<le> 128"
proof -
  have "md5_salt_len 8 (drop 3 s) \<le> 8" using md5_salt_len_take [of 8 "drop 3 s"] by blast
  with assms show ?thesis by (auto simp: md5crypt_def Let_def split: if_splits)
qed

lemma shacrypt_output:
  "sha256crypt b key s = Some out \<Longrightarrow> length out + 1 \<le> 128 \<and> 10 \<notin> set out \<and> 58 \<notin> set out"
  "sha512crypt c key s = Some out \<Longrightarrow> length out + 1 \<le> 128 \<and> 10 \<notin> set out \<and> 58 \<notin> set out"
proof -
  show "length out + 1 \<le> 128 \<and> 10 \<notin> set out \<and> 58 \<notin> set out" if "sha256crypt b key s = Some out"
    using that shacrypt_length [of _ _ sha256_encode b key s out 43] shacrypt_chars [of _ _ sha256_encode b key s out]
    unfolding sha256crypt_def by (fastforce simp: set_encode)
  show "length out + 1 \<le> 128 \<and> 10 \<notin> set out \<and> 58 \<notin> set out" if "sha512crypt c key s = Some out"
    using that shacrypt_length [of _ _ sha512_encode c key s out 86] shacrypt_chars [of _ _ sha512_encode c key s out]
    unfolding sha512crypt_def by (fastforce simp: set_encode)
qed

end
