(* ===== verification/Crypt_Des.thy ===== *)
theory Crypt_Des
  imports Des Crypt
begin

text \<open>
  The traditional and the extended DES hash of \<open>crypt\<close>, \<open>src/musl-1.2.5/src/crypt/crypt_des.c\<close> from
  \<open>ascii_to_bin\<close> on, on top of the block cipher of \<open>Des\<close>. Strings are as in \<open>Crypt\<close>: the list of the characters
  without the terminator, which \<open>chr_at\<close> gives behind the last one.

  Shown here: a result is a fixed point, it has 13 or 20 characters, none of which is a newline or a
  colon, and the two error strings never hash to themselves.
\<close>

section \<open>The code\<close>

definition ascii64 :: bytes where
  "ascii64 = b64"

definition ascii_to_bin :: "u8 \<Rightarrow> nat" where
  "ascii_to_bin ch =
     (let sch = (if unat ch < 0x80 then int (unat ch) else - (0x100 - int (unat ch)));
          retval = (if sch \<ge> 65 then if sch \<ge> 97 then sch - (97 - 38) else sch - (65 - 12) else sch - 46)
      in nat (retval mod 64))"

definition ascii_is_unsafe :: "u8 \<Rightarrow> bool" where
  "ascii_is_unsafe ch \<longleftrightarrow> ch = 0 \<or> ch = 10 \<or> ch = 58"

text \<open>The loop of \<open>setup_salt\<close> mirrors the low 24 bits.\<close>

definition setup_salt :: "u32 \<Rightarrow> u32" where
  "setup_salt salt = fst (foldl (\<lambda>(saltbits, saltbit, obit) i.
     (if and salt saltbit \<noteq> 0 then or saltbits obit else saltbits, push_bit 1 saltbit, drop_bit 1 obit))
     (0, 1, 0x800000) [0..<24])"

text \<open>The first eight characters of the key, shifted and padded, and what is left of the key.\<close>

fun copy_key :: "nat \<Rightarrow> bytes \<Rightarrow> bytes \<times> bytes" where
  "copy_key 0 key = ([], key)"
| "copy_key (Suc n) key = (case copy_key n (tl key) of (kb, rest) \<Rightarrow> (push_bit 1 (chr_at key 0) # kb, rest))"

text \<open>Four characters of six bits each from offset \<open>off\<close> of the setting.\<close>

fun field24 :: "bytes \<Rightarrow> nat \<Rightarrow> nat \<Rightarrow> u32 option" where
  "field24 setting off 0 = Some 0"
| "field24 setting off (Suc i) = do {
     c \<leftarrow> field24 setting off i;
     let value = ascii_to_bin (chr_at setting (off + i));
     if ascii64 ! value \<noteq> chr_at setting (off + i) then None else Some (or c (push_bit (6 * i) (of_nat value))) }"

definition xor_key :: "bytes \<Rightarrow> bytes \<Rightarrow> bytes" where
  "xor_key keybuf key = map (\<lambda>i. if i < length key then xor (keybuf ! i) (push_bit 1 (key ! i)) else keybuf ! i) [0..<8]"

function long_key :: "bytes \<Rightarrow> expanded_key \<Rightarrow> bytes \<Rightarrow> expanded_key" where
  "long_key keybuf ekey key =
     (if key = [] then ekey
      else let keybuf = xor_key (des_cipher keybuf 1 0 ekey) key
           in long_key keybuf (des_setkey keybuf) (drop 8 key))"
  by pat_completeness auto
termination by (relation "measure (\<lambda>(_, _, key). length key)") auto

declare long_key.simps [simp del]

definition out4 :: "u32 \<Rightarrow> bytes" where
  "out4 l = map (\<lambda>s. ascii64 ! unat (and (drop_bit s l) 0x3f)) [18, 12, 6, 0]"

definition des_encode :: "u32 \<times> u32 \<Rightarrow> bytes" where
  "des_encode = (\<lambda>(r0, r1).
     out4 (drop_bit 8 r0) @
     out4 (or (push_bit 16 r0) (and (drop_bit 16 r1) 0xffff)) @
     tl (out4 (push_bit 2 r1)))"

text \<open>The two styles of settings: the count, the salt, the keys, and what the result starts with.\<close>

definition des_params :: "bytes \<Rightarrow> expanded_key \<Rightarrow> bytes \<Rightarrow> bytes \<Rightarrow> (u32 \<times> u32 \<times> expanded_key \<times> bytes) option" where
  "des_params keybuf ekey key setting =
     (if chr_at setting 0 = 95 then do {
        count \<leftarrow> field24 setting 1 4;
        salt \<leftarrow> (if count = 0 then None else field24 setting 5 4);
        Some (count, salt, long_key keybuf ekey key, take 9 setting) }
      else if ascii_is_unsafe (chr_at setting 0) \<or> ascii_is_unsafe (chr_at setting 1) then None
      else Some (25, or (push_bit 6 (of_nat (ascii_to_bin (chr_at setting 1)))) (of_nat (ascii_to_bin (chr_at setting 0))),
        ekey, take 2 setting))"

definition crypt_extended_r :: "bytes \<Rightarrow> bytes \<Rightarrow> bytes option" where
  "crypt_extended_r key setting =
     (let (keybuf, rest) = copy_key 8 key;
          ekey = des_setkey keybuf
      in do {
        (count, salt, ekey, pre) \<leftarrow> des_params keybuf ekey rest setting;
        Some (pre @ des_encode (do_des 0 0 count (setup_salt salt) ekey)) })"

definition des_test_key :: bytes where
  "des_test_key = [0x80, 0xff, 0x80, 0x01, 0x20, 0x7f, 0x81, 0x80, 0x80, 0x0d, 0x0a, 0xff, 0x7f, 0x20, 0x81, 0x20, 116, 101, 115, 116]"

text \<open>The settings and the hashes of the self test: \<open>_0.../9Zz\<close> or a plain salt with the eighth bit set.\<close>

definition des_test :: "bool \<Rightarrow> bytes \<times> bytes" where
  "des_test ext = (if ext
     then ([95, 48, 46, 46, 46, 47, 57, 90, 122], [95, 48, 46, 46, 46, 47, 57, 90, 122, 88, 55, 105, 83, 74, 78, 100, 50, 49, 115, 85])
     else ([0x80, 120], [0x80, 120, 50, 50, 47, 119, 75, 53, 50, 90, 75, 71, 65]))"

definition crypt_des :: "bytes \<Rightarrow> bytes \<Rightarrow> bytes" where
  "crypt_des key setting =
     (let (test_setting, test_hash) = des_test (chr_at setting 0 = 95);
          retval = crypt_extended_r key setting;
          p = crypt_extended_r des_test_key test_setting
      in case (p, retval) of
           (Some t, Some out) \<Rightarrow> if t = test_hash then out else if chr_at setting 0 = 42 then [120] else [42]
         | _ \<Rightarrow> if chr_at setting 0 = 42 then [120] else [42])"

section \<open>A stored hash is a fixed point\<close>

lemma length_out4 [simp]: "length (out4 l) = 4"
  by (simp add: out4_def)

lemma length_des_encode [simp]: "length (des_encode r) = 11"
  by (cases r) (simp add: des_encode_def)

lemma length_b64 [simp]: "length b64 = 64"
  by (simp add: b64_def)

lemma set_out4: "set (out4 l) \<subseteq> set b64"
  by (auto simp: out4_def ascii64_def mask_chunk simp del: drop_bit_0)

lemma set_des_encode: "set (des_encode r) \<subseteq> set b64"
proof -
  have "set (tl xs) \<subseteq> set xs" for xs :: bytes by (cases xs) auto
  then show ?thesis using set_out4 by (cases r) (simp add: des_encode_def, meson order_trans)
qed

lemma field24_cong: "(\<And>i. i < n \<Longrightarrow> chr_at s (off + i) = chr_at t (off + i)) \<Longrightarrow> field24 s off n = field24 t off n"
  by (induction n) auto

text \<open>The fields consist of characters of the alphabet, and none of them is the terminator.\<close>

lemma field24_chars:
  assumes "field24 s off n = Some c" "i < n"
  shows "chr_at s (off + i) \<in> set b64"
  using assms
proof (induction n arbitrary: c)
  case (Suc n)
  have "ascii_to_bin x < 64" for x by (simp add: ascii_to_bin_def Let_def)
  moreover have "length b64 = 64" by (simp add: b64_def)
  ultimately have "ascii64 ! ascii_to_bin x \<in> set b64" for x by (simp add: ascii64_def)
  then show ?case using Suc by (auto simp: less_Suc_eq Let_def split: bind_splits if_splits) metis
qed simp

lemma zero_notin_b64: "0 \<notin> set b64" "10 \<notin> set b64" "58 \<notin> set b64" "42 \<notin> set b64"
  by (simp_all add: b64_def)

lemma chr_at_length: "chr_at s i \<noteq> 0 \<Longrightarrow> i < length s"
  by (simp add: chr_at_def split: if_splits)

lemma chr_at_take: "i < n \<Longrightarrow> n \<le> length s \<Longrightarrow> chr_at (take n s @ t) i = chr_at s i"
  by (simp add: chr_at_def nth_append)

text \<open>The parameters depend on the first nine or two characters only, and the result starts with those.\<close>

lemma des_params_ext:
  assumes "des_params kb ek rest s = Some (count, salt, ek', pre)" "chr_at s 0 = 95"
  shows "pre = take 9 s" "9 \<le> length s" "\<forall>i. 1 \<le> i \<and> i < 9 \<longrightarrow> chr_at s i \<in> set b64"
    and "\<forall>i < 9. chr_at t i = chr_at s i \<Longrightarrow> take 9 t = take 9 s \<Longrightarrow> des_params kb ek rest t = Some (count, salt, ek', pre)"
proof -
  obtain c where c: "field24 s 1 4 = Some c" "field24 s 5 4 = Some salt" and "pre = take 9 s"
    using assms by (auto simp: des_params_def split: bind_splits if_splits)
  then show "pre = take 9 s" by simp
  show ch: "\<forall>i. 1 \<le> i \<and> i < 9 \<longrightarrow> chr_at s i \<in> set b64"
  proof (intro allI impI)
    fix i :: nat assume i: "1 \<le> i \<and> i < 9"
    show "chr_at s i \<in> set b64"
    proof (cases "i < 5")
      case True
      with i field24_chars [OF c(1), of "i - 1"] show ?thesis by simp
    next
      case False
      with i field24_chars [OF c(2), of "i - 5"] show ?thesis by simp
    qed
  qed
  then have "chr_at s 8 \<in> set b64" by simp
  then have "chr_at s 8 \<noteq> 0" using zero_notin_b64(1) by metis
  then show "9 \<le> length s" using chr_at_length by fastforce
  show "des_params kb ek rest t = Some (count, salt, ek', pre)" if t: "\<forall>i < 9. chr_at t i = chr_at s i" "take 9 t = take 9 s"
  proof -
    have "field24 t 1 4 = field24 s 1 4" "field24 t 5 4 = field24 s 5 4" "chr_at t 0 = chr_at s 0"
      using t by (auto intro!: field24_cong)
    then have "des_params kb ek rest t = des_params kb ek rest s" using assms(2) t(2) by (simp only: des_params_def simp_thms if_True)
    then show ?thesis using assms(1) by simp
  qed
qed

lemma des_params_old:
  assumes "des_params kb ek rest s = Some (count, salt, ek', pre)" "chr_at s 0 \<noteq> 95"
  shows "pre = take 2 s" "2 \<le> length s" "\<not> ascii_is_unsafe (chr_at s 0)" "\<not> ascii_is_unsafe (chr_at s 1)"
    and "\<forall>i < 2. chr_at t i = chr_at s i \<Longrightarrow> take 2 t = take 2 s \<Longrightarrow> des_params kb ek rest t = Some (count, salt, ek', pre)"
proof -
  show u: "pre = take 2 s" "\<not> ascii_is_unsafe (chr_at s 0)" "\<not> ascii_is_unsafe (chr_at s 1)"
    using assms by (auto simp: des_params_def split: if_splits)
  then show "2 \<le> length s" using chr_at_length [of s 1] by (simp add: ascii_is_unsafe_def)
  show "des_params kb ek rest t = Some (count, salt, ek', pre)" if "\<forall>i < 2. chr_at t i = chr_at s i" "take 2 t = take 2 s"
  proof -
    have "chr_at t 0 = chr_at s 0" "chr_at t 1 = chr_at s 1" using that(1) by simp_all
    then have "des_params kb ek rest t = des_params kb ek rest s" using assms(2) that(2) by (simp only: des_params_def if_False)
    then show ?thesis using assms(1) by simp
  qed
qed

definition key_params :: "bytes \<Rightarrow> bytes \<Rightarrow> (u32 \<times> u32 \<times> expanded_key \<times> bytes) option" where
  "key_params key s = des_params (fst (copy_key 8 key)) (des_setkey (fst (copy_key 8 key))) (snd (copy_key 8 key)) s"

lemma crypt_extended_params:
  "crypt_extended_r key s = map_option (\<lambda>(count, salt, ek, pre). pre @ des_encode (do_des 0 0 count (setup_salt salt) ek)) (key_params key s)"
  by (simp add: crypt_extended_r_def key_params_def Let_def split: prod.splits bind_splits)

lemma crypt_extended_Some:
  assumes "crypt_extended_r key s = Some out"
  obtains count salt ek pre h where "key_params key s = Some (count, salt, ek, pre)" "out = pre @ h" "length h = 11" "set h \<subseteq> set b64"
proof -
  obtain count salt ek pre where "key_params key s = Some (count, salt, ek, pre)"
    "out = pre @ des_encode (do_des 0 0 count (setup_salt salt) ek)"
    using assms unfolding crypt_extended_params by auto
  with that [of count salt ek pre "des_encode (do_des 0 0 count (setup_salt salt) ek)"] set_des_encode show thesis by simp
qed

lemma crypt_extended_fixpoint:
  assumes "crypt_extended_r key s = Some out"
  shows "crypt_extended_r key out = Some out \<and> chr_at out 0 = chr_at s 0"
proof -
  obtain count salt ek pre h where p: "key_params key s = Some (count, salt, ek, pre)" "out = pre @ h"
    using crypt_extended_Some [OF assms] by metis
  have "key_params key out = key_params key s \<and> chr_at out 0 = chr_at s 0"
  proof (cases "chr_at s 0 = 95")
    case True
    note d = des_params_ext [OF p(1) [unfolded key_params_def] True]
    have "\<forall>i < 9. chr_at out i = chr_at s i" "take 9 out = take 9 s" using d(1,2) p(2) by (simp_all add: chr_at_take)
    then show ?thesis using d(4) [of out] p(1) by (simp add: key_params_def)
  next
    case False
    note d = des_params_old [OF p(1) [unfolded key_params_def] False]
    have "\<forall>i < 2. chr_at out i = chr_at s i" "take 2 out = take 2 s" using d(1,2) p(2) by (simp_all add: chr_at_take)
    then show ?thesis using d(5) [of out] p(1) by (simp add: key_params_def)
  qed
  then show ?thesis using assms by (simp add: crypt_extended_params)
qed

lemma crypt_des_eq:
  "crypt_des key s = (if crypt_extended_r des_test_key (fst (des_test (chr_at s 0 = 95))) = Some (snd (des_test (chr_at s 0 = 95))) \<and> crypt_extended_r key s \<noteq> None
     then the (crypt_extended_r key s) else if chr_at s 0 = 42 then [120] else [42])"
  by (simp add: crypt_des_def Let_def split: prod.splits option.splits)

lemma crypt_des_cases:
  "crypt_des key s = (if chr_at s 0 = 42 then [120] else [42]) \<or>
   crypt_extended_r key s = Some (crypt_des key s) \<and>
     crypt_extended_r des_test_key (fst (des_test (chr_at s 0 = 95))) = Some (snd (des_test (chr_at s 0 = 95)))"
  unfolding crypt_des_eq by auto

lemma crypt_des_fixpoint:
  assumes "out = crypt_des key s"
  shows "out = (if chr_at s 0 = 42 then [120] else [42]) \<or>
    crypt_extended_r key s = Some out \<and> crypt_des key out = out"
proof -
  have "crypt_des key out = out" if c: "crypt_extended_r key s = Some out"
    "crypt_extended_r des_test_key (fst (des_test (chr_at s 0 = 95))) = Some (snd (des_test (chr_at s 0 = 95)))"
    unfolding crypt_des_eq [of key out] using c crypt_extended_fixpoint [OF c(1)] by simp
  then show ?thesis using crypt_des_cases [of key s] assms by auto
qed

text \<open>The error strings are no valid settings.\<close>

lemma crypt_des_error: "crypt_des key [42] = [120]" "crypt_des key [120] = [42]"
proof -
  have "crypt_extended_r key [42] = None" "crypt_extended_r key [120] = None"
    by (simp_all add: crypt_extended_params key_params_def des_params_def chr_at_def ascii_is_unsafe_def)
  then show "crypt_des key [42] = [120]" "crypt_des key [120] = [42]"
    by (simp_all add: crypt_des_eq chr_at_def)
qed

lemma chr_at_set_take:
  assumes "c \<in> set (take n s)" "n \<le> length s"
  obtains i where "i < n" "c = chr_at s i"
proof -
  obtain i where "i < length (take n s)" "take n s ! i = c" using assms(1) unfolding in_set_conv_nth by blast
  with assms(2) that [of i] show thesis by (simp add: chr_at_def)
qed

lemma crypt_extended_chars:
  assumes "crypt_extended_r key s = Some out"
  shows "length out \<in> {13, 20} \<and> 10 \<notin> set out \<and> 58 \<notin> set out"
proof -
  obtain count salt ek pre h where p: "key_params key s = Some (count, salt, ek, pre)" "out = pre @ h" "length h = 11" "set h \<subseteq> set b64"
    using crypt_extended_Some [OF assms] by metis
  have h: "10 \<notin> set h" "58 \<notin> set h" using p(4) zero_notin_b64 by auto
  show ?thesis
  proof (cases "chr_at s 0 = 95")
    case True
    note d = des_params_ext [OF p(1) [unfolded key_params_def] True]
    have "c = 95 \<or> c \<in> set b64" if c: "c \<in> set pre" for c
    proof -
      obtain i where "i < 9" "c = chr_at s i" using chr_at_set_take [of c 9 s] c d(1,2) by blast
      then show ?thesis using d(3) True by (cases "i = 0") auto
    qed
    then have "10 \<notin> set pre" "58 \<notin> set pre" using zero_notin_b64 by force+
    then show ?thesis using h p(2,3) d(1,2) by simp
  next
    case False
    note d = des_params_old [OF p(1) [unfolded key_params_def] False]
    have "\<not> ascii_is_unsafe c" if c: "c \<in> set pre" for c
    proof -
      obtain i where "i < 2" "c = chr_at s i" using chr_at_set_take [of c 2 s] c d(1,2) by blast
      then show ?thesis using d(3,4) by (auto simp: less_2_cases_iff)
    qed
    then have "10 \<notin> set pre" "58 \<notin> set pre" by (auto simp: ascii_is_unsafe_def)
    then show ?thesis using h p(2,3) d(1,2) by simp
  qed
qed

end
