(* ===== verification/Crypt_Blowfish.thy ===== *)
theory Crypt_Blowfish
  imports Crypt
begin

text \<open>
  The password hash bcrypt, \<open>src/musl-1.2.5/src/crypt/crypt_blowfish.c\<close>: the Blowfish block cipher with its tables, the
  key set-up with the compatibility flags of the subtypes, the expensive key schedule, the radix-64
  coding, and the self test. The context is one list of 1042 words, as the union of the code: the 18 words of \<open>P\<close> and
  then the four S-boxes. Memory is little-endian, as on the target. Strings are as in \<open>Crypt\<close>.

  Shown here: the block function is the Blowfish cipher in its usual form, and the schedule with its two unrolled
  loops is the published one (ExpandKey with the salt and without it), so that the hash is the published bcrypt, with the
  deviations of the subtypes \<open>$2a$\<close> and \<open>$2x$\<close> characterised; hashing is a fixed point
  on its results, which have 60 characters of the alphabet.
\<close>

section \<open>Tables\<close>

definition BF_magic_w :: "u32 list" where
  "BF_magic_w = [0x4f727068, 0x65616e42, 0x65686f6c, 0x64657253, 0x63727944, 0x6f756274]"

definition BF_init_P :: "u32 list" where
  "BF_init_P = [0x243f6a88, 0x85a308d3, 0x13198a2e, 0x03707344, 0xa4093822, 0x299f31d0, 0x082efa98, 0xec4e6c89,
     0x452821e6, 0x38d01377, 0xbe5466cf, 0x34e90c6c, 0xc0ac29b7, 0xc97c50dd, 0x3f84d5b5, 0xb5470917,
     0x9216d5d9, 0x8979fb1b]"

definition BF_init_S0 :: "u32 list" where
  "BF_init_S0 = [0xd1310ba6, 0x98dfb5ac, 0x2ffd72db, 0xd01adfb7, 0xb8e1afed, 0x6a267e96, 0xba7c9045, 0xf12c7f99,
      0x24a19947, 0xb3916cf7, 0x0801f2e2, 0x858efc16, 0x636920d8, 0x71574e69, 0xa458fea3, 0xf4933d7e,
      0x0d95748f, 0x728eb658, 0x718bcd58, 0x82154aee, 0x7b54a41d, 0xc25a59b5, 0x9c30d539, 0x2af26013,
      0xc5d1b023, 0x286085f0, 0xca417918, 0xb8db38ef, 0x8e79dcb0, 0x603a180e, 0x6c9e0e8b, 0xb01e8a3e,
      0xd71577c1, 0xbd314b27, 0x78af2fda, 0x55605c60, 0xe65525f3, 0xaa55ab94, 0x57489862, 0x63e81440,
      0x55ca396a, 0x2aab10b6, 0xb4cc5c34, 0x1141e8ce, 0xa15486af, 0x7c72e993, 0xb3ee1411, 0x636fbc2a,
      0x2ba9c55d, 0x741831f6, 0xce5c3e16, 0x9b87931e, 0xafd6ba33, 0x6c24cf5c, 0x7a325381, 0x28958677,
      0x3b8f4898, 0x6b4bb9af, 0xc4bfe81b, 0x66282193, 0x61d809cc, 0xfb21a991, 0x487cac60, 0x5dec8032] @
     [0xef845d5d, 0xe98575b1, 0xdc262302, 0xeb651b88, 0x23893e81, 0xd396acc5, 0x0f6d6ff3, 0x83f44239,
      0x2e0b4482, 0xa4842004, 0x69c8f04a, 0x9e1f9b5e, 0x21c66842, 0xf6e96c9a, 0x670c9c61, 0xabd388f0,
      0x6a51a0d2, 0xd8542f68, 0x960fa728, 0xab5133a3, 0x6eef0b6c, 0x137a3be4, 0xba3bf050, 0x7efb2a98,
      0xa1f1651d, 0x39af0176, 0x66ca593e, 0x82430e88, 0x8cee8619, 0x456f9fb4, 0x7d84a5c3, 0x3b8b5ebe,
      0xe06f75d8, 0x85c12073, 0x401a449f, 0x56c16aa6, 0x4ed3aa62, 0x363f7706, 0x1bfedf72, 0x429b023d,
      0x37d0d724, 0xd00a1248, 0xdb0fead3, 0x49f1c09b, 0x075372c9, 0x80991b7b, 0x25d479d8, 0xf6e8def7,
      0xe3fe501a, 0xb6794c3b, 0x976ce0bd, 0x04c006ba, 0xc1a94fb6, 0x409f60c4, 0x5e5c9ec2, 0x196a2463,
      0x68fb6faf, 0x3e6c53b5, 0x1339b2eb, 0x3b52ec6f, 0x6dfc511f, 0x9b30952c, 0xcc814544, 0xaf5ebd09] @
     [0xbee3d004, 0xde334afd, 0x660f2807, 0x192e4bb3, 0xc0cba857, 0x45c8740f, 0xd20b5f39, 0xb9d3fbdb,
      0x5579c0bd, 0x1a60320a, 0xd6a100c6, 0x402c7279, 0x679f25fe, 0xfb1fa3cc, 0x8ea5e9f8, 0xdb3222f8,
      0x3c7516df, 0xfd616b15, 0x2f501ec8, 0xad0552ab, 0x323db5fa, 0xfd238760, 0x53317b48, 0x3e00df82,
      0x9e5c57bb, 0xca6f8ca0, 0x1a87562e, 0xdf1769db, 0xd542a8f6, 0x287effc3, 0xac6732c6, 0x8c4f5573,
      0x695b27b0, 0xbbca58c8, 0xe1ffa35d, 0xb8f011a0, 0x10fa3d98, 0xfd2183b8, 0x4afcb56c, 0x2dd1d35b,
      0x9a53e479, 0xb6f84565, 0xd28e49bc, 0x4bfb9790, 0xe1ddf2da, 0xa4cb7e33, 0x62fb1341, 0xcee4c6e8,
      0xef20cada, 0x36774c01, 0xd07e9efe, 0x2bf11fb4, 0x95dbda4d, 0xae909198, 0xeaad8e71, 0x6b93d5a0,
      0xd08ed1d0, 0xafc725e0, 0x8e3c5b2f, 0x8e7594b7, 0x8ff6e2fb, 0xf2122b64, 0x8888b812, 0x900df01c] @
     [0x4fad5ea0, 0x688fc31c, 0xd1cff191, 0xb3a8c1ad, 0x2f2f2218, 0xbe0e1777, 0xea752dfe, 0x8b021fa1,
      0xe5a0cc0f, 0xb56f74e8, 0x18acf3d6, 0xce89e299, 0xb4a84fe0, 0xfd13e0b7, 0x7cc43b81, 0xd2ada8d9,
      0x165fa266, 0x80957705, 0x93cc7314, 0x211a1477, 0xe6ad2065, 0x77b5fa86, 0xc75442f5, 0xfb9d35cf,
      0xebcdaf0c, 0x7b3e89a0, 0xd6411bd3, 0xae1e7e49, 0x00250e2d, 0x2071b35e, 0x226800bb, 0x57b8e0af,
      0x2464369b, 0xf009b91e, 0x5563911d, 0x59dfa6aa, 0x78c14389, 0xd95a537f, 0x207d5ba2, 0x02e5b9c5,
      0x83260376, 0x6295cfa9, 0x11c81968, 0x4e734a41, 0xb3472dca, 0x7b14a94a, 0x1b510052, 0x9a532915,
      0xd60f573f, 0xbc9bc6e4, 0x2b60a476, 0x81e67400, 0x08ba6fb5, 0x571be91f, 0xf296ec6b, 0x2a0dd915,
      0xb6636521, 0xe7b9f9b6, 0xff34052e, 0xc5855664, 0x53b02d5d, 0xa99f8fa1, 0x08ba4799, 0x6e85076a]"

definition BF_init_S1 :: "u32 list" where
  "BF_init_S1 = [0x4b7a70e9, 0xb5b32944, 0xdb75092e, 0xc4192623, 0xad6ea6b0, 0x49a7df7d, 0x9cee60b8, 0x8fedb266,
      0xecaa8c71, 0x699a17ff, 0x5664526c, 0xc2b19ee1, 0x193602a5, 0x75094c29, 0xa0591340, 0xe4183a3e,
      0x3f54989a, 0x5b429d65, 0x6b8fe4d6, 0x99f73fd6, 0xa1d29c07, 0xefe830f5, 0x4d2d38e6, 0xf0255dc1,
      0x4cdd2086, 0x8470eb26, 0x6382e9c6, 0x021ecc5e, 0x09686b3f, 0x3ebaefc9, 0x3c971814, 0x6b6a70a1,
      0x687f3584, 0x52a0e286, 0xb79c5305, 0xaa500737, 0x3e07841c, 0x7fdeae5c, 0x8e7d44ec, 0x5716f2b8,
      0xb03ada37, 0xf0500c0d, 0xf01c1f04, 0x0200b3ff, 0xae0cf51a, 0x3cb574b2, 0x25837a58, 0xdc0921bd,
      0xd19113f9, 0x7ca92ff6, 0x94324773, 0x22f54701, 0x3ae5e581, 0x37c2dadc, 0xc8b57634, 0x9af3dda7,
      0xa9446146, 0x0fd0030e, 0xecc8c73e, 0xa4751e41, 0xe238cd99, 0x3bea0e2f, 0x3280bba1, 0x183eb331] @
     [0x4e548b38, 0x4f6db908, 0x6f420d03, 0xf60a04bf, 0x2cb81290, 0x24977c79, 0x5679b072, 0xbcaf89af,
      0xde9a771f, 0xd9930810, 0xb38bae12, 0xdccf3f2e, 0x5512721f, 0x2e6b7124, 0x501adde6, 0x9f84cd87,
      0x7a584718, 0x7408da17, 0xbc9f9abc, 0xe94b7d8c, 0xec7aec3a, 0xdb851dfa, 0x63094366, 0xc464c3d2,
      0xef1c1847, 0x3215d908, 0xdd433b37, 0x24c2ba16, 0x12a14d43, 0x2a65c451, 0x50940002, 0x133ae4dd,
      0x71dff89e, 0x10314e55, 0x81ac77d6, 0x5f11199b, 0x043556f1, 0xd7a3c76b, 0x3c11183b, 0x5924a509,
      0xf28fe6ed, 0x97f1fbfa, 0x9ebabf2c, 0x1e153c6e, 0x86e34570, 0xeae96fb1, 0x860e5e0a, 0x5a3e2ab3,
      0x771fe71c, 0x4e3d06fa, 0x2965dcb9, 0x99e71d0f, 0x803e89d6, 0x5266c825, 0x2e4cc978, 0x9c10b36a,
      0xc6150eba, 0x94e2ea78, 0xa5fc3c53, 0x1e0a2df4, 0xf2f74ea7, 0x361d2b3d, 0x1939260f, 0x19c27960] @
     [0x5223a708, 0xf71312b6, 0xebadfe6e, 0xeac31f66, 0xe3bc4595, 0xa67bc883, 0xb17f37d1, 0x018cff28,
      0xc332ddef, 0xbe6c5aa5, 0x65582185, 0x68ab9802, 0xeecea50f, 0xdb2f953b, 0x2aef7dad, 0x5b6e2f84,
      0x1521b628, 0x29076170, 0xecdd4775, 0x619f1510, 0x13cca830, 0xeb61bd96, 0x0334fe1e, 0xaa0363cf,
      0xb5735c90, 0x4c70a239, 0xd59e9e0b, 0xcbaade14, 0xeecc86bc, 0x60622ca7, 0x9cab5cab, 0xb2f3846e,
      0x648b1eaf, 0x19bdf0ca, 0xa02369b9, 0x655abb50, 0x40685a32, 0x3c2ab4b3, 0x319ee9d5, 0xc021b8f7,
      0x9b540b19, 0x875fa099, 0x95f7997e, 0x623d7da8, 0xf837889a, 0x97e32d77, 0x11ed935f, 0x16681281,
      0x0e358829, 0xc7e61fd6, 0x96dedfa1, 0x7858ba99, 0x57f584a5, 0x1b227263, 0x9b83c3ff, 0x1ac24696,
      0xcdb30aeb, 0x532e3054, 0x8fd948e4, 0x6dbc3128, 0x58ebf2ef, 0x34c6ffea, 0xfe28ed61, 0xee7c3c73] @
     [0x5d4a14d9, 0xe864b7e3, 0x42105d14, 0x203e13e0, 0x45eee2b6, 0xa3aaabea, 0xdb6c4f15, 0xfacb4fd0,
      0xc742f442, 0xef6abbb5, 0x654f3b1d, 0x41cd2105, 0xd81e799e, 0x86854dc7, 0xe44b476a, 0x3d816250,
      0xcf62a1f2, 0x5b8d2646, 0xfc8883a0, 0xc1c7b6a3, 0x7f1524c3, 0x69cb7492, 0x47848a0b, 0x5692b285,
      0x095bbf00, 0xad19489d, 0x1462b174, 0x23820e00, 0x58428d2a, 0x0c55f5ea, 0x1dadf43e, 0x233f7061,
      0x3372f092, 0x8d937e41, 0xd65fecf1, 0x6c223bdb, 0x7cde3759, 0xcbee7460, 0x4085f2a7, 0xce77326e,
      0xa6078084, 0x19f8509e, 0xe8efd855, 0x61d99735, 0xa969a7aa, 0xc50c06c2, 0x5a04abfc, 0x800bcadc,
      0x9e447a2e, 0xc3453484, 0xfdd56705, 0x0e1e9ec9, 0xdb73dbd3, 0x105588cd, 0x675fda79, 0xe3674340,
      0xc5c43465, 0x713e38d8, 0x3d28f89e, 0xf16dff20, 0x153e21e7, 0x8fb03d4a, 0xe6e39f2b, 0xdb83adf7]"

definition BF_init_S2 :: "u32 list" where
  "BF_init_S2 = [0xe93d5a68, 0x948140f7, 0xf64c261c, 0x94692934, 0x411520f7, 0x7602d4f7, 0xbcf46b2e, 0xd4a20068,
      0xd4082471, 0x3320f46a, 0x43b7d4b7, 0x500061af, 0x1e39f62e, 0x97244546, 0x14214f74, 0xbf8b8840,
      0x4d95fc1d, 0x96b591af, 0x70f4ddd3, 0x66a02f45, 0xbfbc09ec, 0x03bd9785, 0x7fac6dd0, 0x31cb8504,
      0x96eb27b3, 0x55fd3941, 0xda2547e6, 0xabca0a9a, 0x28507825, 0x530429f4, 0x0a2c86da, 0xe9b66dfb,
      0x68dc1462, 0xd7486900, 0x680ec0a4, 0x27a18dee, 0x4f3ffea2, 0xe887ad8c, 0xb58ce006, 0x7af4d6b6,
      0xaace1e7c, 0xd3375fec, 0xce78a399, 0x406b2a42, 0x20fe9e35, 0xd9f385b9, 0xee39d7ab, 0x3b124e8b,
      0x1dc9faf7, 0x4b6d1856, 0x26a36631, 0xeae397b2, 0x3a6efa74, 0xdd5b4332, 0x6841e7f7, 0xca7820fb,
      0xfb0af54e, 0xd8feb397, 0x454056ac, 0xba489527, 0x55533a3a, 0x20838d87, 0xfe6ba9b7, 0xd096954b] @
     [0x55a867bc, 0xa1159a58, 0xcca92963, 0x99e1db33, 0xa62a4a56, 0x3f3125f9, 0x5ef47e1c, 0x9029317c,
      0xfdf8e802, 0x04272f70, 0x80bb155c, 0x05282ce3, 0x95c11548, 0xe4c66d22, 0x48c1133f, 0xc70f86dc,
      0x07f9c9ee, 0x41041f0f, 0x404779a4, 0x5d886e17, 0x325f51eb, 0xd59bc0d1, 0xf2bcc18f, 0x41113564,
      0x257b7834, 0x602a9c60, 0xdff8e8a3, 0x1f636c1b, 0x0e12b4c2, 0x02e1329e, 0xaf664fd1, 0xcad18115,
      0x6b2395e0, 0x333e92e1, 0x3b240b62, 0xeebeb922, 0x85b2a20e, 0xe6ba0d99, 0xde720c8c, 0x2da2f728,
      0xd0127845, 0x95b794fd, 0x647d0862, 0xe7ccf5f0, 0x5449a36f, 0x877d48fa, 0xc39dfd27, 0xf33e8d1e,
      0x0a476341, 0x992eff74, 0x3a6f6eab, 0xf4f8fd37, 0xa812dc60, 0xa1ebddf8, 0x991be14c, 0xdb6e6b0d,
      0xc67b5510, 0x6d672c37, 0x2765d43b, 0xdcd0e804, 0xf1290dc7, 0xcc00ffa3, 0xb5390f92, 0x690fed0b] @
     [0x667b9ffb, 0xcedb7d9c, 0xa091cf0b, 0xd9155ea3, 0xbb132f88, 0x515bad24, 0x7b9479bf, 0x763bd6eb,
      0x37392eb3, 0xcc115979, 0x8026e297, 0xf42e312d, 0x6842ada7, 0xc66a2b3b, 0x12754ccc, 0x782ef11c,
      0x6a124237, 0xb79251e7, 0x06a1bbe6, 0x4bfb6350, 0x1a6b1018, 0x11caedfa, 0x3d25bdd8, 0xe2e1c3c9,
      0x44421659, 0x0a121386, 0xd90cec6e, 0xd5abea2a, 0x64af674e, 0xda86a85f, 0xbebfe988, 0x64e4c3fe,
      0x9dbc8057, 0xf0f7c086, 0x60787bf8, 0x6003604d, 0xd1fd8346, 0xf6381fb0, 0x7745ae04, 0xd736fccc,
      0x83426b33, 0xf01eab71, 0xb0804187, 0x3c005e5f, 0x77a057be, 0xbde8ae24, 0x55464299, 0xbf582e61,
      0x4e58f48f, 0xf2ddfda2, 0xf474ef38, 0x8789bdc2, 0x5366f9c3, 0xc8b38e74, 0xb475f255, 0x46fcd9b9,
      0x7aeb2661, 0x8b1ddf84, 0x846a0e79, 0x915f95e2, 0x466e598e, 0x20b45770, 0x8cd55591, 0xc902de4c] @
     [0xb90bace1, 0xbb8205d0, 0x11a86248, 0x7574a99e, 0xb77f19b6, 0xe0a9dc09, 0x662d09a1, 0xc4324633,
      0xe85a1f02, 0x09f0be8c, 0x4a99a025, 0x1d6efe10, 0x1ab93d1d, 0x0ba5a4df, 0xa186f20f, 0x2868f169,
      0xdcb7da83, 0x573906fe, 0xa1e2ce9b, 0x4fcd7f52, 0x50115e01, 0xa70683fa, 0xa002b5c4, 0x0de6d027,
      0x9af88c27, 0x773f8641, 0xc3604c06, 0x61a806b5, 0xf0177a28, 0xc0f586e0, 0x006058aa, 0x30dc7d62,
      0x11e69ed7, 0x2338ea63, 0x53c2dd94, 0xc2c21634, 0xbbcbee56, 0x90bcb6de, 0xebfc7da1, 0xce591d76,
      0x6f05e409, 0x4b7c0188, 0x39720a3d, 0x7c927c24, 0x86e3725f, 0x724d9db9, 0x1ac15bb4, 0xd39eb8fc,
      0xed545578, 0x08fca5b5, 0xd83d7cd3, 0x4dad0fc4, 0x1e50ef5e, 0xb161e6f8, 0xa28514d9, 0x6c51133c,
      0x6fd5c7e7, 0x56e14ec4, 0x362abfce, 0xddc6c837, 0xd79a3234, 0x92638212, 0x670efa8e, 0x406000e0]"

definition BF_init_S3 :: "u32 list" where
  "BF_init_S3 = [0x3a39ce37, 0xd3faf5cf, 0xabc27737, 0x5ac52d1b, 0x5cb0679e, 0x4fa33742, 0xd3822740, 0x99bc9bbe,
      0xd5118e9d, 0xbf0f7315, 0xd62d1c7e, 0xc700c47b, 0xb78c1b6b, 0x21a19045, 0xb26eb1be, 0x6a366eb4,
      0x5748ab2f, 0xbc946e79, 0xc6a376d2, 0x6549c2c8, 0x530ff8ee, 0x468dde7d, 0xd5730a1d, 0x4cd04dc6,
      0x2939bbdb, 0xa9ba4650, 0xac9526e8, 0xbe5ee304, 0xa1fad5f0, 0x6a2d519a, 0x63ef8ce2, 0x9a86ee22,
      0xc089c2b8, 0x43242ef6, 0xa51e03aa, 0x9cf2d0a4, 0x83c061ba, 0x9be96a4d, 0x8fe51550, 0xba645bd6,
      0x2826a2f9, 0xa73a3ae1, 0x4ba99586, 0xef5562e9, 0xc72fefd3, 0xf752f7da, 0x3f046f69, 0x77fa0a59,
      0x80e4a915, 0x87b08601, 0x9b09e6ad, 0x3b3ee593, 0xe990fd5a, 0x9e34d797, 0x2cf0b7d9, 0x022b8b51,
      0x96d5ac3a, 0x017da67d, 0xd1cf3ed6, 0x7c7d2d28, 0x1f9f25cf, 0xadf2b89b, 0x5ad6b472, 0x5a88f54c] @
     [0xe029ac71, 0xe019a5e6, 0x47b0acfd, 0xed93fa9b, 0xe8d3c48d, 0x283b57cc, 0xf8d56629, 0x79132e28,
      0x785f0191, 0xed756055, 0xf7960e44, 0xe3d35e8c, 0x15056dd4, 0x88f46dba, 0x03a16125, 0x0564f0bd,
      0xc3eb9e15, 0x3c9057a2, 0x97271aec, 0xa93a072a, 0x1b3f6d9b, 0x1e6321f5, 0xf59c66fb, 0x26dcf319,
      0x7533d928, 0xb155fdf5, 0x03563482, 0x8aba3cbb, 0x28517711, 0xc20ad9f8, 0xabcc5167, 0xccad925f,
      0x4de81751, 0x3830dc8e, 0x379d5862, 0x9320f991, 0xea7a90c2, 0xfb3e7bce, 0x5121ce64, 0x774fbe32,
      0xa8b6e37e, 0xc3293d46, 0x48de5369, 0x6413e680, 0xa2ae0810, 0xdd6db224, 0x69852dfd, 0x09072166,
      0xb39a460a, 0x6445c0dd, 0x586cdecf, 0x1c20c8ae, 0x5bbef7dd, 0x1b588d40, 0xccd2017f, 0x6bb4e3bb,
      0xdda26a7e, 0x3a59ff45, 0x3e350a44, 0xbcb4cdd5, 0x72eacea8, 0xfa6484bb, 0x8d6612ae, 0xbf3c6f47] @
     [0xd29be463, 0x542f5d9e, 0xaec2771b, 0xf64e6370, 0x740e0d8d, 0xe75b1357, 0xf8721671, 0xaf537d5d,
      0x4040cb08, 0x4eb4e2cc, 0x34d2466a, 0x0115af84, 0xe1b00428, 0x95983a1d, 0x06b89fb4, 0xce6ea048,
      0x6f3f3b82, 0x3520ab82, 0x011a1d4b, 0x277227f8, 0x611560b1, 0xe7933fdc, 0xbb3a792b, 0x344525bd,
      0xa08839e1, 0x51ce794b, 0x2f32c9b7, 0xa01fbac9, 0xe01cc87e, 0xbcc7d1f6, 0xcf0111c3, 0xa1e8aac7,
      0x1a908749, 0xd44fbd9a, 0xd0dadecb, 0xd50ada38, 0x0339c32a, 0xc6913667, 0x8df9317c, 0xe0b12b4f,
      0xf79e59b7, 0x43f5bb3a, 0xf2d519ff, 0x27d9459c, 0xbf97222c, 0x15e6fc2a, 0x0f91fc71, 0x9b941525,
      0xfae59361, 0xceb69ceb, 0xc2a86459, 0x12baa8d1, 0xb6c1075e, 0xe3056a0c, 0x10d25065, 0xcb03a442,
      0xe0ec6e0e, 0x1698db3b, 0x4c98a0be, 0x3278e964, 0x9f1f9532, 0xe0d392df, 0xd3a0342b, 0x8971f21e] @
     [0x1b0a7441, 0x4ba3348c, 0xc5be7120, 0xc37632d8, 0xdf359f8d, 0x9b992f2e, 0xe60b6f47, 0x0fe3f11d,
      0xe54cda54, 0x1edad891, 0xce6279cf, 0xcd3e7e6f, 0x1618b166, 0xfd2c1d05, 0x848fd2c5, 0xf6fb2299,
      0xf523f357, 0xa6327623, 0x93a83531, 0x56cccd02, 0xacf08162, 0x5a75ebb5, 0x6e163697, 0x88d273cc,
      0xde966292, 0x81b949d0, 0x4c50901b, 0x71c65614, 0xe6c6c7bd, 0x327a140a, 0x45e1d006, 0xc3f27b9a,
      0xc9aa53fd, 0x62a80f00, 0xbb25bfe2, 0x35bdd2f6, 0x71126905, 0xb2040222, 0xb6cbcf7c, 0xcd769c2b,
      0x53113ec0, 0x1640e3d3, 0x38abbd60, 0x2547adf0, 0xba38209c, 0xf746ce76, 0x77afa1c5, 0x20756060,
      0x85cbfe4e, 0x8ae88dd8, 0x7aaaf9b0, 0x4cf9aa7e, 0x1948c25c, 0x02fb8a8c, 0x01c36ae4, 0xd6ebe1f9,
      0x90d4f869, 0xa65cdea0, 0x3f09252d, 0xc208e69f, 0xb74e6132, 0xce77e25b, 0x578fdfe3, 0x3ac372e6]"

definition BF_itoa64 :: "bytes" where
  "BF_itoa64 = [46, 47, 65, 66, 67, 68, 69, 70, 71, 72, 73, 74, 75, 76, 77, 78,
     79, 80, 81, 82, 83, 84, 85, 86, 87, 88, 89, 90, 97, 98, 99, 100,
     101, 102, 103, 104, 105, 106, 107, 108, 109, 110, 111, 112, 113, 114, 115, 116,
     117, 118, 119, 120, 121, 122, 48, 49, 50, 51, 52, 53, 54, 55, 56, 57]"

definition BF_atoi64 :: "nat list" where
  "BF_atoi64 = [64, 64, 64, 64, 64, 64, 64, 64, 64, 64, 64, 64, 64, 64, 0, 1,
     54, 55, 56, 57, 58, 59, 60, 61, 62, 63, 64, 64, 64, 64, 64, 64,
     64, 2, 3, 4, 5, 6, 7, 8, 9, 10, 11, 12, 13, 14, 15, 16,
     17, 18, 19, 20, 21, 22, 23, 24, 25, 26, 27, 64, 64, 64, 64, 64,
     64, 28, 29, 30, 31, 32, 33, 34, 35, 36, 37, 38, 39, 40, 41, 42,
     43, 44, 45, 46, 47, 48, 49, 50, 51, 52, 53, 64, 64, 64, 64, 64]"

definition flags_by_subtype :: "nat list" where
  "flags_by_subtype = [2, 4, 0, 0, 0, 0, 0, 0, 0, 0, 0, 0, 0, 0, 0, 0, 0, 0, 0, 0, 0, 0, 0, 1, 4, 0]"

section \<open>Radix 64\<close>

definition BF_safe_atoi64 :: "u8 \<Rightarrow> u8 option" where
  "BF_safe_atoi64 src =
     (let tmp = unat src in
      if tmp < 0x20 \<or> tmp \<ge> 0x80 then None
      else let tmp = BF_atoi64 ! (tmp - 0x20) in if tmp > 63 then None else Some (of_nat tmp))"

fun BF_decode :: "bytes \<Rightarrow> nat \<Rightarrow> bytes option" where
  "BF_decode src n = do {
     c1 \<leftarrow> BF_safe_atoi64 (chr_at src 0);
     c2 \<leftarrow> BF_safe_atoi64 (chr_at src 1);
     let d1 = or (push_bit 2 c1) (drop_bit 4 (and c2 0x30));
     if n \<le> 1 then Some [d1] else do {
       c3 \<leftarrow> BF_safe_atoi64 (chr_at src 2);
       let d2 = or (push_bit 4 (and c2 0x0F)) (drop_bit 2 (and c3 0x3C));
       if n \<le> 2 then Some [d1, d2] else do {
         c4 \<leftarrow> BF_safe_atoi64 (chr_at src 3);
         let d3 = or (push_bit 6 (and c3 0x03)) c4;
         if n \<le> 3 then Some [d1, d2, d3] else do {
           rest \<leftarrow> BF_decode (drop 4 src) (n - 3);
           Some (d1 # d2 # d3 # rest) } } } }"

declare BF_decode.simps [simp del]

definition itoa64 :: "u8 \<Rightarrow> u8" where
  "itoa64 c = BF_itoa64 ! unat c"

fun BF_encode :: "bytes \<Rightarrow> nat \<Rightarrow> bytes" where
  "BF_encode src n =
     (let c1 = src ! 0; o1 = itoa64 (drop_bit 2 c1); c1 = push_bit 4 (and c1 0x03) in
      if n \<le> 1 then [o1, itoa64 c1]
      else let c2 = src ! 1; c1 = or c1 (drop_bit 4 c2); o2 = itoa64 c1; c1 = push_bit 2 (and c2 0x0f) in
      if n \<le> 2 then [o1, o2, itoa64 c1]
      else let c2 = src ! 2; c1 = or c1 (drop_bit 6 c2); o3 = itoa64 c1; o4 = itoa64 (and c2 0x3f) in
      if n \<le> 3 then [o1, o2, o3, o4] else o1 # o2 # o3 # o4 # BF_encode (drop 3 src) (n - 3))"

declare BF_encode.simps [simp del]

definition BF_swap :: "u32 \<Rightarrow> u32" where
  "BF_swap x = (let tmp = or (push_bit 16 x) (drop_bit 16 x)
     in or (push_bit 8 (and tmp 0x00FF00FF)) (and (drop_bit 8 tmp) 0x00FF00FF))"

text \<open>A word of memory.\<close>

definition le_word :: "bytes \<Rightarrow> nat \<Rightarrow> u32" where
  "le_word b i = or (or (or (ucast (b ! i)) (push_bit 8 (ucast (b ! (i + 1))))) (push_bit 16 (ucast (b ! (i + 2))))) (push_bit 24 (ucast (b ! (i + 3))))"

section \<open>The cipher\<close>

text \<open>\<open>BF_ROUND(L, R, N)\<close>: the new value of \<open>R\<close>.\<close>

definition S_at :: "u32 list \<Rightarrow> nat \<Rightarrow> u32 \<Rightarrow> u32" where
  "S_at ps k i = ps ! (18 + 256 * k + unat i)"

definition BF_round :: "u32 list \<Rightarrow> u32 \<Rightarrow> u32 \<Rightarrow> nat \<Rightarrow> u32" where
  "BF_round ps L R N =
     (let tmp1 = and L 0xFF; tmp2 = and (drop_bit 8 L) 0xFF; tmp3 = and (drop_bit 16 L) 0xFF; tmp4 = drop_bit 24 L;
          tmp1 = S_at ps 3 tmp1; tmp2 = S_at ps 2 tmp2; tmp3 = S_at ps 1 tmp3;
          tmp3 = tmp3 + S_at ps 0 tmp4;
          tmp3 = xor tmp3 tmp2;
          R = xor R (ps ! (N + 1));
          tmp3 = tmp3 + tmp1
      in xor R tmp3)"

fun BF_rounds :: "u32 list \<Rightarrow> nat list \<Rightarrow> u32 \<times> u32 \<Rightarrow> u32 \<times> u32" where
  "BF_rounds ps [] LR = LR"
| "BF_rounds ps (i # is) (L, R) =
     (let R = BF_round ps L R i; L = BF_round ps R L (i + 1) in BF_rounds ps is (L, R))"

text \<open>One block of \<open>BF_encrypt\<close>, and the loop of \<open>BF_encrypt\<close> that stores the blocks in the context from word \<open>ptr\<close> on.\<close>

definition BF_block :: "u32 list \<Rightarrow> u32 \<times> u32 \<Rightarrow> u32 \<times> u32" where
  "BF_block ps = (\<lambda>(L, R).
     let L = xor L (ps ! 0);
         (L, R) = BF_rounds ps [0, 2, 4, 6, 8, 10, 12, 14] (L, R);
         tmp4 = R; R = L; L = xor tmp4 (ps ! 17)
     in (L, R))"

function BF_encrypt :: "u32 list \<Rightarrow> u32 \<times> u32 \<Rightarrow> nat \<Rightarrow> nat \<Rightarrow> u32 list \<times> (u32 \<times> u32)" where
  "BF_encrypt ps LR ptr e =
     (let LR = BF_block ps LR; ps = ps[ptr := fst LR, ptr + 1 := snd LR]
      in if ptr + 2 < e then BF_encrypt ps LR (ptr + 2) e else (ps, LR))"
  by pat_completeness auto
termination by (relation "measure (\<lambda>(_, _, ptr, e). e - ptr)") auto

declare BF_encrypt.simps [simp del]

section \<open>The key\<close>

text \<open>The inner and the outer loop of \<open>BF_set_key\<close>; the position in the key is \<open>ptr\<close>.\<close>

definition set_key_char :: "bytes \<Rightarrow> nat \<times> u32 \<times> u32 \<times> u32 \<Rightarrow> nat \<Rightarrow> nat \<times> u32 \<times> u32 \<times> u32" where
  "set_key_char key = (\<lambda>(ptr, tmp0, tmp1, sign) j.
     let c = chr_at key ptr;
         tmp0 = or (push_bit 8 tmp0) (ucast c);
         tmp1 = or (push_bit 8 tmp1) (scast c);
         sign = (if j \<noteq> 0 then or sign (and tmp1 0x80) else sign)
     in (if c = 0 then 0 else ptr + 1, tmp0, tmp1, sign))"

definition set_key_word :: "bytes \<Rightarrow> bool \<Rightarrow> nat \<times> u32 \<times> u32 \<times> u32 list \<times> u32 list \<Rightarrow> nat \<Rightarrow> nat \<times> u32 \<times> u32 \<times> u32 list \<times> u32 list" where
  "set_key_word key bug = (\<lambda>(ptr, sign, diff, expanded, initial) i.
     let (ptr, tmp0, tmp1, sign) = foldl (set_key_char key) (ptr, 0, 0, sign) [0..<4];
         diff = or diff (xor tmp0 tmp1);
         tmp = (if bug then tmp1 else tmp0)
     in (ptr, sign, diff, expanded @ [tmp], initial @ [xor (BF_init_P ! i) tmp]))"

definition BF_set_key :: "bytes \<Rightarrow> nat \<Rightarrow> u32 list \<times> u32 list" where
  "BF_set_key key flags =
     (let bug = odd flags;
          safety = push_bit 15 (and (of_nat flags) 2);
          (ptr, sign, diff, expanded, initial) = foldl (set_key_word key bug) (0, 0, 0, [], []) [0..<18];
          diff = or diff (drop_bit 16 diff);
          diff = and diff 0xffff;
          diff = diff + 0xffff;
          sign = push_bit 9 sign;
          sign = and sign (and (not diff) safety)
      in (expanded, initial[0 := xor (initial ! 0) sign]))"

section \<open>The hash\<close>

text \<open>The first loop of \<open>BF_crypt\<close>, which mixes the salt in.\<close>

function salt_loop :: "u32 list \<Rightarrow> u32 list \<Rightarrow> u32 \<times> u32 \<Rightarrow> nat \<Rightarrow> u32 list" where
  "salt_loop ps salt LR ptr =
     (let (ps, LR) = BF_encrypt ps (xor (fst LR) (salt ! 0), xor (snd LR) (salt ! 1)) ptr ptr
      in if ptr + 2 \<ge> 1042 then ps
         else let (ps, LR) = BF_encrypt ps (xor (fst LR) (salt ! 2), xor (snd LR) (salt ! 3)) (ptr + 2) (ptr + 2)
              in salt_loop ps salt LR (ptr + 4))"
  by pat_completeness auto
termination by (relation "measure (\<lambda>(_, _, _, ptr). 1042 - ptr)") auto

declare salt_loop.simps [simp del]

definition xor_P :: "u32 list \<Rightarrow> (nat \<Rightarrow> u32) \<Rightarrow> u32 list" where
  "xor_P ps k = map (\<lambda>i. xor (ps ! i) (k i)) [0..<18] @ drop 18 ps"

text \<open>One pass of the second loop.\<close>

definition key_loop :: "u32 list \<Rightarrow> u32 list \<Rightarrow> u32 list \<Rightarrow> u32 list" where
  "key_loop expanded salt ps =
     (let ps = xor_P ps (\<lambda>i. expanded ! i);
          ps = fst (BF_encrypt ps (0, 0) 0 1042);
          ps = xor_P ps (\<lambda>i. salt ! (i mod 4))
      in fst (BF_encrypt ps (0, 0) 0 1042))"

definition BF_output :: "u32 list \<Rightarrow> u32 list" where
  "BF_output ps = concat (map (\<lambda>i.
     let LR = (BF_block ps ^^ 64) (BF_magic_w ! i, BF_magic_w ! (i + 1)) in [fst LR, snd LR]) [0, 2, 4])"

text \<open>The checks at the start of \<open>BF_crypt\<close>: the flags and the count.\<close>

definition BF_setting :: "bytes \<Rightarrow> (nat \<times> nat) option" where
  "BF_setting s =
     (if chr_at s 0 \<noteq> 36 \<or> chr_at s 1 \<noteq> 50 \<or> unat (chr_at s 2) < 97 \<or> unat (chr_at s 2) - 97 > 25 \<or>
         flags_by_subtype ! (unat (chr_at s 2) - 97) = 0 \<or> chr_at s 3 \<noteq> 36 \<or>
         unat (chr_at s 4) < 48 \<or> unat (chr_at s 4) - 48 > 1 \<or> unat (chr_at s 5) < 48 \<or> unat (chr_at s 5) - 48 > 9 \<or>
         chr_at s 6 \<noteq> 36
      then None
      else Some (flags_by_subtype ! (unat (chr_at s 2) - 97), 2 ^ ((unat (chr_at s 4) - 48) * 10 + (unat (chr_at s 5) - 48))))"

definition BF_crypt :: "bytes \<Rightarrow> bytes \<Rightarrow> nat \<Rightarrow> bytes option" where
  "BF_crypt key setting minc = do {
     (flags, count) \<leftarrow> BF_setting setting;
     salt \<leftarrow> (if count < minc then None else BF_decode (drop 7 setting) 16);
     let salt = map (\<lambda>i. BF_swap (le_word salt (4 * i))) [0..<4];
     let (expanded, initial) = BF_set_key key flags;
     let ps = initial @ BF_init_S0 @ BF_init_S1 @ BF_init_S2 @ BF_init_S3;
     let ps = salt_loop ps salt (0, 0) 0;
     let ps = (key_loop expanded salt ^^ count) ps;
     let output = concat (map le32_bytes (map BF_swap (BF_output ps)));
     Some (take 28 setting @
       [itoa64 (and (of_nat (BF_atoi64 ! (unat (chr_at setting 28) - 0x20))) 0x30)] @ BF_encode output 23) }"

section \<open>The self test\<close>

definition BF_test_key :: bytes where
  "BF_test_key = [56, 98, 32, 0xd0, 0xc1, 0xd2, 0xcf, 0xcc, 0xd8]"

definition BF_test_setting :: bytes where
  "BF_test_setting = [36, 50, 97, 36, 48, 48, 36, 97, 98, 99, 100, 101, 102, 103, 104, 105, 106, 107, 108, 109, 110, 111, 112, 113, 114, 115, 116, 117, 117]"

definition BF_test_hashes :: "bytes list" where
  "BF_test_hashes = [
     [105, 49, 68, 55, 48, 57, 118, 102, 97, 109, 117, 108, 105, 109, 108, 71, 99, 113, 48, 113, 113, 51, 85, 118, 117, 85, 97, 115, 118, 69, 97],
     [86, 85, 114, 80, 109, 88, 68, 54, 113, 47, 110, 86, 83, 83, 112, 55, 112, 78, 68, 104, 67, 82, 57, 48, 55, 49, 73, 102, 73, 82, 101]]"

definition BF_collision_key :: bytes where
  "BF_collision_key = [0xff, 0xa3, 51, 52, 0xff, 0xff, 0xff, 0xa3, 51, 52, 53]"

text \<open>The test of the hash, for the subtype \<open>t\<close> and its flags, and the test of the safety measure of \<open>$2a$\<close>.\<close>

definition BF_self_test :: "u8 \<Rightarrow> nat \<Rightarrow> bool" where
  "BF_self_test t flags =
     (let s = BF_test_setting[2 := t]; p = BF_crypt BF_test_key s 1;
          (ae, ai) = BF_set_key BF_collision_key 2;
          (ye, yi) = BF_set_key BF_collision_key 4;
          ai = ai[0 := xor (ai ! 0) 0x10000]
      in p = Some (s @ BF_test_hashes ! (flags mod 2)) \<and>
         ai ! 0 = 0xdb9c59bc \<and> ye ! 17 = 0x33343500 \<and> ae = ye \<and> ai = yi)"

definition crypt_blowfish :: "bytes \<Rightarrow> bytes \<Rightarrow> bytes" where
  "crypt_blowfish key setting =
     (case BF_crypt key setting 16 of
        None \<Rightarrow> [42]
      | Some out \<Rightarrow> if BF_self_test (chr_at setting 2) (flags_by_subtype ! (unat (chr_at setting 2) - 97)) then out else [42])"

section \<open>Blowfish and bcrypt as published\<close>

text \<open>The cipher: sixteen rounds that exchange the halves, undone after the last one.\<close>

definition blowfish_F :: "u32 list \<Rightarrow> u32 \<Rightarrow> u32" where
  "blowfish_F ps x = xor (S_at ps 0 (drop_bit 24 x) + S_at ps 1 (and (drop_bit 16 x) 0xFF)) (S_at ps 2 (and (drop_bit 8 x) 0xFF)) + S_at ps 3 (and x 0xFF)"

definition blowfish_step :: "u32 list \<Rightarrow> u32 \<times> u32 \<Rightarrow> nat \<Rightarrow> u32 \<times> u32" where
  "blowfish_step ps = (\<lambda>(L, R) i. let L = xor L (ps ! i); R = xor R (blowfish_F ps L) in (R, L))"

definition blowfish :: "u32 list \<Rightarrow> u32 \<times> u32 \<Rightarrow> u32 \<times> u32" where
  "blowfish ps LR = (let (R, L) = foldl (blowfish_step ps) LR [0..<16] in (xor L (ps ! 17), xor R (ps ! 16)))"

text \<open>The schedule: \<open>expand_key\<close> mixes a key into \<open>P\<close> and replaces all words by a chain of encryptions, with a salt.\<close>

definition chain_step :: "(nat \<Rightarrow> u32) \<Rightarrow> u32 list \<times> (u32 \<times> u32) \<Rightarrow> nat \<Rightarrow> u32 list \<times> (u32 \<times> u32)" where
  "chain_step salt = (\<lambda>(ps, (L, R)) k.
     let LR = blowfish ps (xor L (salt (2 * k)), xor R (salt (2 * k + 1))) in (ps[2 * k := fst LR, 2 * k + 1 := snd LR], LR))"

definition expand_key :: "(nat \<Rightarrow> u32) \<Rightarrow> (nat \<Rightarrow> u32) \<Rightarrow> u32 list \<Rightarrow> u32 list" where
  "expand_key salt key ps = fst (foldl (chain_step salt) (xor_P ps key, (0, 0)) [0..<521])"

text \<open>\<open>EksBlowfishSetup\<close>; the words of the key for the first expansion are an argument of their own, for the deviation below.\<close>

definition eks_setup :: "nat \<Rightarrow> (nat \<Rightarrow> u32) \<Rightarrow> (nat \<Rightarrow> u32) \<Rightarrow> (nat \<Rightarrow> u32) \<Rightarrow> u32 list" where
  "eks_setup count salt first key =
     ((\<lambda>ps. expand_key (\<lambda>_. 0) salt (expand_key (\<lambda>_. 0) key ps)) ^^ count)
       (expand_key salt first (BF_init_P @ BF_init_S0 @ BF_init_S1 @ BF_init_S2 @ BF_init_S3))"

text \<open>The text \<open>OrpheanBeholderScryDoubt\<close>, encrypted 64 times.\<close>

definition encrypt_magic :: "u32 list \<Rightarrow> u32 list" where
  "encrypt_magic ps =
     concat (map (\<lambda>i. let LR = (blowfish ps ^^ 64) (BF_magic_w ! i, BF_magic_w ! (i + 1)) in [fst LR, snd LR]) [0, 2, 4])"

definition bcrypt :: "nat \<Rightarrow> (nat \<Rightarrow> u32) \<Rightarrow> (nat \<Rightarrow> u32) \<Rightarrow> u32 list" where
  "bcrypt count salt key = encrypt_magic (eks_setup count salt key key)"

text \<open>Big-endian words, and the words of the key, which is repeated with its terminator.\<close>

definition be_word :: "(nat \<Rightarrow> u8) \<Rightarrow> nat \<Rightarrow> u32" where
  "be_word b i = or (push_bit 8 (or (push_bit 8 (or (push_bit 8 (ucast (b (4 * i)))) (ucast (b (4 * i + 1))))) (ucast (b (4 * i + 2))))) (ucast (b (4 * i + 3)))"

definition key_byte :: "bytes \<Rightarrow> nat \<Rightarrow> u8" where
  "key_byte key n = (key @ [0]) ! (n mod (length key + 1))"

text \<open>
  The words of the buggy algorithm, which extends the sign of every byte over the bytes before it in the word; and the keys for which
  the safety measure of \<open>$2a$\<close> is meant: both algorithms read the same words although the sign of a byte behind the first of its word was extended.
\<close>

definition signed_word :: "(nat \<Rightarrow> u8) \<Rightarrow> nat \<Rightarrow> u32" where
  "signed_word b i = or (push_bit 8 (or (push_bit 8 (or (push_bit 8 (scast (b (4 * i)))) (scast (b (4 * i + 1))))) (scast (b (4 * i + 2))))) (scast (b (4 * i + 3)))"

definition sign_extended :: "(nat \<Rightarrow> u8) \<Rightarrow> nat \<Rightarrow> bool" where
  "sign_extended b i \<longleftrightarrow> bit (b (4 * i + 1)) 7 \<or> bit (b (4 * i + 2)) 7 \<or> bit (b (4 * i + 3)) 7"

definition colliding :: "(nat \<Rightarrow> u8) \<Rightarrow> bool" where
  "colliding b \<longleftrightarrow> (\<forall>i < 18. signed_word b i = be_word b i) \<and> (\<exists>i < 18. sign_extended b i)"

text \<open>
  The hash of a subtype: 1 are the flags of \<open>$2x$\<close>, 2 those of \<open>$2a$\<close>, 4 those of \<open>$2b$\<close> and \<open>$2y$\<close>.
\<close>

definition subtype_bcrypt :: "nat \<Rightarrow> nat \<Rightarrow> (nat \<Rightarrow> u32) \<Rightarrow> (nat \<Rightarrow> u8) \<Rightarrow> u32 list" where
  "subtype_bcrypt flags count salt b =
     (if flags = 1 then bcrypt count salt (signed_word b)
      else if flags = 2 \<and> colliding b
      then encrypt_magic (eks_setup count salt ((be_word b)(0 := xor (be_word b 0) 0x10000)) (be_word b))
      else bcrypt count salt (be_word b))"

section \<open>The cipher\<close>

lemma BF_round_F: "BF_round ps L R N = xor (xor R (ps ! (N + 1))) (blowfish_F ps L)"
  by (simp add: BF_round_def blowfish_F_def Let_def add.commute)

lemma two_steps:
  assumes "foldl (blowfish_step ps) (L, R) [i, i + 1] = (L', R')"
  shows "BF_rounds ps (i # is) (xor L (ps ! i), R) = BF_rounds ps is (xor L' (ps ! (i + 2)), R')"
proof -
  define x where "x = xor L (ps ! i)"
  define y where "y = xor (xor R (ps ! (i + 1))) (blowfish_F ps x)"
  have s: "L' = xor x (blowfish_F ps y)" "R' = y"
    using assms by (auto simp: blowfish_step_def Let_def x_def y_def ac_simps)
  have "BF_rounds ps (i # is) (x, R) = BF_rounds ps is (xor (xor x (ps ! (i + 1 + 1))) (blowfish_F ps y), y)"
    by (simp add: BF_round_F y_def Let_def)
  also have "xor (xor x (ps ! (i + 1 + 1))) (blowfish_F ps y) = xor L' (ps ! (i + 2))"
    by (simp add: s ac_simps)
  finally show ?thesis by (simp add: s x_def)
qed

lemma BF_block_blowfish: "BF_block ps LR = blowfish ps LR"
proof -
  obtain L R where LR: "LR = (L, R)" by (cases LR)
  have steps: "BF_rounds ps (map (\<lambda>k. 2 * k) [a..<a + n]) (xor L (ps ! (2 * a)), R) =
    (let (L', R') = foldl (blowfish_step ps) (L, R) [2 * a..<2 * (a + n)] in (xor L' (ps ! (2 * (a + n))), R'))" for a n L R
  proof (induction n arbitrary: a L R)
    case (Suc n)
    obtain L' R' where 1: "foldl (blowfish_step ps) (L, R) [2 * a, 2 * a + 1] = (L', R')" by (metis surj_pair)
    have "[a..<a + Suc n] = a # [Suc a..<Suc a + n]" by (simp add: upt_rec)
    moreover have "[2 * a..<2 * (a + Suc n)] = 2 * a # (2 * a + 1) # [2 * Suc a..<2 * (Suc a + n)]"
      by (simp add: upt_conv_Cons)
    ultimately show ?case
      using two_steps [OF 1, of "map (\<lambda>k. 2 * k) [Suc a..<Suc a + n]"] Suc.IH [of "Suc a" L' R'] 1
      by (simp del: upt_Suc BF_rounds.simps)
  qed simp
  have "[0, 2, 4, 6, 8, 10, 12, 14] = map (\<lambda>k. 2 * k) [0..<0 + 8]" by (simp add: upt_rec)
  then show ?thesis
    using steps [of 0 8 L R] by (simp add: LR BF_block_def blowfish_def Let_def split: prod.splits)
qed

text \<open>The two loops that replace the words of the context are one chain.\<close>

lemma BF_encrypt_chain:
  assumes "ptr = 2 * k" "k < 521"
  shows "BF_encrypt ps LR ptr 1042 = foldl (chain_step (\<lambda>_. 0)) (ps, LR) [k..<521]"
  using assms
proof (induction "521 - k" arbitrary: k ptr ps LR)
  case (Suc d)
  define LR' where "LR' = blowfish ps LR"
  define ps' where "ps' = ps[ptr := fst LR', ptr + 1 := snd LR']"
  have "chain_step (\<lambda>_. 0) (ps, LR) k = (ps', LR')"
    using Suc.prems(1) by (cases LR) (simp add: chain_step_def ps'_def LR'_def Let_def)
  then have "foldl (chain_step (\<lambda>_. 0)) (ps, LR) [k..<521] = foldl (chain_step (\<lambda>_. 0)) (ps', LR') [Suc k..<521]"
    using Suc.prems(2) by (simp add: upt_conv_Cons)
  moreover have "BF_encrypt ps LR ptr 1042 = (if Suc k < 521 then BF_encrypt ps' LR' (ptr + 2) 1042 else (ps', LR'))"
    using Suc.prems by (subst BF_encrypt.simps) (auto simp: Let_def BF_block_blowfish ps'_def LR'_def)
  moreover have "Suc k < 521 \<Longrightarrow> BF_encrypt ps' LR' (ptr + 2) 1042 = foldl (chain_step (\<lambda>_. 0)) (ps', LR') [Suc k..<521]"
    using Suc.prems Suc.hyps by (intro Suc.hyps(1)) simp_all
  ultimately show ?case using Suc.prems by (cases "Suc k < 521") simp_all
qed simp

lemma BF_encrypt_once: "BF_encrypt ps LR ptr ptr = (ps[ptr := fst (blowfish ps LR), ptr + 1 := snd (blowfish ps LR)], blowfish ps LR)"
  by (subst BF_encrypt.simps) (simp add: Let_def BF_block_blowfish)

lemma salt_loop_chain:
  assumes "ptr = 4 * k" "k \<le> 260"
  shows "salt_loop ps salt LR ptr = fst (foldl (chain_step (\<lambda>i. salt ! (i mod 4))) (ps, LR) [2 * k..<521])"
  using assms
proof (induction "260 - k" arbitrary: k ptr ps LR)
  case (0 k)
  then have k: "k = 260" by simp
  then show ?case
    using 0 by (subst salt_loop.simps) (cases LR, simp add: BF_encrypt_once chain_step_def Let_def upt_rec)
next
  case (Suc d)
  let ?S = "chain_step (\<lambda>i. salt ! (i mod 4))"
  have k: "k < 260" using Suc.hyps(2) by simp
  obtain ps1 LR1 where 1: "?S (ps, LR) (2 * k) = (ps1, LR1)" by (metis surj_pair)
  obtain ps2 LR2 where 2: "?S (ps1, LR1) (2 * k + 1) = (ps2, LR2)" by (metis surj_pair)
  have m: "2 * (2 * k) mod 4 = 0" "(2 * (2 * k) + 1) mod 4 = 1" "2 * (2 * k + 1) mod 4 = 2" "(2 * (2 * k + 1) + 1) mod 4 = 3"
    by presburger+
  have "BF_encrypt ps (xor (fst LR) (salt ! 0), xor (snd LR) (salt ! 1)) ptr ptr = (ps1, LR1)"
    using 1 m Suc.prems(1) by (cases LR) (auto simp: BF_encrypt_once chain_step_def Let_def)
  moreover have "BF_encrypt ps1 (xor (fst LR1) (salt ! 2), xor (snd LR1) (salt ! 3)) (ptr + 2) (ptr + 2) = (ps2, LR2)"
    using 2 m Suc.prems(1) by (cases LR1) (auto simp: BF_encrypt_once chain_step_def Let_def)
  ultimately have "salt_loop ps salt LR ptr = salt_loop ps2 salt LR2 (ptr + 4)"
    using Suc.prems(1) k by (subst salt_loop.simps) simp
  also have "\<dots> = fst (foldl ?S (ps2, LR2) [2 * Suc k..<521])"
    using Suc.prems k Suc.hyps by (intro Suc.hyps(1)) simp_all
  also have "foldl ?S (ps2, LR2) [2 * Suc k..<521] = foldl ?S (ps, LR) [2 * k..<521]"
    using 1 2 k by (simp add: upt_conv_Cons)
  finally show ?case .
qed

section \<open>The key\<close>

text \<open>The pointer of \<open>BF_set_key\<close> runs around the key and its terminator.\<close>

definition key_pos :: "bytes \<Rightarrow> nat \<Rightarrow> nat" where
  "key_pos key n = n mod (length key + 1)"

lemma key_char:
  assumes "0 \<notin> set key"
  shows "chr_at key (key_pos key n) = key_byte key n"
    and "(if chr_at key (key_pos key n) = 0 then 0 else key_pos key n + 1) = key_pos key (Suc n)"
proof -
  have p: "key_pos key n < length key + 1" by (simp add: key_pos_def)
  show 1: "chr_at key (key_pos key n) = key_byte key n"
    using p by (auto simp: chr_at_def key_byte_def key_pos_def nth_append)
  have "key ! key_pos key n \<noteq> 0" if "key_pos key n < length key" using assms that by (metis nth_mem)
  then have "chr_at key (key_pos key n) = 0 \<longleftrightarrow> key_pos key n = length key"
    using p by (auto simp: chr_at_def less_Suc_eq)
  then show "(if chr_at key (key_pos key n) = 0 then 0 else key_pos key n + 1) = key_pos key (Suc n)"
    using p by (simp add: key_pos_def mod_Suc)
qed

text \<open>The bit of a byte that \<open>sign\<close> collects.\<close>

lemma bit_80: "bit (0x80 :: u32) n \<longleftrightarrow> n = 7"
  using bit_exp_iff [of 7 n, where ?'a = "32 word"] by auto

lemma sign_bit: "and (or (push_bit 8 x) (scast c)) 0x80 = (if bit c 7 then 0x80 else 0 :: u32)" for c :: u8
  by (rule bit_word_eqI) (auto simp: bit_simps bit_80 simp del: bit_numeral_word_iff)

lemma xor_0_iff: "xor a b = 0 \<longleftrightarrow> a = (b :: u32)"
proof
  assume "xor a b = 0"
  then have "xor (xor a b) b = b" by simp
  then show "a = b" by (simp add: xor.assoc)
qed simp

lemma set_key_four:
  assumes "0 \<notin> set key"
  shows "foldl (set_key_char key) (key_pos key (4 * i), 0, 0, sign) [0..<4] =
    (key_pos key (4 * Suc i), be_word (key_byte key) i, signed_word (key_byte key) i,
     if sign_extended (key_byte key) i then or sign 0x80 else sign)"
proof -
  have step: "set_key_char key (key_pos key n, t0, t1, sg) j =
    (key_pos key (Suc n), or (push_bit 8 t0) (ucast (key_byte key n)), or (push_bit 8 t1) (scast (key_byte key n)),
     if j \<noteq> 0 \<and> bit (key_byte key n) 7 then or sg 0x80 else sg)" for n t0 t1 sg j
    using key_char [OF assms, of n] sign_bit [of t1 "key_byte key n"] by (simp add: set_key_char_def Let_def)
  have "[0..<4] = [0, 1, 2, 3 :: nat]" by (simp add: upt_rec)
  then show ?thesis
    by (simp add: step be_word_def signed_word_def sign_extended_def or.assoc add.commute eval_nat_numeral)
qed

lemma set_key_words:
  assumes "0 \<notin> set key"
  defines "w \<equiv> \<lambda>bug. if bug then signed_word (key_byte key) else be_word (key_byte key)"
  shows "\<exists>df. foldl (set_key_word key bug) (0, 0, 0, [], []) [0..<n] =
    (key_pos key (4 * n), if \<exists>i < n. sign_extended (key_byte key) i then 0x80 else 0, df, map (w bug) [0..<n], map (\<lambda>i. xor (BF_init_P ! i) (w bug i)) [0..<n]) \<and>
    (df = 0 \<longleftrightarrow> (\<forall>i < n. signed_word (key_byte key) i = be_word (key_byte key) i))"
proof (induction n)
  case 0
  show ?case by (simp add: key_pos_def)
next
  case (Suc n)
  then obtain df where f: "foldl (set_key_word key bug) (0, 0, 0, [], []) [0..<n] =
      (key_pos key (4 * n), if \<exists>i < n. sign_extended (key_byte key) i then 0x80 else 0, df, map (w bug) [0..<n], map (\<lambda>i. xor (BF_init_P ! i) (w bug i)) [0..<n])"
    and df: "df = 0 \<longleftrightarrow> (\<forall>i < n. signed_word (key_byte key) i = be_word (key_byte key) i)" by blast
  let ?d = "or df (xor (be_word (key_byte key) n) (signed_word (key_byte key) n))"
  have "?d = 0 \<longleftrightarrow> (\<forall>i < Suc n. signed_word (key_byte key) i = be_word (key_byte key) i)"
    using df by (auto simp: or_eq_0_iff less_Suc_eq xor_0_iff)
  moreover have "foldl (set_key_word key bug) (0, 0, 0, [], []) [0..<Suc n] =
    (key_pos key (4 * Suc n), if \<exists>i < Suc n. sign_extended (key_byte key) i then 0x80 else 0, ?d, map (w bug) [0..<Suc n], map (\<lambda>i. xor (BF_init_P ! i) (w bug i)) [0..<Suc n])"
    using f set_key_four [OF assms(1), of n] by (auto simp: set_key_word_def Let_def w_def less_Suc_eq)
  ultimately show ?case by blast
qed

text \<open>The arithmetic on \<open>diff\<close> and \<open>sign\<close> at the end.\<close>

lemma diff_carry:
  fixes df :: u32
  shows "bit (and (or df (drop_bit 16 df)) 0xffff + 0xffff) 16 \<longleftrightarrow> df \<noteq> 0"
proof -
  let ?d = "and (or df (drop_bit 16 df)) 0xffff"
  have m: "?d = take_bit 16 (or df (drop_bit 16 df))" by (simp add: take_bit_eq_mask mask_eq_exp_minus_1)
  have less: "unat ?d < 65536" unfolding m unsigned_take_bit_eq using take_bit_nat_less_exp [of 16] by simp
  have zero: "?d = 0 \<longleftrightarrow> df = 0"
  proof
    assume d: "?d = 0"
    show "df = 0"
    proof (rule bit_word_eqI)
      fix n assume n: "n < LENGTH(32)"
      have "\<not> bit ?d k" for k unfolding d by simp
      then have "k < 16 \<Longrightarrow> \<not> bit df k \<and> \<not> bit df (k + 16)" for k unfolding m by (auto simp: bit_simps add.commute)
      from this [of n] this [of "n - 16"] show "bit df n = bit 0 n" using n by (cases "n < 16") auto
    qed
  qed simp
  have "?d + 0xffff = of_nat (unat ?d + 65535)" by simp
  then have u: "unat (?d + 0xffff) = unat ?d + 65535" using less by (simp only: unat_of_nat) simp
  have "bit (?d + 0xffff) 16 \<longleftrightarrow> odd (unat (?d + 0xffff) div 2 ^ 16)"
    using bit_iff_odd [of "unat (?d + 0xffff)" 16] by (simp add: bit_unsigned_iff)
  also have "\<dots> \<longleftrightarrow> unat ?d \<noteq> 0"
  proof (cases "unat ?d = 0")
    case False
    then have "(unat ?d + 65535) div 65536 = 1" using less by (intro div_nat_eqI) simp_all
    then show ?thesis unfolding u using False by simp
  qed (simp add: u)
  finally show ?thesis using zero by (simp add: unat_eq_zero)
qed

lemma safety_mask:
  fixes df :: u32
  shows "and (push_bit 9 (if P then 0x80 else 0)) (and (not (and (or df (drop_bit 16 df)) 0xffff + 0xffff)) 0x10000) =
    (if P \<and> df = 0 then 0x10000 else 0)"
proof -
  have b: "bit (0x10000 :: u32) n \<longleftrightarrow> n = 16" for n using bit_exp_iff [of 16 n, where ?'a = "32 word"] by auto
  have "push_bit 9 (if P then 0x80 else 0) = (if P then 0x10000 else 0 :: u32)" by simp
  then show ?thesis using diff_carry [of df]
    by (intro bit_word_eqI) (auto simp: bit_and_iff bit_not_iff b simp del: bit_numeral_word_iff)
qed
lemma BF_set_key_words:
  assumes "0 \<notin> set key" "flags \<in> {1, 2, 4}"
  defines "b \<equiv> key_byte key"
  defines "w \<equiv> if flags = 1 then signed_word b else be_word b"
  shows "BF_set_key key flags = (map w [0..<18], map (\<lambda>i. xor (BF_init_P ! i)
    ((if flags = 2 \<and> colliding b then w(0 := xor (w 0) 0x10000) else w) i)) [0..<18])"
proof -
  let ?P = "\<exists>i < 18. sign_extended b i" and ?ini = "map (\<lambda>i. xor (BF_init_P ! i) (w i)) [0..<18]"
  have w: "(if odd flags then signed_word b else be_word b) = w" using assms(2) by (auto simp: w_def)
  obtain df where f: "foldl (set_key_word key (odd flags)) (0, 0, 0, [], []) [0..<18] =
      (key_pos key (4 * 18), if ?P then 0x80 else 0, df, map w [0..<18], ?ini)"
    and df: "df = 0 \<longleftrightarrow> (\<forall>i < 18. signed_word b i = be_word b i)"
    using set_key_words [OF assms(1), of "odd flags" 18] unfolding w b_def [symmetric] by blast
  have safety: "push_bit 15 (and (of_nat flags) 2) = (if flags = 2 then 0x10000 else 0 :: u32)" using assms(2) by auto
  have c: "?P \<and> df = 0 \<longleftrightarrow> colliding b" using df by (auto simp: colliding_def)
  have mask: "and (push_bit 9 (if ?P then 0x80 else 0)) (and (not (and (or df (drop_bit 16 df)) 0xffff + 0xffff)) (push_bit 15 (and (of_nat flags) 2))) =
    (if flags = 2 \<and> colliding b then 0x10000 else 0)"
    unfolding safety using safety_mask [of ?P df] unfolding c by simp
  have "BF_set_key key flags = (map w [0..<18], ?ini[0 := xor (?ini ! 0) (if flags = 2 \<and> colliding b then 0x10000 else 0)])"
    unfolding BF_set_key_def Let_def f prod.case mask ..
  moreover have "?ini[0 := xor (?ini ! 0) (if flags = 2 \<and> colliding b then 0x10000 else 0)] =
    map (\<lambda>i. xor (BF_init_P ! i) ((if flags = 2 \<and> colliding b then w(0 := xor (w 0) 0x10000) else w) i)) [0..<18]"
    by (rule nth_equalityI) (auto simp: nth_list_update xor.assoc)
  ultimately show ?thesis by simp
qed

section \<open>The published hash\<close>

lemma BF_swap_bit:
  assumes "k < 32"
  shows "bit (BF_swap x) k \<longleftrightarrow> bit x (if k < 8 then k + 24 else if k < 16 then k + 8 else if k < 24 then k - 8 else k - 24)"
proof -
  define t where "t = or (push_bit 16 x) (drop_bit 16 x)"
  have x: "bit x n \<Longrightarrow> n < 32" for n using bit_imp_le_length [of x n] by simp
  have t: "bit t n \<longleftrightarrow> n < 32 \<and> bit x (if n < 16 then n + 16 else n - 16)" for n
    unfolding t_def bit_or_iff bit_push_bit_iff bit_drop_bit_eq using x [of n] x [of "n + 16"] by (auto simp: add.commute)
  have m: "bit (0x00FF00FF :: u32) n \<longleftrightarrow> n < 8 \<or> 16 \<le> n \<and> n < 24" for n
  proof -
    have "0x00FF00FF = or (mask 8) (push_bit 16 (mask 8) :: u32)" by (simp add: mask_eq_exp_minus_1 push_bit_eq_mult)
    then show ?thesis by (simp only: bit_or_iff bit_push_bit_iff bit_mask_iff) auto
  qed
  show ?thesis
    unfolding BF_swap_def Let_def t_def [symmetric] bit_or_iff bit_push_bit_iff bit_and_iff bit_drop_bit_eq m t
    using assms by (auto simp: add.commute)
qed

lemma BF_swap_bytes:
  fixes a b c d :: u8
  shows "BF_swap (or (or (or (ucast a) (push_bit 8 (ucast b))) (push_bit 16 (ucast c))) (push_bit 24 (ucast d))) =
   or (or (or (ucast d) (push_bit 8 (ucast c))) (push_bit 16 (ucast b))) (push_bit 24 (ucast a))"
proof (rule bit_word_eqI)
  fix k assume "k < LENGTH(32)"
  then have k: "k < 32" by simp
  show "bit (BF_swap (or (or (or (ucast a) (push_bit 8 (ucast b))) (push_bit 16 (ucast c))) (push_bit 24 (ucast d)))) k =
    bit (or (or (or (ucast d) (push_bit 8 (ucast c))) (push_bit 16 (ucast b))) (push_bit 24 (ucast a)) :: u32) k"
    unfolding BF_swap_bit [OF k] bit_bytes4 using k by auto
qed

lemma BF_swap_le_word: "BF_swap (le_word b (4 * i)) = be_word (\<lambda>n. b ! n) i"
proof -
  have "push_bit 8 (or x y) = or (push_bit 8 x) (push_bit 8 y)" for x y :: u32 by simp
  then show ?thesis unfolding le_word_def BF_swap_bytes be_word_def by (simp add: ac_simps)
qed

lemma word_bytes: "w = or (or (or (ucast (ucast w :: u8)) (push_bit 8 (ucast (ucast (drop_bit 8 w) :: u8))))
    (push_bit 16 (ucast (ucast (drop_bit 16 w) :: u8)))) (push_bit 24 (ucast (ucast (drop_bit 24 w) :: u8)))" for w :: u32
  by (rule bit_word_eqI) (auto simp: bit_bytes4 bit_ucast_iff bit_drop_bit_eq split: if_splits)

lemma le32_bytes_of: "le32_bytes (or (or (or (ucast a) (push_bit 8 (ucast b))) (push_bit 16 (ucast c))) (push_bit 24 (ucast d))) = [a, b, c, d]"
proof -
  have "ucast (or (or (or (ucast a) (push_bit 8 (ucast b))) (push_bit 16 (ucast c))) (push_bit 24 (ucast d)) :: u32) = a"
    "ucast (drop_bit 8 (or (or (or (ucast a) (push_bit 8 (ucast b))) (push_bit 16 (ucast c))) (push_bit 24 (ucast d)) :: u32)) = b"
    "ucast (drop_bit 16 (or (or (or (ucast a) (push_bit 8 (ucast b))) (push_bit 16 (ucast c))) (push_bit 24 (ucast d)) :: u32)) = c"
    "ucast (drop_bit 24 (or (or (or (ucast a) (push_bit 8 (ucast b))) (push_bit 16 (ucast c))) (push_bit 24 (ucast d)) :: u32)) = d"
    by (rule bit_word_eqI; simp only: bit_ucast_iff bit_drop_bit_eq o_apply bit_bytes4; simp)+
  then show ?thesis by (simp only: le32_bytes_def)
qed

lemma le_bytes_swap: "le32_bytes (BF_swap w) = be32_bytes w"
  by (subst word_bytes [of w]) (simp only: BF_swap_bytes le32_bytes_of be32_bytes_def)

lemma xor_P_cong: "(\<And>i. i < 18 \<Longrightarrow> k i = k' i) \<Longrightarrow> xor_P ps k = xor_P ps k'"
  by (simp add: xor_P_def)

lemma expand_key_cong: "(\<And>i. i < 18 \<Longrightarrow> k i = k' i) \<Longrightarrow> expand_key salt k ps = expand_key salt k' ps"
  by (simp add: expand_key_def xor_P_cong [of k k'])

lemma key_loop_expand:
  "key_loop expanded salt ps = expand_key (\<lambda>_. 0) (\<lambda>i. salt ! (i mod 4)) (expand_key (\<lambda>_. 0) ((!) expanded) ps)"
  by (simp add: key_loop_def expand_key_def BF_encrypt_chain [of 0 0])

lemma BF_output_blowfish:
  "BF_output ps = concat (map (\<lambda>i. let LR = (blowfish ps ^^ 64) (BF_magic_w ! i, BF_magic_w ! (i + 1)) in [fst LR, snd LR]) [0, 2, 4])"
  unfolding BF_output_def by (simp only: BF_block_blowfish [abs_def])

lemma length_BF_init_P: "length BF_init_P = 18"
  by (simp add: BF_init_P_def)

definition salt_word :: "bytes \<Rightarrow> nat \<Rightarrow> u32" where
  "salt_word salt i = be_word (\<lambda>n. salt ! n) (i mod 4)"

text \<open>The letter of the setting, \<open>a\<close>, \<open>b\<close>, \<open>x\<close> or \<open>y\<close>, and its flags.\<close>

lemma subtype_letters: "list_all (\<lambda>i. flags_by_subtype ! i = 0 \<or>
    (i, flags_by_subtype ! i) \<in> {(0, 2), (1, 4), (23, 1), (24, 4)}) [0..<26]"
  by code_simp

lemma BF_setting_letter:
  assumes "BF_setting s = Some (flags, count)"
  shows "(chr_at s 2, flags) \<in> {(97, 2), (98, 4), (120, 1), (121, 4)}"
proof -
  define i where "i = unat (chr_at s 2) - 97"
  have f: "97 \<le> unat (chr_at s 2) \<and> i \<le> 25 \<and> flags_by_subtype ! i \<noteq> 0 \<and> flags = flags_by_subtype ! i"
    using assms unfolding BF_setting_def i_def [symmetric]
    by (simp only: simp_thms option.inject option.distinct prod.inject de_Morgan_disj not_less not_not split: if_splits)
  then have "i \<in> set [0..<26]" by simp
  then have "(i, flags) \<in> {(0, 2), (1, 4), (23, 1), (24, 4)}"
    using subtype_letters f unfolding list_all_iff by (metis (no_types, lifting))
  moreover have "chr_at s 2 = of_nat (97 + i)" using f by (simp add: i_def)
  ultimately show ?thesis by auto
qed

lemma BF_setting_flags: "BF_setting s = Some (flags, count) \<Longrightarrow> flags \<in> {1, 2, 4}"
  using BF_setting_letter by fastforce

text \<open>The schedule and the ciphertext, from the words of the key.\<close>

lemma BF_output_eks:
  assumes "ini = map (\<lambda>i. xor (BF_init_P ! i) (first i)) [0..<18]" "ex = map k [0..<18]" "\<And>i. ws ! (i mod 4) = salt i"
  shows "BF_output ((key_loop ex ws ^^ count) (salt_loop (ini @ BF_init_S0 @ BF_init_S1 @ BF_init_S2 @ BF_init_S3) ws (0, 0) 0)) =
    encrypt_magic (eks_setup count salt first k)"
proof -
  let ?S = "BF_init_S0 @ BF_init_S1 @ BF_init_S2 @ BF_init_S3"
  have "ini @ ?S = xor_P (BF_init_P @ ?S) first" by (simp add: xor_P_def assms(1) length_BF_init_P nth_append)
  then have s: "salt_loop (ini @ ?S) ws (0, 0) 0 = expand_key salt first (BF_init_P @ ?S)"
    by (simp add: salt_loop_chain [of 0 0] expand_key_def assms(3))
  have "key_loop ex ws ps = expand_key (\<lambda>_. 0) salt (expand_key (\<lambda>_. 0) k ps)" for ps
    unfolding key_loop_expand assms(3) by (rule arg_cong [where f = "expand_key _ _"], rule expand_key_cong) (simp add: assms(2))
  then have k: "key_loop ex ws = (\<lambda>ps. expand_key (\<lambda>_. 0) salt (expand_key (\<lambda>_. 0) k ps))" by (rule ext)
  show ?thesis by (simp only: BF_output_blowfish encrypt_magic_def Let_def eks_setup_def s k)
qed

lemma BF_crypt_bcrypt:
  assumes "0 \<notin> set key" "BF_setting s = Some (flags, count)" "minc \<le> count" "BF_decode (drop 7 s) 16 = Some salt"
  shows "BF_crypt key s minc = Some (take 28 s @ [itoa64 (and (of_nat (BF_atoi64 ! (unat (chr_at s 28) - 0x20))) 0x30)] @
    BF_encode (concat (map be32_bytes (subtype_bcrypt flags count (salt_word salt) (key_byte key)))) 23)"
proof -
  define b where "b = key_byte key"
  define w where "w = (if flags = 1 then signed_word b else be_word b)"
  define first where "first = (if flags = 2 \<and> colliding b then w(0 := xor (w 0) 0x10000) else w)"
  define ws where "ws = map (\<lambda>i. BF_swap (le_word salt (4 * i))) [0..<4]"
  define ex where "ex = map w [0..<18]"
  define ini where "ini = map (\<lambda>i. xor (BF_init_P ! i) (first i)) [0..<18]"
  have ws: "ws ! (i mod 4) = salt_word salt i" for i by (simp add: ws_def salt_word_def BF_swap_le_word)
  have flags: "flags \<in> {1, 2, 4}" using BF_setting_flags [OF assms(2)] .
  have key: "BF_set_key key flags = (ex, ini)"
    using BF_set_key_words [OF assms(1) flags] unfolding b_def [symmetric] w_def [symmetric] first_def [symmetric] ex_def [symmetric] ini_def [symmetric] .
  have "encrypt_magic (eks_setup count (salt_word salt) first w) = subtype_bcrypt flags count (salt_word salt) b"
    using flags by (auto simp: subtype_bcrypt_def bcrypt_def first_def w_def)
  then have "BF_output ((key_loop ex ws ^^ count) (salt_loop (ini @ BF_init_S0 @ BF_init_S1 @ BF_init_S2 @ BF_init_S3) ws (0, 0) 0)) =
    subtype_bcrypt flags count (salt_word salt) b"
    using BF_output_eks [OF ini_def ex_def ws, of count] by simp
  moreover have "map le32_bytes (map BF_swap xs) = map be32_bytes xs" for xs by (simp add: le_bytes_swap)
  ultimately show ?thesis
    unfolding BF_crypt_def using assms(2-4) key
    by (simp only: ws_def [symmetric] b_def [symmetric] Let_def bind.bind_lunit prod.case if_False not_less [symmetric] simp_thms)
qed

section \<open>A stored hash is a fixed point\<close>

lemma atoi_itoa_all: "list_all (\<lambda>x. BF_safe_atoi64 (itoa64 (of_nat x)) = Some (of_nat x)) [0..<64]"
  by code_simp

lemma word_below_64: "(\<And>k. bit x k \<Longrightarrow> k < 6) \<Longrightarrow> unat (x :: u8) < 64"
proof -
  assume "\<And>k. bit x k \<Longrightarrow> k < 6"
  then have "take_bit 6 x = x" by (intro bit_word_eqI) (auto simp: bit_take_bit_iff)
  then have "unat x = take_bit 6 (unat x)" by (metis unsigned_take_bit_eq)
  then show "unat x < 64" using take_bit_nat_less_exp [of 6 "unat x"] by simp
qed

lemma itoa64_in: "unat x < 64 \<Longrightarrow> itoa64 x \<in> set BF_itoa64"
proof -
  assume "unat x < 64"
  moreover have "length BF_itoa64 = 64" by (simp add: BF_itoa64_def)
  ultimately show ?thesis by (simp add: itoa64_def)
qed

lemma encode_indices:
  fixes c d :: u8
  shows "unat (drop_bit 2 c) < 64" "unat (push_bit 4 (and c 0x03)) < 64" "unat (or (push_bit 4 (and c 0x03)) (drop_bit 4 d)) < 64"
    "unat (push_bit 2 (and c 0x0f)) < 64" "unat (or (push_bit 2 (and c 0x0f)) (drop_bit 6 d)) < 64" "unat (and c 0x3f) < 64" "unat (and c 0x30) < 64"
proof -
  have m: "0x03 = (mask 2 :: u8)" "0x0f = (mask 4 :: u8)" "0x3f = (mask 6 :: u8)" "0x30 = (push_bit 4 (mask 2) :: u8)"
    by (simp_all add: mask_eq_exp_minus_1)
  have l: "bit c k \<Longrightarrow> k < 8" "bit d k \<Longrightarrow> k < 8" for k using bit_imp_le_length [of c k] bit_imp_le_length [of d k] by simp_all
  show "unat (drop_bit 2 c) < 64" "unat (push_bit 4 (and c 0x03)) < 64" "unat (or (push_bit 4 (and c 0x03)) (drop_bit 4 d)) < 64"
    "unat (push_bit 2 (and c 0x0f)) < 64" "unat (or (push_bit 2 (and c 0x0f)) (drop_bit 6 d)) < 64" "unat (and c 0x3f) < 64" "unat (and c 0x30) < 64"
    unfolding m by (rule word_below_64; auto simp: bit_and_iff bit_or_iff bit_push_bit_iff bit_drop_bit_eq bit_mask_iff dest: l)+
qed

lemma atoi_itoa: "unat x < 64 \<Longrightarrow> BF_safe_atoi64 (itoa64 x) = Some x"
proof -
  assume "unat x < 64"
  then have "BF_safe_atoi64 (itoa64 (of_nat (unat x))) = Some (of_nat (unat x))"
    using atoi_itoa_all unfolding list_all_iff by (metis atLeastLessThan_iff le0 set_upt)
  then show ?thesis by simp
qed

lemma BF_safe_atoi64_table: "BF_safe_atoi64 c = Some v \<Longrightarrow> of_nat (BF_atoi64 ! (unat c - 0x20)) = v"
  by (auto simp: BF_safe_atoi64_def Let_def split: if_splits)

lemma chr_at_drop: "chr_at (drop n s) i = chr_at s (n + i)"
  by (auto simp: chr_at_def)

lemma BF_decode_step:
  "BF_decode a (3 * Suc g + 1) = do {
     c1 \<leftarrow> BF_safe_atoi64 (chr_at a 0); c2 \<leftarrow> BF_safe_atoi64 (chr_at a 1);
     c3 \<leftarrow> BF_safe_atoi64 (chr_at a 2); c4 \<leftarrow> BF_safe_atoi64 (chr_at a 3);
     rest \<leftarrow> BF_decode (drop 4 a) (3 * g + 1);
     Some (or (push_bit 2 c1) (drop_bit 4 (and c2 0x30)) # or (push_bit 4 (and c2 0x0F)) (drop_bit 2 (and c3 0x3C)) #
       or (push_bit 6 (and c3 0x03)) c4 # rest) }"
  by (subst BF_decode.simps) (simp add: Let_def)

lemma BF_decode_last: "BF_decode a (Suc 0) = do {
    c1 \<leftarrow> BF_safe_atoi64 (chr_at a 0); c2 \<leftarrow> BF_safe_atoi64 (chr_at a 1); Some [or (push_bit 2 c1) (drop_bit 4 (and c2 0x30))] }"
  by (subst BF_decode.simps) simp

lemma BF_decode_valid:
  "BF_decode a (3 * g + 1) = Some r \<Longrightarrow> i < 4 * g + 2 \<Longrightarrow> BF_safe_atoi64 (chr_at a i) \<noteq> None"
proof (induction g arbitrary: a r i)
  case 0
  then show ?case by (auto simp: BF_decode_last less_Suc_eq split: bind_splits)
next
  case (Suc g)
  obtain r' where r': "BF_decode (drop 4 a) (3 * g + 1) = Some r'"
    and c: "BF_safe_atoi64 (chr_at a 0) \<noteq> None" "BF_safe_atoi64 (chr_at a 1) \<noteq> None" "BF_safe_atoi64 (chr_at a 2) \<noteq> None" "BF_safe_atoi64 (chr_at a 3) \<noteq> None"
    using Suc.prems(1) unfolding BF_decode_step by (auto split: bind_splits)
  show ?case
  proof (cases "i < 4")
    case True
    then consider "i = 0" | "i = 1" | "i = 2" | "i = 3" by linarith
    then show ?thesis using c by cases simp_all
  next
    case False
    then have "i - 4 < 4 * g + 2" "4 + (i - 4) = i" using Suc.prems(2) by simp_all
    then show ?thesis using Suc.IH [OF r', of "i - 4"] by (simp add: chr_at_drop)
  qed
qed

lemma BF_decode_cong:
  assumes "\<And>i. i < 4 * g + 1 \<Longrightarrow> chr_at a i = chr_at b i"
    and "BF_safe_atoi64 (chr_at a (4 * g + 1)) = Some x" "BF_safe_atoi64 (chr_at b (4 * g + 1)) = Some y" "and x 0x30 = and y 0x30"
  shows "BF_decode a (3 * g + 1) = BF_decode b (3 * g + 1)"
  using assms
proof (induction g arbitrary: a b)
  case 0
  then have c: "chr_at a 0 = chr_at b 0" "BF_safe_atoi64 (chr_at a 1) = Some x" "BF_safe_atoi64 (chr_at b 1) = Some y" by simp_all
  have "BF_decode a (Suc 0) = BF_decode b (Suc 0)" unfolding BF_decode_last c bind.bind_lunit 0(4) ..
  then show ?case by simp
next
  case (Suc g)
  have "BF_decode (drop 4 a) (3 * g + 1) = BF_decode (drop 4 b) (3 * g + 1)"
    using Suc.prems by (intro Suc.IH) (simp_all add: chr_at_drop)
  moreover have "chr_at a 0 = chr_at b 0" "chr_at a 1 = chr_at b 1" "chr_at a 2 = chr_at b 2" "chr_at a 3 = chr_at b 3"
    using Suc.prems(1) by simp_all
  ultimately show ?case by (simp only: BF_decode_step)
qed

text \<open>What the digest part of a result depends on.\<close>

definition BF_digest :: "bytes \<Rightarrow> nat \<Rightarrow> nat \<Rightarrow> bytes \<Rightarrow> bytes" where
  "BF_digest key flags count salt =
     (let ws = map (\<lambda>i. BF_swap (le_word salt (4 * i))) [0..<4];
          (expanded, initial) = BF_set_key key flags
      in concat (map le32_bytes (map BF_swap (BF_output ((key_loop expanded ws ^^ count)
        (salt_loop (initial @ BF_init_S0 @ BF_init_S1 @ BF_init_S2 @ BF_init_S3) ws (0, 0) 0))))))"

lemma BF_crypt_digest:
  "BF_crypt key s minc = do {
     (flags, count) \<leftarrow> BF_setting s;
     salt \<leftarrow> (if count < minc then None else BF_decode (drop 7 s) 16);
     Some (take 28 s @ [itoa64 (and (of_nat (BF_atoi64 ! (unat (chr_at s 28) - 0x20))) 0x30)] @ BF_encode (BF_digest key flags count salt) 23) }"
  unfolding BF_crypt_def BF_digest_def Let_def by (simp only: case_prod_beta)

lemma BF_setting_cong: "(\<And>i. i < 7 \<Longrightarrow> chr_at a i = chr_at b i) \<Longrightarrow> BF_setting a = BF_setting b"
  by (simp add: BF_setting_def)

lemma BF_crypt_Some:
  assumes "BF_crypt key s minc = Some out"
  obtains flags count salt v where "BF_setting s = Some (flags, count)" "minc \<le> count" "BF_decode (drop 7 s) 16 = Some salt"
    "29 \<le> length s" "BF_safe_atoi64 (chr_at s 28) = Some v" "out = take 28 s @ [itoa64 (and v 0x30)] @ BF_encode (BF_digest key flags count salt) 23"
proof -
  obtain flags count salt where f: "BF_setting s = Some (flags, count)" "minc \<le> count" "BF_decode (drop 7 s) 16 = Some salt"
    and o: "out = take 28 s @ [itoa64 (and (of_nat (BF_atoi64 ! (unat (chr_at s 28) - 0x20))) 0x30)] @ BF_encode (BF_digest key flags count salt) 23"
    using assms unfolding BF_crypt_digest by (auto split: bind_splits prod.splits if_splits)
  have "BF_safe_atoi64 (chr_at (drop 7 s) 21) \<noteq> None"
    using BF_decode_valid [of "drop 7 s" 5 salt 21] f(3) by simp
  then obtain v where v: "BF_safe_atoi64 (chr_at s 28) = Some v" by (auto simp: chr_at_drop)
  moreover have "29 \<le> length s"
  proof (rule ccontr)
    assume "\<not> 29 \<le> length s"
    then have "chr_at s 28 = 0" by (simp add: chr_at_def)
    with v show False by (simp add: BF_safe_atoi64_def)
  qed
  ultimately show thesis using that [OF f] o by (simp add: BF_safe_atoi64_table)
qed

lemma BF_crypt_fixpoint:
  assumes "BF_crypt key s minc = Some out"
  shows "BF_crypt key out minc = Some out \<and> (\<forall>i < 7. chr_at out i = chr_at s i)"
proof -
  obtain flags count salt v where f: "BF_setting s = Some (flags, count)" "minc \<le> count" "BF_decode (drop 7 s) 16 = Some salt"
    and len: "29 \<le> length s" and v: "BF_safe_atoi64 (chr_at s 28) = Some v"
    and o: "out = take 28 s @ [itoa64 (and v 0x30)] @ BF_encode (BF_digest key flags count salt) 23"
    using BF_crypt_Some [OF assms] by metis
  have ch: "chr_at out i = chr_at s i" if "i < 28" for i using that len by (simp add: o chr_at_def nth_append)
  have last: "chr_at out 28 = itoa64 (and v 0x30)" using len by (simp add: o chr_at_def nth_append)
  have "unat (and v 0x30) < 64" by (rule encode_indices)
  then have v': "BF_safe_atoi64 (chr_at out 28) = Some (and v 0x30)" by (simp add: last atoi_itoa)
  have "BF_decode (drop 7 out) (3 * 5 + 1) = BF_decode (drop 7 s) (3 * 5 + 1)"
    using v v' ch by (intro BF_decode_cong [of 5 _ _ "and v 0x30" v]) (simp_all add: chr_at_drop)
  moreover have "BF_setting out = BF_setting s" using ch by (intro BF_setting_cong) simp
  moreover have "take 28 out = take 28 s" using len by (simp add: o)
  moreover have "of_nat (BF_atoi64 ! (unat (chr_at out 28) - 0x20)) = and v 0x30" by (rule BF_safe_atoi64_table [OF v'])
  ultimately have "BF_crypt key out minc = Some out"
    unfolding BF_crypt_digest using f o by simp
  then show ?thesis using ch by simp
qed

lemma crypt_blowfish_fixpoint:
  assumes "out = crypt_blowfish key s"
  shows "out = [42] \<or> BF_crypt key s 16 = Some out \<and> crypt_blowfish key out = out"
proof -
  have "crypt_blowfish key h = h" if h: "BF_crypt key s 16 = Some h" "BF_self_test (chr_at s 2) (flags_by_subtype ! (unat (chr_at s 2) - 97))" for h
    using h BF_crypt_fixpoint [OF h(1)] by (simp add: crypt_blowfish_def)
  then show ?thesis using assms by (auto simp: crypt_blowfish_def split: option.splits if_splits)
qed

section \<open>The results\<close>

lemma BF_encode_text:
  "length (BF_encode src (3 * g + 2)) = 4 * g + 3 \<and> set (BF_encode src (3 * g + 2)) \<subseteq> set BF_itoa64"
proof (induction g arbitrary: src)
  case 0
  show ?case unfolding BF_encode.simps [of src "3 * 0 + 2"] by (simp add: Let_def itoa64_in encode_indices encode_indices [simplified])
next
  case (Suc g)
  have n: "3 * Suc g + 2 - 3 = 3 * g + 2" by simp
  show ?case
    using Suc [of "drop 3 src"] unfolding BF_encode.simps [of src "3 * Suc g + 2"] n
    by (simp add: Let_def itoa64_in encode_indices encode_indices [simplified])
qed

lemma BF_alphabet: "10 \<notin> set BF_itoa64" "58 \<notin> set BF_itoa64" "42 \<notin> set BF_itoa64"
  by (simp_all add: BF_itoa64_def)

lemma BF_safe_atoi64_chars: "BF_safe_atoi64 10 = None" "BF_safe_atoi64 58 = None"
  by code_simp+

lemma BF_crypt_text:
  assumes "BF_crypt key s minc = Some out"
  shows "length out = 60 \<and> 10 \<notin> set out \<and> 58 \<notin> set out"
proof -
  obtain flags count salt v where f: "BF_setting s = Some (flags, count)" "minc \<le> count" "BF_decode (drop 7 s) 16 = Some salt"
    and len: "29 \<le> length s" and v: "BF_safe_atoi64 (chr_at s 28) = Some v"
    and o: "out = take 28 s @ [itoa64 (and v 0x30)] @ BF_encode (BF_digest key flags count salt) 23"
    using BF_crypt_Some [OF assms] by metis
  have safe: "chr_at s i \<noteq> 10 \<and> chr_at s i \<noteq> 58" if "i < 28" for i
  proof (cases "i < 7")
    case True
    then consider "i = 0" | "i = 1" | "i = 2" | "i = 3" | "i = 4" | "i = 5" | "i = 6" by linarith
    then show ?thesis
      using f(1) by cases (auto simp: BF_setting_def split: if_splits)
  next
    case False
    then have "BF_safe_atoi64 (chr_at (drop 7 s) (i - 7)) \<noteq> None"
      using that BF_decode_valid [of "drop 7 s" 5 salt "i - 7"] f(3) by simp
    then show ?thesis using False BF_safe_atoi64_chars by (auto simp: chr_at_drop)
  qed
  have "c \<noteq> 10 \<and> c \<noteq> 58" if c: "c \<in> set (take 28 s)" for c
  proof -
    obtain i where "i < length (take 28 s)" "take 28 s ! i = c" using c unfolding in_set_conv_nth by blast
    then show ?thesis using safe [of i] len by (simp add: chr_at_def)
  qed
  moreover have "itoa64 (and v 0x30) \<in> set BF_itoa64" by (intro itoa64_in encode_indices)
  ultimately show ?thesis
    using BF_encode_text [of "BF_digest key flags count salt" 7] len BF_alphabet by (auto simp: o)
qed

section \<open>Properties\<close>

text \<open>
  C14. For every key (a C string, so without a zero byte), every setting that parses and every subtype, \<open>BF_crypt\<close> gives the setting with its last
  salt character normalised, followed by 23 bytes of the ciphertext of \<open>OrpheanBeholderScryDoubt\<close>, encrypted 64 times with Blowfish
  under the schedule \<open>EksBlowfishSetup\<close> of the cost, the salt and the key with its terminator, repeated. For \<open>$2b$\<close> and \<open>$2y$\<close> this is the
  published bcrypt; for \<open>$2a$\<close> too, except on the keys that collide with others under the sign extension bug, where one bit of the first
  word is flipped for the first expansion only; for \<open>$2x$\<close> it is bcrypt on the words with the sign extension bug. The combined exclusive-ors of
  \<open>BF_encrypt\<close>, the unrolled loops, the branch-free computation of the deviation and the byte swaps do not show.
\<close>

theorem bcrypt_published:
  assumes "0 \<notin> set key" "BF_setting s = Some (flags, count)" "minc \<le> count" "BF_decode (drop 7 s) 16 = Some salt"
  shows "BF_crypt key s minc = Some (take 28 s @ [itoa64 (and (of_nat (BF_atoi64 ! (unat (chr_at s 28) - 0x20))) 0x30)] @
      BF_encode (concat (map be32_bytes (subtype_bcrypt flags count (salt_word salt) (key_byte key)))) 23) \<and>
    (chr_at s 2, flags) \<in> {(97, 2), (98, 4), (120, 1), (121, 4)} \<and>
    (flags = 4 \<or> flags = 2 \<and> \<not> colliding (key_byte key) \<longrightarrow>
      subtype_bcrypt flags count (salt_word salt) (key_byte key) = bcrypt count (salt_word salt) (be_word (key_byte key)))"
  using BF_crypt_bcrypt [OF assms] BF_setting_letter [OF assms(2)] by (simp add: subtype_bcrypt_def)

text \<open>The key \<open>a\<close> with the setting \<open>$2b$04$\<close> and 22 dots.\<close>

theorem bcrypt_published_witness:
  "BF_crypt [97] ([36, 50, 98, 36, 48, 52, 36] @ replicate 22 46) 16 =
    Some ([36, 50, 98, 36, 48, 52, 36] @ replicate 22 46 @ BF_encode (concat (map be32_bytes (bcrypt 16 (salt_word (replicate 16 0)) (be_word (key_byte [97]))))) 23)"
proof -
  let ?s = "[36, 50, 98, 36, 48, 52, 36] @ replicate 22 46 :: bytes"
  have p: "BF_setting ?s = Some (4, 16)" by code_simp
  have d: "BF_decode (drop 7 ?s) 16 = Some (replicate 16 0)" by code_simp
  have l: "itoa64 (and (of_nat (BF_atoi64 ! (unat (chr_at ?s 28) - 0x20))) 0x30) = 46" by code_simp
  have t: "take 28 ?s @ [46] = ?s" by code_simp
  have "0 \<notin> set [97 :: u8]" by simp
  note w = bcrypt_published [OF this p order_refl d]
  then have "subtype_bcrypt 4 16 (salt_word (replicate 16 0)) (key_byte [97]) = bcrypt 16 (salt_word (replicate 16 0)) (be_word (key_byte [97]))"
    by blast
  with w show ?thesis unfolding l append_assoc [symmetric] t by argo
qed

end
