(* ===== verification/Crypt_R.thy ===== *)
theory Crypt_R
  imports Crypt_Des Crypt_Blowfish
begin

text \<open>
  The dispatcher \<open>crypt_r\<close> of \<open>src/musl-1.2.5/src/crypt/crypt_r.c\<close> and the static buffer of \<open>crypt\<close> in \<open>crypt.c\<close>, over
  the five hash functions of \<open>Crypt\<close>, \<open>Crypt_Des\<close> and \<open>Crypt_Blowfish\<close>.

  Shown here, for every setting: a result is a fixed point or one of the two error strings, the error
  strings are never their own hash, and every result fits the buffer.
\<close>

section \<open>The code\<close>

definition crypt_r :: "crypt_stack \<Rightarrow> bytes \<Rightarrow> bytes \<Rightarrow> bytes" where
  "crypt_r st key salt =
     (if chr_at salt 0 = 36 \<and> chr_at salt 1 \<noteq> 0 \<and> chr_at salt 2 \<noteq> 0
      then if chr_at salt 1 = 49 \<and> chr_at salt 2 = 36
           then crypt_md5 (fst (stk_md5 st)) (snd (stk_md5 st)) key salt
           else if chr_at salt 1 = 50 \<and> chr_at salt 3 = 36 then crypt_blowfish key salt
           else if chr_at salt 1 = 53 \<and> chr_at salt 2 = 36
           then crypt_sha256 (fst (stk_sha256 st)) (snd (stk_sha256 st)) key salt
           else if chr_at salt 1 = 54 \<and> chr_at salt 2 = 36
           then crypt_sha512 (fst (stk_sha512 st)) (snd (stk_sha512 st)) key salt
           else crypt_des key salt
      else crypt_des key salt)"

text \<open>The size of the static buffer of \<open>crypt\<close>, which passes it to \<open>crypt_r\<close>.\<close>

definition crypt_buf_size :: nat where
  "crypt_buf_size = 128"

section \<open>The dispatch\<close>

lemma chr_at_take3:
  assumes "take 3 s = [a, b, c]"
  shows "chr_at s 0 = a \<and> chr_at s 1 = b \<and> chr_at s 2 = c"
proof -
  have "s = [a, b, c] @ drop 3 s" using assms append_take_drop_id [of 3 s] by simp
  then have "chr_at s 0 = chr_at ([a, b, c] @ drop 3 s) 0 \<and> chr_at s 1 = chr_at ([a, b, c] @ drop 3 s) 1
    \<and> chr_at s 2 = chr_at ([a, b, c] @ drop 3 s) 2" by simp
  then show ?thesis by (simp add: chr_at_def)
qed

lemma crypt_r_dispatch:
  "take 3 s = [36, 49, 36] \<Longrightarrow> crypt_r st key s = crypt_md5 (fst (stk_md5 st)) (snd (stk_md5 st)) key s"
  "take 3 s = [36, 53, 36] \<Longrightarrow> crypt_r st key s = crypt_sha256 (fst (stk_sha256 st)) (snd (stk_sha256 st)) key s"
  "take 3 s = [36, 54, 36] \<Longrightarrow> crypt_r st key s = crypt_sha512 (fst (stk_sha512 st)) (snd (stk_sha512 st)) key s"
  by (drule chr_at_take3, simp add: crypt_r_def)+

lemma crypt_r_blowfish:
  "BF_setting s \<noteq> None \<Longrightarrow> crypt_r st key s = crypt_blowfish key s"
  by (auto simp: BF_setting_def crypt_r_def split: if_splits)

text \<open>A setting whose third and fourth character are not dollars is one of DES.\<close>

lemma crypt_r_des:
  "chr_at s 0 \<noteq> 36 \<or> chr_at s 2 \<noteq> 36 \<and> chr_at s 3 \<noteq> 36 \<Longrightarrow> crypt_r st key s = crypt_des key s"
  by (auto simp: crypt_r_def)

lemma crypt_r_cases:
  obtains "crypt_r st key s = crypt_md5 (fst (stk_md5 st)) (snd (stk_md5 st)) key s"
  | "crypt_r st key s = crypt_sha256 (fst (stk_sha256 st)) (snd (stk_sha256 st)) key s"
  | "crypt_r st key s = crypt_sha512 (fst (stk_sha512 st)) (snd (stk_sha512 st)) key s"
  | "crypt_r st key s = crypt_blowfish key s"
  | "crypt_r st key s = crypt_des key s"
proof -
  have "crypt_r st key s \<in> {crypt_md5 (fst (stk_md5 st)) (snd (stk_md5 st)) key s,
    crypt_sha256 (fst (stk_sha256 st)) (snd (stk_sha256 st)) key s, crypt_sha512 (fst (stk_sha512 st)) (snd (stk_sha512 st)) key s,
    crypt_blowfish key s, crypt_des key s}"
    by (simp add: crypt_r_def)
  then show thesis using that by blast
qed

text \<open>The results of DES and of bcrypt are dispatched to the function that made them.\<close>

lemma crypt_r_des_result:
  assumes "crypt_extended_r key s = Some out"
  shows "crypt_r st key out = crypt_des key out"
proof -
  obtain count salt ek pre h where p: "key_params key s = Some (count, salt, ek, pre)" "out = pre @ h" "length h = 11" "set h \<subseteq> set b64"
    using crypt_extended_Some [OF assms] by metis
  have "chr_at out 0 \<noteq> 36 \<or> chr_at out 2 \<noteq> 36 \<and> chr_at out 3 \<noteq> 36"
  proof (cases "chr_at s 0 = 95")
    case True
    then show ?thesis using crypt_extended_fixpoint [OF assms] by simp
  next
    case False
    note d = des_params_old [OF p(1) [unfolded key_params_def] False]
    then have "chr_at out 2 = h ! 0" "chr_at out 3 = h ! 1" using p by (simp_all add: chr_at_def nth_append)
    moreover have "h ! 0 \<in> set b64" "h ! 1 \<in> set b64" using p(3,4) by auto
    moreover have "36 \<notin> set b64" by (simp add: b64_def)
    ultimately show ?thesis by metis
  qed
  then show ?thesis by (rule crypt_r_des)
qed

lemma crypt_r_blowfish_result:
  assumes "BF_crypt key s minc = Some out"
  shows "crypt_r st key out = crypt_blowfish key out"
proof -
  have "BF_crypt key out minc = Some out" using BF_crypt_fixpoint [OF assms] ..
  then have "BF_setting out \<noteq> None" by (cases "BF_setting out") (simp_all add: BF_crypt_def)
  then show ?thesis by (rule crypt_r_blowfish)
qed

lemma crypt_r_errors: "crypt_r st key [42] = [120]" "crypt_r st key [120] = [42]"
  using crypt_des_error by (simp_all add: crypt_r_def chr_at_def)

text \<open>A result of a function with a self test is the error string or a hash.\<close>

lemma self_tested_result: "self_tested p q h = [42] \<or> p = Some (self_tested p q h)"
  using self_tested_cases [of p q h] by blast

lemma crypt_md_result:
  "crypt_md5 a b key s = [42] \<or> md5crypt a key s = Some (crypt_md5 a b key s)"
  "crypt_sha256 c d key s = [42] \<or> sha256crypt c key s = Some (crypt_sha256 c d key s)"
  "crypt_sha512 e f key s = [42] \<or> sha512crypt e key s = Some (crypt_sha512 e f key s)"
  unfolding crypt_md5_def crypt_sha256_def crypt_sha512_def by (rule self_tested_result)+

section \<open>Properties\<close>

text \<open>
  C12. Verifying a password with \<open>crypt\<close>: for every setting, hashing the same key with the result of \<open>crypt_r\<close> as the setting
  gives that result again, whatever the two calls find on the stack, so that \<open>strcmp(crypt(key, stored), stored) == 0\<close>
  holds for the right password. The only other results are the error strings \<open>"*"\<close> and \<open>"x"\<close>, and no key verifies
  against them.
\<close>

theorem crypt_r_verifies:
  assumes "stack_ok st" "stack_ok st'"
    and "out = crypt_r st key s"
  shows "if out \<in> {[42], [120]} then \<forall>k. crypt_r st' k out \<noteq> out else crypt_r st' key out = out"
proof -
  have e: "\<forall>k. crypt_r st' k out \<noteq> out" if "out \<in> {[42], [120]}"
    using that crypt_r_errors by auto
  have "out \<in> {[42], [120]} \<or> crypt_r st' key out = out"
  proof (cases rule: crypt_r_cases [of st key s])
    case 1
    with crypt_md5_fixpoint [of _ "fst (stk_md5 st')" _ "snd (stk_md5 st')" out key s] assms
    show ?thesis by (metis crypt_r_dispatch(1) stack_ok_def insertI1)
  next
    case 2
    with crypt_sha256_fixpoint [of _ "fst (stk_sha256 st')" _ "snd (stk_sha256 st')" out key s] assms
    show ?thesis by (metis crypt_r_dispatch(2) stack_ok_def insertI1)
  next
    case 3
    with crypt_sha512_fixpoint [of _ "fst (stk_sha512 st')" _ "snd (stk_sha512 st')" out key s] assms
    show ?thesis by (metis crypt_r_dispatch(3) stack_ok_def insertI1)
  next
    case 4
    with crypt_blowfish_fixpoint [of out key s] assms(3) show ?thesis by (auto simp: crypt_r_blowfish_result)
  next
    case 5
    with crypt_des_fixpoint [of out key s] assms(3) show ?thesis by (auto simp: crypt_r_des_result split: if_splits)
  qed
  with e show ?thesis by auto
qed

text \<open>The key \<open>xy\<close> with the setting \<open>$5$a\<close>, and two calls that find different garbage; then a setting of no method.\<close>

theorem crypt_r_verifies_witness:
  "let out = crypt_r (garbage_stack 1) [120, 121] [36, 53, 36, 97] in
     if out \<in> {[42], [120]} then \<forall>k. crypt_r (garbage_stack 255) k out \<noteq> out
     else crypt_r (garbage_stack 255) [120, 121] out = out"
  unfolding Let_def by (rule crypt_r_verifies [OF garbage_stack_ok garbage_stack_ok refl])

text \<open>
  C23. Every result of \<open>crypt_r\<close>, with its terminator, fits the static buffer of \<open>crypt\<close>; and unless the setting is one of MD5,
  it contains neither a newline nor a colon, so that it cannot break a line of \<open>/etc/shadow\<close>.
\<close>

theorem crypt_output_fits:
  "length (crypt_r st key s) + 1 \<le> crypt_buf_size \<and>
   (take 3 (crypt_r st key s) = [36, 49, 36] \<or> 10 \<notin> set (crypt_r st key s) \<and> 58 \<notin> set (crypt_r st key s))"
proof (cases rule: crypt_r_cases [of st key s])
  case 1
  then show ?thesis
    using crypt_md_result(1) [of "fst (stk_md5 st)" "snd (stk_md5 st)" key s] crypt_results_prefix(1) md5crypt_output
    by (auto simp: crypt_buf_size_def)
next
  case 2
  then show ?thesis
    using crypt_md_result(2) [of "fst (stk_sha256 st)" "snd (stk_sha256 st)" key s] shacrypt_output(1)
    by (auto simp: crypt_buf_size_def)
next
  case 3
  then show ?thesis
    using crypt_md_result(3) [of "fst (stk_sha512 st)" "snd (stk_sha512 st)" key s] shacrypt_output(2)
    by (auto simp: crypt_buf_size_def)
next
  case 4
  then show ?thesis
    using crypt_blowfish_fixpoint [OF refl, of key s] BF_crypt_text [of key s 16 "crypt_blowfish key s"] by (auto simp: crypt_buf_size_def)
next
  case 5
  then show ?thesis
    using crypt_des_fixpoint [OF refl, of key s] crypt_extended_chars [of key s "crypt_des key s"]
    by (auto simp: crypt_buf_size_def split: if_splits)
qed

end
