(* ===== verification/Tsearch.thy ===== *)
theory Tsearch
  imports Prelude "HOL-Library.Multiset"
begin

text \<open>
  The balanced search trees of the C library: \<open>tsearch.c\<close>, \<open>tdelete.c\<close>, \<open>tfind.c\<close>, \<open>twalk.c\<close> and
  \<open>tdestroy.c\<close> of \<open>src/musl-1.2.5/src/search\<close>. A node carries its address, since callers hold pointers
  to nodes. The array of slot addresses that the operations fill on the way down is the list of the
  frames around the current subtree, innermost first; writing through a slot is plugging a subtree into
  its frame. The comparison function is the caller's and is an argument; the theorems ask that it orders
  the keys.

  Shown here: every operation keeps the AVL invariant with exact stored heights; a run of operations
  behaves as a set of keys; the nodes of the other keys stay where they are on insertion; the path never
  exceeds the \<open>MAXH\<close> slots of the array for any tree that fits the address space; \<open>twalk\<close> visits the keys
  in order.
\<close>

section \<open>Nodes\<close>

datatype 'k node = Null | Node (node_addr: nat) (node_key: 'k) (node_left: "'k node") (node_right: "'k node") (node_h: int)

fun height :: "'k node \<Rightarrow> int" where
  "height Null = 0"
| "height (Node _ _ _ _ h) = h"

text \<open>\<open>n->a[dir]\<close>, its update, and the update of \<open>n->h\<close>.\<close>

fun child :: "bool \<Rightarrow> 'k node \<Rightarrow> 'k node" where
  "child d Null = Null"
| "child d (Node _ _ l r _) = (if d then r else l)"

fun set_child :: "bool \<Rightarrow> 'k node \<Rightarrow> 'k node \<Rightarrow> 'k node" where
  "set_child d t Null = Null"
| "set_child d t (Node a k l r h) = (if d then Node a k l t h else Node a k t r h)"

fun set_h :: "int \<Rightarrow> 'k node \<Rightarrow> 'k node" where
  "set_h h Null = Null"
| "set_h h (Node a k l r _) = Node a k l r h"

section \<open>Rebalancing\<close>

text \<open>The new subtree and the change of height.\<close>

definition rot :: "'k node \<Rightarrow> bool \<Rightarrow> 'k node \<times> int" where
  "rot x dir =
     (let y = child dir x; z = child (\<not> dir) y; hx = height x; hz = height z
      in if hz > height (child dir y)
         then let x' = set_h hz (set_child dir (child (\<not> dir) z) x);
                  y' = set_h hz (set_child (\<not> dir) (child dir z) y);
                  z' = set_h (hz + 1) (set_child dir y' (set_child (\<not> dir) x' z))
              in (z', height z' - hx)
         else let x' = set_h (hz + 1) (set_child dir z x);
                  y' = set_h (hz + 2) (set_child (\<not> dir) x' y)
              in (y', height y' - hx))"

definition tsearch_balance :: "'k node \<Rightarrow> 'k node \<times> int" where
  "tsearch_balance n =
     (let h0 = height (child False n); h1 = height (child True n)
      in if - 1 \<le> h0 - h1 \<and> h0 - h1 < 2
         then let h = (if h0 < h1 then h1 + 1 else h0 + 1) in (set_h h n, h - height n)
         else rot n (h0 < h1))"

section \<open>Paths\<close>

text \<open>A slot \<open>&n->a[dir]\<close>: the rest of the node around the subtree in the slot.\<close>

datatype 'k frame = Frame (fdir: bool) (faddr: nat) (fkey: 'k) (fother: "'k node") (fh: int)

fun plug :: "'k frame \<Rightarrow> 'k node \<Rightarrow> 'k node" where
  "plug (Frame d a k u h) t = (if d then Node a k u t h else Node a k t u h)"

text \<open>The search loop: the slots passed and the subtree in the last one.\<close>

fun descend :: "('k \<Rightarrow> 'k \<Rightarrow> int) \<Rightarrow> 'k \<Rightarrow> 'k node \<Rightarrow> 'k frame list \<Rightarrow> 'k frame list \<times> 'k node" where
  "descend cmp key Null fs = (fs, Null)"
| "descend cmp key (Node a k l r h) fs =
     (let c = cmp key k in
      if c = 0 then (fs, Node a k l r h)
      else if c > 0 then descend cmp key r (Frame True a k l h # fs)
      else descend cmp key l (Frame False a k r h # fs))"

text \<open>
  \<open>*a[--i] = t; while (i && __tsearch_balance(a[--i]));\<close>: rebalance the ancestors from below until a
  height does not change; the ancestors above are left as they are.
\<close>

fun rebalance :: "'k node \<Rightarrow> 'k frame list \<Rightarrow> 'k node" where
  "rebalance t [] = t"
| "rebalance t (f # fs) =
     (let (n, d) = tsearch_balance (plug f t)
      in if d \<noteq> 0 then rebalance n fs else foldl (\<lambda>t f. plug f t) n fs)"

section \<open>Operations\<close>

text \<open>
  \<open>tsearch\<close>: the tree and the address of the node, 0 for a null pointer. A null \<open>rootp\<close> is \<open>None\<close>;
  \<open>mem\<close> is the address \<open>malloc\<close> returns, if any.
\<close>

definition tsearch :: "'k \<Rightarrow> 'k node option \<Rightarrow> ('k \<Rightarrow> 'k \<Rightarrow> int) \<Rightarrow> nat option \<Rightarrow> 'k node option \<times> nat" where
  "tsearch key rootp cmp mem =
     (case rootp of None \<Rightarrow> (None, 0) | Some root \<Rightarrow>
        (case descend cmp key root [] of
           (fs, Node a k l r h) \<Rightarrow> (rootp, a)
         | (fs, Null) \<Rightarrow>
             (case mem of None \<Rightarrow> (rootp, 0)
              | Some a \<Rightarrow> (Some (rebalance (Node a key Null Null 1) fs), a))))"

definition tfind :: "'k \<Rightarrow> 'k node option \<Rightarrow> ('k \<Rightarrow> 'k \<Rightarrow> int) \<Rightarrow> nat" where
  "tfind key rootp cmp =
     (case rootp of None \<Rightarrow> 0 | Some root \<Rightarrow>
        (case snd (descend cmp key root []) of Null \<Rightarrow> 0 | Node a _ _ _ _ \<Rightarrow> a))"

text \<open>The loop \<open>while (n->a[1])\<close> to the preceding node.\<close>

fun rightmost :: "'k node \<Rightarrow> 'k frame list \<Rightarrow> 'k frame list \<times> 'k node" where
  "rightmost Null fs = (fs, Null)"
| "rightmost (Node a k l r h) fs =
     (if r = Null then (fs, Node a k l r h) else rightmost r (Frame True a k l h # fs))"

text \<open>
  \<open>tdelete\<close>: the tree, the returned pointer and the freed address. The returned pointer is the parent
  of the found node; for the root it is the root itself (which may be freed, "an arbitrary non-null
  pointer").
\<close>

definition tdelete :: "'k \<Rightarrow> 'k node option \<Rightarrow> ('k \<Rightarrow> 'k \<Rightarrow> int) \<Rightarrow> 'k node option \<times> nat \<times> nat option" where
  "tdelete k0 rootp cmp =
     (case rootp of None \<Rightarrow> (None, 0, None) | Some root \<Rightarrow>
        (case descend cmp k0 root [] of
           (fs, Null) \<Rightarrow> (rootp, 0, None)
         | (fs, Node a k l r h) \<Rightarrow>
             (let parent = (case fs of [] \<Rightarrow> a | f # _ \<Rightarrow> faddr f) in
              if l \<noteq> Null
              then (case rightmost l [] of (gs, p) \<Rightarrow>
                      (Some (rebalance (node_left p) (gs @ Frame False a (node_key p) r h # fs)), parent, Some (node_addr p)))
              else (Some (rebalance r fs), parent, Some a))))"

datatype visit = preorder | postorder | endorder | leaf

text \<open>\<open>walk\<close>: the calls of \<open>action\<close> in order, each with the node's key, the visit and the depth.\<close>

fun walk :: "'k node \<Rightarrow> int \<Rightarrow> ('k \<times> visit \<times> int) list" where
  "walk Null d = []"
| "walk (Node a k l r h) d =
     (if h = 1 then [(k, leaf, d)]
      else [(k, preorder, d)] @ walk l (d + 1) @ [(k, postorder, d)] @ walk r (d + 1) @ [(k, endorder, d)])"

definition twalk :: "'k node \<Rightarrow> ('k \<times> visit \<times> int) list" where
  "twalk root = walk root 0"

text \<open>\<open>tdestroy\<close>: the calls of \<open>freekey\<close> and \<open>free\<close> in order; \<open>freekey\<close> may be null.\<close>

datatype 'k release = Freekey 'k | Free nat

fun tdestroy :: "'k node \<Rightarrow> bool \<Rightarrow> 'k release list" where
  "tdestroy Null freekey = []"
| "tdestroy (Node a k l r h) freekey =
     tdestroy l freekey @ tdestroy r freekey @ (if freekey then [Freekey k] else []) @ [Free a]"

section \<open>The AVL invariant\<close>

fun ht :: "'k node \<Rightarrow> nat" where
  "ht Null = 0"
| "ht (Node _ _ l r _) = max (ht l) (ht r) + 1"

fun avl :: "'k node \<Rightarrow> bool" where
  "avl Null = True"
| "avl (Node _ _ l r h) = (avl l \<and> avl r \<and> ht l \<le> ht r + 1 \<and> ht r \<le> ht l + 1 \<and> h = int (max (ht l) (ht r)) + 1)"

fun nodes :: "'k node \<Rightarrow> (nat \<times> 'k) list" where
  "nodes Null = []"
| "nodes (Node a k l r _) = nodes l @ (a, k) # nodes r"

lemma height_ht: "avl t \<Longrightarrow> height t = int (ht t)"
  by (cases t) auto

lemma ht_0 [simp]: "ht t = 0 \<longleftrightarrow> t = Null"
  by (cases t) auto

text \<open>
  A node whose subtrees are AVL and whose heights differ by at most two, with the height \<open>h\<close> it had
  before one of them changed.
\<close>

lemma balance_ok:
  assumes "avl l" "avl r" "ht l \<le> ht r + 2" "ht r \<le> ht l + 2" "tsearch_balance (Node a k l r h) = (n, d)"
  shows "avl n \<and> nodes n = nodes (Node a k l r h) \<and> d = int (ht n) - h \<and>
    (ht l \<le> ht r + 1 \<and> ht r \<le> ht l + 1 \<longrightarrow> ht n = max (ht l) (ht r) + 1) \<and>
    ht n \<in> {max (ht l) (ht r), max (ht l) (ht r) + 1}"
proof -
  have hl: "height l = int (ht l)" and hr: "height r = int (ht r)" using assms by (simp_all add: height_ht)
  consider "ht l \<le> ht r + 1" "ht r \<le> ht l + 1" | "ht l = ht r + 2" | "ht r = ht l + 2"
    using assms(3,4) by linarith
  then show ?thesis
  proof cases
    case 1
    with assms hl hr show ?thesis by (auto simp: tsearch_balance_def Let_def)
  next
    case 2
    then obtain ya yk yl yr yh where y: "l = Node ya yk yl yr yh" by (cases l) auto
    show ?thesis
    proof (cases yr)
      case Null
      with 2 assms y hl hr show ?thesis by (auto simp: tsearch_balance_def rot_def Let_def height_ht)
    next
      case (Node za zk zl zr zh)
      with 2 assms y hl hr show ?thesis
        by (auto simp: tsearch_balance_def rot_def Let_def height_ht split: if_splits)
    qed
  next
    case 3
    then obtain ya yk yl yr yh where y: "r = Node ya yk yl yr yh" by (cases r) auto
    show ?thesis
    proof (cases yl)
      case Null
      with 3 assms y hl hr show ?thesis by (auto simp: tsearch_balance_def rot_def Let_def height_ht)
    next
      case (Node za zk zl zr zh)
      with 3 assms y hl hr show ?thesis
        by (auto simp: tsearch_balance_def rot_def Let_def height_ht split: if_splits)
    qed
  qed
qed

section \<open>Paths and their context\<close>

abbreviation around :: "'k frame list \<Rightarrow> 'k node \<Rightarrow> 'k node" where
  "around fs t \<equiv> foldl (\<lambda>t f. plug f t) t fs"

text \<open>The frames are AVL around a subtree of height \<open>k\<close>.\<close>

fun frames_ok :: "'k frame list \<Rightarrow> nat \<Rightarrow> bool" where
  "frames_ok [] k = True"
| "frames_ok (Frame d a x u h # fs) k =
     (avl u \<and> k \<le> ht u + 1 \<and> ht u \<le> k + 1 \<and> h = int (max k (ht u)) + 1 \<and> frames_ok fs (max k (ht u) + 1))"

fun lefts :: "'k frame list \<Rightarrow> (nat \<times> 'k) list" where
  "lefts [] = []"
| "lefts (Frame d a x u h # fs) = lefts fs @ (if d then nodes u @ [(a, x)] else [])"

fun rights :: "'k frame list \<Rightarrow> (nat \<times> 'k) list" where
  "rights [] = []"
| "rights (Frame d a x u h # fs) = (if d then [] else (a, x) # nodes u) @ rights fs"

lemma avl_around: "avl (around fs t) \<longleftrightarrow> avl t \<and> frames_ok fs (ht t)"
proof (induction fs arbitrary: t)
  case (Cons f fs)
  then show ?case by (cases f) (auto simp: max.commute)
qed simp

lemma nodes_around: "nodes (around fs t) = lefts fs @ nodes t @ rights fs"
proof (induction fs arbitrary: t)
  case (Cons f fs)
  then show ?case by (cases f) auto
qed simp

lemma rebalance_ok:
  assumes "avl t" "frames_ok fs k" "ht t \<le> k + 1" "k \<le> ht t + 1"
  shows "avl (rebalance t fs) \<and> nodes (rebalance t fs) = nodes (around fs t)"
  using assms
proof (induction fs arbitrary: t k)
  case (Cons f fs)
  obtain d a x u h where f: "f = Frame d a x u h" by (cases f)
  obtain n c where n: "tsearch_balance (plug f t) = (n, c)" by (metis surj_pair)
  let ?k = "max k (ht u) + 1"
  have u: "avl u" "k \<le> ht u + 1" "ht u \<le> k + 1" "h = int ?k" "frames_ok fs ?k" using Cons.prems f by simp_all
  have ok: "avl n \<and> nodes n = nodes (plug f t) \<and> c = int (ht n) - h \<and>
    (ht t \<le> ht u + 1 \<and> ht u \<le> ht t + 1 \<longrightarrow> ht n = max (ht t) (ht u) + 1) \<and>
    ht n \<in> {max (ht t) (ht u), max (ht t) (ht u) + 1}"
    using balance_ok [of u t a x h n c] balance_ok [of t u a x h n c] n f u Cons.prems
    by (cases d) (auto simp: max.commute)
  then have close: "ht n \<le> ?k + 1" "?k \<le> ht n + 1" using u(2,3) Cons.prems(3,4) by auto
  show ?case
  proof (cases "c = 0")
    case True
    then have "ht n = ?k" using ok u(4) by simp
    then have "avl (around fs n)" using ok u(5) by (simp add: avl_around)
    with True n ok show ?thesis by (simp add: nodes_around)
  next
    case False
    with Cons.IH [of n ?k] ok u(5) close n show ?thesis by (simp add: nodes_around)
  qed
qed simp

text \<open>The caller's comparison function orders the keys.\<close>

definition orders :: "('k::linorder \<Rightarrow> 'k \<Rightarrow> int) \<Rightarrow> bool" where
  "orders cmp \<longleftrightarrow> (\<forall>x y. (cmp x y = 0 \<longleftrightarrow> x = y) \<and> (0 < cmp x y \<longleftrightarrow> y < x))"

abbreviation sorted_keys :: "(nat \<times> 'k::linorder) list \<Rightarrow> bool" where
  "sorted_keys xs \<equiv> sorted_wrt (<) (map snd xs)"

lemma descend_around: "descend cmp x t fs = (gs, u) \<Longrightarrow> around gs u = around fs t"
  by (induction cmp x t fs rule: descend.induct) (auto simp: Let_def split: if_splits)

lemma descend_found: "descend cmp x t fs = (gs, u) \<Longrightarrow> u \<noteq> Null \<Longrightarrow> cmp x (node_key u) = 0"
  by (induction cmp x t fs rule: descend.induct) (auto simp: Let_def split: if_splits)

lemma descend_order:
  assumes "orders cmp" "descend cmp x t fs = (gs, u)" "sorted_keys (nodes (around fs t))"
    "\<forall>p \<in> set (lefts fs). snd p < x" "\<forall>p \<in> set (rights fs). x < snd p"
  shows "(\<forall>p \<in> set (lefts gs). snd p < x) \<and> (\<forall>p \<in> set (rights gs). x < snd p)"
  using assms
proof (induction cmp x t fs rule: descend.induct)
  case (2 cmp x a k l r h fs)
  have sorted: "\<forall>p \<in> set (nodes l). snd p < k" "\<forall>p \<in> set (nodes r). k < snd p"
    using "2.prems"(3) by (auto simp: nodes_around sorted_wrt_append)
  consider (eq) "cmp x k = 0" | (gt) "0 < cmp x k" "k < x" | (lt) "cmp x k < 0" "x < k"
    using "2.prems"(1) unfolding orders_def
    by (metis linorder_neqE not_less_iff_gr_or_eq)
  then show ?case
  proof cases
    case eq
    with "2.prems" show ?thesis by simp
  next
    case gt
    then have step: "descend cmp x r (Frame True a k l h # fs) = (gs, u)" using "2.prems"(2) by simp
    have "\<forall>p \<in> set (nodes l). snd p < x" using sorted gt by fastforce
    then have "\<forall>p \<in> set (lefts (Frame True a k l h # fs)). snd p < x" using "2.prems"(4) gt by auto
    moreover have "sorted_keys (nodes (around (Frame True a k l h # fs) r))" "cmp x k \<noteq> 0"
      "\<forall>p \<in> set (rights (Frame True a k l h # fs)). x < snd p" using "2.prems"(3,5) gt by simp_all
    ultimately show ?thesis by (intro "2.IH"(1) [OF refl _ gt(1) "2.prems"(1) step])
  next
    case lt
    then have step: "descend cmp x l (Frame False a k r h # fs) = (gs, u)" using "2.prems"(2) by simp
    have "\<forall>p \<in> set (nodes r). x < snd p" using sorted lt by fastforce
    then have "\<forall>p \<in> set (rights (Frame False a k r h # fs)). x < snd p" using "2.prems"(5) lt by auto
    moreover have "sorted_keys (nodes (around (Frame False a k r h # fs) l))" "cmp x k \<noteq> 0" "\<not> 0 < cmp x k"
      "\<forall>p \<in> set (lefts (Frame False a k r h # fs)). snd p < x" using "2.prems"(3,4) lt by simp_all
    ultimately show ?thesis by (intro "2.IH"(2) [OF refl _ _ "2.prems"(1) step])
  qed
qed simp

lemma descend_root:
  assumes "orders cmp" "descend cmp x t [] = (fs, u)" "sorted_keys (nodes t)"
  shows "around fs u = t" "\<forall>p \<in> set (lefts fs). snd p < x" "\<forall>p \<in> set (rights fs). x < snd p"
    "u \<noteq> Null \<Longrightarrow> node_key u = x"
  using descend_around [OF assms(2)] descend_order [OF assms(1,2)] assms(3) descend_found [OF assms(2)] assms(1)
  by (auto simp: orders_def)

section \<open>The operations keep the invariant and implement a set of keys\<close>

definition tree_ok :: "'k::linorder node \<Rightarrow> bool" where
  "tree_ok t \<longleftrightarrow> avl t \<and> sorted_keys (nodes t) \<and> distinct (map fst (nodes t)) \<and> 0 \<notin> fst ` set (nodes t)"

abbreviation keys :: "'k node \<Rightarrow> 'k set" where
  "keys t \<equiv> snd ` set (nodes t)"

lemma sorted_keys_insert:
  "sorted_keys (xs @ ys) \<Longrightarrow> \<forall>p \<in> set xs. snd p < x \<Longrightarrow> \<forall>p \<in> set ys. x < snd p \<Longrightarrow> sorted_keys (xs @ (a, x) # ys)"
  by (auto simp: sorted_wrt_append)

text \<open>What \<open>tsearch\<close> does: it finds the node of the key or adds one node at the address of \<open>malloc\<close>.\<close>

lemma tsearch_ok:
  assumes "orders cmp" "tree_ok t" "\<And>a. mem = Some a \<Longrightarrow> a \<noteq> 0 \<and> a \<notin> fst ` set (nodes t)"
  shows "\<exists>t' p. tsearch x (Some t) cmp mem = (Some t', p) \<and> tree_ok t' \<and>
    (if x \<in> keys t then t' = t \<and> (p, x) \<in> set (nodes t)
     else case mem of None \<Rightarrow> t' = t \<and> p = 0
       | Some a \<Rightarrow> p = a \<and> set (nodes t') = insert (a, x) (set (nodes t)))"
proof -
  obtain fs u where d: "descend cmp x t [] = (fs, u)" by (metis surj_pair)
  have t: "avl t" "sorted_keys (nodes t)" "distinct (map fst (nodes t))" "0 \<notin> fst ` set (nodes t)"
    using assms(2) by (auto simp: tree_ok_def)
  note r = descend_root [OF assms(1) d t(2)]
  have n: "nodes t = lefts fs @ nodes u @ rights fs" using r(1) nodes_around [where fs = fs and t = u] by simp
  have fok: "frames_ok fs (ht u)" using t(1) r(1) avl_around [where fs = fs and t = u] by simp
  show ?thesis
  proof (cases u)
    case (Node a k l q h)
    then have "(a, x) \<in> set (nodes t)" using r(4) n by simp
    moreover from this have "x \<in> keys t" by force
    ultimately show ?thesis using assms(2) d Node by (simp add: tsearch_def)
  next
    case Null
    have x: "x \<notin> keys t" using r(2,3) n Null by fastforce
    show ?thesis
    proof (cases mem)
      case None
      with x assms(2) d Null show ?thesis by (simp add: tsearch_def)
    next
      case (Some a)
      let ?t = "rebalance (Node a x Null Null 1) fs"
      have ok: "avl ?t" "nodes ?t = lefts fs @ (a, x) # rights fs"
        using rebalance_ok [of "Node a x Null Null 1" fs 0] fok Null by (simp_all add: nodes_around)
      have a: "a \<noteq> 0" "a \<notin> fst ` set (nodes t)" using assms(3) Some by simp_all
      have "tree_ok ?t"
        using ok t a r(2,3) n Null sorted_keys_insert [of "lefts fs" "rights fs" x a] by (auto simp: tree_ok_def)
      moreover have "tsearch x (Some t) cmp mem = (Some ?t, a)" using d Null Some by (simp add: tsearch_def)
      moreover have "set (nodes ?t) = insert (a, x) (set (nodes t))" using ok n Null by auto
      ultimately show ?thesis using x Some by simp
    qed
  qed
qed

lemma tfind_ok:
  assumes "orders cmp" "tree_ok t"
  shows "tfind x (Some t) cmp \<noteq> 0 \<longleftrightarrow> x \<in> keys t"
    and "tfind x (Some t) cmp \<noteq> 0 \<Longrightarrow> (tfind x (Some t) cmp, x) \<in> set (nodes t)"
proof -
  obtain fs u where d: "descend cmp x t [] = (fs, u)" by (metis surj_pair)
  have t: "sorted_keys (nodes t)" "0 \<notin> fst ` set (nodes t)" using assms(2) by (auto simp: tree_ok_def)
  note r = descend_root [OF assms(1) d t(1)]
  have n: "nodes t = lefts fs @ nodes u @ rights fs" using r(1) nodes_around [where fs = fs and t = u] by simp
  have "(tfind x (Some t) cmp \<noteq> 0 \<longleftrightarrow> x \<in> keys t) \<and>
    (tfind x (Some t) cmp \<noteq> 0 \<longrightarrow> (tfind x (Some t) cmp, x) \<in> set (nodes t))"
  proof (cases u)
    case Null
    then show ?thesis using d r(2,3) n by (fastforce simp: tfind_def)
  next
    case (Node a k l q h)
    then have "(a, x) \<in> set (nodes t)" using r(4) n by simp
    then show ?thesis using d Node t(2) by (force simp: tfind_def)
  qed
  then show "tfind x (Some t) cmp \<noteq> 0 \<longleftrightarrow> x \<in> keys t"
    "tfind x (Some t) cmp \<noteq> 0 \<Longrightarrow> (tfind x (Some t) cmp, x) \<in> set (nodes t)" by blast+
qed

text \<open>The path to the preceding node.\<close>

lemma rightmost_ok:
  assumes "t \<noteq> Null" "rightmost t fs = (gs, p)"
  shows "around gs p = around fs t \<and> p \<noteq> Null \<and> node_right p = Null \<and> (\<exists>hs. gs = hs @ fs \<and> rights hs = [])"
  using assms
proof (induction t fs rule: rightmost.induct)
  case (2 a k l r h fs)
  show ?case
  proof (cases "r = Null")
    case True
    with "2.prems" show ?thesis by auto
  next
    case False
    then have "rightmost r (Frame True a k l h # fs) = (gs, p)" using "2.prems"(2) by simp
    from "2.IH" [OF False False this] obtain hs where
      "around gs p = around (Frame True a k l h # fs) r" "p \<noteq> Null" "node_right p = Null"
      "gs = hs @ Frame True a k l h # fs" "rights hs = []" by blast
    moreover have "rights (hs @ [Frame True a k l h]) = []"
      using \<open>rights hs = []\<close> by (induction hs rule: rights.induct) auto
    ultimately show ?thesis by auto
  qed
qed simp

lemma lefts_append: "lefts (fs @ gs) = lefts gs @ lefts fs"
  by (induction fs rule: lefts.induct) auto

lemma rights_append: "rights (fs @ gs) = rights fs @ rights gs"
  by (induction fs rule: rights.induct) auto

lemma frames_ok_key: "frames_ok (gs @ Frame d a x u h # fs) m \<longleftrightarrow> frames_ok (gs @ Frame d a y u h # fs) m"
proof (induction gs arbitrary: m)
  case (Cons g gs)
  then show ?case by (cases g) simp
qed simp

lemma nodes_drop:
  assumes "tree_ok t" "nodes t = xs @ (a, x) # ys" "avl t'" "nodes t' = xs @ ys"
  shows "tree_ok t'" "keys t' = keys t - {x}" "fst ` set (nodes t') = fst ` set (nodes t) - {a}"
proof -
  have s: "sorted_keys (xs @ (a, x) # ys)" and d: "distinct (map fst (xs @ (a, x) # ys))"
    and z: "0 \<notin> fst ` set (xs @ (a, x) # ys)"
    using assms(1,2) by (simp_all add: tree_ok_def)
  show "tree_ok t'" using s d z assms(3,4) by (auto simp: tree_ok_def sorted_wrt_append)
  have "x \<notin> snd ` set xs" "x \<notin> snd ` set ys" using s by (auto simp: sorted_wrt_append)
  then show "keys t' = keys t - {x}" using assms(2,4) by auto
  have "a \<notin> fst ` set xs" "a \<notin> fst ` set ys" using d by auto
  then show "fst ` set (nodes t') = fst ` set (nodes t) - {a}" using assms(2,4) by auto
qed

lemma nodes_replace:
  assumes "tree_ok t" "nodes t = xs @ (b, y) # (a, x) # ys" "avl t'" "nodes t' = xs @ (a, y) # ys"
  shows "tree_ok t'" "keys t' = keys t - {x}" "fst ` set (nodes t') = fst ` set (nodes t) - {b}"
proof -
  have s: "sorted_keys (xs @ (b, y) # (a, x) # ys)" and d: "distinct (map fst (xs @ (b, y) # (a, x) # ys))"
    and z: "0 \<notin> fst ` set (xs @ (b, y) # (a, x) # ys)"
    using assms(1,2) by (simp_all add: tree_ok_def)
  show "tree_ok t'" using s d z assms(3,4) by (auto simp: tree_ok_def sorted_wrt_append)
  have "x \<notin> snd ` set xs" "x \<notin> snd ` set ys" "x \<noteq> y" using s by (auto simp: sorted_wrt_append)
  then show "keys t' = keys t - {x}" using assms(2,4) by auto
  have "b \<notin> fst ` set xs" "b \<notin> fst ` set ys" "b \<noteq> a" using d by auto
  then show "fst ` set (nodes t') = fst ` set (nodes t) - {b}" using assms(2,4) by auto
qed

text \<open>
  What \<open>tdelete\<close> does: it reports an absent key with a null pointer; otherwise the key is gone, every other
  key stays, and one address is released.
\<close>

lemma tdelete_ok:
  assumes "orders cmp" "tree_ok t"
  shows "\<exists>t' p f. tdelete x (Some t) cmp = (Some t', p, f) \<and> tree_ok t' \<and> keys t' = keys t - {x} \<and>
    (if x \<in> keys t then p \<noteq> 0 \<and> (\<exists>a. f = Some a \<and> a \<in> fst ` set (nodes t) \<and>
        fst ` set (nodes t') = fst ` set (nodes t) - {a})
     else t' = t \<and> p = 0 \<and> f = None)"
proof -
  obtain fs u where d: "descend cmp x t [] = (fs, u)" by (metis surj_pair)
  have t: "avl t" "sorted_keys (nodes t)" "distinct (map fst (nodes t))" "0 \<notin> fst ` set (nodes t)"
    using assms(2) by (auto simp: tree_ok_def)
  note r = descend_root [OF assms(1) d t(2)]
  have n: "nodes t = lefts fs @ nodes u @ rights fs" using r(1) nodes_around [where fs = fs and t = u] by simp
  have fok: "avl u" "frames_ok fs (ht u)" using t(1) r(1) avl_around [where fs = fs and t = u] by simp_all
  show ?thesis
  proof (cases u)
    case Null
    have "x \<notin> keys t" using r(2,3) n Null by fastforce
    then show ?thesis using d Null assms(2) by (simp add: tdelete_def)
  next
    case (Node a k l q h)
    have k: "k = x" using r(4) Node by simp
    let ?p = "case fs of [] \<Rightarrow> a | f # _ \<Rightarrow> faddr f"
    have "?p \<in> fst ` set (nodes t)"
    proof (cases fs)
      case (Cons f fs')
      then obtain d b y v g where "f = Frame d b y v g" by (cases f) auto
      then have "(b, y) \<in> set (nodes t)" "faddr f = b" using n Cons by simp_all
      then show ?thesis using Cons by force
    qed (use n Node in simp)
    then have parent: "?p \<noteq> 0" using t(4) by metis
    have xk: "x \<in> keys t" using n Node k by simp
    show ?thesis
    proof (cases "l = Null")
      case True
      let ?t = "rebalance q fs"
      have ok: "avl ?t" "nodes ?t = lefts fs @ nodes q @ rights fs"
        using rebalance_ok [of q fs "ht u"] fok Node True by (simp_all add: nodes_around)
      have nt: "nodes t = lefts fs @ (a, x) # nodes q @ rights fs" using n Node True k by simp
      have "tree_ok ?t \<and> keys ?t = keys t - {x} \<and> fst ` set (nodes ?t) = fst ` set (nodes t) - {a}"
        using nodes_drop [OF assms(2) nt ok] by blast
      moreover have "tdelete x (Some t) cmp = (Some ?t, ?p, Some a)"
        using d Node True by (simp add: tdelete_def)
      ultimately show ?thesis using xk parent nt by auto
    next
      case False
      obtain gs p where gp: "rightmost l [] = (gs, p)" by (metis surj_pair)
      then obtain pa pk pl ph where p: "p = Node pa pk pl Null ph" "around gs p = l" "rights gs = []"
        using rightmost_ok [OF False gp] by (cases p) auto
      let ?F = "\<lambda>y. gs @ Frame False a y q h # fs" and ?t = "rebalance pl (gs @ Frame False a pk q h # fs)"
      have "around (?F k) p = t" using p(2) r(1) Node by simp
      then have "avl p" "frames_ok (?F k) (ht p)" using t(1) avl_around [where fs = "?F k" and t = p] by simp_all
      then have ok: "avl ?t" "nodes ?t = lefts (?F pk) @ nodes pl @ rights (?F pk)"
        using rebalance_ok [of pl "?F pk" "ht p", unfolded nodes_around]
          frames_ok_key [of gs False a k q h fs "ht p" pk] p(1) by simp_all
      have nl: "nodes l = lefts gs @ nodes pl @ [(pa, pk)]"
        using nodes_around [where fs = gs and t = p] p by simp
      have nt: "nodes t = lefts fs @ lefts gs @ nodes pl @ (pa, pk) # (a, x) # nodes q @ rights fs"
        using n Node nl k by simp
      have nt': "nodes ?t = lefts fs @ lefts gs @ nodes pl @ (a, pk) # nodes q @ rights fs"
        using ok(2) p(3) by (simp add: lefts_append rights_append)
      have "tree_ok ?t \<and> keys ?t = keys t - {x} \<and> fst ` set (nodes ?t) = fst ` set (nodes t) - {pa}"
        using nodes_replace [of t "lefts fs @ lefts gs @ nodes pl" pa pk a x "nodes q @ rights fs" ?t] assms(2) nt ok(1) nt'
        by simp
      moreover have "tdelete x (Some t) cmp = (Some ?t, ?p, Some pa)"
        using d Node False gp p(1) by (simp add: tdelete_def)
      ultimately show ?thesis using xk parent nt by auto
    qed
  qed
qed

section \<open>The path fits the array\<close>

text \<open>\<open>MAXH\<close> is \<open>sizeof(void*)*8*3/2\<close> on a 64-bit machine.\<close>

definition MAXH :: nat where
  "MAXH = 8 * 8 * 3 div 2"

text \<open>The least number of nodes of an AVL tree of height \<open>n\<close>, together with that of height \<open>n + 1\<close>.\<close>

primrec minsize2 :: "nat \<Rightarrow> nat \<times> nat" where
  "minsize2 0 = (0, 1)"
| "minsize2 (Suc n) = (case minsize2 n of (a, b) \<Rightarrow> (b, a + b + 1))"

lemma minsize2_Suc: "fst (minsize2 (Suc n)) = snd (minsize2 n)"
  "snd (minsize2 (Suc n)) = fst (minsize2 n) + fst (minsize2 (Suc n)) + 1"
  by (simp_all split: prod.split)

lemma minsize2_step: "fst (minsize2 n) \<le> fst (minsize2 (Suc n))"
  by (induction n) (simp_all split: prod.splits)

lemma minsize2_mono: "m \<le> n \<Longrightarrow> fst (minsize2 m) \<le> fst (minsize2 n)"
  by (rule lift_Suc_mono_le [of "\<lambda>n. fst (minsize2 n)"]) (rule minsize2_step)

lemma avl_minsize: "avl t \<Longrightarrow> fst (minsize2 (ht t)) \<le> length (nodes t)"
proof (induction t)
  case (Node a k l r h)
  let ?m = "max (ht l) (ht r)"
  have IH: "fst (minsize2 (ht l)) \<le> length (nodes l)" "fst (minsize2 (ht r)) \<le> length (nodes r)"
    using Node by simp_all
  have "fst (minsize2 (Suc ?m)) \<le> fst (minsize2 (ht l)) + fst (minsize2 (ht r)) + 1"
  proof (cases ?m)
    case 0
    then show ?thesis by simp
  next
    case (Suc m)
    have "fst (minsize2 (Suc (Suc m))) = fst (minsize2 m) + fst (minsize2 (Suc m)) + 1"
      by (simp only: minsize2_Suc)
    moreover have "fst (minsize2 m) + fst (minsize2 (Suc m)) \<le> fst (minsize2 (ht l)) + fst (minsize2 (ht r))"
    proof (cases "ht l \<le> ht r")
      case True
      then have "ht r = Suc m" "m \<le> ht l" using Suc Node.prems by simp_all
      then show ?thesis using minsize2_mono [of m "ht l"] by simp
    next
      case False
      then have "ht l = Suc m" "m \<le> ht r" using Suc Node.prems by simp_all
      then show ?thesis using minsize2_mono [of m "ht r"] by simp
    qed
    ultimately show ?thesis using Suc by simp
  qed
  with IH show ?case by simp
qed simp

lemma minsize2_8: "minsize2 n = (a, b) \<Longrightarrow> minsize2 (Suc (Suc (Suc (Suc (Suc (Suc (Suc (Suc n)))))))) = (13 * a + 21 * b + 33, 21 * a + 34 * b + 54)"
  by simp

lemma minsize_96: "2 ^ 64 \<le> fst (minsize2 96)"
proof -
  have add8: "minsize2 n = (a, b) \<Longrightarrow> minsize2 (n + 8) = (13 * a + 21 * b + 33, 21 * a + 34 * b + 54)" for n a b
    using minsize2_8 [of n a b] by (simp add: eval_nat_numeral)
  have "minsize2 0 = (0, 1)" by simp
  from add8 [OF this] have "minsize2 8 = (54, 88)" by simp
  from add8 [OF this] have "minsize2 16 = (2583, 4180)" by simp
  from add8 [OF this] have "minsize2 24 = (121392, 196417)" by simp
  from add8 [OF this] have "minsize2 32 = (5702886, 9227464)" by simp
  from add8 [OF this] have "minsize2 40 = (267914295, 433494436)" by simp
  from add8 [OF this] have "minsize2 48 = (12586269024, 20365011073)" by simp
  from add8 [OF this] have "minsize2 56 = (591286729878, 956722026040)" by simp
  from add8 [OF this] have "minsize2 64 = (27777890035287, 44945570212852)" by simp
  from add8 [OF this] have "minsize2 72 = (1304969544928656, 2111485077978049)" by simp
  from add8 [OF this] have "minsize2 80 = (61305790721611590, 99194853094755496)" by simp
  from add8 [OF this] have "minsize2 88 = (2880067194370816119, 4660046610375530308)" by simp
  from add8 [OF this] have "minsize2 96 = (135301852344706746048, 218922995834555169025)" by simp
  then show ?thesis by simp
qed

lemma ht_bound:
  assumes "avl t" "length (nodes t) < 2 ^ 64"
  shows "ht t < MAXH"
proof (rule ccontr)
  assume "\<not> ht t < MAXH"
  then have "fst (minsize2 96) \<le> fst (minsize2 (ht t))" by (intro minsize2_mono) (simp add: MAXH_def)
  with avl_minsize [OF assms(1)] minsize_96 assms(2) show False by simp
qed

lemma descend_length: "descend cmp x t fs = (gs, u) \<Longrightarrow> length gs + ht u \<le> length fs + ht t"
  by (induction cmp x t fs rule: descend.induct) (fastforce simp: Let_def split: if_splits)+

lemma rightmost_length: "rightmost t fs = (gs, p) \<Longrightarrow> length gs + ht p \<le> length fs + ht t"
  by (induction t fs rule: rightmost.induct) (fastforce split: if_splits)+

section \<open>Runs of operations\<close>

datatype 'k tcmd = Tsearch 'k "nat option" | Tdelete 'k | Tfind 'k

text \<open>One call on a tree; the answer is whether the returned pointer is not null.\<close>

fun tcmd_step :: "('k \<Rightarrow> 'k \<Rightarrow> int) \<Rightarrow> 'k tcmd \<Rightarrow> 'k node \<Rightarrow> ('k node \<times> bool) option" where
  "tcmd_step cmp (Tsearch x mem) t = (case tsearch x (Some t) cmp mem of (t', p) \<Rightarrow> map_option (\<lambda>t. (t, p \<noteq> 0)) t')"
| "tcmd_step cmp (Tdelete x) t = (case tdelete x (Some t) cmp of (t', p, f) \<Rightarrow> map_option (\<lambda>t. (t, p \<noteq> 0)) t')"
| "tcmd_step cmp (Tfind x) t = Some (t, tfind x (Some t) cmp \<noteq> 0)"

text \<open>\<open>malloc\<close> returns an address that is in use nowhere in the tree.\<close>

fun tcmd_pre :: "'k tcmd \<Rightarrow> 'k node \<Rightarrow> bool" where
  "tcmd_pre (Tsearch x (Some a)) t = (a \<noteq> 0 \<and> a \<notin> fst ` set (nodes t))"
| "tcmd_pre _ t = True"

text \<open>The specification: a set of keys.\<close>

fun tcmd_spec :: "'k tcmd \<Rightarrow> 'k set \<Rightarrow> 'k set \<times> bool" where
  "tcmd_spec (Tsearch x mem) S = (if x \<in> S then (S, True) else if mem = None then (S, False) else (insert x S, True))"
| "tcmd_spec (Tdelete x) S = (S - {x}, x \<in> S)"
| "tcmd_spec (Tfind x) S = (S, x \<in> S)"

lemma tcmd_simulation:
  assumes "orders cmp \<and> tree_ok t" "tcmd_pre c t"
  shows "\<exists>t'. tcmd_step cmp c t = Some (t', snd (tcmd_spec c (keys t))) \<and> (orders cmp \<and> tree_ok t') \<and>
    keys t' = fst (tcmd_spec c (keys t))"
proof (cases c)
  case (Tsearch x mem)
  have mem: "\<And>a. mem = Some a \<Longrightarrow> a \<noteq> 0 \<and> a \<notin> fst ` set (nodes t)" using assms(2) Tsearch by simp
  obtain t' p where ts: "tsearch x (Some t) cmp mem = (Some t', p)" "tree_ok t'"
    "if x \<in> keys t then t' = t \<and> (p, x) \<in> set (nodes t)
     else case mem of None \<Rightarrow> t' = t \<and> p = 0 | Some a \<Rightarrow> p = a \<and> set (nodes t') = insert (a, x) (set (nodes t))"
    using tsearch_ok [of cmp t mem x] assms(1) mem by blast
  show ?thesis
  proof (cases "x \<in> keys t")
    case True
    then have "(p, x) \<in> set (nodes t)" "0 \<notin> fst ` set (nodes t)" using ts(3) assms(1) by (simp_all add: tree_ok_def)
    then have "p \<noteq> 0" by force
    with True ts assms(1) Tsearch show ?thesis by simp
  next
    case False
    show ?thesis
    proof (cases mem)
      case None
      with False ts assms(1) Tsearch show ?thesis by simp
    next
      case (Some a)
      with False ts mem [OF Some] assms(1) Tsearch show ?thesis by simp
    qed
  qed
next
  case (Tdelete x)
  obtain t' p f where td: "tdelete x (Some t) cmp = (Some t', p, f)" "tree_ok t'" "keys t' = keys t - {x}"
    "if x \<in> keys t then p \<noteq> 0 \<and> (\<exists>a. f = Some a \<and> a \<in> fst ` set (nodes t) \<and>
        fst ` set (nodes t') = fst ` set (nodes t) - {a}) else t' = t \<and> p = 0 \<and> f = None"
    using tdelete_ok [of cmp t x] assms(1) by blast
  then have "(p \<noteq> 0) = (x \<in> keys t)" by (simp split: if_splits)
  with td assms(1) Tdelete show ?thesis by simp
next
  case (Tfind x)
  then show ?thesis using tfind_ok(1) [of cmp t x] assms(1) by simp
qed

interpretation tree: simulation "\<lambda>t. orders cmp \<and> tree_ok t" tcmd_pre keys "tcmd_step cmp" tcmd_spec for cmp
  by unfold_locales (rule tcmd_simulation)

lemma tree_ok_Null: "tree_ok Null"
  by (simp add: tree_ok_def)

section \<open>Walking and destroying\<close>

lemma avl_leaf: "avl (Node a k l r h) \<Longrightarrow> h = 1 \<longleftrightarrow> l = Null \<and> r = Null"
proof -
  assume "avl (Node a k l r h)"
  then have "h = 1 \<longleftrightarrow> max (ht l) (ht r) = 0" by auto
  then show ?thesis by (metis ht_0 max_0L max_nat.eq_neutr_iff)
qed

lemma walk_keys: "avl t \<Longrightarrow> map fst (filter (\<lambda>(k, v, e). v \<in> {postorder, leaf}) (walk t d)) = map snd (nodes t)"
proof (induction t arbitrary: d)
  case (Node a k l r h)
  then show ?case using avl_leaf [OF Node.prems] by auto
qed simp

lemma tdestroy_frees: "mset [a. Free a \<leftarrow> tdestroy t b] = mset (map fst (nodes t))"
  by (induction t) simp_all

section \<open>Properties\<close>

text \<open>
  C25. Under a comparison function that orders the keys, any sequence of \<open>tsearch\<close>, \<open>tdelete\<close> and \<open>tfind\<close>
  calls on an initially empty tree, with any outcomes of \<open>malloc\<close>, answers as a set of keys does, and
  leaves a search tree that is AVL with exact stored heights and holds exactly the keys of that set.
\<close>

theorem tree_refines_set:
  assumes "orders cmp" "run_pre tcmd_pre (tcmd_step cmp) cs Null"
  shows "\<exists>t. run_impl (tcmd_step cmp) cs Null = Some (t, snd (run_spec tcmd_spec cs {})) \<and>
    avl t \<and> sorted_wrt (<) (map snd (nodes t)) \<and> set (map snd (nodes t)) = fst (run_spec tcmd_spec cs {})"
  using tree.run_refines [of cmp Null cs] assms tree_ok_Null by (auto simp: tree_ok_def)

theorem tree_refines_set_witness:
  "\<exists>t. run_impl (tcmd_step (\<lambda>x y. x - y :: int)) [Tsearch 3 (Some 16), Tsearch 5 None, Tdelete 3, Tfind 3] Null =
     Some (t, [True, False, True, False]) \<and> t = Null"
proof -
  have "orders (\<lambda>x y. x - y :: int)" by (auto simp: orders_def)
  moreover have "run_pre tcmd_pre (tcmd_step (\<lambda>x y. x - y :: int)) [Tsearch 3 (Some 16), Tsearch 5 None, Tdelete 3, Tfind 3] Null"
    by (simp add: tsearch_def tdelete_def)
  ultimately obtain t where "run_impl (tcmd_step (\<lambda>x y. x - y :: int)) [Tsearch 3 (Some 16), Tsearch 5 None, Tdelete 3, Tfind 3] Null =
     Some (t, [True, False, True, False]) \<and> set (map snd (nodes t)) = ({} :: int set)"
    using tree_refines_set by fastforce
  moreover from this have "t = Null" by (cases t) auto
  ultimately show ?thesis by blast
qed

text \<open>
  \<open>tsearch\<close> moves no key: after an insertion the nodes of all other keys are where they were, so
  pointers that callers hold stay valid, and the only new node is the allocated one.
\<close>

theorem tsearch_pointers_stable:
  assumes "orders cmp" "tree_ok t" "x \<notin> set (map snd (nodes t))" "a \<noteq> 0" "a \<notin> set (map fst (nodes t))"
  shows "\<exists>t'. tsearch x (Some t) cmp (Some a) = (Some t', a) \<and> tree_ok t' \<and> set (nodes t') = insert (a, x) (set (nodes t))"
  using tsearch_ok [of cmp t "Some a" x] assms by auto

theorem tsearch_pointers_stable_witness:
  "\<exists>t'. tsearch 7 (Some (Node 8 (3 :: int) Null Null 1)) (\<lambda>x y. x - y) (Some 16) = (Some t', 16) \<and>
     set (nodes t') = {(16, 7), (8, 3)}"
proof -
  have "orders (\<lambda>x y. x - y :: int)" "tree_ok (Node 8 (3 :: int) Null Null 1)"
    by (auto simp: orders_def tree_ok_def)
  from tsearch_pointers_stable [OF this, of 7 16] show ?thesis by auto
qed

text \<open>
  C26. The arrays of slot addresses never overflow: in a tree with fewer than \<open>2^64\<close> nodes, the path of
  \<open>tsearch\<close> with the root slot takes at most \<open>MAXH\<close> entries, and the path of \<open>tdelete\<close> with its two root
  slots and the way to the preceding node at most \<open>MAXH + 1\<close>.
\<close>

theorem search_path_fits:
  assumes "avl t" "length (nodes t) < 2 ^ 64"
  shows "1 + length (fst (descend cmp x t [])) \<le> MAXH \<and>
    (case descend cmp x t [] of
       (fs, Null) \<Rightarrow> 2 + length fs \<le> MAXH + 1
     | (fs, Node a k l r h) \<Rightarrow>
         2 + length fs + (if l \<noteq> Null then 1 + length (fst (rightmost l [])) else 0) \<le> MAXH + 1)"
proof -
  obtain fs u where d: "descend cmp x t [] = (fs, u)" by (metis surj_pair)
  have h: "ht t < MAXH" by (rule ht_bound [OF assms])
  have len: "length fs + ht u \<le> ht t" using descend_length [OF d] by simp
  show ?thesis
  proof (cases u)
    case Null
    with len h d show ?thesis by simp
  next
    case (Node a k l r e)
    obtain gs p where g: "rightmost l [] = (gs, p)" by (metis surj_pair)
    then have "length gs + ht p \<le> ht l" using rightmost_length [OF g] by simp
    with Node len h d g show ?thesis by auto
  qed
qed

theorem search_path_fits_witness:
  "1 + length (fst (descend (\<lambda>x y. x - y) 9 (Node 8 (3 :: int) Null (Node 16 5 Null Null 1) 2) [])) \<le> MAXH"
  using search_path_fits [of "Node 8 (3 :: int) Null (Node 16 5 Null Null 1) 2" "\<lambda>x y. x - y" 9] by simp

text \<open>
  \<open>twalk\<close> visits every key exactly once, in ascending order, in its postorder and leaf visits, and
  \<open>tdestroy\<close> frees every node exactly once.
\<close>

theorem twalk_in_order:
  assumes "tree_ok t"
  shows "map fst (filter (\<lambda>(k, v, e). v \<in> {postorder, leaf}) (twalk t)) = map snd (nodes t) \<and>
    sorted_wrt (<) (map snd (nodes t)) \<and> distinct [a. Free a \<leftarrow> tdestroy t b] \<and>
    set [a. Free a \<leftarrow> tdestroy t b] = set (map fst (nodes t))"
proof -
  note m = tdestroy_frees [of t b]
  then have "distinct [a. Free a \<leftarrow> tdestroy t b]" "set [a. Free a \<leftarrow> tdestroy t b] = set (map fst (nodes t))"
    using assms mset_eq_imp_distinct_iff [OF m] mset_eq_setD [OF m] by (simp_all add: tree_ok_def)
  with assms walk_keys [of t 0] show ?thesis by (simp add: twalk_def tree_ok_def)
qed

theorem twalk_in_order_witness:
  "map fst (filter (\<lambda>(k, v, e). v \<in> {postorder, leaf}) (twalk (Node 8 (3 :: int) Null (Node 16 5 Null Null 1) 2))) = [3, 5]"
  using twalk_in_order [of "Node 8 (3 :: int) Null (Node 16 5 Null Null 1) 2" True] by (simp add: tree_ok_def)

end
