(* ===== verification/Hsearch.thy ===== *)
theory Hsearch
  imports Prelude
begin

text \<open>
  The hash tables of the C library, \<open>src/musl-1.2.5/src/search/hsearch.c\<close>: open addressing over a
  table of \<open>2^n\<close> slots with quadratic probing. Keys are C strings, given as their characters; the
  address arithmetic is on 64-bit \<open>size_t\<close>. An entry is empty or a key with its data. \<open>calloc\<close> may fail;
  its outcomes are arguments.

  Shown here: probing with triangular steps visits every slot of a table whose size is a power of two,
  so every search ends as long as one slot is free; insertion keeps a slot free; the table behaves as a
  map from strings to data in which the first binding of a key stays, also across resizing, and a failed
  resize loses nothing.
\<close>

section \<open>Tables\<close>

type_synonym 'd entry = "(bytes \<times> 'd) option"

record 'd htab =
  tab_entries :: "'d entry list"
  tab_mask :: u64
  tab_used :: u64

definition MINSIZE :: u64 where
  "MINSIZE = 8"

definition MAXSIZE :: u64 where
  "MAXSIZE = (- 1) div 2 + 1"

definition keyhash :: "bytes \<Rightarrow> u64" where
  "keyhash k = foldl (\<lambda>h c. 31 * h + ucast c) 0 k"

text \<open>
  The probe loop \<open>for (i = hash, j = 1; ; i += j++)\<close>, which stops at the first slot that satisfies \<open>p\<close>.
  It has no bound of its own: \<open>fuel\<close> counts the slots looked at, and \<open>None\<close> is a loop that has not
  ended.
\<close>

fun probe :: "nat \<Rightarrow> ('d entry \<Rightarrow> bool) \<Rightarrow> 'd entry list \<Rightarrow> u64 \<Rightarrow> u64 \<Rightarrow> u64 \<Rightarrow> nat option" where
  "probe 0 p es m i j = None"
| "probe (Suc fuel) p es m i j =
     (let s = unat (and i m) in
      if p (es ! s) then Some s else probe fuel p es m (i + j) (j + 1))"

definition probe_all :: "('d entry \<Rightarrow> bool) \<Rightarrow> 'd entry list \<Rightarrow> u64 \<Rightarrow> u64 \<Rightarrow> nat option" where
  "probe_all p es m h = probe (length es) p es m h 1"

text \<open>\<open>lookup\<close>: the slot that holds the key, or the free slot where it belongs.\<close>

definition lookup :: "bytes \<Rightarrow> u64 \<Rightarrow> 'd htab \<Rightarrow> nat option" where
  "lookup k hash t =
     probe_all (\<lambda>e. case e of None \<Rightarrow> True | Some (k', _) \<Rightarrow> k' = k) (tab_entries t) (tab_mask t) hash"

text \<open>The size loop of \<open>resize\<close>, \<open>for (newsize = MINSIZE; newsize < nel; newsize *= 2)\<close>.\<close>

function grow :: "nat \<Rightarrow> nat \<Rightarrow> nat" where
  "grow newsize nel = (if 0 < newsize \<and> newsize < nel then grow (2 * newsize) nel else newsize)"
  by pat_completeness auto

termination
  by (relation "measure (\<lambda>(s, n). n - s)") auto

declare grow.simps [simp del]

text \<open>Moving the old entries into the new table.\<close>

fun rehash :: "'d entry list \<Rightarrow> u64 \<Rightarrow> 'd entry list \<Rightarrow> 'd entry list option" where
  "rehash [] m new = Some new"
| "rehash (None # es) m new = rehash es m new"
| "rehash (Some (k, d) # es) m new = do {
     s \<leftarrow> probe_all (\<lambda>e. e = None) new m (keyhash k);
     rehash es m (new[s := Some (k, d)]) }"

text \<open>
  \<open>resize\<close>: the table and the success flag; \<open>alloc b\<close> is whether \<open>calloc\<close> finds \<open>b\<close> bytes, \<open>old\<close> whether
  the table had entries before (\<open>oldtab\<close> is not null). An \<open>ENTRY\<close> has 16 bytes and \<open>struct __tab\<close> has 24.
\<close>

definition resize :: "u64 \<Rightarrow> (nat \<Rightarrow> bool) \<Rightarrow> bool \<Rightarrow> 'd htab \<Rightarrow> ('d htab \<times> bool) option" where
  "resize nel alloc old t =
     (let nel = (if nel > MAXSIZE then MAXSIZE else nel);
          newsize = grow (unat MINSIZE) (unat nel)
      in if \<not> alloc (newsize * 16) then Some (t, False)
         else let m = of_nat newsize - 1; new = replicate newsize None
              in if \<not> old then Some (t\<lparr>tab_entries := new, tab_mask := m\<rparr>, True)
                 else do { es \<leftarrow> rehash (tab_entries t) m new;
                           Some (t\<lparr>tab_entries := es, tab_mask := m\<rparr>, True) })"

text \<open>\<open>__hcreate_r\<close>: \<open>calloc\<close> of the header and of the entries; \<open>None\<close> is a null table.\<close>

definition hcreate_r :: "u64 \<Rightarrow> (nat \<Rightarrow> bool) \<Rightarrow> ('d htab option \<times> bool) option" where
  "hcreate_r nel alloc =
     (if \<not> alloc 24 then Some (None, False)
      else do { (t, r) \<leftarrow> resize nel alloc False \<lparr>tab_entries = [], tab_mask = 0, tab_used = 0\<rparr>;
                Some (if r then Some t else None, r) })"

definition hdestroy_r :: "'d htab option \<Rightarrow> 'd htab option" where
  "hdestroy_r t = None"

datatype action = FIND | ENTER

text \<open>
  \<open>__hsearch_r\<close>: the table and the slot of the returned entry, if any. \<open>alloc\<close> is the outcome of the
  \<open>calloc\<close> of a resize.
\<close>

definition hsearch_r :: "bytes \<times> 'd \<Rightarrow> action \<Rightarrow> (nat \<Rightarrow> bool) \<Rightarrow> 'd htab \<Rightarrow> ('d htab \<times> nat option) option" where
  "hsearch_r item act alloc t = (let hash = keyhash (fst item) in do {
     s \<leftarrow> lookup (fst item) hash t;
     if tab_entries t ! s \<noteq> None then Some (t, Some s)
     else if act = FIND then Some (t, None)
     else let t1 = t\<lparr>tab_entries := (tab_entries t)[s := Some item], tab_used := tab_used t + 1\<rparr>
          in if tab_used t1 > tab_mask t1 - tab_mask t1 div 4
             then do {
               (t2, r) \<leftarrow> resize (2 * tab_used t1) alloc True t1;
               if \<not> r then Some (t2\<lparr>tab_used := tab_used t2 - 1, tab_entries := (tab_entries t2)[s := None]\<rparr>, None)
               else do { s \<leftarrow> lookup (fst item) hash t2; Some (t2, Some s) } }
             else Some (t1, Some s) })"

section \<open>Triangular probing visits every slot\<close>

definition tri :: "nat \<Rightarrow> nat" where
  "tri k = k * (k + 1) div 2"

definition slot :: "nat \<Rightarrow> u64 \<Rightarrow> nat \<Rightarrow> nat" where
  "slot n h k = (unat h + tri k) mod 2 ^ n"

lemma tri_Suc [simp]: "tri (Suc k) = tri k + Suc k"
proof -
  have "Suc k * (Suc k + 1) = k * (k + 1) + 2 * Suc k" by simp
  then show ?thesis unfolding tri_def by simp
qed

lemma tri_double: "2 * tri k = k * (k + 1)"
  by (simp add: tri_def)

text \<open>A power of two that divides a product with an odd factor divides the other factor.\<close>

lemma pow2_dvd_odd: "2 ^ m dvd x * y \<Longrightarrow> odd x \<Longrightarrow> 2 ^ m dvd (y :: nat)"
  by (metis coprime_dvd_mult_right_iff coprime_left_2_iff_odd coprime_power_left_iff)

lemma tri_mono: "a \<le> b \<Longrightarrow> tri a \<le> tri b"
  by (rule lift_Suc_mono_le [of tri]) simp_all

lemma tri_inj:
  assumes "a < b" "b < 2 ^ n" "2 ^ n dvd tri b - tri a"
  shows False
proof -
  from assms(3) have "2 ^ Suc n dvd 2 * (tri b - tri a)" by simp
  moreover have "2 * (tri b - tri a) = (b - a) * (a + b + 1)"
  proof -
    obtain d where d: "b = a + d" using assms(1) less_imp_add_positive by blast
    have "2 * (tri b - tri a) = b * (b + 1) - a * (a + 1)" by (simp add: tri_double diff_mult_distrib2)
    also have "b * (b + 1) = a * (a + 1) + d * (a + b + 1)" by (simp add: d algebra_simps)
    finally show ?thesis by (simp add: d)
  qed
  ultimately have dvd: "2 ^ Suc n dvd (b - a) * (a + b + 1)" by simp
  consider "odd (b - a)" | "odd (a + b + 1)" using assms(1) by fastforce
  then show False
  proof cases
    case 1
    with dvd have "2 ^ Suc n dvd a + b + 1" by (rule pow2_dvd_odd)
    then have "2 ^ Suc n \<le> a + b + 1" by (rule dvd_imp_le) simp
    with assms(1,2) show False by simp
  next
    case 2
    with dvd have "2 ^ Suc n dvd b - a" using pow2_dvd_odd [of "Suc n" "a + b + 1" "b - a"] by (simp add: mult.commute)
    then have "2 ^ Suc n \<le> b - a" using assms(1) by (intro dvd_imp_le) simp_all
    with assms(2) show False by simp
  qed
qed

lemma slot_inj: "inj_on (slot n h) {..<2 ^ n}"
proof (rule linorder_inj_onI')
  fix a b :: nat assume "a \<in> {..<2 ^ n}" "b \<in> {..<2 ^ n}" "a < b"
  show "slot n h a \<noteq> slot n h b"
  proof
    assume "slot n h a = slot n h b"
    then have "2 ^ n dvd (unat h + tri b) - (unat h + tri a)"
      using tri_mono [of a b] \<open>a < b\<close> mod_eq_dvd_iff_nat [of "unat h + tri a" "unat h + tri b" "2 ^ n"]
      by (simp add: slot_def)
    then show False using tri_inj \<open>a < b\<close> \<open>b \<in> _\<close> by auto
  qed
qed

lemma slot_less: "slot n h k < 2 ^ n"
  by (simp add: slot_def)

lemma slot_surj: "s < 2 ^ n \<Longrightarrow> \<exists>k < 2 ^ n. slot n h k = s"
proof -
  have "slot n h ` {..<2 ^ n} = {..<2 ^ n}"
    by (rule endo_inj_surj [OF _ _ slot_inj]) (auto simp: slot_less)
  then show "s < 2 ^ n \<Longrightarrow> \<exists>k < 2 ^ n. slot n h k = s" by (metis imageE lessThan_iff)
qed

section \<open>Probing finds the first slot of the probe sequence\<close>

lemma and_mask_slot:
  assumes "n < 64"
  shows "unat (and i (2 ^ n - 1 :: u64)) = unat i mod 2 ^ n"
proof -
  have "(2 ^ n - 1 :: u64) = mask n" by (simp add: mask_eq_exp_minus_1)
  then have "and i (2 ^ n - 1) = take_bit n i" by (simp add: take_bit_eq_mask)
  then show ?thesis by (simp only: unsigned_take_bit_eq) (simp add: take_bit_eq_mod)
qed

lemma unat_add_mod:
  assumes "n < 64"
  shows "unat (h + of_nat x :: u64) mod 2 ^ n = (unat h + x) mod 2 ^ n"
proof -
  have "(2::nat) ^ n dvd 2 ^ 64" using assms by (intro le_imp_power_dvd) simp
  moreover have "unat (of_nat y :: u64) = y mod 2 ^ 64" for y by (simp add: unat_of_nat take_bit_eq_mod)
  moreover have "h + of_nat x = of_nat (unat h + x)" by simp
  ultimately show ?thesis by (simp only: mod_mod_cancel)
qed

lemma probe_find:
  assumes "n < 64"
  shows "probe fuel p es (2 ^ n - 1) (h + of_nat (tri k)) (of_nat (Suc k)) =
    map_option (slot n h) (List.find (\<lambda>k. p (es ! slot n h k)) [k..<k + fuel])"
proof (induction fuel arbitrary: k)
  case (Suc fuel)
  have s: "unat (and (h + of_nat (tri k)) (2 ^ n - 1)) = slot n h k"
    using assms by (simp add: and_mask_slot unat_add_mod slot_def)
  have next_i: "h + of_nat (tri k) + of_nat (Suc k) = h + of_nat (tri (Suc k))" by (simp add: add.assoc)
  have next_j: "(of_nat (Suc k) :: u64) + 1 = of_nat (Suc (Suc k))" by simp
  have upt: "[k..<k + Suc fuel] = k # [Suc k..<Suc k + fuel]" by (simp add: upt_conv_Cons del: upt_Suc)
  show ?case
    unfolding probe.simps s next_i next_j Let_def Suc.IH upt by simp
qed simp

lemma probe_all_find:
  assumes "n < 64" "length es = 2 ^ n"
  shows "probe_all p es (2 ^ n - 1) h = map_option (slot n h) (List.find (\<lambda>k. p (es ! slot n h k)) [0..<2 ^ n])"
  using probe_find [OF assms(1), of "2 ^ n" p es h 0] assms(2) by (simp add: probe_all_def tri_def)

lemma find_upt_Some:
  "List.find P [0..<m] = Some k \<longleftrightarrow> k < m \<and> P k \<and> (\<forall>i < k. \<not> P i)"
  by (auto simp: find_Some_iff)

lemma find_upt_ex: "\<exists>i < m. P i \<Longrightarrow> \<exists>k. List.find P [0..<m] = Some k"
  by (metis atLeast0LessThan find_None_iff lessThan_iff not_None_eq set_upt)

lemma probe_all_Some:
  assumes "n < 64" "length es = 2 ^ n"
  shows "probe_all p es (2 ^ n - 1) h = Some s \<longleftrightarrow>
    (\<exists>k < 2 ^ n. slot n h k = s \<and> p (es ! s) \<and> (\<forall>i < k. \<not> p (es ! slot n h i)))"
  by (auto simp: probe_all_find [OF assms] find_upt_Some)

lemma probe_all_total:
  assumes "n < 64" "length es = 2 ^ n" "s < 2 ^ n" "p (es ! s)"
  shows "\<exists>s'. probe_all p es (2 ^ n - 1) h = Some s'"
proof -
  obtain k where "k < 2 ^ n" "slot n h k = s" using slot_surj [OF assms(3)] by blast
  with find_upt_ex [of "2 ^ n" "\<lambda>k. p (es ! slot n h k)"] assms(4) show ?thesis
    by (auto simp: probe_all_find [OF assms(1,2)])
qed

section \<open>The invariant\<close>

definition items :: "'d entry list \<Rightarrow> (bytes \<times> 'd) list" where
  "items es = map the (filter (\<lambda>e. e \<noteq> None) es)"

text \<open>Every stored key is reached from its hash before any free slot.\<close>

definition reached :: "nat \<Rightarrow> 'd entry list \<Rightarrow> bool" where
  "reached n es \<longleftrightarrow> (\<forall>s k d. s < length es \<longrightarrow> es ! s = Some (k, d) \<longrightarrow>
     (\<exists>j < 2 ^ n. slot n (keyhash k) j = s \<and> (\<forall>i < j. es ! slot n (keyhash k) i \<noteq> None)))"

definition slots_ok :: "nat \<Rightarrow> 'd entry list \<Rightarrow> bool" where
  "slots_ok n es \<longleftrightarrow> length es = 2 ^ n \<and> reached n es \<and> distinct (map fst (items es))"

lemma items_None: "items (None # es) = items es"
  and items_Some: "items (Some x # es) = x # items es"
  by (simp_all add: items_def)

lemma set_items: "x \<in> set (items es) \<longleftrightarrow> Some x \<in> set es"
  by (force simp: items_def)

lemma items_update_None:
  assumes "s < length es" "es ! s = None"
  shows "set (items (es[s := Some x])) = insert x (set (items es))" "length (items (es[s := Some x])) = Suc (length (items es))"
    "distinct (map fst (items (es[s := Some x]))) \<longleftrightarrow> fst x \<notin> fst ` set (items es) \<and> distinct (map fst (items es))"
proof -
  have es: "es = take s es @ None # drop (Suc s) es" using assms by (metis id_take_nth_drop)
  have up: "es[s := Some x] = take s es @ Some x # drop (Suc s) es" using assms(1) by (rule upd_conv_take_nth_drop)
  have i: "items es = items (take s es) @ items (drop (Suc s) es)" by (subst es) (simp add: items_def)
  have u: "items (es[s := Some x]) = items (take s es) @ x # items (drop (Suc s) es)" by (simp add: up items_def)
  show "set (items (es[s := Some x])) = insert x (set (items es))" "length (items (es[s := Some x])) = Suc (length (items es))"
    "distinct (map fst (items (es[s := Some x]))) \<longleftrightarrow> fst x \<notin> fst ` set (items es) \<and> distinct (map fst (items es))"
    by (auto simp: i u)
qed

lemma free_slot:
  assumes "length (items es) < length es"
  shows "\<exists>s < length es. es ! s = None"
proof (rule ccontr)
  assume "\<not> (\<exists>s < length es. es ! s = None)"
  then have "filter (\<lambda>e. e \<noteq> None) es = es" by (auto simp: filter_id_conv in_set_conv_nth)
  with assms show False by (simp add: items_def)
qed

text \<open>Storing a new key in the free slot that probing finds keeps the invariant.\<close>

lemma store_ok:
  assumes "n < 64" "slots_ok n es" "fst x \<notin> fst ` set (items es)" "s < 2 ^ n" "es ! s = None"
    and "\<exists>j < 2 ^ n. slot n (keyhash (fst x)) j = s \<and> (\<forall>i < j. es ! slot n (keyhash (fst x)) i \<noteq> None)"
  shows "slots_ok n (es[s := Some x])"
proof -
  have len: "length es = 2 ^ n" using assms(2) by (simp add: slots_ok_def)
  have mono: "es[s := Some x] ! i \<noteq> None" if "es ! i \<noteq> None" for i
    using that by (metis nth_list_update_eq nth_list_update_neq option.distinct(1) list_update_beyond not_le)
  have "reached n (es[s := Some x])"
    unfolding reached_def
  proof (intro allI impI)
    fix s' k d
    assume s': "s' < length (es[s := Some x])" "es[s := Some x] ! s' = Some (k, d)"
    show "\<exists>j < 2 ^ n. slot n (keyhash k) j = s' \<and> (\<forall>i < j. es[s := Some x] ! slot n (keyhash k) i \<noteq> None)"
    proof (cases "s' = s")
      case True
      then have "k = fst x" using s' by auto
      with True assms(6) mono show ?thesis by blast
    next
      case False
      then have "s' < length es" "es ! s' = Some (k, d)" using s' by auto
      then show ?thesis using assms(2) mono unfolding slots_ok_def reached_def by metis
    qed
  qed
  then show ?thesis
    using assms len items_update_None(3) [of s es x] by (simp add: slots_ok_def)
qed

section \<open>Lookup, rehashing and resizing\<close>

abbreviation key_slot :: "bytes \<Rightarrow> 'd entry \<Rightarrow> bool" where
  "key_slot k e \<equiv> (case e of None \<Rightarrow> True | Some (k', _) \<Rightarrow> k' = k)"

lemma lookup_slot:
  assumes "n < 64" "slots_ok n es" "length (items es) < 2 ^ n"
  shows "\<exists>s < 2 ^ n. probe_all (key_slot k) es (2 ^ n - 1) (keyhash k) = Some s \<and>
    (if k \<in> fst ` set (items es) then \<exists>d. es ! s = Some (k, d)
     else es ! s = None \<and> (\<exists>j < 2 ^ n. slot n (keyhash k) j = s \<and> (\<forall>i < j. es ! slot n (keyhash k) i \<noteq> None)))"
proof -
  have len: "length es = 2 ^ n" and re: "reached n es" using assms(2) by (simp_all add: slots_ok_def)
  obtain f where f: "f < 2 ^ n" "es ! f = None" using free_slot [of es] assms(3) len by auto
  then obtain s where s: "probe_all (key_slot k) es (2 ^ n - 1) (keyhash k) = Some s"
    using probe_all_total [OF assms(1) len f(1), of "key_slot k" "keyhash k"] by auto
  then obtain j where j: "j < 2 ^ n" "slot n (keyhash k) j = s" "key_slot k (es ! s)"
    "\<And>i. i < j \<Longrightarrow> \<not> key_slot k (es ! slot n (keyhash k) i)"
    using probe_all_Some [OF assms(1) len, of "key_slot k"] by blast
  have sl: "s < 2 ^ n" using j(2) slot_less by metis
  show ?thesis
  proof (cases "es ! s")
    case (Some e)
    then have "fst e = k" using j(3) by (simp split: prod.splits)
    moreover have "Some e \<in> set es" using Some sl len by (metis nth_mem)
    ultimately have "k \<in> fst ` set (items es)" "\<exists>d. es ! s = Some (k, d)"
      using Some by (auto simp: set_items image_iff) (metis prod.collapse)
    with s sl show ?thesis by auto
  next
    case None
    have before: "es ! slot n (keyhash k) i \<noteq> None" if "i < j" for i using j(4) [OF that] by (auto split: option.splits)
    have "k \<notin> fst ` set (items es)"
    proof
      assume "k \<in> fst ` set (items es)"
      then obtain d where "Some (k, d) \<in> set es" by (auto simp: set_items)
      then obtain s' where s': "s' < length es" "es ! s' = Some (k, d)" by (metis in_set_conv_nth)
      then obtain i where i: "i < 2 ^ n" "slot n (keyhash k) i = s'" "\<And>i'. i' < i \<Longrightarrow> es ! slot n (keyhash k) i' \<noteq> None"
        using re unfolding reached_def by blast
      consider "i < j" | "i = j" | "j < i" by linarith
      then show False
      proof cases
        case 1
        with j(4) [OF 1] i(2) s'(2) show False by simp
      next
        case 2
        with i(2) j(2) s'(2) None show False by simp
      next
        case 3
        with i(3) [OF 3] j(2) None show False by simp
      qed
    qed
    with None s sl j(1,2) before show ?thesis by auto
  qed
qed

lemma insert_slot:
  assumes "n < 64" "slots_ok n new" "length (items new) < 2 ^ n" "fst x \<notin> fst ` set (items new)"
  shows "\<exists>s < 2 ^ n. probe_all (\<lambda>e. e = None) new (2 ^ n - 1) (keyhash (fst x)) = Some s \<and> new ! s = None \<and>
    slots_ok n (new[s := Some x])"
proof -
  have len: "length new = 2 ^ n" using assms(2) by (simp add: slots_ok_def)
  obtain f where f: "f < 2 ^ n" "new ! f = None" using free_slot [of new] assms(3) len by auto
  then obtain s where s: "probe_all (\<lambda>e. e = None) new (2 ^ n - 1) (keyhash (fst x)) = Some s"
    using probe_all_total [OF assms(1) len f(1), of "\<lambda>e. e = None" "keyhash (fst x)"] by auto
  then have j: "\<exists>j < 2 ^ n. slot n (keyhash (fst x)) j = s \<and> new ! s = None \<and>
      (\<forall>i < j. new ! slot n (keyhash (fst x)) i \<noteq> None)"
    unfolding probe_all_Some [OF assms(1) len] .
  then have none: "new ! s = None" and sl: "s < 2 ^ n" using slot_less by (blast, metis)
  have "slots_ok n (new[s := Some x])"
    using store_ok [OF assms(1,2,4) sl none] j by blast
  with s none sl show ?thesis by blast
qed

lemma rehash_ok:
  assumes "n < 64" "slots_ok n new" "distinct (map fst (items es))" "fst ` set (items es) \<inter> fst ` set (items new) = {}"
    "length (items es) + length (items new) < 2 ^ n"
  shows "\<exists>new'. rehash es (2 ^ n - 1) new = Some new' \<and> slots_ok n new' \<and>
    set (items new') = set (items es) \<union> set (items new) \<and> length (items new') = length (items es) + length (items new)"
  using assms(2-)
proof (induction es arbitrary: new)
  case Nil
  then show ?case by (simp add: items_def)
next
  case (Cons e es)
  show ?case
  proof (cases e)
    case None
    show ?thesis
      using Cons.IH [OF Cons.prems(1)] Cons.prems(2-4) unfolding None rehash.simps items_None by blast
  next
    case (Some x)
    have it: "items (e # es) = x # items es" using Some by (simp only: items_Some)
    have new: "fst x \<notin> fst ` set (items new)" "length (items new) < 2 ^ n" using Cons.prems(3,4) it by auto
    obtain s where s: "s < 2 ^ n" "probe_all (\<lambda>e. e = None) new (2 ^ n - 1) (keyhash (fst x)) = Some s"
      "new ! s = None" "slots_ok n (new[s := Some x])"
      using insert_slot [OF assms(1) Cons.prems(1) new(2,1)] by blast
    let ?new = "new[s := Some x]"
    have "length new = 2 ^ n" using Cons.prems(1) by (simp add: slots_ok_def)
    then have up: "set (items ?new) = insert x (set (items new))" "length (items ?new) = Suc (length (items new))"
      using items_update_None(1,2) [of s new x] s(1,3) by simp_all
    have "distinct (map fst (items es))" using Cons.prems(2) it by simp
    moreover have "fst ` set (items es) \<inter> fst ` set (items ?new) = {}"
      using Cons.prems(2,3) unfolding it up(1) by auto
    moreover have "length (items es) + length (items ?new) < 2 ^ n" using Cons.prems(4) it up(2) by simp
    ultimately obtain new' where n': "rehash es (2 ^ n - 1) ?new = Some new'" "slots_ok n new'"
      "set (items new') = set (items es) \<union> set (items ?new)" "length (items new') = length (items es) + length (items ?new)"
      using Cons.IH [OF s(4)] by blast
    have "rehash (e # es) (2 ^ n - 1) new = Some new'"
      unfolding Some by (cases x) (use s(2) n'(1) in \<open>simp only: rehash.simps fst_conv bind.bind_lunit\<close>)
    then show ?thesis using n'(2-4) unfolding it up by (intro exI [of _ new']) (simp only:, simp)
  qed
qed

lemma grow_pow2: "\<exists>b \<ge> a. grow (2 ^ a) nel = 2 ^ b \<and> nel \<le> 2 ^ b"
proof (induction "nel - 2 ^ a" arbitrary: a rule: less_induct)
  case less
  show ?case
  proof (cases "2 ^ a < nel")
    case True
    then have "nel - 2 ^ Suc a < nel - 2 ^ a" by (intro diff_less_mono2) simp_all
    from less [OF this] obtain b where "b \<ge> Suc a" "grow (2 ^ Suc a) nel = 2 ^ b" "nel \<le> 2 ^ b" by blast
    with True show ?thesis by (intro exI [of _ b]) (simp add: grow.simps [of "2 ^ a"])
  next
    case False
    then show ?thesis by (intro exI [of _ a]) (simp add: grow.simps [of "2 ^ a"])
  qed
qed

definition table_ok :: "'d htab \<Rightarrow> bool" where
  "table_ok t \<longleftrightarrow> (\<exists>n. 3 \<le> n \<and> n < 59 \<and> slots_ok n (tab_entries t) \<and> tab_mask t = 2 ^ n - 1 \<and>
     tab_used t = of_nat (length (items (tab_entries t))) \<and>
     length (items (tab_entries t)) \<le> (2 ^ n - 1) - (2 ^ n - 1) div 4)"

lemma load_bound: "3 \<le> n \<Longrightarrow> (2 ^ n - 1) - (2 ^ n - 1) div 4 < (2 ^ n :: nat) \<and> 2 ^ n \<le> 2 * ((2 ^ n - 1) - (2 ^ n - 1) div (4::nat))"
proof -
  assume "3 \<le> n"
  then obtain m where "n = m + 3" by (metis add.commute le_Suc_ex)
  then have "(2::nat) ^ n = 8 * 2 ^ m" by (simp add: power_add)
  moreover obtain k where "(2::nat) ^ m = Suc k" by (metis not0_implies_Suc power_not_zero zero_neq_numeral)
  moreover have "(7 + 8 * k) div 4 = 1 + 2 * k" by presburger
  ultimately show ?thesis by simp
qed


lemma unat_load:
  assumes "n < 64"
  shows "unat (2 ^ n - 1 - (2 ^ n - 1) div 4 :: u64) = (2 ^ n - 1) - (2 ^ n - 1) div 4"
proof -
  have m: "unat (2 ^ n - 1 :: u64) = 2 ^ n - 1"
  proof -
    have "unat (2 ^ n - 1 :: u64) = take_bit n (mask 64)"
      using and_mask_slot [OF assms, of "- 1"] by (simp add: unsigned_minus_1_eq_mask take_bit_eq_mod)
    also have "\<dots> = mask n" using assms by (simp add: take_bit_of_mask min_def)
    finally show ?thesis by (simp add: mask_eq_exp_minus_1)
  qed
  have d: "unat ((2 ^ n - 1) div 4 :: u64) = (2 ^ n - 1) div 4" by (simp add: unat_div_distrib m)
  have "(2 ^ n - 1) div 4 \<le> (2 ^ n - 1 :: u64)" unfolding word_le_nat_alt m d by (rule div_le_dividend)
  then have "unat (2 ^ n - 1 - (2 ^ n - 1) div 4 :: u64) = unat (2 ^ n - 1 :: u64) - unat ((2 ^ n - 1) div 4 :: u64)"
    by (rule unat_sub)
  then show ?thesis unfolding m d .
qed

definition allocator :: "(nat \<Rightarrow> bool) \<Rightarrow> bool" where
  "allocator alloc \<longleftrightarrow> (\<forall>b. alloc b \<longrightarrow> b < 2 ^ 63)"

lemma items_replicate: "items (replicate m None) = []"
  by (simp add: items_def)

lemma slots_ok_empty: "slots_ok n (replicate (2 ^ n) None)"
  by (simp add: slots_ok_def reached_def items_def)

lemma new_size:
  assumes "allocator alloc" "alloc (grow (unat MINSIZE) nel * 16)"
  shows "\<exists>b. 3 \<le> b \<and> b < 59 \<and> grow (unat MINSIZE) nel = 2 ^ b \<and> nel \<le> 2 ^ b"
proof -
  have "unat MINSIZE = 2 ^ 3" by (simp add: MINSIZE_def)
  then obtain b where b: "3 \<le> b" "grow (unat MINSIZE) nel = 2 ^ b" "nel \<le> 2 ^ b" using grow_pow2 [of 3 nel] by auto
  have "(2::nat) ^ b * 2 ^ 4 < 2 ^ 63" using assms b(2) by (simp add: allocator_def)
  then have "(2::nat) ^ (b + 4) < 2 ^ 63" by (simp only: power_add)
  then have "b + 4 < 63" by (rule power_less_imp_less_exp [rotated]) simp
  with b show ?thesis by auto
qed

text \<open>A table that gained one entry too many is whole again after a resize that finds memory.\<close>

lemma resize_ok:
  assumes "allocator alloc" "alloc (grow (unat MINSIZE) (2 * length (items (tab_entries t))) * 16)"
    and "n < 59" "slots_ok n (tab_entries t)" "length (items (tab_entries t)) < 2 ^ n"
    and "tab_used t = of_nat (length (items (tab_entries t)))"
  shows "\<exists>t'. resize (2 * tab_used t) alloc True t = Some (t', True) \<and> table_ok t' \<and>
    length (tab_entries t') = grow (unat MINSIZE) (2 * length (items (tab_entries t))) \<and>
    set (items (tab_entries t')) = set (items (tab_entries t))"
proof -
  let ?c = "length (items (tab_entries t))"
  obtain b where b: "3 \<le> b" "b < 59" "grow (unat MINSIZE) (2 * ?c) = 2 ^ b" "2 * ?c \<le> 2 ^ b"
    using new_size [OF assms(1,2)] by blast
  have "(2::nat) ^ b < 2 ^ 59" "(2::nat) ^ n < 2 ^ 59" using b(2) assms(3) by (simp_all only: power_strict_increasing_iff numeral_eq_one_iff)+
  then have nel: "unat (2 * tab_used t) = 2 * ?c" and max: "\<not> MAXSIZE < 2 * tab_used t"
    using b(4) by (simp_all add: assms(6) MAXSIZE_def word_less_nat_alt unat_word_ariths unat_of_nat take_bit_eq_mod)
  have less: "?c < 2 ^ b" using b(4) zero_less_power [of "2::nat" b] by linarith
  obtain es where es: "rehash (tab_entries t) (2 ^ b - 1) (replicate (2 ^ b) None) = Some es" "slots_ok b es"
    "set (items es) = set (items (tab_entries t))" "length (items es) = ?c"
    using rehash_ok [of b "replicate (2 ^ b) None" "tab_entries t"] b assms(4,5) slots_ok_empty [of b]
      less by (auto simp: slots_ok_def items_replicate)
  have "resize (2 * tab_used t) alloc True t = Some (t\<lparr>tab_entries := es, tab_mask := 2 ^ b - 1\<rparr>, True)"
    using assms(2) by (simp add: resize_def max nel b(3) es(1))
  moreover have "table_ok (t\<lparr>tab_entries := es, tab_mask := 2 ^ b - 1\<rparr>)"
    unfolding table_ok_def using b(1,2) es(2,4) load_bound [OF b(1)] b(4) assms(6)
    by (intro exI [of _ b]) simp
  moreover have "length es = 2 ^ b" using es(2) by (simp add: slots_ok_def)
  ultimately show ?thesis using b(3) es(3) by auto
qed


section \<open>The table as a map\<close>

datatype 'd hcmd = Hsearch "bytes \<times> 'd" action "nat \<Rightarrow> bool"

fun hcmd_pre :: "'d hcmd \<Rightarrow> 'd htab \<Rightarrow> bool" where
  "hcmd_pre (Hsearch x act alloc) t \<longleftrightarrow> allocator alloc"

text \<open>A call answers with the data of the entry it returns.\<close>

fun hcmd_step :: "'d hcmd \<Rightarrow> 'd htab \<Rightarrow> ('d htab \<times> 'd option) option" where
  "hcmd_step (Hsearch x act alloc) t = do {
     (t', s) \<leftarrow> hsearch_r x act alloc t;
     Some (t', map_option (\<lambda>s. snd (the (tab_entries t' ! s))) s) }"

text \<open>
  The specification: a map with a capacity. A new key that would fill more than three quarters of the
  capacity needs a larger table, and is refused when there is no memory for it.
\<close>

fun hcmd_spec :: "'d hcmd \<Rightarrow> (bytes \<rightharpoonup> 'd) \<times> nat \<Rightarrow> ((bytes \<rightharpoonup> 'd) \<times> nat) \<times> 'd option" where
  "hcmd_spec (Hsearch (k, d) act alloc) (m, cap) =
     (if m k \<noteq> None \<or> act = FIND then ((m, cap), m k)
      else let c = Suc (card (dom m)) in
        if c \<le> (cap - 1) - (cap - 1) div 4 then ((m(k \<mapsto> d), cap), Some d)
        else let cap' = grow 8 (2 * c) in
          if alloc (cap' * 16) then ((m(k \<mapsto> d), cap'), Some d) else ((m, cap), None))"

definition table_map :: "'d htab \<Rightarrow> (bytes \<rightharpoonup> 'd) \<times> nat" where
  "table_map t = (map_of (items (tab_entries t)), length (tab_entries t))"

lemma table_okE:
  assumes "table_ok t"
  obtains n where "3 \<le> n" "n < 59" "slots_ok n (tab_entries t)" "tab_mask t = 2 ^ n - 1"
    "tab_used t = of_nat (length (items (tab_entries t)))"
    "length (items (tab_entries t)) \<le> (2 ^ n - 1) - (2 ^ n - 1) div 4"
    "length (items (tab_entries t)) < 2 ^ n" "length (tab_entries t) = 2 ^ n"
    "distinct (map fst (items (tab_entries t)))"
proof -
  from assms obtain n where n: "3 \<le> n" "n < 59" "slots_ok n (tab_entries t)" "tab_mask t = 2 ^ n - 1"
    "tab_used t = of_nat (length (items (tab_entries t)))"
    "length (items (tab_entries t)) \<le> (2 ^ n - 1) - (2 ^ n - 1) div 4"
    unfolding table_ok_def by blast
  moreover have "length (items (tab_entries t)) < 2 ^ n" using le_less_trans [OF n(6)] load_bound [OF n(1)] by blast
  ultimately show ?thesis using that [OF n] unfolding slots_ok_def by blast
qed

lemma lookup_cases:
  assumes "table_ok t"
  obtains (found) s d where "s < length (tab_entries t)" "lookup k (keyhash k) t = Some s"
      "tab_entries t ! s = Some (k, d)" "map_of (items (tab_entries t)) k = Some d"
  | (free) s n where "s < length (tab_entries t)" "lookup k (keyhash k) t = Some s" "tab_entries t ! s = None"
      "map_of (items (tab_entries t)) k = None" "\<And>d. slots_ok n ((tab_entries t)[s := Some (k, d)])"
      "length (tab_entries t) = 2 ^ n"
proof -
  obtain n where n: "3 \<le> n" "n < 59" "slots_ok n (tab_entries t)" "tab_mask t = 2 ^ n - 1"
    "length (items (tab_entries t)) < 2 ^ n" "length (tab_entries t) = 2 ^ n" "distinct (map fst (items (tab_entries t)))"
    using assms by (rule table_okE)
  have n64: "n < 64" using n(2) by simp
  obtain s where s: "s < 2 ^ n" "lookup k (keyhash k) t = Some s" and
    ks: "if k \<in> fst ` set (items (tab_entries t)) then \<exists>d. tab_entries t ! s = Some (k, d)
     else tab_entries t ! s = None \<and> (\<exists>j < 2 ^ n. slot n (keyhash k) j = s \<and>
       (\<forall>i < j. tab_entries t ! slot n (keyhash k) i \<noteq> None))"
    using lookup_slot [OF n64 n(3,5), of k] unfolding lookup_def n(4) by blast
  show ?thesis
  proof (cases "k \<in> fst ` set (items (tab_entries t))")
    case True
    then obtain d where d: "tab_entries t ! s = Some (k, d)" using ks by auto
    then have "(k, d) \<in> set (items (tab_entries t))" using s(1) n(6) by (metis nth_mem set_items)
    then have "map_of (items (tab_entries t)) k = Some d" using n(7) by simp
    with d s n(6) show ?thesis by (intro found) simp_all
  next
    case False
    then have none: "map_of (items (tab_entries t)) k = None" by (simp add: map_of_eq_None_iff)
    have e: "tab_entries t ! s = None" "\<exists>j < 2 ^ n. slot n (keyhash k) j = s \<and> (\<forall>i < j. tab_entries t ! slot n (keyhash k) i \<noteq> None)"
      using False ks by auto
    have "slots_ok n ((tab_entries t)[s := Some (k, d)])" for d
      using store_ok [OF n64 n(3) _ s(1) e(1), of "(k, d)"] False e(2) by (simp only: fst_conv not_False_eq_True)
    with none e(1) s n(6) show ?thesis by (intro free) simp_all
  qed
qed

lemma map_of_items_insert:
  assumes "s < length es" "es ! s = None" "distinct (map fst (items es'))" "distinct (map fst (items (es[s := Some (k, d)])))"
    "set (items es') = set (items (es[s := Some (k, d)]))"
  shows "map_of (items es') = (map_of (items es))(k \<mapsto> d)"
proof -
  have "distinct (map fst (items es)) \<and> k \<notin> fst ` set (items es)"
    using assms(4) items_update_None(3) [OF assms(1,2), of "(k, d)"] by simp
  then have "map_of (items es') = map_of ((k, d) # items es)"
    using assms(3,5) items_update_None(1) [OF assms(1,2), of "(k, d)"] by (intro map_of_inject_set [THEN iffD2]) simp_all
  then show ?thesis by simp
qed

lemma card_dom_items: "distinct (map fst (items es)) \<Longrightarrow> card (dom (map_of (items es))) = length (items es)"
  by (metis dom_map_of_conv_image_fst distinct_card length_map set_map)


text \<open>Entering a new key: the table with the key, before and after a resize.\<close>

lemma enter_ok:
  assumes "table_ok t" "allocator alloc" "s < length (tab_entries t)" "tab_entries t ! s = None"
    and "slots_ok n ((tab_entries t)[s := Some (k, d)])" "length (tab_entries t) = 2 ^ n"
  defines "t1 \<equiv> t\<lparr>tab_entries := (tab_entries t)[s := Some (k, d)], tab_used := tab_used t + 1\<rparr>"
    and "c \<equiv> Suc (length (items (tab_entries t)))"
  shows "tab_used t1 > tab_mask t1 - tab_mask t1 div 4 \<longleftrightarrow> \<not> c \<le> (2 ^ n - 1) - (2 ^ n - 1) div 4"
    and "c \<le> (2 ^ n - 1) - (2 ^ n - 1) div 4 \<Longrightarrow> table_ok t1"
    and "alloc (grow 8 (2 * c) * 16) \<Longrightarrow> \<exists>t2. resize (2 * tab_used t1) alloc True t1 = Some (t2, True) \<and> table_ok t2 \<and>
      length (tab_entries t2) = grow 8 (2 * c) \<and> set (items (tab_entries t2)) = set (items (tab_entries t1))"
    and "\<not> alloc (grow 8 (2 * c) * 16) \<Longrightarrow> resize (2 * tab_used t1) alloc True t1 = Some (t1, False)"
proof -
  obtain n' where n': "3 \<le> n'" "n' < 59" "tab_mask t = 2 ^ n' - 1" "tab_used t = of_nat (length (items (tab_entries t)))"
    "length (items (tab_entries t)) \<le> (2 ^ n' - 1) - (2 ^ n' - 1) div 4" "length (tab_entries t) = 2 ^ n'"
    using assms(1) by (rule table_okE)
  have [simp]: "n' = n" using n'(6) assms(6) by simp
  have c: "length (items (tab_entries t1)) = c" "tab_used t1 = of_nat c"
    using items_update_None(2) [OF assms(3,4)] by (simp_all add: t1_def c_def n'(4) add.commute)
  have "c < 2 ^ n"
  proof -
    have "c \<le> Suc ((2 ^ n - 1) - (2 ^ n - 1) div 4)" using n'(5) by (simp add: c_def)
    moreover have "8 \<le> (2::nat) ^ n" using n'(1) power_increasing [of 3 n "2::nat"] by simp
    ultimately show ?thesis by linarith
  qed
  moreover have "(2::nat) ^ n < 2 ^ 59" using n'(2) by (simp only: \<open>n' = n\<close>) (rule power_strict_increasing, simp_all)
  ultimately have uc: "unat (of_nat c :: u64) = c" and u2: "unat (2 * of_nat c :: u64) = 2 * c"
    and mx: "\<not> MAXSIZE < 2 * (of_nat c :: u64)"
    by (simp_all add: MAXSIZE_def word_less_nat_alt unat_word_ariths unat_of_nat take_bit_eq_mod)
  show used: "tab_used t1 > tab_mask t1 - tab_mask t1 div 4 \<longleftrightarrow> \<not> c \<le> (2 ^ n - 1) - (2 ^ n - 1) div 4"
    using n'(2) unfolding word_less_nat_alt c(2) uc by (simp add: t1_def n'(3) unat_load not_le del: One_nat_def)
  have ok: "slots_ok n (tab_entries t1)" "tab_mask t1 = 2 ^ n - 1" using assms(5) by (simp_all add: t1_def n'(3))
  show "table_ok t1" if "c \<le> (2 ^ n - 1) - (2 ^ n - 1) div 4"
    unfolding table_ok_def using n'(1,2) ok that c by (intro exI [of _ n]) simp
  have m8: "unat MINSIZE = 8" by (simp add: MINSIZE_def)
  show "\<exists>t2. resize (2 * tab_used t1) alloc True t1 = Some (t2, True) \<and> table_ok t2 \<and>
      length (tab_entries t2) = grow 8 (2 * c) \<and> set (items (tab_entries t2)) = set (items (tab_entries t1))"
    if "alloc (grow 8 (2 * c) * 16)"
    using resize_ok [of alloc t1 n] assms(2) that n'(2) ok(1) \<open>c < 2 ^ n\<close> c unfolding m8 c(1) by simp
  show "resize (2 * tab_used t1) alloc True t1 = Some (t1, False)" if "\<not> alloc (grow 8 (2 * c) * 16)"
    using that mx by (simp add: resize_def c(2) m8 u2)
qed

lemma hcmd_simulation:
  assumes "table_ok t" "hcmd_pre cmd t"
  shows "\<exists>t'. hcmd_step cmd t = Some (t', snd (hcmd_spec cmd (table_map t))) \<and> table_ok t' \<and>
    table_map t' = fst (hcmd_spec cmd (table_map t))"
proof -
  obtain k d act alloc where cmd: "cmd = Hsearch (k, d) act alloc" by (metis hcmd.exhaust prod.exhaust)
  have al: "allocator alloc" using assms(2) cmd by simp
  show ?thesis
    using assms(1)
  proof (cases rule: lookup_cases [of t k])
    case (found s d')
    then show ?thesis using assms(1) by (simp add: cmd hsearch_r_def Let_def table_map_def)
  next
    case (free s n)
    note enter = enter_ok [OF assms(1) al free(1,3) free(5) [of d] free(6)]
    let ?es = "tab_entries t"
    let ?t1 = "t\<lparr>tab_entries := ?es[s := Some (k, d)], tab_used := tab_used t + 1\<rparr>"
    let ?c = "Suc (length (items ?es))"
    have dist: "distinct (map fst (items ?es))" using assms(1) by (rule table_okE)
    have dist1: "distinct (map fst (items (?es[s := Some (k, d)])))" using free(5) by (simp add: slots_ok_def)
    note card = card_dom_items [OF dist]
    note map1 = map_of_items_insert [OF free(1,3) _ dist1]
    consider (find) "act = FIND" | (room) "act = ENTER" "?c \<le> (2 ^ n - 1) - (2 ^ n - 1) div 4"
      | (resized) "act = ENTER" "\<not> ?c \<le> (2 ^ n - 1) - (2 ^ n - 1) div 4" "alloc (grow 8 (2 * ?c) * 16)"
      | (failed) "act = ENTER" "\<not> ?c \<le> (2 ^ n - 1) - (2 ^ n - 1) div 4" "\<not> alloc (grow 8 (2 * ?c) * 16)"
      by (cases act) (blast, blast)
    then show ?thesis
    proof cases
      case find
      then show ?thesis using free assms(1) by (simp add: cmd hsearch_r_def Let_def table_map_def)
    next
      case room
      have "hsearch_r (k, d) act alloc t = Some (?t1, Some s)"
        using room enter(1) free(2,3) by (simp add: hsearch_r_def)
      then show ?thesis
        using enter(2) [OF room(2)] room free(1,4,6) map1 [OF dist1 refl]
        by (simp add: cmd table_map_def card Let_def del: One_nat_def)
    next
      case resized
      obtain t2 where t2: "resize (2 * tab_used ?t1) alloc True ?t1 = Some (t2, True)" "table_ok t2"
        "length (tab_entries t2) = grow 8 (2 * ?c)" "set (items (tab_entries t2)) = set (items (tab_entries ?t1))"
        using enter(3) [OF resized(3)] by blast
      have dist2: "distinct (map fst (items (tab_entries t2)))" using t2(2) by (rule table_okE)
      have m2: "map_of (items (tab_entries t2)) = (map_of (items ?es))(k \<mapsto> d)"
        using map1 [OF dist2] t2(4) by simp
      obtain s2 where s2: "lookup k (keyhash k) t2 = Some s2" "tab_entries t2 ! s2 = Some (k, d)"
        using t2(2)
      proof (cases rule: lookup_cases [of t2 k])
        case found
        with m2 show ?thesis by (intro that) simp_all
      next
        case free
        with m2 show ?thesis by simp
      qed
      have "hsearch_r (k, d) act alloc t = Some (t2, Some s2)"
        using resized(1,2) enter(1) free(2,3) t2(1) s2(1) by (simp add: hsearch_r_def)
      then show ?thesis
        using t2(2,3) resized free(4,6) m2 s2(2) by (simp add: cmd table_map_def card Let_def del: One_nat_def)
    next
      case failed
      have "?es[s := None] = ?es" using free(3) by (metis list_update_id)
      then have "hsearch_r (k, d) act alloc t = Some (t, None)"
        using failed(1,2) enter(1) enter(4) [OF failed(3)] free(2,3) by (simp add: hsearch_r_def)
      then show ?thesis
        using assms(1) failed free(4,6) by (simp add: cmd table_map_def card Let_def del: One_nat_def)
    qed
  qed
qed

interpretation table: simulation table_ok hcmd_pre table_map hcmd_step hcmd_spec
  by unfold_locales (rule hcmd_simulation)

lemma hcreate_ok:
  assumes "allocator alloc"
  shows "hcreate_r nel alloc = Some (if alloc 24 \<and> alloc (grow 8 (min (unat nel) (2 ^ 63)) * 16)
     then (Some \<lparr>tab_entries = replicate (grow 8 (min (unat nel) (2 ^ 63))) None,
             tab_mask = of_nat (grow 8 (min (unat nel) (2 ^ 63))) - 1, tab_used = 0\<rparr>, True) else (None, False))"
    and "hcreate_r nel alloc = Some (Some t, r) \<Longrightarrow> table_ok t"
proof -
  have m8: "unat MINSIZE = 8" by (simp add: MINSIZE_def)
  have nel: "unat (if nel > MAXSIZE then MAXSIZE else nel) = min (unat nel) (2 ^ 63)"
    by (simp add: MAXSIZE_def word_less_nat_alt min_def)
  show eq: "hcreate_r nel alloc = Some (if alloc 24 \<and> alloc (grow 8 (min (unat nel) (2 ^ 63)) * 16)
     then (Some \<lparr>tab_entries = replicate (grow 8 (min (unat nel) (2 ^ 63))) None,
             tab_mask = of_nat (grow 8 (min (unat nel) (2 ^ 63))) - 1, tab_used = 0\<rparr>, True) else (None, False))"
    unfolding hcreate_r_def resize_def Let_def nel m8 by simp
  show "table_ok t" if "hcreate_r nel alloc = Some (Some t, r)"
  proof -
    have al: "alloc (grow 8 (min (unat nel) (2 ^ 63)) * 16)" using that unfolding eq by (simp split: if_splits)
    then obtain b where b: "3 \<le> b" "b < 59" "grow 8 (min (unat nel) (2 ^ 63)) = 2 ^ b"
      using new_size [OF assms, unfolded m8] by blast
    have "t = \<lparr>tab_entries = replicate (2 ^ b) None, tab_mask = 2 ^ b - 1, tab_used = 0\<rparr>"
      using that unfolding eq b(3) by (simp split: if_splits)
    with b slots_ok_empty [of b] show ?thesis
      unfolding table_ok_def by (intro exI [of _ b]) (simp add: items_replicate)
  qed
qed


lemma table_map_hcreate:
  assumes "allocator alloc" "hcreate_r nel alloc = Some (Some t, r)"
  shows "table_map t = (Map.empty, length (tab_entries t))"
  using assms(2) unfolding hcreate_ok(1) [OF assms(1)] by (auto simp: table_map_def items_replicate split: if_splits)

section \<open>Properties\<close>

text \<open>
  C35. After \<open>hcreate_r\<close> any sequence of \<open>hsearch_r\<close> calls ends, whatever the outcomes of \<open>calloc\<close> (which
  never gives more than \<open>PTRDIFF_MAX\<close> bytes), and answers as a map from keys to data does: \<open>FIND\<close> gives the
  binding, \<open>ENTER\<close> keeps an existing binding and adds a missing one, or refuses it and changes nothing when
  the table would be more than three quarters full and cannot be enlarged. The table stays well formed.
\<close>

theorem hsearch_refines_map:
  assumes "allocator alloc" "hcreate_r nel alloc = Some (Some t, True)" "run_pre hcmd_pre hcmd_step cs t"
  shows "\<exists>t'. run_impl hcmd_step cs t =
      Some (t', snd (run_spec hcmd_spec cs (Map.empty, length (tab_entries t)))) \<and> table_ok t' \<and>
    table_map t' = fst (run_spec hcmd_spec cs (Map.empty, length (tab_entries t)))"
  using table.run_refines [OF hcreate_ok(2) [OF assms(1,2)] assms(3)] table_map_hcreate [OF assms(1,2)] by simp

lemma grow_8: "nel \<le> 8 \<Longrightarrow> grow 8 nel = 8"
  by (simp add: grow.simps [of 8])

theorem hsearch_refines_map_witness:
  "\<exists>t t'. hcreate_r 5 (\<lambda>b. b < 1000) = Some (Some t, True) \<and>
     run_impl hcmd_step [Hsearch ([97], 1) ENTER (\<lambda>_. False), Hsearch ([97], 2) ENTER (\<lambda>_. False),
       Hsearch ([98], 3) FIND (\<lambda>_. False)] t = Some (t', [Some 1, Some 1, None :: nat option])"
proof -
  let ?cs = "[Hsearch ([97], 1) ENTER (\<lambda>_. False), Hsearch ([97], 2) ENTER (\<lambda>_. False),
       Hsearch ([98], 3) FIND (\<lambda>_. False)] :: nat hcmd list"
  have al: "allocator (\<lambda>b. b < 1000)" "allocator (\<lambda>_. False)" by (simp_all add: allocator_def)
  define t :: "nat htab" where "t = \<lparr>tab_entries = replicate 8 None, tab_mask = 7, tab_used = 0\<rparr>"
  have t: "hcreate_r 5 (\<lambda>b. b < 1000) = Some (Some t, True)" by (simp add: hcreate_ok(1) al grow_8 t_def)
  have "length (tab_entries t) = 8" by (simp add: t_def)
  moreover have "run_pre hcmd_pre hcmd_step ?cs t" by (simp add: al split: option.split)
  ultimately obtain t' where "run_impl hcmd_step ?cs t = Some (t', snd (run_spec hcmd_spec ?cs (Map.empty, 8)))"
    using hsearch_refines_map [OF al(1) t] by fastforce
  then show ?thesis using t by (simp add: Let_def)
qed

text \<open>
  C36. The probe loop of \<open>lookup\<close>, which has no bound of its own, ends for every key and every hash value
  as long as the table has a power of two of slots and one of them is free: it looks at each slot at most
  once.
\<close>

theorem lookup_terminates:
  assumes "n < 64" "length (tab_entries t) = 2 ^ n" "tab_mask t = 2 ^ n - 1" "None \<in> set (tab_entries t)"
  shows "\<exists>s < 2 ^ n. lookup k hash t = Some s \<and> (tab_entries t ! s = None \<or> (\<exists>d. tab_entries t ! s = Some (k, d)))"
proof -
  obtain f where f: "f < 2 ^ n" "tab_entries t ! f = None" using assms(2,4) by (metis in_set_conv_nth)
  then obtain s where s: "lookup k hash t = Some s"
    using probe_all_total [OF assms(1,2) f(1), of "key_slot k" hash] by (auto simp: lookup_def assms(3))
  then have "key_slot k (tab_entries t ! s)" "\<exists>j < 2 ^ n. slot n hash j = s"
    unfolding lookup_def assms(3) probe_all_Some [OF assms(1,2)] by blast+
  then show ?thesis using s slot_less [of n hash] by (cases "tab_entries t ! s") auto
qed

theorem lookup_terminates_witness:
  "\<exists>s < 8. lookup [97] 5 \<lparr>tab_entries = [None, None] @ replicate 6 (Some ([98], ())), tab_mask = 7, tab_used = 6\<rparr> = Some s \<and> s < 2"
proof -
  let ?t = "\<lparr>tab_entries = [None, None] @ replicate 6 (Some ([98], ())), tab_mask = 7, tab_used = 6\<rparr>"
  obtain s where s: "s < 8" "lookup [97] 5 ?t = Some s" "tab_entries ?t ! s = None \<or> (\<exists>d. tab_entries ?t ! s = Some ([97], d))"
    using lookup_terminates [of 3 ?t "[97]" 5] by auto
  have "s < 2" using s(1,3) by (cases "s < 2") (auto simp: nth_append)
  with s show ?thesis by blast
qed

end
