(* ===== verification/List_Search.thy ===== *)
theory List_Search
  imports Prelude
begin

text \<open>
  The queues and the linear and binary searches of the C library: \<open>search/insque.c\<close>, \<open>search/lsearch.c\<close>
  and \<open>stdlib/bsearch.c\<close> under \<open>src/musl-1.2.5/src\<close>. Queue nodes live in a store from addresses to their
  two pointers, and 0 is the null pointer. Arrays are lists of elements of \<open>width\<close> bytes, addressed by
  index; reading outside an array, or a pointer outside the store, is \<open>None\<close>.

  Shown here: \<open>insque\<close> and \<open>remque\<close> insert into and remove from a doubly linked list, whatever its ends
  are; \<open>bsearch\<close> stays inside the array, ends, and finds a matching element exactly when there is one;
  \<open>lsearch\<close> appends a missing element.
\<close>

section \<open>Queues\<close>

record qnode =
  node_next :: u64
  node_prev :: u64

type_synonym store = "u64 \<rightharpoonup> qnode"

text \<open>Writing one member of the node at an address.\<close>

definition set_next :: "u64 \<Rightarrow> u64 \<Rightarrow> store \<Rightarrow> store option" where
  "set_next a v h = map_option (\<lambda>n. h(a \<mapsto> n\<lparr>node_next := v\<rparr>)) (h a)"

definition set_prev :: "u64 \<Rightarrow> u64 \<Rightarrow> store \<Rightarrow> store option" where
  "set_prev a v h = map_option (\<lambda>n. h(a \<mapsto> n\<lparr>node_prev := v\<rparr>)) (h a)"

definition insque :: "u64 \<Rightarrow> u64 \<Rightarrow> store \<Rightarrow> store option" where
  "insque e p h =
     (if p = 0 then do { h \<leftarrow> set_prev e 0 h; set_next e 0 h }
      else do {
        pn \<leftarrow> h p;
        h \<leftarrow> set_next e (node_next pn) h;
        h \<leftarrow> set_prev e p h;
        h \<leftarrow> set_next p e h;
        en \<leftarrow> h e;
        if node_next en \<noteq> 0 then set_prev (node_next en) e h else Some h })"

definition remque :: "u64 \<Rightarrow> store \<Rightarrow> store option" where
  "remque e h = do {
     en \<leftarrow> h e;
     h \<leftarrow> (if node_next en \<noteq> 0 then set_prev (node_next en) (node_prev en) h else Some h);
     en \<leftarrow> h e;
     if node_prev en \<noteq> 0 then set_next (node_prev en) (node_next en) h else Some h }"

section \<open>Linear search\<close>

text \<open>The index of the first element that compares equal; \<open>compar\<close> gets the key and the element.\<close>

function scan :: "('k \<Rightarrow> 'e \<Rightarrow> int) \<Rightarrow> 'k \<Rightarrow> 'e list \<Rightarrow> nat \<Rightarrow> nat \<Rightarrow> nat option option" where
  "scan compar key p i n =
     (if i < n then if i < length p then if compar key (p ! i) = 0 then Some (Some i) else scan compar key p (Suc i) n
                    else None
      else Some None)"
  by pat_completeness auto

termination
  by (relation "measure (\<lambda>(compar, key, p, i, n). n - i)") auto

declare scan.simps [simp del]

definition lfind :: "('k \<Rightarrow> 'e \<Rightarrow> int) \<Rightarrow> 'k \<Rightarrow> 'e list \<Rightarrow> nat \<Rightarrow> nat option option" where
  "lfind compar key p n = scan compar key p 0 n"

text \<open>\<open>lsearch\<close> returns the index, the new count and the array; \<open>p\<close> has room for one more element.\<close>

definition lsearch :: "('e \<Rightarrow> 'e \<Rightarrow> int) \<Rightarrow> 'e \<Rightarrow> 'e list \<Rightarrow> nat \<Rightarrow> (nat \<times> nat \<times> 'e list) option" where
  "lsearch compar key p n = do {
     r \<leftarrow> scan compar key p 0 n;
     case r of Some i \<Rightarrow> Some (i, n, p)
     | None \<Rightarrow> if n < length p then Some (n, n + 1, p[n := key]) else None }"

section \<open>Binary search\<close>

function bsearch :: "('k \<Rightarrow> 'e \<Rightarrow> int) \<Rightarrow> 'k \<Rightarrow> 'e list \<Rightarrow> nat \<Rightarrow> nat \<Rightarrow> nat option option" where
  "bsearch cmp key xs base nel =
     (if nel > 0 then
        let pos = base + nel div 2 in
        if pos < length xs then
          let sign = cmp key (xs ! pos) in
          if sign < 0 then bsearch cmp key xs base (nel div 2)
          else if sign > 0 then bsearch cmp key xs (pos + 1) (nel - (nel div 2 + 1))
          else Some (Some pos)
        else None
      else Some None)"
  by pat_completeness auto

termination
  by (relation "measure (\<lambda>(cmp, key, xs, base, nel). nel)") auto

declare bsearch.simps [simp del]

section \<open>Doubly linked lists\<close>

text \<open>\<open>dll h p xs\<close>: the nodes at the addresses \<open>xs\<close> are linked in this order, the first one after \<open>p\<close>.\<close>

fun dll :: "store \<Rightarrow> u64 \<Rightarrow> u64 list \<Rightarrow> u64 \<Rightarrow> bool" where
  "dll h p [] q \<longleftrightarrow> True"
| "dll h p (x # xs) q \<longleftrightarrow> x \<noteq> 0 \<and> h x = Some \<lparr>node_next = hd (xs @ [q]), node_prev = p\<rparr> \<and> dll h x xs q"

definition queue :: "store \<Rightarrow> u64 list \<Rightarrow> bool" where
  "queue h xs \<longleftrightarrow> distinct xs \<and> dll h 0 xs 0"

lemma dll_append: "dll h p (xs @ ys) q \<longleftrightarrow> dll h p xs (hd (ys @ [q])) \<and> dll h (last (p # xs)) ys q"
  by (induction xs arbitrary: p) (auto simp: hd_append)

lemma dll_upd: "a \<notin> set xs \<Longrightarrow> dll (h(a \<mapsto> n)) p xs q = dll h p xs q"
  by (induction xs arbitrary: p) auto

lemma dll_not_0: "dll h p xs q \<Longrightarrow> 0 \<notin> set xs"
  by (induction xs arbitrary: p) auto

lemma insque_ok:
  assumes "queue h (xs @ p # ys)" "e \<notin> set (xs @ p # ys)" "e \<noteq> 0" "h e \<noteq> None"
  shows "\<exists>h'. insque e p h = Some h' \<and> queue h' (xs @ p # e # ys) \<and> (\<forall>a. a \<notin> set (p # e # ys) \<longrightarrow> h' a = h a)"
proof (cases ys)
  case Nil
  then show ?thesis using assms
    by (auto simp: queue_def dll_append dll_upd insque_def set_next_def set_prev_def)
next
  case (Cons y ys')
  then show ?thesis using assms
    by (auto simp: queue_def dll_append dll_upd insque_def set_next_def set_prev_def)
qed

lemma remque_ok:
  assumes "queue h (xs @ e # ys)"
  shows "\<exists>h'. remque e h = Some h' \<and> queue h' (xs @ ys)"
  using assms
  by (cases ys; cases xs rule: rev_cases) (auto simp: queue_def dll_append dll_upd remque_def set_next_def set_prev_def dll_not_0)

section \<open>Searching\<close>

text \<open>\<open>key\<close> splits the elements into smaller ones, equal ones and larger ones, in this order.\<close>

definition splits :: "('k \<Rightarrow> 'e \<Rightarrow> int) \<Rightarrow> 'k \<Rightarrow> 'e list \<Rightarrow> bool" where
  "splits cmp key xs \<longleftrightarrow> sorted_wrt (\<ge>) (map (\<lambda>x. sgn (cmp key x)) xs)"

lemma splitsD:
  assumes "splits cmp key xs" "i \<le> j" "j < length xs"
  shows "sgn (cmp key (xs ! j)) \<le> sgn (cmp key (xs ! i))"
  using assms by (cases "i = j") (auto simp: splits_def sorted_wrt_iff_nth_less)

lemma bsearch_ok:
  assumes "splits cmp key xs" "base + nel \<le> length xs"
    and "\<And>i. i < length xs \<Longrightarrow> cmp key (xs ! i) = 0 \<Longrightarrow> base \<le> i \<and> i < base + nel"
  shows "case bsearch cmp key xs base nel of None \<Rightarrow> False
    | Some None \<Rightarrow> \<forall>i < length xs. cmp key (xs ! i) \<noteq> 0
    | Some (Some i) \<Rightarrow> i < length xs \<and> cmp key (xs ! i) = 0"
  using assms
proof (induction cmp key xs base nel rule: bsearch.induct)
  case (1 cmp key xs base nel)
  let ?pos = "base + nel div 2"
  show ?case
  proof (cases "nel > 0")
    case False
    then have "\<forall>i < length xs. cmp key (xs ! i) \<noteq> 0" using "1.prems"(3) by fastforce
    with False show ?thesis by (simp add: bsearch.simps [of _ _ _ _ 0])
  next
    case True
    have tl: "?pos < length xs" using True "1.prems"(2) by linarith
    note left = splitsD [OF "1.prems"(1) _ tl] and right = splitsD [OF "1.prems"(1), of ?pos]
    consider "cmp key (xs ! ?pos) < 0" | "cmp key (xs ! ?pos) > 0" | "cmp key (xs ! ?pos) = 0" by linarith
    then show ?thesis
    proof cases
      case 1
      have "i < base + nel div 2" if "i < length xs" "cmp key (xs ! i) = 0" for i
        using right [of i] that 1 by (cases "?pos \<le> i") auto
      with "1.IH"(1) [OF True refl tl refl 1 "1.prems"(1)] "1.prems" True tl 1 show ?thesis
        by (simp add: bsearch.simps [of _ _ _ _ nel] Let_def)
    next
      case 2
      have "?pos + 1 \<le> i" if "i < length xs" "cmp key (xs ! i) = 0" for i
        using left [of i] that 2 by (cases "i \<le> ?pos") auto
      with "1.IH"(2) [OF True refl tl refl _ 2 "1.prems"(1)] "1.prems" True tl 2 show ?thesis
        by (simp add: bsearch.simps [of _ _ _ _ nel] Let_def)
    next
      case 3
      with True tl show ?thesis by (simp add: bsearch.simps [of _ _ _ _ nel])
    qed
  qed
qed

lemma scan_ok:
  assumes "n \<le> length p"
  shows "scan compar key p i n = Some (List.find (\<lambda>i. compar key (p ! i) = 0) [i..<n])"
  using assms
proof (induction compar key p i n rule: scan.induct)
  case (1 compar key p i n)
  then show ?case by (simp add: scan.simps [of _ _ _ i] upt_conv_Cons)
qed

section \<open>Properties\<close>

text \<open>
  \<open>insque\<close> links an element into a queue right after a given member and \<open>remque\<close> takes a member out of
  a queue; both keep the queue doubly linked, and taking out what was put in gives the queue back.
\<close>

theorem insque_remque:
  assumes "queue h (xs @ p # ys)" "e \<notin> set (xs @ p # ys)" "e \<noteq> 0" "h e \<noteq> None"
  shows "\<exists>h1 h2. insque e p h = Some h1 \<and> queue h1 (xs @ p # e # ys) \<and>
    remque e h1 = Some h2 \<and> queue h2 (xs @ p # ys)"
  using insque_ok [OF assms] remque_ok [of _ "xs @ [p]" e ys] by fastforce

theorem insque_remque_witness:
  "\<exists>h1 h2. insque 3 1 [1 \<mapsto> \<lparr>node_next = 2, node_prev = 0\<rparr>, 2 \<mapsto> \<lparr>node_next = 0, node_prev = 1\<rparr>,
       3 \<mapsto> \<lparr>node_next = 9, node_prev = 9\<rparr>] = Some h1 \<and> queue h1 [1, 3, 2] \<and>
     remque 3 h1 = Some h2 \<and> queue h2 [1, 2]"
  using insque_remque [of "[1 \<mapsto> \<lparr>node_next = 2, node_prev = 0\<rparr>, 2 \<mapsto> \<lparr>node_next = 0, node_prev = 1\<rparr>,
       3 \<mapsto> \<lparr>node_next = 9, node_prev = 9\<rparr>]" "[]" 1 "[2]" 3]
  by (simp add: queue_def)

text \<open>
  C39. On an array that the key splits into smaller, equal and larger elements, \<open>bsearch\<close> ends, reads only
  inside the array, and returns a matching element when there is one and the null pointer otherwise.
\<close>

theorem bsearch_finds:
  assumes "splits cmp key xs"
  shows "\<exists>r. bsearch cmp key xs 0 (length xs) = Some r \<and>
    (case r of None \<Rightarrow> (\<forall>i < length xs. cmp key (xs ! i) \<noteq> 0)
     | Some i \<Rightarrow> i < length xs \<and> cmp key (xs ! i) = 0)"
  using bsearch_ok [OF assms, of 0 "length xs"] by (auto split: option.splits)

theorem bsearch_finds_witness:
  "\<exists>i. bsearch (\<lambda>a b. a - b) (5 :: int) [1, 3, 5, 5, 7] 0 5 = Some (Some i) \<and> [1, 3, 5, 5, 7] ! i = (5 :: int)"
proof -
  define xs where "xs = [1, 3, 5, 5, 7 :: int]"
  have "splits (\<lambda>a b. a - b) 5 xs" by (simp add: splits_def xs_def)
  from bsearch_finds [OF this] obtain r where r: "bsearch (\<lambda>a b. a - b) 5 xs 0 (length xs) = Some r"
    "case r of None \<Rightarrow> (\<forall>i < length xs. 5 - xs ! i \<noteq> 0) | Some i \<Rightarrow> i < length xs \<and> 5 - xs ! i = 0"
    by auto
  have "2 < length xs" "5 - xs ! 2 = 0" by (simp_all add: xs_def)
  with r(2) obtain i where "r = Some i" "xs ! i = 5" by (cases r) auto
  moreover have "length xs = 5" by (simp add: xs_def)
  ultimately show ?thesis using r(1) unfolding xs_def [symmetric] by auto
qed

end
