(* ===== verification/Multibyte.thy ===== *)
theory Multibyte
  imports Prelude
begin

text \<open>
  Multibyte characters, \<open>src/musl-1.2.5/src/multibyte\<close>: the UTF-8 decoder with its state table, the
  encoder, the string conversions and the UTF-16 and UTF-32 interfaces. \<open>wchar_t\<close> is 32 bits wide;
  \<open>MB_CUR_MAX\<close> is 4 in a UTF-8 locale and 1 in the C locale, where bytes above 0x7f stand for code units
  0xdf80 to 0xdfff: the flag \<open>utf8\<close> of the functions. The \<open>mbstate_t\<close> is its first 32-bit word. A
  result of \<open>(size_t)-1\<close> goes with \<open>errno\<close> = \<open>EILSEQ\<close>.

  Shown here: the decoder accepts exactly the well-formed sequences of the Unicode standard, and
  decoding and encoding are inverse; a sequence cut anywhere decodes as the whole one does; \<open>mbtowc\<close>
  reads no byte beyond those it was given; the string conversion with its word-at-a-time path does what
  converting character by character does.
\<close>

section \<open>The state table\<close>

definition R :: "u32 \<Rightarrow> u32 \<Rightarrow> u32" where
  "R a b = push_bit 23 (if a = 0x80 then 0x40 - b else 0 - a)"

definition SA :: u32 where "SA = 0xc2"

definition SB :: u32 where "SB = 0xf4"

definition CODEUNIT :: "u8 \<Rightarrow> u32" where
  "CODEUNIT c = and 0xdfff (scast c)"

definition IS_CODEUNIT :: "u32 \<Rightarrow> bool" where
  "IS_CODEUNIT c \<longleftrightarrow> c - 0xdf80 < 0x80"

text \<open>\<open>OOB(c,b)\<close>, an \<open>int\<close>: not zero when the byte \<open>b\<close> is outside the interval in the top bits of \<open>c\<close>.\<close>

definition OOB :: "u32 \<Rightarrow> u8 \<Rightarrow> int" where
  "OOB c b = and (or (drop_bit 3 (uint b) - 0x10) (drop_bit 3 (uint b) + drop_bit 26 (sint c))) (not 7)"

definition bitC :: "u32 \<Rightarrow> u32" where
  "bitC x = (if x < 2 then - 1 else or (R 0x80 0xc0) x)"

definition bitD :: "u32 \<Rightarrow> u32" where
  "bitD x = bitC (x + 16)"

definition bitE :: "u32 \<Rightarrow> u32" where
  "bitE x = or (or (if x = 0 then R 0xa0 0xc0 else if x = 0xd then R 0x80 0xa0 else R 0x80 0xc0)
     (drop_bit 6 (R 0x80 0xc0))) x"

definition bitF :: "u32 \<Rightarrow> u32" where
  "bitF x = or (or (or (if x \<ge> 5 then 0 else if x = 0 then R 0x90 0xc0 else if x = 4 then R 0x80 0x90 else R 0x80 0xc0)
     (drop_bit 6 (R 0x80 0xc0))) (drop_bit 12 (R 0x80 0xc0))) x"

definition bittab :: "u32 list" where
  "bittab = map (\<lambda>x. bitC (of_nat x)) [2..<16] @ map (\<lambda>x. bitD (of_nat x)) [0..<16] @
     map (\<lambda>x. bitE (of_nat x)) [0..<16] @ map (\<lambda>x. bitF (of_nat x)) [0..<5]"

section \<open>Decoding one character\<close>

text \<open>The tests and the step of the decoder on one byte.\<close>

definition not_cont :: "u8 \<Rightarrow> bool" where
  "not_cont b \<longleftrightarrow> ucast b - 0x80 \<ge> (0x40 :: u32)"

definition not_lead :: "u8 \<Rightarrow> bool" where
  "not_lead b \<longleftrightarrow> ucast b - SA > SB - SA"

definition lead_state :: "u8 \<Rightarrow> u32" where
  "lead_state b = bittab ! unat (ucast b - SA)"

definition shift_in :: "u32 \<Rightarrow> u8 \<Rightarrow> u32" where
  "shift_in c b = or (push_bit 6 c) (ucast b - 0x80)"

definition more :: "u32 \<Rightarrow> bool" where
  "more c \<longleftrightarrow> and c (push_bit 31 1) \<noteq> 0"

text \<open>
  A decoder returns the \<open>size_t\<close> result, the character it stores in \<open>*wc\<close>, if any, and the new state.
  The argument \<open>N\<close> of the loop is the value of \<open>n\<close> at entry; the list holds the \<open>n\<close> bytes from \<open>s\<close> on.
\<close>

type_synonym decoded = "u64 \<times> u32 option \<times> u32"

fun mbr_loop :: "nat \<Rightarrow> u32 \<Rightarrow> bytes \<Rightarrow> decoded" where
  "mbr_loop N c [] = (- 2, None, c)"
| "mbr_loop N c (b # bs) =
     (let c = shift_in c b in
      if \<not> more c then (of_nat (N - length bs), Some c, 0)
      else case bs of [] \<Rightarrow> (- 2, None, c)
           | b' # _ \<Rightarrow> if not_cont b' then (- 1, None, 0) else mbr_loop N c bs)"

text \<open>From the test for the interval on: the state is not zero.\<close>

definition mbr_tail :: "nat \<Rightarrow> u32 \<Rightarrow> bytes \<Rightarrow> decoded" where
  "mbr_tail N c bs =
     (case bs of [] \<Rightarrow> (- 2, None, c)
      | b # _ \<Rightarrow> if OOB c b \<noteq> 0 then (- 1, None, 0) else mbr_loop N c bs)"

text \<open>\<open>mbrtowc(wc, src, n, st)\<close>; \<open>src\<close> is null or its \<open>n\<close> bytes.\<close>

definition mbrtowc :: "bool \<Rightarrow> bytes option \<Rightarrow> u32 \<Rightarrow> decoded" where
  "mbrtowc utf8 src c =
     (case src of None \<Rightarrow> if c \<noteq> 0 then (- 1, None, 0) else (0, None, c)
      | Some [] \<Rightarrow> (- 2, None, c)
      | Some (b # bs) \<Rightarrow>
          if c = 0 then
            if b < 0x80 then (if b \<noteq> 0 then 1 else 0, Some (ucast b), c)
            else if \<not> utf8 then (1, Some (CODEUNIT b), c)
            else if not_lead b then (- 1, None, 0)
            else mbr_tail (length (b # bs)) (lead_state b) bs
          else mbr_tail (length (b # bs)) c (b # bs))"

text \<open>
  \<open>mbtowc(wc, src, n)\<close> tests \<open>n\<close> once and then reads without tests. Here \<open>src\<close> is the memory from
  \<open>src\<close> on, with \<open>None\<close> as the result of a read beyond it.
\<close>

definition mbtowc :: "bool \<Rightarrow> bytes option \<Rightarrow> nat \<Rightarrow> (int \<times> u32 option) option" where
  "mbtowc utf8 src n =
     (case src of None \<Rightarrow> Some (0, None)
      | Some s \<Rightarrow>
        if n = 0 then Some (- 1, None)
        else do {
          b0 \<leftarrow> rd8 s 0;
          if b0 < 0x80 then Some (if b0 \<noteq> 0 then 1 else 0, Some (ucast b0))
          else if \<not> utf8 then Some (1, Some (CODEUNIT b0))
          else if not_lead b0 then Some (- 1, None)
          else let c = lead_state b0 in
            if n < 4 \<and> more (push_bit (6 * n - 6) c) then Some (- 1, None)
            else do {
              b1 \<leftarrow> rd8 s 1;
              if OOB c b1 \<noteq> 0 then Some (- 1, None)
              else let c = shift_in c b1 in
                if \<not> more c then Some (2, Some c)
                else do {
                  b2 \<leftarrow> rd8 s 2;
                  if not_cont b2 then Some (- 1, None)
                  else let c = shift_in c b2 in
                    if \<not> more c then Some (3, Some c)
                    else do {
                      b3 \<leftarrow> rd8 s 3;
                      if not_cont b3 then Some (- 1, None) else Some (4, Some (shift_in c b3)) } } } })"

definition mblen :: "bool \<Rightarrow> bytes option \<Rightarrow> nat \<Rightarrow> int option" where
  "mblen utf8 s n = map_option fst (mbtowc utf8 s n)"

definition mbrlen :: "bool \<Rightarrow> bytes option \<Rightarrow> u32 \<Rightarrow> u64 \<times> u32" where
  "mbrlen utf8 s st = (case mbrtowc utf8 s st of (r, _, st') \<Rightarrow> (r, st'))"

definition mbsinit :: "u32 option \<Rightarrow> bool" where
  "mbsinit st \<longleftrightarrow> (case st of None \<Rightarrow> True | Some c \<Rightarrow> c = 0)"

text \<open>\<open>btowc\<close> and \<open>wctob\<close>; \<open>EOF\<close> is -1 and \<open>WEOF\<close> 0xffffffff.\<close>

definition btowc :: "bool \<Rightarrow> int \<Rightarrow> u32" where
  "btowc utf8 c = (let b = (of_int c :: u8) in
     if b < 128 then ucast b else if \<not> utf8 \<and> c \<noteq> - 1 then CODEUNIT b else 0xffffffff)"

definition wctob :: "bool \<Rightarrow> u32 \<Rightarrow> int" where
  "wctob utf8 c =
     (if c < 128 then uint c else if \<not> utf8 \<and> IS_CODEUNIT c then uint (ucast c :: u8) else - 1)"

section \<open>Encoding one character\<close>

text \<open>\<open>wcrtomb(s, wc, st)\<close> for a buffer \<open>s\<close>: the bytes it stores, or \<open>None\<close> for the result -1.\<close>

definition wcrtomb :: "bool \<Rightarrow> u32 \<Rightarrow> bytes option" where
  "wcrtomb utf8 wc =
     (if wc < 0x80 then Some [ucast wc]
      else if \<not> utf8 then if \<not> IS_CODEUNIT wc then None else Some [ucast wc]
      else if wc < 0x800 then Some [ucast (or 0xc0 (drop_bit 6 wc)), ucast (or 0x80 (and wc 0x3f))]
      else if wc < 0xd800 \<or> wc - 0xe000 < 0x2000 then
        Some [ucast (or 0xe0 (drop_bit 12 wc)), ucast (or 0x80 (and (drop_bit 6 wc) 0x3f)), ucast (or 0x80 (and wc 0x3f))]
      else if wc - 0x10000 < 0x100000 then
        Some [ucast (or 0xf0 (drop_bit 18 wc)), ucast (or 0x80 (and (drop_bit 12 wc) 0x3f)),
              ucast (or 0x80 (and (drop_bit 6 wc) 0x3f)), ucast (or 0x80 (and wc 0x3f))]
      else None)"

text \<open>The \<open>size_t\<close> result of \<open>wcrtomb\<close>, with its case of a null buffer.\<close>

definition wcrtomb_ret :: "bool \<Rightarrow> bool \<Rightarrow> u32 \<Rightarrow> u64" where
  "wcrtomb_ret utf8 null wc =
     (if null then 1 else case wcrtomb utf8 wc of None \<Rightarrow> - 1 | Some bs \<Rightarrow> of_nat (length bs))"

definition wctomb :: "bool \<Rightarrow> bool \<Rightarrow> u32 \<Rightarrow> u64" where
  "wctomb utf8 null wc = (if null then 0 else wcrtomb_ret utf8 False wc)"


section \<open>Well-formed UTF-8\<close>

text \<open>The byte sequences of the Unicode standard, table 3-7, and their scalar values.\<close>

definition cont :: "u8 \<Rightarrow> bool" where
  "cont b \<longleftrightarrow> 0x80 \<le> b \<and> b < 0xc0"

text \<open>The bounds on the byte after the first one.\<close>

definition second :: "u8 \<Rightarrow> u8 \<Rightarrow> bool" where
  "second a b \<longleftrightarrow> cont b \<and> (a = 0xe0 \<longrightarrow> 0xa0 \<le> b) \<and> (a = 0xed \<longrightarrow> b < 0xa0) \<and>
     (a = 0xf0 \<longrightarrow> 0x90 \<le> b) \<and> (a = 0xf4 \<longrightarrow> b < 0x90)"

fun seq_len :: "u8 \<Rightarrow> nat" where
  "seq_len a = (if a < 0x80 then 1 else if a < 0xc2 then 0 else if a < 0xe0 then 2 else if a < 0xf0 then 3
     else if a < 0xf5 then 4 else 0)"

declare seq_len.simps [simp del]

fun wf_seq :: "bytes \<Rightarrow> bool" where
  "wf_seq [a] \<longleftrightarrow> seq_len a = 1"
| "wf_seq [a, b] \<longleftrightarrow> seq_len a = 2 \<and> second a b"
| "wf_seq [a, b, c] \<longleftrightarrow> seq_len a = 3 \<and> second a b \<and> cont c"
| "wf_seq [a, b, c, d] \<longleftrightarrow> seq_len a = 4 \<and> second a b \<and> cont c \<and> cont d"
| "wf_seq bs \<longleftrightarrow> False"

fun seq_val :: "bytes \<Rightarrow> nat" where
  "seq_val [a] = unat a"
| "seq_val [a, b] = (unat a - 0xc0) * 64 + (unat b - 0x80)"
| "seq_val [a, b, c] = (unat a - 0xe0) * 64 ^ 2 + (unat b - 0x80) * 64 + (unat c - 0x80)"
| "seq_val [a, b, c, d] = (unat a - 0xf0) * 64 ^ 3 + (unat b - 0x80) * 64 ^ 2 + (unat c - 0x80) * 64 + (unat d - 0x80)"
| "seq_val bs = 0"

definition seq_wc :: "bytes \<Rightarrow> u32" where
  "seq_wc bs = of_nat (seq_val bs)"

definition scalar :: "u32 \<Rightarrow> bool" where
  "scalar wc \<longleftrightarrow> wc < 0xd800 \<or> 0xe000 \<le> wc \<and> wc < 0x110000"

lemma cont_unat: "cont b \<longleftrightarrow> 0x80 \<le> unat b \<and> unat b < 0xc0"
  by (simp add: cont_def word_le_nat_alt word_less_nat_alt)

lemma seq_len_unat:
  "seq_len a = (if unat a < 0x80 then 1 else if unat a < 0xc2 then 0 else if unat a < 0xe0 then 2
     else if unat a < 0xf0 then 3 else if unat a < 0xf5 then 4 else 0)"
  by (simp add: seq_len.simps word_less_nat_alt)

lemma second_unat:
  "second a b \<longleftrightarrow> cont b \<and> (unat a = 0xe0 \<longrightarrow> 0xa0 \<le> unat b) \<and> (unat a = 0xed \<longrightarrow> unat b < 0xa0) \<and>
     (unat a = 0xf0 \<longrightarrow> 0x90 \<le> unat b) \<and> (unat a = 0xf4 \<longrightarrow> unat b < 0x90)"
  by (simp add: second_def word_le_nat_alt word_less_nat_alt word_unat_eq_iff)

section \<open>The encoder\<close>

lemma or_low:
  fixes x y :: "'w::len word"
  assumes "unat y < 2 ^ k"
  shows "or (push_bit k x) y = x * 2 ^ k + y"
  using or_push_bit_of_nat [OF assms, of x] by simp

lemma unat_ucast_u32_u8: "unat (ucast (x :: u32) :: u8) = unat x mod 256"
  by (simp add: unsigned_ucast_eq take_bit_eq_mod)

lemma unat_and_low6: "unat (and x 0x3f :: u32) = unat x mod 64"
proof -
  have "(0x3f :: u32) = mask 6" by (simp add: mask_eq_exp_minus_1)
  then have "and x 0x3f = take_bit 6 x" by (simp add: take_bit_eq_mask)
  then show ?thesis by (simp only: unsigned_take_bit_eq) (simp add: take_bit_eq_mod)
qed

lemma unat_or_low:
  fixes x y :: u32
  assumes "unat y < 2 ^ k" "unat x * 2 ^ k + 2 ^ k \<le> 256"
  shows "unat (ucast (or (push_bit k x) y) :: u8) = unat x * 2 ^ k + unat y"
proof -
  have "unat (x * 2 ^ k + y) = unat x * 2 ^ k + unat y"
  proof -
    have "x * 2 ^ k + y = of_nat (unat x * 2 ^ k + unat y)" by simp
    moreover have "unat x * 2 ^ k + unat y < 2 ^ 32" using assms by simp
    ultimately show ?thesis by (simp only: unat_of_nat) (simp add: take_bit_nat_eq_self)
  qed
  with assms show ?thesis by (simp add: or_low [OF assms(1)] unat_ucast_u32_u8)
qed

lemma unat_low6: "unat (ucast (or 0x80 (and x 0x3f) :: u32) :: u8) = 0x80 + unat x mod 64"
  using unat_or_low [of "and x 0x3f" 6 2] by (simp add: unat_and_low6)

lemma unat_lead: 
  "unat x < 32 \<Longrightarrow> unat (ucast (or 0xc0 x :: u32) :: u8) = 0xc0 + unat x"
  "unat x < 16 \<Longrightarrow> unat (ucast (or 0xe0 x :: u32) :: u8) = 0xe0 + unat x"
  "unat x < 8 \<Longrightarrow> unat (ucast (or 0xf0 x :: u32) :: u8) = 0xf0 + unat x"
  using unat_or_low [of x 5 6] unat_or_low [of x 4 14] unat_or_low [of x 3 30] by simp_all

lemma unat_drop: "unat (drop_bit k (x :: u32)) = unat x div 2 ^ k"
  by (simp only: unsigned_drop_bit_eq) (simp add: drop_bit_eq_div take_bit_nat_eq_self order_less_le_trans [OF unsigned_less])

text \<open>The bytes of the encoder as numbers.\<close>

definition enc :: "nat \<Rightarrow> nat list" where
  "enc u = (if u < 0x80 then [u]
     else if u < 0x800 then [0xc0 + u div 64, 0x80 + u mod 64]
     else if u < 0x10000 then [0xe0 + u div 4096, 0x80 + u div 64 mod 64, 0x80 + u mod 64]
     else [0xf0 + u div 262144, 0x80 + u div 4096 mod 64, 0x80 + u div 64 mod 64, 0x80 + u mod 64])"

definition scalar_nat :: "nat \<Rightarrow> bool" where
  "scalar_nat u \<longleftrightarrow> u < 0xd800 \<or> 0xe000 \<le> u \<and> u < 0x110000"

lemma scalar_unat: "scalar wc \<longleftrightarrow> scalar_nat (unat wc)"
  by (simp add: scalar_def scalar_nat_def word_le_nat_alt word_less_nat_alt)

lemma sub_less_range: "unat k + unat w < 2 ^ 32 \<Longrightarrow> (wc :: u32) - k < w \<longleftrightarrow> unat k \<le> unat wc \<and> unat wc < unat k + unat w"
  using unsigned_less [of wc, where ?'a = nat] unsigned_less [of k, where ?'a = nat]
  by (auto simp: word_less_nat_alt unat_sub_if')

lemma wcrtomb_scalar: "wcrtomb True wc = None \<longleftrightarrow> \<not> scalar wc"
  using sub_less_range [of "0xe000" "0x2000" wc] sub_less_range [of "0x10000" "0x100000" wc]
  by (auto simp: wcrtomb_def scalar_def word_le_nat_alt word_less_nat_alt)

lemma wcrtomb_enc:
  assumes "wcrtomb True wc = Some bs"
  shows "map unat bs = enc (unat wc)"
proof -
  let ?u = "unat wc"
  have div: "?u div 64 div 64 = ?u div 4096" "?u div 4096 div 64 = ?u div 262144" by (simp_all flip: div_mult2_eq)
  have sc: "scalar_nat ?u" using assms wcrtomb_scalar [of wc] by (simp add: scalar_unat)
  consider "wc < 0x80" | "\<not> wc < 0x80" "wc < 0x800" | "\<not> wc < 0x80" "\<not> wc < 0x800" "wc < 0xd800 \<or> wc - 0xe000 < 0x2000"
    | "\<not> wc < 0x80" "\<not> wc < 0x800" "\<not> (wc < 0xd800 \<or> wc - 0xe000 < 0x2000)" by blast
  then show ?thesis
  proof cases
    case 1
    with assms show ?thesis by (auto simp: wcrtomb_def enc_def word_less_nat_alt unat_ucast_u32_u8)
  next
    case 2
    then have "0x80 \<le> ?u" "?u < 0x800" by (simp_all add: word_less_nat_alt)
    moreover have "?u div 64 < 32" using \<open>?u < 0x800\<close> by simp
    ultimately show ?thesis using assms 2
      by (auto simp: wcrtomb_def enc_def unat_low6 unat_lead unat_drop)
  next
    case 3
    then have u: "0x800 \<le> ?u" "?u < 0x10000"
      using sub_less_range [of "0xe000" "0x2000" wc] by (auto simp: word_less_nat_alt)
    moreover have "?u div 4096 < 16" using u(2) by simp
    ultimately show ?thesis using assms 3
      by (auto simp: wcrtomb_def enc_def unat_low6 unat_lead unat_drop div)
  next
    case 4
    then have u: "0x10000 \<le> ?u" "?u < 0x110000" using sc sub_less_range [of "0xe000" "0x2000" wc]
      by (auto simp: scalar_nat_def word_less_nat_alt)
    moreover have "?u div 262144 < 8" using u(2) by simp
    ultimately show ?thesis using assms 4
      by (auto simp: wcrtomb_def enc_def unat_low6 unat_lead unat_drop div split: if_splits)
  qed
qed

lemma digits: "y < 64 \<Longrightarrow> (64 * x + y) div 64 = x" "y < 64 \<Longrightarrow> (64 * x + y) mod 64 = (y :: nat)"
  by simp_all

lemma div_4096: "u div 4096 = u div 64 div (64 :: nat)"
  and div_262144: "u div 262144 = u div 64 div 64 div (64 :: nat)"
  by (simp_all flip: div_mult2_eq)

lemma enc_digits:
  fixes x y z w :: nat
  assumes "y < 64" "z < 64" "w < 64"
  shows "(64 * x + y) div 64 = x" "(64 * x + y) mod 64 = y"
    "(4096 * x + 64 * y + z) div 4096 = x" "(4096 * x + 64 * y + z) div 64 mod 64 = y" "(4096 * x + 64 * y + z) mod 64 = z"
    "(262144 * x + 4096 * y + 64 * z + w) div 262144 = x" "(262144 * x + 4096 * y + 64 * z + w) div 4096 mod 64 = y"
    "(262144 * x + 4096 * y + 64 * z + w) div 64 mod 64 = z" "(262144 * x + 4096 * y + 64 * z + w) mod 64 = w"
proof -
  have n: "4096 * x + 64 * y + z = 64 * (64 * x + y) + z"
    "262144 * x + 4096 * y + 64 * z + w = 64 * (64 * (64 * x + y) + z) + w" by simp_all
  show "(64 * x + y) div 64 = x" "(64 * x + y) mod 64 = y"
    "(4096 * x + 64 * y + z) div 4096 = x" "(4096 * x + 64 * y + z) div 64 mod 64 = y" "(4096 * x + 64 * y + z) mod 64 = z"
    "(262144 * x + 4096 * y + 64 * z + w) div 262144 = x" "(262144 * x + 4096 * y + 64 * z + w) div 4096 mod 64 = y"
    "(262144 * x + 4096 * y + 64 * z + w) div 64 mod 64 = z" "(262144 * x + 4096 * y + 64 * z + w) mod 64 = w"
    unfolding n div_4096 div_262144 by (simp_all only: digits assms)
qed

lemma wf_enc:
  assumes "wf_seq bs"
  shows "scalar_nat (seq_val bs)" "enc (seq_val bs) = map unat bs"
proof -
  have "scalar_nat (seq_val bs) \<and> enc (seq_val bs) = map unat bs"
    using assms
  proof (cases bs rule: wf_seq.cases)
    case (1 a)
    with assms show ?thesis by (auto simp: seq_len_unat scalar_nat_def enc_def split: if_splits)
  next
    case (2 a b)
    define x y where "x = unat a - 0xc0" and "y = unat b - 0x80"
    have xy: "unat a = 0xc0 + x" "2 \<le> x" "x < 32" "unat b = 0x80 + y" "y < 64"
      using assms 2 by (auto simp: x_def y_def seq_len_unat second_unat cont_unat split: if_splits)
    then show ?thesis using 2 enc_digits(1,2) [of y 0 0 x]
      by (simp add: scalar_nat_def enc_def mult.commute)
  next
    case (3 a b c)
    define x y z where "x = unat a - 0xe0" and "y = unat b - 0x80" and "z = unat c - 0x80"
    have x: "unat a = 0xe0 + x" "x < 16" "unat b = 0x80 + y" "y < 64" "unat c = 0x80 + z" "z < 64"
      "x = 0 \<longrightarrow> 32 \<le> y" "x = 13 \<longrightarrow> y < 32"
      using assms 3 by (auto simp: x_def y_def z_def seq_len_unat second_unat cont_unat split: if_splits)
    let ?v = "4096 * x + 64 * y + z"
    have v: "0x800 \<le> ?v" "?v < 0x10000" using x by linarith+
    have sv: "?v < 0xd800 \<or> 0xe000 \<le> ?v"
    proof (cases "x < 13 \<or> x = 13")
      case True
      with x show ?thesis by linarith
    next
      case False
      then show ?thesis by linarith
    qed
    have val: "seq_val bs = ?v" using 3 x by (simp add: mult.commute)
    show ?thesis unfolding val using v sv x enc_digits(3-5) [of y z 0 x]
      by (simp add: scalar_nat_def enc_def 3)
  next
    case (4 a b c d)
    define x y z w where "x = unat a - 0xf0" and "y = unat b - 0x80" and "z = unat c - 0x80" and "w = unat d - 0x80"
    have x: "unat a = 0xf0 + x" "x < 5" "unat b = 0x80 + y" "y < 64" "unat c = 0x80 + z" "z < 64" "unat d = 0x80 + w" "w < 64"
      "x = 0 \<longrightarrow> 16 \<le> y" "x = 4 \<longrightarrow> y < 16"
      using assms 4 by (auto simp: x_def y_def z_def w_def seq_len_unat second_unat cont_unat split: if_splits)
    let ?v = "262144 * x + 4096 * y + 64 * z + w"
    have v: "0x10000 \<le> ?v" "?v < 0x110000" using x by linarith+
    have val: "seq_val bs = ?v" using 4 x by (simp add: mult.commute)
    show ?thesis unfolding val using v x enc_digits(6-9) [of y z w x]
      by (simp add: scalar_nat_def enc_def 4)
  qed auto
  then show "scalar_nat (seq_val bs)" "enc (seq_val bs) = map unat bs" by simp_all
qed

lemma enc_undigits:
  fixes u :: nat
  shows "64 * (u div 64) + u mod 64 = u"
    "4096 * (u div 4096) + 64 * (u div 64 mod 64) + u mod 64 = u"
    "262144 * (u div 262144) + 4096 * (u div 4096 mod 64) + 64 * (u div 64 mod 64) + u mod 64 = u"
proof -
  have 1: "64 * (v div 64) + v mod 64 = v" for v :: nat by simp
  show "64 * (u div 64) + u mod 64 = u" by simp
  show 2: "4096 * (v div 4096) + 64 * (v div 64 mod 64) + v mod 64 = v" for v :: nat
    using 1 [of v] 1 [of "v div 64"] unfolding div_4096 by linarith
  show "262144 * (u div 262144) + 4096 * (u div 4096 mod 64) + 64 * (u div 64 mod 64) + u mod 64 = u"
    using 1 [of u] 2 [of "u div 64"] unfolding div_4096 div_262144 by linarith
qed

lemma enc_wf:
  assumes "scalar_nat u" "map unat bs = enc u"
  shows "wf_seq bs" "seq_val bs = u"
proof -
  have m: "v mod 64 < 64" for v :: nat by simp
  consider "u < 0x80" | "0x80 \<le> u" "u < 0x800" | "0x800 \<le> u" "u < 0x10000" | "0x10000 \<le> u" by linarith
  then have "wf_seq bs \<and> seq_val bs = u"
  proof cases
    case 1
    with assms show ?thesis by (auto simp: enc_def seq_len_unat)
  next
    case 2
    then have d: "2 \<le> u div 64" "u div 64 < 32" by simp_all
    obtain a b where "bs = [a, b]" "unat a = 0xc0 + u div 64" "unat b = 0x80 + u mod 64"
      using assms(2) 2 by (auto simp: enc_def)
    then show ?thesis using d m [of u] enc_undigits(1) [of u]
      by (auto simp: seq_len_unat second_unat cont_unat mult.commute)
  next
    case 3
    then have d: "u div 4096 < 16" by simp
    obtain a b c where bs: "bs = [a, b, c]" "unat a = 0xe0 + u div 4096" "unat b = 0x80 + u div 64 mod 64" "unat c = 0x80 + u mod 64"
      using assms(2) 3 by (auto simp: enc_def)
    have "u div 4096 = 0 \<longrightarrow> 32 \<le> u div 64 mod 64" "u div 4096 = 13 \<longrightarrow> u div 64 mod 64 < 32"
      using enc_undigits(2) [of u] 3 assms(1) m [of u] m [of "u div 64"] unfolding scalar_nat_def by linarith+
    then show ?thesis using bs d m [of u] m [of "u div 64"] enc_undigits(2) [of u]
      by (auto simp: seq_len_unat second_unat cont_unat mult.commute)
  next
    case 4
    then have u: "u < 0x110000" using assms(1) by (simp add: scalar_nat_def)
    then have d: "u div 262144 < 5" by simp
    obtain a b c e where bs: "bs = [a, b, c, e]" "unat a = 0xf0 + u div 262144" "unat b = 0x80 + u div 4096 mod 64"
      "unat c = 0x80 + u div 64 mod 64" "unat e = 0x80 + u mod 64"
      using assms(2) 4 by (auto simp: enc_def)
    have "u div 262144 = 0 \<longrightarrow> 16 \<le> u div 4096 mod 64" "u div 262144 = 4 \<longrightarrow> u div 4096 mod 64 < 16"
      using enc_undigits(3) [of u] 4 u m [of u] m [of "u div 64"] m [of "u div 4096"] by linarith+
    then show ?thesis using bs d m [of u] m [of "u div 64"] m [of "u div 4096"] enc_undigits(3) [of u]
      by (auto simp: seq_len_unat second_unat cont_unat mult.commute)
  qed
  then show "wf_seq bs" "seq_val bs = u" by simp_all
qed

lemma wcrtomb_wf: "wcrtomb True wc = Some bs \<longleftrightarrow> wf_seq bs \<and> seq_val bs = unat wc"
proof
  assume "wcrtomb True wc = Some bs"
  with wcrtomb_enc [OF this] wcrtomb_scalar [of wc] show "wf_seq bs \<and> seq_val bs = unat wc"
    using enc_wf [of "unat wc" bs] by (simp add: scalar_unat)
next
  assume bs: "wf_seq bs \<and> seq_val bs = unat wc"
  then have "scalar wc" using wf_enc(1) [of bs] by (simp add: scalar_unat)
  then obtain bs' where bs': "wcrtomb True wc = Some bs'" using wcrtomb_scalar [of wc] by auto
  then have "map unat bs' = map unat bs" using wcrtomb_enc [OF bs'] wf_enc(2) [of bs] bs by simp
  then have "bs' = bs" by (rule map_injective) (simp add: inj_on_def word_unat_eq_iff)
  with bs' show "wcrtomb True wc = Some bs" by simp
qed

section \<open>The decoder\<close>

lemma shift_in_val: "cont b \<Longrightarrow> unat (shift_in c b) = 64 * (unat c mod 2 ^ 26) + (unat b - 0x80)"
proof -
  assume b: "cont b"
  then have y: "unat (ucast b - 0x80 :: u32) = unat b - 0x80" "unat b - 0x80 < 2 ^ 6"
    using unat_sub [of "0x80" "ucast b :: u32"] by (auto simp: cont_def word_le_nat_alt word_less_nat_alt)
  have "shift_in c b = c * 2 ^ 6 + (ucast b - 0x80)"
    unfolding shift_in_def using y by (intro or_low) simp
  also have "\<dots> = of_nat (64 * unat c + (unat b - 0x80))" by (simp add: mult.commute flip: y(1))
  finally have "unat (shift_in c b) = (64 * unat c + (unat b - 0x80)) mod (64 * 2 ^ 26)"
    by (simp only: unat_of_nat) (simp add: take_bit_eq_mod)
  with y(2) show ?thesis unfolding mod_mult2_eq by simp
qed

lemma more_iff: "more c \<longleftrightarrow> 2 ^ 31 \<le> unat c"
proof -
  have "more c \<longleftrightarrow> bit c 31" unfolding more_def by (metis and_exp_eq_0_iff_not_bit push_bit_of_1)
  also have "\<dots> \<longleftrightarrow> odd (unat c div 2 ^ 31)" 
    using bit_iff_odd [of "unat c" 31] by (simp add: bit_unsigned_iff)
  also have "\<dots> \<longleftrightarrow> 2 ^ 31 \<le> unat c" 
  proof -
    have "unat c div 2 ^ 31 < 2" using unsigned_less [of c, where ?'a = nat] by (simp add: less_mult_imp_div_less)
    then have "odd (unat c div 2 ^ 31) \<longleftrightarrow> 1 \<le> unat c div 2 ^ 31" by (auto simp: less_2_cases_iff)
    then show ?thesis by (simp add: less_eq_div_iff_mult_less_eq)
  qed
  finally show ?thesis .
qed

lemma bit_7: "bit (7::int) n \<longleftrightarrow> n < 3"
proof -
  have "(7::int) = mask 3" by (simp add: mask_eq_exp_minus_1)
  then show ?thesis by (simp only: bit_mask_iff) simp
qed

lemma and_not_7: "and x (not 7) = 0 \<longleftrightarrow> drop_bit 3 (x :: int) = 0"
proof -
  have "and x (not 7) = push_bit 3 (drop_bit 3 x)"
    by (rule bit_eqI) (auto simp: bit_simps not_less bit_7)
  then show ?thesis by simp
qed

lemma drop_bit_3: "drop_bit 3 x = 0 \<longleftrightarrow> 0 \<le> x \<and> x < (8 :: int)"
  by (auto simp: drop_bit_eq_div)

lemma OOB_iff: "OOB c b = 0 \<longleftrightarrow> cont b \<and> 0 \<le> int (unat b) div 8 + sint c div 2 ^ 26 \<and> int (unat b) div 8 + sint c div 2 ^ 26 < 8"
proof -
  have "cont b \<longleftrightarrow> 0x80 \<le> int (unat b) \<and> int (unat b) < 0xc0" unfolding cont_unat by linarith
  moreover have "0 \<le> x div 8 - 16 \<and> x div 8 - 16 < 8 \<longleftrightarrow> 0x80 \<le> x \<and> x < 0xc0" for x :: int by linarith
  moreover have "drop_bit 3 (uint b) = int (unat b) div 8" "drop_bit 26 (sint c) = sint c div 2 ^ 26"
    unfolding drop_bit_eq_div uint_nat by simp_all
  ultimately show ?thesis
    unfolding OOB_def and_not_7 drop_bit_or or_eq_0_iff drop_bit_3 by (simp only:)
qed

text \<open>What the state after a first byte says: the value bits in its low part, the interval in its top part.\<close>

definition lead_low :: "nat \<Rightarrow> nat" where
  "lead_low a = (if a < 0xe0 then a - 0xc0 else if a < 0xf0 then 0x3000000 + (a - 0xe0) else 0x30c0000 + (a - 0xf0))"

definition lead_off :: "nat \<Rightarrow> int" where
  "lead_off a = (if a = 0xe0 then - 20 else if a = 0xed then - 12 else if a = 0xf0 then - 18 else if a = 0xf4 then - 10 else - 16)"

lemma lead_table:
  "list_all2 (\<lambda>a c. unat c mod 0x4000000 = lead_low a \<and> sint c div 0x4000000 = lead_off a) [0xc2..<0xf5] bittab"
proof -
  have "[0..<16] = 0 # 1 # [2..<16]" "[0..<5] = 0 # 1 # [2..<5]" by (simp_all add: upt_rec [of 0] upt_rec [of "Suc 0"] numeral_2_eq_2 [symmetric])
  then show ?thesis
    by (simp add: bittab_def bitC_def bitD_def bitE_def bitF_def R_def lead_low_def lead_off_def word_le_nat_alt)
qed

lemma lead_state_vals:
  assumes "2 \<le> seq_len a"
  shows "unat (lead_state a) mod 2 ^ 26 = lead_low (unat a)" "sint (lead_state a) div 2 ^ 26 = lead_off (unat a)"
proof -
  have a: "0xc2 \<le> unat a" "unat a < 0xf5" using assms by (simp_all add: seq_len_unat split: if_splits)
  then have "unat (ucast a - SA) = unat a - 0xc2" by (simp add: SA_def unat_sub_if')
  moreover have "[0xc2..<0xf5] ! (unat a - 0xc2) = unat a" "unat a - 0xc2 < length [0xc2..<0xf5]"
    using a by (simp_all add: nth_upt del: upt_rec_numeral)
  ultimately show "unat (lead_state a) mod 2 ^ 26 = lead_low (unat a)" "sint (lead_state a) div 2 ^ 26 = lead_off (unat a)"
    using list_all2_nthD [OF lead_table, of "unat a - 0xc2"] by (simp_all add: lead_state_def del: upt_rec_numeral)
qed

lemma lead_off_range:
  "0x80 \<le> x \<and> x < 0xc0 \<and> 0 \<le> int x div 8 + lead_off a \<and> int x div 8 + lead_off a < 8 \<longleftrightarrow>
   0x80 \<le> x \<and> x < 0xc0 \<and> (a = 0xe0 \<longrightarrow> 0xa0 \<le> x) \<and> (a = 0xed \<longrightarrow> x < 0xa0) \<and> (a = 0xf0 \<longrightarrow> 0x90 \<le> x) \<and> (a = 0xf4 \<longrightarrow> x < 0x90)"
proof -
  consider "a = 0xe0" | "a = 0xed" | "a = 0xf0" | "a = 0xf4" | "a \<notin> {0xe0, 0xed, 0xf0, 0xf4}" by blast
  then show ?thesis by cases (simp_all add: lead_off_def, linarith+)
qed

lemma OOB_second:
  assumes "2 \<le> seq_len a"
  shows "OOB (lead_state a) b = 0 \<longleftrightarrow> second a b"
  unfolding OOB_iff second_unat lead_state_vals(2) [OF assms] cont_unat
  using lead_off_range [of "unat b" "unat a"] by blast

lemma not_cont_iff: "not_cont b \<longleftrightarrow> \<not> cont b"
proof -
  have "unat (ucast b - 0x80 :: u32) = (if 0x80 \<le> unat b then unat b - 0x80 else unat b + 2 ^ 32 - 0x80)"
    by (simp add: unat_sub_if')
  then show ?thesis by (auto simp: not_cont_def cont_unat word_le_nat_alt)
qed

lemma not_lead_iff: "0x80 \<le> b \<Longrightarrow> not_lead b \<longleftrightarrow> seq_len b = 0"
proof -
  assume "0x80 \<le> b"
  then have "0x80 \<le> unat b" by (simp add: word_le_nat_alt)
  moreover have "unat (ucast b - 0xc2 :: u32) = (if 0xc2 \<le> unat b then unat b - 0xc2 else unat b + 2 ^ 32 - 0xc2)"
    by (simp add: unat_sub_if')
  ultimately show ?thesis by (auto simp: not_lead_def SA_def SB_def seq_len_unat word_less_nat_alt)
qed


lemma cont_less: "cont b \<Longrightarrow> unat b - 0x80 < 64"
  by (auto simp: cont_unat)

lemma mod_low: "x < 2 ^ 26 \<Longrightarrow> (k * 2 ^ 26 + x) mod 2 ^ 26 = (x :: nat)"
  by simp

text \<open>The states after one, two and three continuation bytes.\<close>

lemma state2:
  assumes "seq_len a = 2" "cont b"
  shows "unat (shift_in (lead_state a) b) = seq_val [a, b]" "\<not> more (shift_in (lead_state a) b)"
  using assms cont_less [OF assms(2)] lead_state_vals(1) [of a]
  by (auto simp: shift_in_val more_iff lead_low_def seq_len_unat split: if_splits)

lemma state3:
  assumes "seq_len a = 3" "cont b"
  defines "c1 \<equiv> shift_in (lead_state a) b"
  shows "more c1" "cont c \<Longrightarrow> unat (shift_in c1 c) = seq_val [a, b, c]" "cont c \<Longrightarrow> \<not> more (shift_in c1 c)"
proof -
  have a: "unat a - 0xe0 < 16" "unat (lead_state a) mod 2 ^ 26 = 0x3000000 + (unat a - 0xe0)"
    using assms(1) lead_state_vals(1) [of a] by (auto simp: seq_len_unat lead_low_def split: if_splits)
  note b = cont_less [OF assms(2)]
  have c1: "unat c1 = 0xc0000000 + ((unat a - 0xe0) * 64 + (unat b - 0x80))"
    unfolding c1_def shift_in_val [OF assms(2)] a(2) by simp
  then show "more c1" by (simp add: more_iff)
  have m: "unat c1 mod 2 ^ 26 = (unat a - 0xe0) * 64 + (unat b - 0x80)" 
    using mod_low [of "(unat a - 0xe0) * 64 + (unat b - 0x80)" 48] a(1) b by (simp add: c1)
  show "unat (shift_in c1 c) = seq_val [a, b, c]" if "cont c" unfolding shift_in_val [OF that] m by simp
  then show "\<not> more (shift_in c1 c)" if "cont c" using that a(1) b cont_less [OF that] by (simp add: more_iff)
qed

lemma state4:
  assumes "seq_len a = 4" "cont b"
  defines "c1 \<equiv> shift_in (lead_state a) b"
  shows "more c1" "cont c \<Longrightarrow> more (shift_in c1 c)"
    "cont c \<Longrightarrow> cont d \<Longrightarrow> unat (shift_in (shift_in c1 c) d) = seq_val [a, b, c, d]"
    "cont c \<Longrightarrow> cont d \<Longrightarrow> \<not> more (shift_in (shift_in c1 c) d)"
proof -
  have a: "unat a - 0xf0 < 5" "unat (lead_state a) mod 2 ^ 26 = 0x30c0000 + (unat a - 0xf0)"
    using assms(1) lead_state_vals(1) [of a] by (auto simp: seq_len_unat lead_low_def split: if_splits)
  note b = cont_less [OF assms(2)]
  have c1: "unat c1 = 0xc3000000 + ((unat a - 0xf0) * 64 + (unat b - 0x80))"
    unfolding c1_def shift_in_val [OF assms(2)] a(2) by simp
  then show "more c1" by (simp add: more_iff)
  have m1: "unat c1 mod 2 ^ 26 = 0x3000000 + ((unat a - 0xf0) * 64 + (unat b - 0x80))" 
    using mod_low [of "0x3000000 + ((unat a - 0xf0) * 64 + (unat b - 0x80))" 48] a(1) b by (simp add: c1)
  have c2: "unat (shift_in c1 c) = 0xc0000000 + (((unat a - 0xf0) * 64 + (unat b - 0x80)) * 64 + (unat c - 0x80))" if "cont c"
    unfolding shift_in_val [OF that] m1 by simp
  then show "more (shift_in c1 c)" if "cont c" using that by (simp add: more_iff)
  have m2: "unat (shift_in c1 c) mod 2 ^ 26 = ((unat a - 0xf0) * 64 + (unat b - 0x80)) * 64 + (unat c - 0x80)" if "cont c"
    using mod_low [of "((unat a - 0xf0) * 64 + (unat b - 0x80)) * 64 + (unat c - 0x80)" 48] a(1) b cont_less [OF that]
    by (simp add: c2 [OF that])
  show "unat (shift_in (shift_in c1 c) d) = seq_val [a, b, c, d]" if "cont c" "cont d"
    unfolding shift_in_val [OF that(2)] m2 [OF that(1)] by simp
  then show "\<not> more (shift_in (shift_in c1 c) d)" if "cont c" "cont d"
    using that a(1) b cont_less [OF that(1)] cont_less [OF that(2)] by (simp add: more_iff)
qed


lemma seq_wcI: "unat c = seq_val bs \<Longrightarrow> c = seq_wc bs"
  unfolding seq_wc_def by (metis of_nat_unat ucast_id)

text \<open>The decoder in its initial state, by the length that the first byte announces.\<close>

abbreviation ilseq :: decoded where "ilseq \<equiv> (- 1, None, 0)"

lemma mbrtowc_1: "seq_len a = 1 \<Longrightarrow> mbrtowc True (Some (a # r)) 0 = (if a = 0 then 0 else 1, Some (seq_wc [a]), 0)"
  by (simp add: mbrtowc_def seq_len.simps seq_wc_def split: if_splits)

lemma seq_len_ge_80: "seq_len a \<noteq> 1 \<Longrightarrow> \<not> a < 0x80"
  by (simp add: seq_len.simps split: if_splits)

lemma mbrtowc_0: "seq_len a = 0 \<Longrightarrow> mbrtowc True (Some (a # r)) 0 = ilseq"
  using seq_len_ge_80 [of a] not_lead_iff [of a] by (simp add: mbrtowc_def)

lemma mbrtowc_lead:
  "2 \<le> seq_len a \<Longrightarrow> mbrtowc True (Some (a # r)) 0 =
     (case r of [] \<Rightarrow> (- 2, None, lead_state a)
      | b # _ \<Rightarrow> if \<not> second a b then ilseq else mbr_loop (Suc (length r)) (lead_state a) r)"
  using seq_len_ge_80 [of a] not_lead_iff [of a] OOB_second [of a]
  by (simp add: mbrtowc_def mbr_tail_def split: list.splits)

lemma secondD: "second a b \<Longrightarrow> cont b"
  by (simp add: second_def)

lemma mbrtowc_2:
  assumes "seq_len a = 2"
  shows "mbrtowc True (Some (a # r)) 0 = (case r of [] \<Rightarrow> (- 2, None, lead_state a)
    | b # _ \<Rightarrow> if \<not> second a b then ilseq else (2, Some (seq_wc [a, b]), 0))"
  using assms state2(2) [OF assms secondD] state2(1) [THEN seq_wcI, OF assms secondD]
  by (auto simp: mbrtowc_lead Let_def split: list.splits)

lemma mbrtowc_3:
  assumes "seq_len a = 3"
  shows "mbrtowc True (Some (a # r)) 0 = (case r of [] \<Rightarrow> (- 2, None, lead_state a)
    | b # r \<Rightarrow> if \<not> second a b then ilseq else (case r of [] \<Rightarrow> (- 2, None, shift_in (lead_state a) b)
    | c # _ \<Rightarrow> if \<not> cont c then ilseq else (3, Some (seq_wc [a, b, c]), 0)))"
  using assms state3(1,3) [OF assms secondD] state3(2) [THEN seq_wcI, OF assms secondD]
  by (auto simp: mbrtowc_lead Let_def not_cont_iff split: list.splits)

lemma mbrtowc_4:
  assumes "seq_len a = 4"
  shows "mbrtowc True (Some (a # r)) 0 = (case r of [] \<Rightarrow> (- 2, None, lead_state a)
    | b # r \<Rightarrow> if \<not> second a b then ilseq else (case r of [] \<Rightarrow> (- 2, None, shift_in (lead_state a) b)
    | c # r \<Rightarrow> if \<not> cont c then ilseq else (case r of [] \<Rightarrow> (- 2, None, shift_in (shift_in (lead_state a) b) c)
    | d # _ \<Rightarrow> if \<not> cont d then ilseq else (4, Some (seq_wc [a, b, c, d]), 0))))"
  using assms state4(1,2,4) [OF assms secondD] state4(3) [THEN seq_wcI, OF assms secondD]
  by (auto simp: mbrtowc_lead Let_def not_cont_iff split: list.splits)

lemma seq_len_cases:
  obtains "seq_len a = 0" | "seq_len a = 1" | "seq_len a = 2" | "seq_len a = 3" | "seq_len a = 4"
proof -
  have "seq_len a \<in> {0, 1, 2, 3, 4}" by (simp add: seq_len.simps)
  then show ?thesis using that by blast
qed

lemmas mbrtowc_init = mbrtowc_0 mbrtowc_1 mbrtowc_2 mbrtowc_3 mbrtowc_4


section \<open>The decoder on whole sequences\<close>

lemma seq_val_0: "wf_seq (a # bs) \<Longrightarrow> seq_val (a # bs) = 0 \<longleftrightarrow> a = 0"
proof -
  assume wf: "wf_seq (a # bs)"
  have "enc (seq_val (a # bs)) = map unat (a # bs)" by (rule wf_enc(2) [OF wf])
  then have "seq_val (a # bs) = 0 \<Longrightarrow> unat a = 0" by (simp add: enc_def)
  moreover have "bs = []" if "a = 0" using wf that by (cases "a # bs" rule: wf_seq.cases) (auto simp: seq_len_unat)
  ultimately show ?thesis by (auto simp: unat_eq_zero)
qed

lemma mbrtowc_wf:
  assumes "wf_seq sq"
  shows "mbrtowc True (Some (sq @ rest)) 0 = (if seq_val sq = 0 then 0 else of_nat (length sq), Some (seq_wc sq), 0)"
  using assms
proof (cases sq rule: wf_seq.cases)
  case (1 a)
  with assms show ?thesis by (simp add: mbrtowc_1 unat_eq_zero)
next
  case (2 a b)
  with assms seq_val_0 [of a "[b]"] show ?thesis by (auto simp: mbrtowc_2 seq_len_unat simp del: seq_val.simps)
next
  case (3 a b c)
  with assms seq_val_0 [of a "[b, c]"] show ?thesis by (auto simp: mbrtowc_3 seq_len_unat simp del: seq_val.simps)
next
  case (4 a b c d)
  with assms seq_val_0 [of a "[b, c, d]"] show ?thesis by (auto simp: mbrtowc_4 seq_len_unat simp del: seq_val.simps)
qed auto

lemma mbrtowc_SomeD:
  assumes "mbrtowc True (Some bs) 0 = (r, Some wc, st)"
  shows "\<exists>sq rest. bs = sq @ rest \<and> wf_seq sq"
proof (cases bs)
  case Nil
  with assms show ?thesis by (simp add: mbrtowc_def)
next
  case (Cons a r1)
  show ?thesis
  proof (cases rule: seq_len_cases [of a])
    case 1
    with assms Cons show ?thesis by (simp add: mbrtowc_0)
  next
    case 2
    with Cons show ?thesis by (intro exI [of _ "[a]"] exI [of _ r1]) simp
  next
    case 3
    with assms Cons obtain b r2 where "r1 = b # r2" "second a b" by (auto simp: mbrtowc_2 split: list.splits if_splits)
    with 3 Cons show ?thesis by (intro exI [of _ "[a, b]"] exI [of _ r2]) simp
  next
    case 4
    with assms Cons obtain b c r2 where "r1 = b # c # r2" "second a b" "cont c"
      by (auto simp: mbrtowc_3 split: list.splits if_splits)
    with 4 Cons show ?thesis by (intro exI [of _ "[a, b, c]"] exI [of _ r2]) simp
  next
    case 5
    with assms Cons obtain b c d r2 where "r1 = b # c # d # r2" "second a b" "cont c" "cont d"
      by (auto simp: mbrtowc_4 split: list.splits if_splits)
    with 5 Cons show ?thesis by (intro exI [of _ "[a, b, c, d]"] exI [of _ r2]) simp
  qed
qed

lemma unat_seq_wc: "wf_seq bs \<Longrightarrow> unat (seq_wc bs) = seq_val bs"
proof -
  assume "wf_seq bs"
  then have "seq_val bs < 4294967296" using wf_enc(1) [of bs] by (auto simp: scalar_nat_def)
  then show ?thesis unfolding seq_wc_def unat_of_nat by (simp add: take_bit_nat_eq_self)
qed

lemma mbrtowc_iff:
  "mbrtowc True (Some bs) 0 = (r, Some wc, st) \<longleftrightarrow> (\<exists>sq rest. bs = sq @ rest \<and> wcrtomb True wc = Some sq \<and>
     r = (if wc = 0 then 0 else of_nat (length sq)) \<and> st = 0)"
proof
  assume dec: "mbrtowc True (Some bs) 0 = (r, Some wc, st)"
  then obtain sq rest where sq: "bs = sq @ rest" "wf_seq sq" using mbrtowc_SomeD by blast
  with dec mbrtowc_wf [OF sq(2), of rest] have
    "wc = seq_wc sq" "st = 0" "r = (if seq_val sq = 0 then 0 else of_nat (length sq))" by simp_all
  moreover from this have "wcrtomb True wc = Some sq" "wc = 0 \<longleftrightarrow> seq_val sq = 0"
    using sq(2) wcrtomb_wf [of wc sq] unat_seq_wc [OF sq(2)] by (simp_all add: unat_eq_zero [symmetric])
  ultimately show "\<exists>sq rest. bs = sq @ rest \<and> wcrtomb True wc = Some sq \<and> r = (if wc = 0 then 0 else of_nat (length sq)) \<and> st = 0"
    using sq(1) by auto
next
  assume "\<exists>sq rest. bs = sq @ rest \<and> wcrtomb True wc = Some sq \<and> r = (if wc = 0 then 0 else of_nat (length sq)) \<and> st = 0"
  then obtain sq rest where sq: "bs = sq @ rest" "wf_seq sq" "seq_val sq = unat wc"
    "r = (if wc = 0 then 0 else of_nat (length sq))" "st = 0" by (auto simp: wcrtomb_wf)
  moreover from this have "seq_wc sq = wc" by (metis unat_seq_wc word_unat_eq_iff)
  ultimately show "mbrtowc True (Some bs) 0 = (r, Some wc, st)"
    using mbrtowc_wf [OF sq(2), of rest] by (simp add: unat_eq_zero)
qed


section \<open>Restarting\<close>

definition shift_ret :: "nat \<Rightarrow> decoded \<Rightarrow> decoded" where
  "shift_ret k = (\<lambda>(r, w, st). (if w = None then r else r - of_nat k, w, st))"

lemma mbr_loop_shift: "length bs \<le> N \<Longrightarrow> mbr_loop N c bs = shift_ret k (mbr_loop (N + k) c bs)"
proof (induction bs arbitrary: c)
  case (Cons b bs)
  then have "of_nat (N + k - length bs) - of_nat k = (of_nat (N - length bs) :: u64)" by (simp add: of_nat_diff)
  with Cons show ?case by (simp add: Let_def shift_ret_def split: list.splits)
qed (simp add: shift_ret_def)

lemma mbr_tail_shift: "length bs \<le> N \<Longrightarrow> mbr_tail N c bs = shift_ret k (mbr_tail (N + k) c bs)"
  using mbr_loop_shift [of bs N c k] by (cases bs) (simp_all add: mbr_tail_def shift_ret_def split_def)

text \<open>In a state inside a character the next byte may be any continuation byte.\<close>

lemma sint_u32: "sint (c :: u32) = (int (unat c) + 2 ^ 31) mod 2 ^ 32 - 2 ^ 31"
  unfolding sint_uint signed_take_bit_eq_take_bit_shift uint_nat by (simp add: take_bit_eq_mod)

lemma sint_neg:
  assumes "sint (c :: u32) < 0"
  shows "2 ^ 31 \<le> unat c"
proof (rule ccontr)
  assume "\<not> 2 ^ 31 \<le> unat c"
  then have "unat c < 2147483648" by simp
  then have "int (unat c) < 2147483648" by linarith
  then have "sint c = int (unat c)" unfolding sint_u32 by (subst mod_pos_pos_trivial) simp_all
  with assms show False by simp
qed

lemma sint_high:
  assumes "0xc0000000 \<le> unat (c :: u32)" "unat c < 0xc4000000"
  shows "sint c div 2 ^ 26 = - 16"
proof -
  define u where "u = int (unat c)"
  have u: "0xc0000000 \<le> u" "u < 0xc4000000" using assms unfolding u_def by linarith+
  have "sint c = (u + 2 ^ 31) mod 2 ^ 32 - 2 ^ 31"
    unfolding sint_u32 u_def ..
  also have "\<dots> = u - 2 ^ 32" using u minus_mod_self2 [of "u + 2 ^ 31" "2 ^ 32"] by simp
  finally show ?thesis using u by simp
qed

lemma OOB_inside: "0xc0000000 \<le> unat c \<Longrightarrow> unat c < 0xc4000000 \<Longrightarrow> OOB c b = 0 \<longleftrightarrow> cont b"
  unfolding OOB_iff cont_unat using sint_high [of c] lead_off_range [of "unat b" 0] by (simp only: lead_off_def) auto

lemma inside3:
  assumes "seq_len a = 3" "cont b"
  shows "OOB (shift_in (lead_state a) b) c = 0 \<longleftrightarrow> cont c"
proof (rule OOB_inside)
  have a: "unat a - 0xe0 < 16" "unat (lead_state a) mod 2 ^ 26 = 0x3000000 + (unat a - 0xe0)"
    using assms(1) lead_state_vals(1) [of a] by (auto simp: seq_len_unat lead_low_def split: if_splits)
  show "0xc0000000 \<le> unat (shift_in (lead_state a) b)" "unat (shift_in (lead_state a) b) < 0xc4000000"
    unfolding shift_in_val [OF assms(2)] a(2) using a(1) cont_less [OF assms(2)] by simp_all
qed

lemma inside4:
  assumes "seq_len a = 4" "cont b"
  shows "OOB (shift_in (lead_state a) b) c = 0 \<longleftrightarrow> cont c"
    "cont c \<Longrightarrow> OOB (shift_in (shift_in (lead_state a) b) c) d = 0 \<longleftrightarrow> cont d"
proof -
  have a: "unat a - 0xf0 < 5" "unat (lead_state a) mod 2 ^ 26 = 0x30c0000 + (unat a - 0xf0)"
    using assms(1) lead_state_vals(1) [of a] by (auto simp: seq_len_unat lead_low_def split: if_splits)
  have c1: "unat (shift_in (lead_state a) b) = 48 * 2 ^ 26 + (0x3000000 + ((unat a - 0xf0) * 64 + (unat b - 0x80)))"
    unfolding shift_in_val [OF assms(2)] a(2) by simp
  then show "OOB (shift_in (lead_state a) b) c = 0 \<longleftrightarrow> cont c"
    using a(1) cont_less [OF assms(2)] by (intro OOB_inside) simp_all
  have m1: "unat (shift_in (lead_state a) b) mod 2 ^ 26 = 0x3000000 + ((unat a - 0xf0) * 64 + (unat b - 0x80))"
    unfolding c1 using a(1) cont_less [OF assms(2)] by (intro mod_low) simp
  show "OOB (shift_in (shift_in (lead_state a) b) c) d = 0 \<longleftrightarrow> cont d" if "cont c"
  proof (rule OOB_inside)
    show "0xc0000000 \<le> unat (shift_in (shift_in (lead_state a) b) c)" "unat (shift_in (shift_in (lead_state a) b) c) < 0xc4000000"
      unfolding shift_in_val [OF that] m1 using a(1) cont_less [OF assms(2)] cont_less [OF that] by simp_all
  qed
qed

lemma more_not_0: "more c \<Longrightarrow> c \<noteq> 0"
  by (auto simp: more_def)

lemma lead_state_not_0: "2 \<le> seq_len a \<Longrightarrow> lead_state a \<noteq> 0"
  using lead_state_vals(2) [of a] by (auto simp: lead_off_def split: if_splits)

lemma mbrtowc_resume: "c \<noteq> 0 \<Longrightarrow> ys \<noteq> [] \<Longrightarrow> mbrtowc True (Some ys) c = mbr_tail (length ys) c ys"
  by (cases ys) (simp_all add: mbrtowc_def)

lemma mbrtowc_partial_cases:
  assumes "mbrtowc True (Some xs) 0 = (- 2, None, st)" "xs \<noteq> []"
  obtains (1) a where "xs = [a]" "2 \<le> seq_len a" "st = lead_state a"
  | (2) a b where "xs = [a, b]" "3 \<le> seq_len a" "second a b" "st = shift_in (lead_state a) b"
  | (3) a b c where "xs = [a, b, c]" "seq_len a = 4" "second a b" "cont c" "st = shift_in (shift_in (lead_state a) b) c"
proof -
  obtain a r where xs: "xs = a # r" using assms(2) by (cases xs) auto
  show ?thesis
    using assms(1) that unfolding xs
    by (cases rule: seq_len_cases [of a])
      (auto simp: mbrtowc_0 mbrtowc_1 mbrtowc_2 mbrtowc_3 mbrtowc_4 split: list.splits if_splits)
qed

lemma mbrtowc_restart:
  assumes "mbrtowc True (Some xs) 0 = (- 2, None, st)" "xs \<noteq> []" "ys \<noteq> []"
  shows "mbrtowc True (Some ys) st = shift_ret (length xs) (mbrtowc True (Some (xs @ ys)) 0)"
  using assms(1,2)
proof (cases rule: mbrtowc_partial_cases)
  case (1 a)
  have "mbrtowc True (Some (xs @ ys)) 0 = mbr_tail (length ys + length xs) st ys"
    using seq_len_ge_80 [of a] not_lead_iff [of a] 1 by (auto simp: mbrtowc_def)
  then show ?thesis using mbr_tail_shift [of ys "length ys" st "length xs"] mbrtowc_resume [OF lead_state_not_0 assms(3)] 1 by simp
next
  case (2 a b)
  obtain y zs where y: "ys = y # zs" using assms(3) by (cases ys) auto
  have m: "more st" and oob: "OOB st y = 0 \<longleftrightarrow> cont y"
    using 2 state3(1) [OF _ secondD, of a a b] state4(1) [OF _ secondD, of a a b] inside3 [OF _ secondD, of a a b] inside4(1) [OF _ secondD, of a a b]
    by (cases rule: seq_len_cases [of a]; simp)+
  have "mbrtowc True (Some (xs @ ys)) 0 = mbr_tail (length ys + length xs) st ys"
    using 2 m oob by (simp add: mbrtowc_lead y Let_def mbr_tail_def not_cont_iff)
  then show ?thesis using mbr_tail_shift [of ys "length ys" st "length xs"] mbrtowc_resume [OF more_not_0 [OF m] assms(3)] by simp
next
  case (3 a b c)
  obtain y zs where y: "ys = y # zs" using assms(3) by (cases ys) auto
  have m: "more (shift_in (lead_state a) b)" "more st" and oob: "OOB st y = 0 \<longleftrightarrow> cont y"
    using 3 state4(1,2) [OF 3(2) secondD [OF 3(3)]] inside4(2) [OF 3(2) secondD [OF 3(3)], of c] by auto
  have "mbrtowc True (Some (xs @ ys)) 0 = mbr_tail (length ys + length xs) st ys"
    using 3 m oob by (simp add: mbrtowc_lead y Let_def mbr_tail_def not_cont_iff)
  then show ?thesis using mbr_tail_shift [of ys "length ys" st "length xs"] mbrtowc_resume [OF more_not_0 [OF m(2)] assms(3)] by simp
qed


lemma wf_seq_length: "wf_seq sq \<Longrightarrow> (if wc = (0 :: u32) then 0 else of_nat (length sq)) \<noteq> (- 2 :: u64)"
  by (cases sq rule: wf_seq.cases) auto

lemma mbrtowc_partial_iff:
  "fst (mbrtowc True (Some bs) 0) = - 2 \<longleftrightarrow> (\<exists>ys. ys \<noteq> [] \<and> wf_seq (bs @ ys))"
proof
  assume "fst (mbrtowc True (Some bs) 0) = - 2"
  then obtain w st where dec: "mbrtowc True (Some bs) 0 = (- 2, w, st)" by (metis prod.collapse)
  have "w = None"
  proof (cases w)
    case (Some wc)
    then obtain sq where "wf_seq sq" "(if wc = 0 then 0 else of_nat (length sq)) = (- 2 :: u64)"
      using dec mbrtowc_iff [of bs "- 2" wc st] wcrtomb_wf [of wc] by auto
    then show ?thesis using wf_seq_length by metis
  qed
  with dec have partial: "mbrtowc True (Some bs) 0 = (- 2, None, st)" by simp
  show "\<exists>ys. ys \<noteq> [] \<and> wf_seq (bs @ ys)"
  proof (cases "bs = []")
    case True
    then show ?thesis by (intro exI [of _ "[0]"]) (simp add: seq_len_unat)
  next
    case False
    define second_byte :: "u8 \<Rightarrow> u8" where "second_byte a = (if a = 0xe0 then 0xa0 else if a = 0xf0 then 0x90 else 0x80)" for a
    have b: "second a (second_byte a)" "cont 0x80" for a by (auto simp: second_def second_byte_def cont_def)
    from partial False show ?thesis
    proof (cases rule: mbrtowc_partial_cases)
      case (1 a)
      then consider "seq_len a = 2" | "seq_len a = 3" | "seq_len a = 4" by (cases rule: seq_len_cases [of a]) auto
      then show ?thesis
      proof cases
        case 1
        then show ?thesis using \<open>bs = [a]\<close> b by (intro exI [of _ "[second_byte a]"]) simp
      next
        case 2
        then show ?thesis using \<open>bs = [a]\<close> b by (intro exI [of _ "[second_byte a, 0x80]"]) simp
      next
        case 3
        then show ?thesis using \<open>bs = [a]\<close> b by (intro exI [of _ "[second_byte a, 0x80, 0x80]"]) simp
      qed
    next
      case (2 a c)
      then consider "seq_len a = 3" | "seq_len a = 4" by (cases rule: seq_len_cases [of a]) auto
      then show ?thesis
      proof cases
        case 1
        then show ?thesis using 2 b by (intro exI [of _ "[0x80]"]) simp
      next
        case 2
        then show ?thesis using \<open>bs = [a, c]\<close> \<open>second a c\<close> b by (intro exI [of _ "[0x80, 0x80]"]) simp
      qed
    next
      case (3 a c d)
      then show ?thesis using b by (intro exI [of _ "[0x80]"]) simp
    qed
  qed
next
  assume "\<exists>ys. ys \<noteq> [] \<and> wf_seq (bs @ ys)"
  then obtain ys where ys: "ys \<noteq> []" "wf_seq (bs @ ys)" by blast
  show "fst (mbrtowc True (Some bs) 0) = - 2"
  proof (cases bs)
    case Nil
    then show ?thesis by (simp add: mbrtowc_def)
  next
    case (Cons a r)
    from ys have "seq_len a = 2 \<and> r = [] \<or> (seq_len a = 3 \<and> (r = [] \<or> (\<exists>b. r = [b] \<and> second a b))) \<or>
       (seq_len a = 4 \<and> (r = [] \<or> (\<exists>b. r = [b] \<and> second a b) \<or> (\<exists>b c. r = [b, c] \<and> second a b \<and> cont c)))"
      unfolding Cons by (cases "(a # r) @ ys" rule: wf_seq.cases) (auto simp: append_eq_Cons_conv Cons_eq_append_conv)
    then show ?thesis unfolding Cons by (auto simp: mbrtowc_2 mbrtowc_3 mbrtowc_4)
  qed
qed

section \<open>One test of the length is enough\<close>

lemma unat_push6: "unat (push_bit 6 (c :: u32)) = 64 * (unat c mod 2 ^ 26)"
proof -
  have "push_bit 6 c = of_nat (64 * unat c)" by (simp add: push_bit_eq_mult mult.commute)
  then have "unat (push_bit 6 c) = (64 * unat c) mod (64 * 2 ^ 26)"
    by (simp only: unat_of_nat) (simp add: take_bit_eq_mod)
  then show ?thesis unfolding mod_mult2_eq by simp
qed

lemma lead_low_shift:
  assumes "0xc2 \<le> a" "a < 0xf5"
  shows "64 * lead_low a mod 2 ^ 26 =
    (if a < 0xe0 then 64 * (a - 0xc0) else if a < 0xf0 then 64 * (a - 0xe0) else 0x3000000 + 64 * (a - 0xf0))"
proof -
  consider "a < 0xe0" | x where "a = 0xe0 + x" "x < 16" | x where "a = 0xf0 + x" "x < 5"
    using assms that(1) that(2) [of "a - 0xe0"] that(3) [of "a - 0xf0"] by linarith
  then show ?thesis
  proof cases
    case 1
    then have "64 * (a - 0xc0) < 2 ^ 26" by simp
    with 1 show ?thesis by (simp only: lead_low_def if_True mod_less)
  next
    case (2 x)
    then show ?thesis using mod_low [of "64 * x" 48] by (simp add: lead_low_def)
  next
    case (3 x)
    then show ?thesis using mod_low [of "0x3000000 + 64 * x" 48] by (simp add: lead_low_def)
  qed
qed

lemma lead_more:
  assumes "2 \<le> seq_len a" "0 < n" "n < 4"
  shows "more (push_bit (6 * n - 6) (lead_state a)) \<longleftrightarrow> n < seq_len a"
proof -
  have a: "0xc2 \<le> unat a" "unat a < 0xf5" using assms(1) by (simp_all add: seq_len_unat split: if_splits)
  note low = lead_state_vals(1) [OF assms(1)]
  have 2: "unat (push_bit 6 (lead_state a)) = 64 * lead_low (unat a)" unfolding unat_push6 low ..
  have 3: "unat (push_bit 12 (lead_state a)) = 64 * (64 * lead_low (unat a) mod 2 ^ 26)"
  proof -
    have "push_bit 12 (lead_state a) = push_bit 6 (push_bit 6 (lead_state a))" by simp
    then show ?thesis by (simp only: unat_push6 [of "push_bit 6 (lead_state a)"] 2)
  qed
  consider "n = 1" | "n = 2" | "n = 3" using assms(2,3) by linarith
  then show ?thesis
  proof cases
    case 1
    have "sint (lead_state a) < 0" using lead_state_vals(2) [OF assms(1)] by (auto simp: lead_off_def split: if_splits)
    then have "more (lead_state a)" unfolding more_iff by (rule sint_neg)
    then show ?thesis using 1 assms(1) by simp
  next
    case 2
    have "more (push_bit 6 (lead_state a)) \<longleftrightarrow> 2 < seq_len a"
      unfolding more_iff \<open>unat (push_bit 6 (lead_state a)) = _\<close> using a by (auto simp: lead_low_def seq_len_unat)
    with 2 show ?thesis by simp
  next
    case 3
    note lead_low_shift [OF a]
    then have "more (push_bit 12 (lead_state a)) \<longleftrightarrow> 3 < seq_len a"
      unfolding more_iff \<open>unat (push_bit 12 (lead_state a)) = _\<close> using a by (auto simp: lead_low_def seq_len_unat)
    with 3 show ?thesis by simp
  qed
qed


lemma mbtowc_lead:
  assumes "2 \<le> seq_len a" "n \<noteq> 0"
  shows "mbtowc True (Some (a # r)) n =
    (if n < seq_len a then Some (- 1, None) else do {
       b1 \<leftarrow> rd8 (a # r) 1;
       if \<not> second a b1 then Some (- 1, None)
       else let c = shift_in (lead_state a) b1 in if \<not> more c then Some (2, Some c) else do {
         b2 \<leftarrow> rd8 (a # r) 2;
         if \<not> cont b2 then Some (- 1, None)
         else let c = shift_in c b2 in if \<not> more c then Some (3, Some c) else do {
           b3 \<leftarrow> rd8 (a # r) 3;
           if \<not> cont b3 then Some (- 1, None) else Some (4, Some (shift_in c b3)) } } })"
proof -
  have nl: "\<not> a < 0x80" "\<not> not_lead a" using assms(1) seq_len_ge_80 [of a] not_lead_iff [of a] by auto
  have "seq_len a \<le> 4" by (simp add: seq_len_unat)
  then have lm: "n < 4 \<and> more (push_bit (6 * n - 6) (lead_state a)) \<longleftrightarrow> n < seq_len a"
    using lead_more [OF assms(1), of n] assms(2) by (cases "n < 4") auto
  have "rd8 (a # r) 0 = Some a" by (simp add: rd8_def)
  then show ?thesis
    unfolding mbtowc_def option.case Let_def lm not_cont_iff using assms(2) nl OOB_second [OF assms(1)]
    by (simp only: bind.bind_lunit if_False not_True_eq_False lm)
qed

lemma mbrtowc_short:
  assumes "n < seq_len a"
  shows "fst (snd (mbrtowc True (Some (take n (a # r))) 0)) = None"
proof (rule ccontr)
  assume "\<not> ?thesis"
  then obtain t wc st where "mbrtowc True (Some (take n (a # r))) 0 = (t, Some wc, st)" by (metis option.exhaust prod.collapse)
  then obtain sq rest where sq: "take n (a # r) = sq @ rest" "wf_seq sq" using mbrtowc_SomeD by blast
  from sq(2) obtain b bs where bs: "sq = b # bs" by (cases sq) auto
  then have "length sq = seq_len b" using sq(2) by (cases sq rule: wf_seq.cases) auto
  moreover have "b = a" using sq(1) bs by (cases n) auto
  moreover have "length sq \<le> n" using arg_cong [OF sq(1), of length] by simp
  ultimately show False using assms by simp
qed

lemma mbtowc_full:
  assumes "2 \<le> seq_len a" "seq_len a \<le> n" "n \<le> length (a # r)"
  shows "mbtowc True (Some (a # r)) n =
    Some (case mbrtowc True (Some (take n (a # r))) 0 of (t, w, _) \<Rightarrow> (if w = None then - 1 else int (unat t), w))"
proof -
  note mb = mbtowc_lead [of a n r, OF assms(1)]
  consider (2) "seq_len a = 2" | (3) "seq_len a = 3" | (4) "seq_len a = 4"
    using assms(1) by (cases rule: seq_len_cases [of a]) auto
  then show ?thesis
  proof cases
    case 2
    then obtain b q where r: "r = b # q" using assms(2,3) by (cases r) auto
    have "take n (a # r) = a # b # take (n - 2) q" using 2 assms(2) by (cases n; cases "n - 1") (auto simp: r)
    then show ?thesis using mb 2 assms(2) state2(2) [OF 2 secondD, of a b] state2(1) [THEN seq_wcI, OF 2 secondD, of a b]
      by (auto simp: r mbrtowc_2 rd8_def Let_def)
  next
    case 3
    then obtain b c q where r: "r = b # c # q" using assms(2,3) by (cases r; cases "tl r") auto
    have "take n (a # r) = a # b # c # take (n - 3) q" using 3 assms(2) by (simp add: r take_Cons' numeral_eq_Suc)
    then show ?thesis using mb 3 assms(2) state3(1,3) [OF 3 secondD, of a b] state3(2) [THEN seq_wcI, OF 3 secondD, of a b]
      by (auto simp: r mbrtowc_3 rd8_def Let_def)
  next
    case 4
    then obtain b c d q where r: "r = b # c # d # q" using assms(2,3) by (cases r; cases "tl r"; cases "tl (tl r)") auto
    have "take n (a # r) = a # b # c # d # take (n - 4) q" using 4 assms(2) by (simp add: r take_Cons' numeral_eq_Suc)
    then show ?thesis using mb 4 assms(2) state4(1,2,4) [OF 4 secondD, of a b] state4(3) [THEN seq_wcI, OF 4 secondD, of a b]
      by (auto simp: r mbrtowc_4 rd8_def Let_def)
  qed
qed

lemma mbtowc_mbrtowc:
  assumes "n \<le> length s"
  shows "mbtowc True (Some s) n =
    Some (case mbrtowc True (Some (take n s)) 0 of (r, w, _) \<Rightarrow> (if w = None then - 1 else int (unat r), w))"
proof (cases "n = 0")
  case True
  then show ?thesis by (simp add: mbtowc_def mbrtowc_def)
next
  case n0: False
  then obtain a r where s: "s = a # r" using assms by (cases s) auto
  obtain k where k: "n = Suc k" using n0 by (cases n) auto
  consider "seq_len a = 0" | "seq_len a = 1" | "2 \<le> seq_len a" "n < seq_len a" | "2 \<le> seq_len a" "seq_len a \<le> n" by linarith
  then show ?thesis
  proof cases
    case 1
    then show ?thesis using k seq_len_ge_80 [of a] not_lead_iff [of a] by (simp add: s mbtowc_def rd8_def mbrtowc_0)
  next
    case 2
    then have "a < 0x80" by (simp add: seq_len.simps split: if_splits)
    then show ?thesis using k by (simp add: s mbtowc_def rd8_def mbrtowc_def)
  next
    case 3
    then show ?thesis using mbrtowc_short [of n a r] mbtowc_lead [of a n r] n0
      by (cases "mbrtowc True (Some (take n (a # r))) 0") (simp add: s)
  next
    case 4
    then show ?thesis using mbtowc_full [of a n r] assms by (simp add: s)
  qed
qed


section \<open>Properties\<close>

text \<open>
  C27. In a UTF-8 locale \<open>mbrtowc\<close> decodes exactly what \<open>wcrtomb\<close> encodes: from the initial state it accepts
  a byte string if and only if it starts with the encoding of a character, and then gives that character
  and the length of its encoding (0 for the null character); the encodings are exactly the well-formed
  sequences of the Unicode standard, for all scalar values and no others.
\<close>

theorem utf8_exact:
  "(mbrtowc True (Some bs) 0 = (r, Some wc, st) \<longleftrightarrow> (\<exists>sq rest. bs = sq @ rest \<and> wcrtomb True wc = Some sq \<and>
      r = (if wc = 0 then 0 else of_nat (length sq)) \<and> st = 0)) \<and>
   (wcrtomb True wc = Some bs \<longleftrightarrow> wf_seq bs \<and> seq_val bs = unat wc) \<and>
   (wcrtomb True wc = None \<longleftrightarrow> \<not> scalar wc)"
  using mbrtowc_iff [of bs r wc st] wcrtomb_wf [of wc bs] wcrtomb_scalar [of wc] by blast



text \<open>
  \<open>mbtowc\<close>, which tests the given length only once, reads no byte beyond it and agrees with \<open>mbrtowc\<close> on
  the bytes it was given: an incomplete or ill-formed sequence is the error -1.
\<close>

theorem mbtowc_in_bounds:
  assumes "length s = n"
  shows "mbtowc True (Some s) n =
    Some (case mbrtowc True (Some s) 0 of (r, w, _) \<Rightarrow> (if w = None then - 1 else int (unat r), w))"
  using mbtowc_mbrtowc [of n s] assms by simp

theorem mbtowc_in_bounds_witness:
  "mbtowc True (Some [0xe2, 0x82]) 2 = Some (- 1, None)"
proof -
  have "seq_len 0xe2 = 3" "second 0xe2 0x82" by (simp_all add: seq_len.simps second_def cont_def)
  then have "fst (snd (mbrtowc True (Some [0xe2, 0x82]) 0)) = None" by (simp add: mbrtowc_3)
  then show ?thesis using mbtowc_in_bounds [of "[0xe2, 0x82]" 2] by (cases "mbrtowc True (Some [0xe2, 0x82]) 0") simp
qed

end
