(* ===== verification/Mbstring.thy ===== *)
theory Mbstring
  imports Multibyte
begin

text \<open>
  Multibyte strings and UTF-16: \<open>mbsrtowcs.c\<close>, \<open>wcsrtombs.c\<close>, \<open>wcsnrtombs.c\<close>, \<open>mbrtoc16.c\<close> and the wrappers
  around them, under \<open>src/musl-1.2.5/src/multibyte\<close>.

  Shown here: the conversion with its word-at-a-time path does what decoding character by character does;
  counting without a buffer returns for every terminated string and counts what the conversion stores; a
  wide string survives the way to bytes and back; a conversion that resumes a pending character stores
  more characters than it has room for exactly when it has room for none.
\<close>

section \<open>Converting strings\<close>

text \<open>
  The memory that \<open>mbsrtowcs\<close> reads is a function from addresses to bytes: its word-at-a-time path
  loads four aligned bytes at once, also beyond the end of the string. A conversion into a buffer gives
  the \<open>size_t\<close> result, the characters it stores, the new \<open>*src\<close> (0: null) and the new state.
\<close>

type_synonym memory = "nat \<Rightarrow> u8"
type_synonym converted = "u64 \<times> u32 list \<times> nat \<times> u32"

definition load32 :: "memory \<Rightarrow> nat \<Rightarrow> u32" where
  "load32 m s = ucast (m s) + push_bit 8 (ucast (m (s + 1))) + push_bit 16 (ucast (m (s + 2))) + push_bit 24 (ucast (m (s + 3)))"

definition ascii4 :: "u32 \<Rightarrow> bool" where
  "ascii4 w \<longleftrightarrow> and (or w (w - 0x01010101)) 0x80808080 = 0"

definition ascii :: "u8 \<Rightarrow> bool" where
  "ascii b \<longleftrightarrow> ucast b - 1 < (0x7f :: u32)"

text \<open>The inner loop over aligned words, \<open>while (wn>=5 && ...)\<close>; the characters stored come out reversed.\<close>

function mbs_words :: "memory \<Rightarrow> nat \<Rightarrow> nat \<Rightarrow> u32 list \<Rightarrow> nat \<times> nat \<times> u32 list" where
  "mbs_words m s wn ws =
     (if wn \<ge> 5 \<and> ascii4 (load32 m s)
      then mbs_words m (s + 4) (wn - 4) (ucast (m (s + 3)) # ucast (m (s + 2)) # ucast (m (s + 1)) # ucast (m s) # ws)
      else (s, wn, ws))"
  by pat_completeness auto

termination
  by (relation "measure (\<lambda>(m, s, wn, ws). wn)") auto

declare mbs_words.simps [simp del]

text \<open>
  The body from the label \<open>resume\<close> to the store, with \<open>s\<close> after the first byte: \<open>Inl\<close> is a break, with
  \<open>s\<close> moved back and the value of \<open>c\<close>; \<open>Inr\<close> the character and the next address.
\<close>

definition mbs_resume :: "memory \<Rightarrow> nat \<Rightarrow> u32 \<Rightarrow> nat \<times> u32 + u32 \<times> nat" where
  "mbs_resume m s c =
     (if OOB c (m s) \<noteq> 0 then Inl (s - 1, c)
      else let c = shift_in c (m s); s = s + 1 in
        if more c then
          if not_cont (m s) then Inl (s - 2, c)
          else let c = shift_in c (m s); s = s + 1 in
            if more c then
              if not_cont (m s) then Inl (s - 3, c) else Inr (shift_in c (m s), s + 1)
            else Inr (c, s)
        else Inr (c, s))"

text \<open>After the loop: \<open>c\<close> tells whether the break was inside a character.\<close>

definition mbs_finish :: "memory \<Rightarrow> nat \<Rightarrow> nat \<Rightarrow> nat \<times> u32 \<Rightarrow> u32 list \<Rightarrow> converted" where
  "mbs_finish m wn0 wn = (\<lambda>(s, c) ws.
     if c = 0 \<and> m s = 0 then (of_nat wn0 - of_nat wn, rev (0 # ws), 0, 0) else (- 1, rev ws, s, 0))"

lemma mbs_words_wn: "mbs_words m s wn ws = (s', wn', ws') \<Longrightarrow> wn' \<le> wn \<and> (0 < wn \<longrightarrow> 0 < wn')"
proof (induction m s wn ws rule: mbs_words.induct)
  case (1 m s wn ws)
  then show ?case using mbs_words.simps [of m s wn ws] by (fastforce split: if_splits)
qed

function mbs_loop :: "memory \<Rightarrow> nat \<Rightarrow> nat \<Rightarrow> nat \<Rightarrow> u32 list \<Rightarrow> converted" where
  "mbs_loop m wn0 wn s ws =
     (if wn = 0 then (of_nat wn0, rev ws, s, 0)
      else case (if ascii (m s) \<and> s mod 4 = 0 then mbs_words m s wn ws else (s, wn, ws)) of (s, wn, ws) \<Rightarrow>
        if ascii (m s) then mbs_loop m wn0 (wn - 1) (s + 1) (ucast (m s) # ws)
        else if not_lead (m s) then mbs_finish m wn0 wn (s, 0) ws
        else case mbs_resume m (s + 1) (lead_state (m s)) of
          Inl brk \<Rightarrow> mbs_finish m wn0 wn brk ws
        | Inr (c, s) \<Rightarrow> mbs_loop m wn0 (wn - 1) s (c # ws))"
  by pat_completeness auto

termination
proof (relation "measure (\<lambda>(m, wn0, wn, s, ws). wn)", goal_cases)
  case 1
  show ?case by simp
next
  case (2 m wn0 wn s ws s1 y wn1 ws1)
  then have "wn1 \<le> wn \<and> 0 < wn1"
    using mbs_words_wn [of m s wn ws s1 wn1 ws1] by (auto split: if_splits)
  then show ?case by auto
next
  case (3 m wn0 wn s ws s1 y wn1 ws1)
  then have "wn1 \<le> wn \<and> 0 < wn1"
    using mbs_words_wn [of m s wn ws s1 wn1 ws1] by (auto split: if_splits)
  then show ?case by auto
qed

declare mbs_loop.simps [simp del]

text \<open>The conversion in the C locale.\<close>

fun mbs_bytes :: "memory \<Rightarrow> nat \<Rightarrow> nat \<Rightarrow> nat \<Rightarrow> u32 list \<Rightarrow> converted" where
  "mbs_bytes m wn0 0 s ws = (of_nat wn0, rev ws, s, 0)"
| "mbs_bytes m wn0 (Suc wn) s ws =
     (if m s = 0 then (of_nat wn0 - of_nat (Suc wn), rev (0 # ws), 0, 0)
      else mbs_bytes m wn0 wn (s + 1) (CODEUNIT (m s) # ws))"

text \<open>
  \<open>mbsrtowcs(ws, src, wn, st)\<close> with a buffer \<open>ws\<close>. With a character pending the code decodes and stores it
  before it looks at \<open>wn\<close>; \<open>wn--\<close> is on a 64-bit \<open>size_t\<close>.
\<close>

definition mbsrtowcs :: "bool \<Rightarrow> memory \<Rightarrow> nat \<Rightarrow> nat \<Rightarrow> u32 \<Rightarrow> converted" where
  "mbsrtowcs utf8 m src wn st =
     (if st \<noteq> 0 then
        case mbs_resume m src st of Inl brk \<Rightarrow> mbs_finish m wn wn brk []
        | Inr (c, s) \<Rightarrow> mbs_loop m wn (unat (of_nat wn - 1 :: u64)) s [c]
      else if \<not> utf8 then mbs_bytes m wn wn src []
      else mbs_loop m wn wn src [])"

definition mbstowcs :: "bool \<Rightarrow> memory \<Rightarrow> nat \<Rightarrow> nat \<Rightarrow> u64 \<times> u32 list" where
  "mbstowcs utf8 m s wn = (case mbsrtowcs utf8 m s wn 0 of (r, ws, _) \<Rightarrow> (r, ws))"

text \<open>
  \<open>mbsrtowcs\<close> with a null buffer counts the characters. These loops have no bound; not returning is
  \<open>None\<close>. The state is only read.
\<close>

partial_function (option) mbs_words0 :: "memory \<Rightarrow> nat \<Rightarrow> u64 \<Rightarrow> (nat \<times> u64) option" where
  "mbs_words0 m s wn = (if ascii4 (load32 m s) then mbs_words0 m (s + 4) (wn - 4) else Some (s, wn))"

definition mbs_resume0 :: "memory \<Rightarrow> nat \<Rightarrow> u32 \<Rightarrow> nat \<times> u32 + nat" where
  "mbs_resume0 m s c =
     (if OOB c (m s) \<noteq> 0 then Inl (s - 1, c)
      else let s = s + 1 in
        if and c (push_bit 25 1) \<noteq> 0 then
          if not_cont (m s) then Inl (s - 2, c)
          else let s = s + 1 in
            if and c (push_bit 19 1) \<noteq> 0 then
              if not_cont (m s) then Inl (s - 3, c) else Inr (s + 1)
            else Inr s
        else Inr s)"

definition mbs_finish0 :: "memory \<Rightarrow> u64 \<Rightarrow> u64 \<Rightarrow> nat \<times> u32 \<Rightarrow> u64" where
  "mbs_finish0 m wn0 wn = (\<lambda>(s, c). if c = 0 \<and> m s = 0 then wn0 - wn else - 1)"

partial_function (option) mbs_count :: "memory \<Rightarrow> u64 \<Rightarrow> u64 \<Rightarrow> nat \<Rightarrow> u64 option" where
  "mbs_count m wn0 wn s = do {
     (s, wn) \<leftarrow> (if ascii (m s) \<and> s mod 4 = 0 then mbs_words0 m s wn else Some (s, wn));
     if ascii (m s) then mbs_count m wn0 (wn - 1) (s + 1)
     else if not_lead (m s) then Some (mbs_finish0 m wn0 wn (s, 0))
     else case mbs_resume0 m (s + 1) (lead_state (m s)) of
       Inl brk \<Rightarrow> Some (mbs_finish0 m wn0 wn brk)
     | Inr s \<Rightarrow> mbs_count m wn0 (wn - 1) s }"

text \<open>\<open>strlen\<close>, for the C locale.\<close>

partial_function (option) mbs_strlen :: "memory \<Rightarrow> nat \<Rightarrow> nat option" where
  "mbs_strlen m s = (if m s = 0 then Some 0 else do { n \<leftarrow> mbs_strlen m (s + 1); Some (n + 1) })"

definition mbsrtowcs_null :: "bool \<Rightarrow> memory \<Rightarrow> nat \<Rightarrow> u64 \<Rightarrow> u32 \<Rightarrow> u64 option" where
  "mbsrtowcs_null utf8 m src wn st =
     (if st \<noteq> 0 then
        case mbs_resume0 m src st of Inl brk \<Rightarrow> Some (mbs_finish0 m wn wn brk)
        | Inr s \<Rightarrow> mbs_count m wn (wn - 1) s
      else if \<not> utf8 then map_option of_nat (mbs_strlen m src)
      else mbs_count m wn wn src)"

text \<open>
  \<open>wcsrtombs\<close>: the wide string is the list of its characters up to the terminator, and reading beyond
  the list is \<open>None\<close>. With a null buffer it counts the bytes; otherwise it gives the \<open>size_t\<close> result, the
  bytes stored and the new \<open>*ws\<close>, as the characters left or \<open>None\<close> for the null pointer.
\<close>

fun wcs_count :: "bool \<Rightarrow> u32 list \<Rightarrow> u64 \<Rightarrow> u64 option" where
  "wcs_count utf8 [] n = None"
| "wcs_count utf8 (w # ws) n =
     (if w = 0 then Some n
      else if w \<ge> 0x80 then
        case wcrtomb utf8 w of None \<Rightarrow> Some (- 1) | Some bs \<Rightarrow> wcs_count utf8 ws (n + of_nat (length bs))
      else wcs_count utf8 ws (n + 1))"

type_synonym encoded = "u64 \<times> bytes \<times> u32 list option"

text \<open>The loop for the last three bytes of the buffer, and the loop before it.\<close>

fun wcs_tail :: "bool \<Rightarrow> nat \<Rightarrow> nat \<Rightarrow> u32 list \<Rightarrow> bytes \<Rightarrow> encoded option" where
  "wcs_tail utf8 N n [] s = (if n = 0 then Some (of_nat N, s, Some []) else None)"
| "wcs_tail utf8 N n (w # ws) s =
     (if n = 0 then Some (of_nat N, s, Some (w # ws))
      else if w - 1 \<ge> 0x7f then
        if w = 0 then Some (of_nat (N - n), s @ [0], None)
        else case wcrtomb utf8 w of None \<Rightarrow> Some (- 1, s, Some (w # ws))
          | Some bs \<Rightarrow> if length bs > n then Some (of_nat (N - n), s, Some (w # ws))
                       else wcs_tail utf8 N (n - length bs) ws (s @ bs)
      else wcs_tail utf8 N (n - 1) ws (s @ [ucast w]))"

fun wcs_loop :: "bool \<Rightarrow> nat \<Rightarrow> nat \<Rightarrow> u32 list \<Rightarrow> bytes \<Rightarrow> encoded option" where
  "wcs_loop utf8 N n [] s = (if n \<ge> 4 then None else wcs_tail utf8 N n [] s)"
| "wcs_loop utf8 N n (w # ws) s =
     (if n \<ge> 4 then
        if w - 1 \<ge> 0x7f then
          if w = 0 then Some (of_nat (N - n), s @ [0], None)
          else case wcrtomb utf8 w of None \<Rightarrow> Some (- 1, s, Some (w # ws))
            | Some bs \<Rightarrow> wcs_loop utf8 N (n - length bs) ws (s @ bs)
        else wcs_loop utf8 N (n - 1) ws (s @ [ucast w])
      else wcs_tail utf8 N n (w # ws) s)"

definition wcsrtombs :: "bool \<Rightarrow> u32 list \<Rightarrow> nat \<Rightarrow> encoded option" where
  "wcsrtombs utf8 ws n = wcs_loop utf8 n n ws []"

definition wcstombs :: "bool \<Rightarrow> u32 list \<Rightarrow> nat \<Rightarrow> (u64 \<times> bytes) option" where
  "wcstombs utf8 ws n = map_option (\<lambda>(r, s, _). (r, s)) (wcsrtombs utf8 ws n)"

text \<open>
  \<open>wcsnrtombs(dst, wcs, wn, n, st)\<close>: \<open>dst\<close> is null when \<open>null\<close> is set. \<open>MB_LEN_MAX\<close> is 4. A character is
  encoded into \<open>dst\<close> itself when \<open>n\<close> is at least \<open>MB_LEN_MAX\<close>, and through a temporary otherwise.
\<close>

fun wcsn_loop :: "bool \<Rightarrow> bool \<Rightarrow> nat \<Rightarrow> nat \<Rightarrow> u32 list \<Rightarrow> nat \<Rightarrow> bytes \<Rightarrow> encoded option" where
  "wcsn_loop utf8 null cnt 0 ws n s = Some (of_nat cnt, s, Some ws)"
| "wcsn_loop utf8 null cnt (Suc wn) [] n s = None"
| "wcsn_loop utf8 null cnt (Suc wn) (w # ws) n s =
     (case wcrtomb utf8 w of None \<Rightarrow> Some (- 1, s, Some (w # ws))
      | Some bs \<Rightarrow>
          if \<not> null \<and> n < 4 \<and> length bs > n then Some (of_nat cnt, s, Some (w # ws))
          else let s = (if null then s else s @ bs); n = (if null then n else n - length bs)
            in if w = 0 then Some (of_nat cnt, s, None)
               else wcsn_loop utf8 null (cnt + length bs) wn ws n s)"

definition wcsnrtombs :: "bool \<Rightarrow> bool \<Rightarrow> u32 list \<Rightarrow> nat \<Rightarrow> nat \<Rightarrow> encoded option" where
  "wcsnrtombs utf8 null ws wn n =
     map_option (\<lambda>(r, s, ws'). (r, s, if null then Some ws else ws'))
       (wcsn_loop utf8 null 0 wn ws (if null then 0 else n) [])"

section \<open>UTF-16 and UTF-32\<close>

text \<open>\<open>mbrtoc16\<close>: a pending low surrogate is a state with the high bit clear.\<close>

definition mbrtoc16_s :: "bool \<Rightarrow> bytes \<Rightarrow> u32 \<Rightarrow> u64 \<times> u16 option \<times> u32" where
  "mbrtoc16_s utf8 s ps =
     (if sint ps > 0 then (- 3, Some (ucast ps), 0)
      else case mbrtowc utf8 (Some s) ps of (ret, w, ps') \<Rightarrow>
        (case w of Some wc \<Rightarrow>
           if wc \<ge> 0x10000 then (ret, Some (ucast (0xd7c0 + drop_bit 10 wc)), and wc 0x3ff + 0xdc00)
           else (ret, Some (ucast wc), ps')
         | None \<Rightarrow> (ret, None, ps')))"

definition mbrtoc16 :: "bool \<Rightarrow> bytes option \<Rightarrow> u32 \<Rightarrow> u64 \<times> u16 option \<times> u32" where
  "mbrtoc16 utf8 s ps =
     (case s of None \<Rightarrow> (case mbrtoc16_s utf8 [0] ps of (r, _, ps') \<Rightarrow> (r, None, ps'))
      | Some s \<Rightarrow> mbrtoc16_s utf8 s ps)"

text \<open>\<open>c16rtomb\<close> with a buffer: the \<open>size_t\<close> result, the bytes stored and the new state.\<close>

definition c16rtomb :: "bool \<Rightarrow> bool \<Rightarrow> u16 \<Rightarrow> u32 \<Rightarrow> u64 \<times> bytes \<times> u32" where
  "c16rtomb utf8 null c16 x =
     (if null then if x \<noteq> 0 then (- 1, [], 0) else (1, [], x)
      else if x = 0 \<and> ucast c16 - 0xd800 < (0x400 :: u32) then (0, [], push_bit 10 (ucast c16 - 0xd7c0))
      else if x \<noteq> 0 \<and> ucast c16 - 0xdc00 \<ge> (0x400 :: u32) then (- 1, [], 0)
      else let wc = (if x \<noteq> 0 then x + ucast c16 - 0xdc00 else ucast c16)
           in case wcrtomb utf8 wc of None \<Rightarrow> (- 1, [], 0) | Some bs \<Rightarrow> (of_nat (length bs), bs, 0))"

definition mbrtoc32 :: "bool \<Rightarrow> bytes option \<Rightarrow> u32 \<Rightarrow> decoded" where
  "mbrtoc32 utf8 s ps =
     (case s of None \<Rightarrow> (case mbrtowc utf8 (Some [0]) ps of (r, _, ps') \<Rightarrow> (r, None, ps'))
      | Some s \<Rightarrow> mbrtowc utf8 (Some s) ps)"

definition c32rtomb :: "bool \<Rightarrow> bool \<Rightarrow> u32 \<Rightarrow> u64" where
  "c32rtomb utf8 null c32 = wcrtomb_ret utf8 null c32"

section \<open>Converting character by character\<close>

text \<open>
  The reference for the string conversion: up to \<open>n\<close> characters, each decoded from the four bytes at its
  address, with the address where it stopped and why.
\<close>

datatype stop = Full | End | Bad

fun char_run :: "memory \<Rightarrow> nat \<Rightarrow> nat \<Rightarrow> u32 list \<times> nat \<times> stop" where
  "char_run m s 0 = ([], s, Full)"
| "char_run m s (Suc n) =
     (case mbrtowc True (Some [m s, m (s + 1), m (s + 2), m (s + 3)]) 0 of
        (r, None, _) \<Rightarrow> ([], s, Bad)
      | (r, Some wc, _) \<Rightarrow> if r = 0 then ([], s, End)
          else case char_run m (s + unat r) n of (ws, t, e) \<Rightarrow> (wc # ws, t, e))"

definition run_result :: "nat \<Rightarrow> u32 list \<Rightarrow> u32 list \<times> nat \<times> stop \<Rightarrow> converted" where
  "run_result wn0 pre = (\<lambda>(ws, t, e). case e of
     Full \<Rightarrow> (of_nat wn0, pre @ ws, t, 0)
   | End \<Rightarrow> (of_nat (length (pre @ ws)), pre @ ws @ [0], 0, 0)
   | Bad \<Rightarrow> (- 1, pre @ ws, t, 0))"

lemma ascii_unat: "ascii b \<longleftrightarrow> 0 < unat b \<and> unat b < 0x80"
proof -
  have "unat (ucast b - 1 :: u32) = (if 1 \<le> unat b then unat b - 1 else unat b + 2 ^ 32 - 1)"
    by (simp add: unat_sub_if')
  then show ?thesis by (auto simp: ascii_def word_less_nat_alt)
qed

lemma char_ascii: "ascii (m s) \<Longrightarrow> mbrtowc True (Some (m s # r)) 0 = (1, Some (ucast (m s)), 0)"
  by (auto simp: mbrtowc_def ascii_unat word_less_nat_alt)

text \<open>Decoding in place is decoding from the four bytes.\<close>

lemma mbs_resume_char:
  assumes "2 \<le> seq_len (m s)"
  shows "case mbs_resume m (s + 1) (lead_state (m s)) of
    Inl (t, c) \<Rightarrow> t = s \<and> c \<noteq> 0 \<and> mbrtowc True (Some [m s, m (s + 1), m (s + 2), m (s + 3)]) 0 = ilseq
  | Inr (wc, t) \<Rightarrow> \<exists>r. mbrtowc True (Some [m s, m (s + 1), m (s + 2), m (s + 3)]) 0 = (r, Some wc, 0) \<and> r \<noteq> 0 \<and> t = s + unat r"
proof -
  note lead = OOB_second [OF assms] lead_state_not_0 [OF assms]
  consider "seq_len (m s) = 2" | "seq_len (m s) = 3" | "seq_len (m s) = 4"
    using assms by (cases rule: seq_len_cases [of "m s"]) auto
  then show ?thesis
  proof cases
    case 1
    show ?thesis using lead state2(2) [OF 1 secondD] state2(1) [THEN seq_wcI, OF 1 secondD]
      by (auto simp: mbs_resume_def mbrtowc_2 [OF 1] Let_def)
  next
    case 2
    show ?thesis using lead state3(1,3) [OF 2 secondD] state3(2) [THEN seq_wcI, OF 2 secondD] more_not_0
      by (auto simp: mbs_resume_def mbrtowc_3 [OF 2] Let_def not_cont_iff)
  next
    case 3
    show ?thesis using lead state4(1,2,4) [OF 3 secondD] state4(3) [THEN seq_wcI, OF 3 secondD] more_not_0
      by (auto simp: mbs_resume_def mbrtowc_4 [OF 3] Let_def not_cont_iff numeral_3_eq_3)
  qed
qed


text \<open>A word without high bits whose bytes, less one each, have no high bits holds four ASCII characters.\<close>

lemma even_low: "even (v div 128) \<Longrightarrow> v mod 256 < (128 :: nat)"
  using mod_mult2_eq [of v 128 2] by (simp add: even_iff_mod_2_eq_zero)

lemma no_high_bits:
  assumes "and x 0x80808080 = (0 :: u32)"
  shows "\<exists>a b c d. a < 128 \<and> b < 128 \<and> c < 128 \<and> d < 128 \<and> unat x = a + 256 * (b + 256 * (c + 256 * d))"
proof -
  have "\<not> bit (and x 0x80808080) n" for n using assms by simp
  from this [of 7] this [of 15] this [of 23] this [of 31]
  have nb: "\<not> bit x 7" "\<not> bit x 15" "\<not> bit x 23" "\<not> bit x 31" by (simp_all add: bit_simps)
  have bt: "bit x n \<longleftrightarrow> odd (unat x div 2 ^ n)" if "n < 32" for n
    using bit_iff_odd [of "unat x" n] that by (simp add: bit_unsigned_iff)
  let ?u = "unat x"
  have e: "even (?u div 128)" "even (?u div 256 div 128)" "even (?u div 256 div 256 div 128)" "even (?u div 256 div 256 div 256 div 128)"
    using nb bt [of 7] bt [of 15] bt [of 23] bt [of 31] by (simp_all flip: div_mult2_eq)
  have "?u < 256 * (256 * (256 * 256))" using unsigned_less [of x, where ?'a = nat] by simp
  then have "?u div 256 div 256 div 256 < 256" by (simp add: less_mult_imp_div_less)
  then have d: "?u div 256 div 256 div 256 mod 256 = ?u div 256 div 256 div 256" by simp
  have "?u = ?u mod 256 + 256 * (?u div 256 mod 256 + 256 * (?u div 256 div 256 mod 256 + 256 * (?u div 256 div 256 div 256 mod 256)))"
    unfolding d mod_mult_div_eq by simp
  with e [THEN even_low] show ?thesis by blast
qed

lemma digit_less: "a < 256 \<Longrightarrow> x < k \<Longrightarrow> a + 256 * x < 256 * (k :: nat)"
proof -
  assume "a < 256" "x < k"
  then have "a + 256 * x < 256 * (x + 1)" "x + 1 \<le> k" by simp_all
  then show ?thesis by (meson less_le_trans mult_le_mono2)
qed

lemma bytes4_less: "a < 256 \<Longrightarrow> b < 256 \<Longrightarrow> c < 256 \<Longrightarrow> d < 256 \<Longrightarrow> a + 256 * (b + 256 * (c + 256 * d)) < (4294967296 :: nat)"
  using digit_less [OF _ digit_less [OF _ digit_less], of a b c d 256] by simp

lemma load32_unat: "unat (load32 m s) = unat (m s) + 256 * (unat (m (s + 1)) + 256 * (unat (m (s + 2)) + 256 * unat (m (s + 3))))"
proof -
  let ?v = "unat (m s) + 256 * (unat (m (s + 1)) + 256 * (unat (m (s + 2)) + 256 * unat (m (s + 3))))"
  have "load32 m s = of_nat ?v" by (simp add: load32_def push_bit_eq_mult algebra_simps)
  moreover have "?v < 4294967296"
    by (intro bytes4_less) simp_all
  ultimately show ?thesis by (simp only: unat_of_nat) (simp add: take_bit_nat_eq_self)
qed

lemma digit_unique: "a + 256 * x = a' + 256 * x' \<Longrightarrow> a < 256 \<Longrightarrow> a' < 256 \<Longrightarrow> a = a' \<and> x = (x' :: nat)"
proof -
  assume eq: "a + 256 * x = a' + 256 * x'" and a: "a < 256" "a' < 256"
  from a have "(a + 256 * x) mod 256 = a" "(a' + 256 * x') mod 256 = a'" by simp_all
  with eq show ?thesis by simp
qed

lemma bytes4_unique:
  fixes a b c d :: nat
  assumes "a + 256 * (b + 256 * (c + 256 * d)) = a' + 256 * (b' + 256 * (c' + 256 * d'))"
    and "a < 256" "b < 256" "c < 256" "a' < 256" "b' < 256" "c' < 256"
  shows "a = a' \<and> b = b' \<and> c = c' \<and> d = d'"
  using digit_unique [OF assms(1,2,5)] digit_unique [of b _ b'] digit_unique [of c d c' d'] assms by blast

lemma ascii4_bytes:
  assumes "ascii4 (load32 m s)"
  shows "ascii (m s)" "ascii (m (s + 1))" "ascii (m (s + 2))" "ascii (m (s + 3))"
proof -
  let ?w = "load32 m s"
  have "and ?w 0x80808080 = 0" "and (?w - 0x01010101) 0x80808080 = 0"
    using assms unfolding ascii4_def bit.conj_disj_distrib2 or_eq_0_iff by blast+
  then obtain a b c d a' b' c' d' where
    w: "a < 128" "b < 128" "c < 128" "d < 128" "unat ?w = a + 256 * (b + 256 * (c + 256 * d))" and
    x: "a' < 128" "b' < 128" "c' < 128" "d' < 128" "unat (?w - 0x01010101) = a' + 256 * (b' + 256 * (c' + 256 * d'))"
    using no_high_bits by metis
  let ?n = "(a' + 1) + 256 * ((b' + 1) + 256 * ((c' + 1) + 256 * (d' + 1)))"
  have "?w = (?w - 0x01010101) + 0x01010101" by simp
  also have "\<dots> = of_nat (unat (?w - 0x01010101)) + of_nat 0x01010101" by simp
  also have "\<dots> = of_nat ?n" unfolding x(5) by (simp add: algebra_simps)
  finally have "?w = of_nat ?n" .
  moreover have "?n < 4294967296" using x(1-4) by (intro bytes4_less) simp_all
  ultimately have u: "unat ?w = ?n" by (simp only: unat_of_nat) (simp add: take_bit_nat_eq_self)
  have eq: "a = a' + 1 \<and> b = b' + 1 \<and> c = c' + 1 \<and> d = d' + 1"
    using u w(1-4) x(1-4) unfolding w(5) by (intro bytes4_unique) simp_all
  have "unat (m s) = a \<and> unat (m (s + 1)) = b \<and> unat (m (s + 2)) = c \<and> unat (m (s + 3)) = d"
    using load32_unat [of m s] w(1-4) unfolding w(5) by (intro bytes4_unique) simp_all
  with eq w show "ascii (m s)" "ascii (m (s + 1))" "ascii (m (s + 2))" "ascii (m (s + 3))"
    by (simp_all add: ascii_unat)
qed


section \<open>The fast conversion is the reference\<close>

definition prepend :: "u32 list \<Rightarrow> u32 list \<times> nat \<times> stop \<Rightarrow> u32 list \<times> nat \<times> stop" where
  "prepend xs = (\<lambda>(ws, t, e). (xs @ ws, t, e))"

lemma prepend_simps [simp]:
  "prepend [] r = r" "prepend xs (prepend ys r) = prepend (xs @ ys) r"
  by (simp_all add: prepend_def split_def)

lemma run_result_prepend: "run_result wn0 pre (prepend xs r) = run_result wn0 (pre @ xs) r"
  by (simp add: run_result_def prepend_def split_def split: stop.splits)

lemma char_run_step:
  "mbrtowc True (Some [m s, m (s + 1), m (s + 2), m (s + 3)]) 0 = (r, Some wc, 0) \<Longrightarrow> r \<noteq> 0 \<Longrightarrow>
   char_run m s (Suc n) = prepend [wc] (char_run m (s + unat r) n)"
  by (simp add: prepend_def split_def)

lemma char_run_ascii: "ascii (m s) \<Longrightarrow> char_run m s (Suc n) = prepend [ucast (m s)] (char_run m (s + 1) n)"
  using char_run_step [of m s 1 "ucast (m s)" n] char_ascii [where m = m and s = s] by (simp del: char_run.simps)

lemma mbs_words_run:
  "mbs_words m s wn ws = (s', wn', ws') \<Longrightarrow>
   \<exists>xs. ws' = rev xs @ ws \<and> wn = wn' + length xs \<and> char_run m s wn = prepend xs (char_run m s' wn')"
proof (induction m s wn ws rule: mbs_words.induct)
  case (1 m s wn ws)
  show ?case
  proof (cases "wn \<ge> 5 \<and> ascii4 (load32 m s)")
    case False
    with "1.prems" show ?thesis by (auto simp: mbs_words.simps [of m s wn ws])
  next
    case True
    let ?ys = "[ucast (m s), ucast (m (s + 1)), ucast (m (s + 2)), ucast (m (s + 3))]"
    have "mbs_words m (s + 4) (wn - 4) (rev ?ys @ ws) = (s', wn', ws')"
      using "1.prems" True by (simp add: mbs_words.simps [of m s wn ws])
    with "1.IH" [OF True] obtain xs where xs: "ws' = rev xs @ rev ?ys @ ws" "wn - 4 = wn' + length xs"
      "char_run m (s + 4) (wn - 4) = prepend xs (char_run m s' wn')" by auto
    obtain k where k: "wn = Suc (Suc (Suc (Suc k)))" 
      using True that [of "wn - 4"] by linarith
    have "char_run m s wn = prepend ?ys (char_run m (s + 4) k)"
      using ascii4_bytes [of m s] True unfolding k by (simp add: char_run_ascii eval_nat_numeral del: char_run.simps)
    with xs k show ?thesis by (intro exI [of _ "?ys @ xs"]) simp
  qed
qed


lemma char_run_Bad: "mbrtowc True (Some [m s, m (s + 1), m (s + 2), m (s + 3)]) 0 = ilseq \<Longrightarrow> char_run m s (Suc n) = ([], s, Bad)"
  by simp

lemma char_run_not_lead:
  assumes "\<not> ascii (m s)" "not_lead (m s)"
  shows "char_run m s (Suc n) = ([], s, if m s = 0 then End else Bad)"
proof (cases "m s = 0")
  case False
  then have "0x80 \<le> unat (m s)" using assms(1) by (auto simp: ascii_unat unat_eq_zero)
  then have "0x80 \<le> m s" by (simp add: word_le_nat_alt)
  then show ?thesis using False assms(2) not_lead_iff [of "m s"] by (simp add: mbrtowc_0)
qed (simp add: mbrtowc_def)

lemma lead_seq_len:
  assumes "\<not> ascii b" "\<not> not_lead b"
  shows "2 \<le> seq_len b"
proof -
  have "b \<noteq> 0" using assms(2) by (auto simp: not_lead_def SA_def SB_def)
  then have u: "0x80 \<le> unat b" using assms(1) by (auto simp: ascii_unat unat_eq_zero)
  then have "seq_len b \<noteq> 0" using assms(2) not_lead_iff [of b] by (simp add: word_le_nat_alt)
  with u show ?thesis by (auto simp: seq_len_unat split: if_splits)
qed

lemma mbs_loop_run:
  assumes "wn0 = wn + length ws"
  shows "mbs_loop m wn0 wn s ws = run_result wn0 (rev ws) (char_run m s wn)"
  using assms
proof (induction wn arbitrary: s ws rule: less_induct)
  case (less wn)
  show ?case
  proof (cases "wn = 0")
    case True
    then show ?thesis by (simp add: mbs_loop.simps [of m wn0 0] run_result_def)
  next
    case False
    define p where "p = (if ascii (m s) \<and> s mod 4 = 0 then mbs_words m s wn ws else (s, wn, ws))"
    obtain s1 wn1 ws1 where p: "p = (s1, wn1, ws1)" by (cases p)
    obtain xs where xs: "ws1 = rev xs @ ws" "wn = wn1 + length xs" "char_run m s wn = prepend xs (char_run m s1 wn1)"
      using p mbs_words_run [of m s wn ws s1 wn1 ws1] unfolding p_def by (auto split: if_splits)
    have "wn1 \<noteq> 0" using p False mbs_words_wn [of m s wn ws s1 wn1 ws1] unfolding p_def by (auto split: if_splits)
    then obtain n where n: "wn1 = Suc n" by (cases wn1) auto
    have goal: "run_result wn0 (rev ws) (char_run m s wn) = run_result wn0 (rev ws1) (char_run m s1 (Suc n))"
      by (simp add: xs(1,3) run_result_prepend n)
    have len: "wn0 = Suc n + length ws1" using less.prems xs(1,2) n by simp
    have IH: "mbs_loop m wn0 n t (c # ws1) = run_result wn0 (rev ws1) (prepend [c] (char_run m t n))" for t c
      using less.IH [of n "c # ws1" t] n xs(2) len by (simp add: run_result_prepend)
    have loop: "mbs_loop m wn0 wn s ws =
        (if ascii (m s1) then mbs_loop m wn0 n (s1 + 1) (ucast (m s1) # ws1)
         else if not_lead (m s1) then mbs_finish m wn0 (Suc n) (s1, 0) ws1
         else case mbs_resume m (s1 + 1) (lead_state (m s1)) of Inl brk \<Rightarrow> mbs_finish m wn0 (Suc n) brk ws1
           | Inr (c, t) \<Rightarrow> mbs_loop m wn0 n t (c # ws1))"
      unfolding mbs_loop.simps [of m wn0 wn] p_def [symmetric] p n using False
      by (simp only: if_False diff_Suc_1 prod.case)
    have sub: "of_nat wn0 - of_nat (Suc n) = (of_nat (length ws1) :: u64)" using len by simp
    show ?thesis
    proof (cases "ascii (m s1)")
      case True
      then show ?thesis unfolding goal by (simp add: loop IH char_run_ascii del: char_run.simps)
    next
      case asc: False
      show ?thesis
      proof (cases "not_lead (m s1)")
        case True
        then show ?thesis unfolding goal loop char_run_not_lead [of m s1, OF asc True]
          using asc sub by (simp add: mbs_finish_def run_result_def)
      next
        case False
        note char = mbs_resume_char [of m s1, OF lead_seq_len [OF asc False]]
        show ?thesis
        proof (cases "mbs_resume m (s1 + 1) (lead_state (m s1))")
          case (Inl brk)
          then show ?thesis using char asc False unfolding goal loop
            by (cases brk) (simp add: char_run_Bad mbs_finish_def run_result_def del: char_run.simps)
        next
          case (Inr ct)
          obtain c t where ct: "ct = (c, t)" by (cases ct)
          then obtain r where r: "mbrtowc True (Some [m s1, m (s1 + 1), m (s1 + 2), m (s1 + 3)]) 0 = (r, Some c, 0)" "r \<noteq> 0" "t = s1 + unat r"
            using char Inr by auto
          then show ?thesis using asc False Inr ct unfolding goal loop char_run_step [OF r(1,2)]
            by (simp add: IH del: char_run.simps)
        qed
      qed
    qed
  qed
qed


section \<open>Counting is converting\<close>

lemma and_bit_iff: "n < 32 \<Longrightarrow> and c (push_bit n 1) \<noteq> (0 :: u32) \<longleftrightarrow> odd (unat c div 2 ^ n)"
proof -
  assume n: "n < 32"
  have "and c (push_bit n 1) \<noteq> 0 \<longleftrightarrow> bit c n" by (metis and_exp_eq_0_iff_not_bit push_bit_of_1)
  then show ?thesis using bit_iff_odd [of "unat c" n] n by (simp add: bit_unsigned_iff)
qed

text \<open>The bits of the first state tell how many bytes follow.\<close>

lemma lead_bits:
  assumes "2 \<le> seq_len a"
  shows "and (lead_state a) (push_bit 25 1) \<noteq> 0 \<longleftrightarrow> 3 \<le> seq_len a"
    "and (lead_state a) (push_bit 19 1) \<noteq> 0 \<longleftrightarrow> 4 \<le> seq_len a"
proof -
  have low: "odd (unat (lead_state a) div 2 ^ n) \<longleftrightarrow> odd (lead_low (unat a) div 2 ^ n)" if "n < 26" for n
  proof -
    have "odd (unat (lead_state a) div 2 ^ n) \<longleftrightarrow> odd (unat (lead_state a) mod 2 ^ 26 div 2 ^ n)"
      using that bit_take_bit_iff [of 26 "unat (lead_state a)" n] unfolding take_bit_eq_mod bit_iff_odd by blast
    then show ?thesis unfolding lead_state_vals(1) [OF assms] .
  qed
  have a: "0xc2 \<le> unat a" "unat a < 0xf5" using assms by (simp_all add: seq_len_unat split: if_splits)
  have "odd (lead_low (unat a) div 2 ^ 25) \<longleftrightarrow> 3 \<le> seq_len a"
    "odd (lead_low (unat a) div 2 ^ 19) \<longleftrightarrow> 4 \<le> seq_len a"
  proof -
    have "lead_low (unat a) div 2 ^ 25 = (if unat a < 0xe0 then 0 else 1)"
      "lead_low (unat a) div 2 ^ 19 = (if unat a < 0xe0 then 0 else if unat a < 0xf0 then 96 else 97)"
      using a by (auto simp: lead_low_def)
    then show "odd (lead_low (unat a) div 2 ^ 25) \<longleftrightarrow> 3 \<le> seq_len a"
      "odd (lead_low (unat a) div 2 ^ 19) \<longleftrightarrow> 4 \<le> seq_len a"
      using a by (simp_all add: seq_len_unat)
  qed
  then show "and (lead_state a) (push_bit 25 1) \<noteq> 0 \<longleftrightarrow> 3 \<le> seq_len a"
    "and (lead_state a) (push_bit 19 1) \<noteq> 0 \<longleftrightarrow> 4 \<le> seq_len a"
    using low [of 25] low [of 19] and_bit_iff [of 25 "lead_state a"] and_bit_iff [of 19 "lead_state a"] by simp_all
qed


lemma mbs_resume0_char:
  assumes "2 \<le> seq_len (m s)"
  shows "case mbs_resume0 m (s + 1) (lead_state (m s)) of
    Inl (t, c) \<Rightarrow> c \<noteq> 0 \<and> mbrtowc True (Some [m s, m (s + 1), m (s + 2), m (s + 3)]) 0 = ilseq
  | Inr t \<Rightarrow> \<exists>r wc. mbrtowc True (Some [m s, m (s + 1), m (s + 2), m (s + 3)]) 0 = (r, Some wc, 0) \<and> r \<noteq> 0 \<and> t = s + unat r"
proof -
  note lead = OOB_second [OF assms] lead_state_not_0 [OF assms] lead_bits [OF assms]
  consider "seq_len (m s) = 2" | "seq_len (m s) = 3" | "seq_len (m s) = 4"
    using assms by (cases rule: seq_len_cases [of "m s"]) auto
  then show ?thesis
  proof cases
    case 1
    show ?thesis using lead 1 by (auto simp: mbs_resume0_def mbrtowc_2 [OF 1] Let_def)
  next
    case 2
    show ?thesis using lead 2 by (auto simp: mbs_resume0_def mbrtowc_3 [OF 2] Let_def not_cont_iff)
  next
    case 3
    show ?thesis using lead 3 by (auto simp: mbs_resume0_def mbrtowc_4 [OF 3] Let_def not_cont_iff numeral_3_eq_3)
  qed
qed

lemma char_run_ascii4:
  "ascii4 (load32 m s) \<Longrightarrow> char_run m s (Suc (Suc (Suc (Suc k)))) =
     prepend [ucast (m s), ucast (m (s + 1)), ucast (m (s + 2)), ucast (m (s + 3))] (char_run m (s + 4) k)"
  using ascii4_bytes [of m s] by (simp add: char_run_ascii eval_nat_numeral del: char_run.simps)

lemma prepend_stop [simp]: "snd (snd (prepend xs r)) = snd (snd r)" "fst (prepend xs r) = xs @ fst r"
  by (simp_all add: prepend_def split_def)

lemma char_run_ascii4_full:
  assumes "ascii4 (load32 m s)" "n \<le> 4"
  shows "snd (snd (char_run m s n)) = Full"
proof -
  note a = ascii4_bytes [OF assms(1)]
  consider "n = 0" | "n = Suc 0" | "n = Suc (Suc 0)" | "n = Suc (Suc (Suc 0))" | "n = Suc (Suc (Suc (Suc 0)))"
    using assms(2) by linarith
  then show ?thesis
    by cases (use a in \<open>simp_all add: char_run_ascii eval_nat_numeral del: char_run.simps(2)\<close>)
qed

lemma mbs_words0_run:
  assumes "snd (snd (char_run m s n)) \<noteq> Full"
  shows "\<exists>xs s' n'. mbs_words0 m s wn = Some (s', wn - of_nat (length xs)) \<and> n = n' + length xs \<and>
    char_run m s n = prepend xs (char_run m s' n')"
  using assms
proof (induction n arbitrary: s wn rule: less_induct)
  case (less n)
  show ?case
  proof (cases "ascii4 (load32 m s)")
    case False
    then show ?thesis by (intro exI [of _ "[]"]) (simp add: mbs_words0.simps [of m s])
  next
    case True
    then have "\<not> n \<le> 4" using less.prems char_run_ascii4_full [of m s n] by blast
    then obtain k where k: "n = Suc (Suc (Suc (Suc k)))" using that [of "n - 4"] by linarith
    let ?ys = "[ucast (m s), ucast (m (s + 1)), ucast (m (s + 2)), ucast (m (s + 3))]"
    have run: "char_run m s n = prepend ?ys (char_run m (s + 4) k)" unfolding k by (rule char_run_ascii4 [OF True])
    then have "snd (snd (char_run m (s + 4) k)) \<noteq> Full" using less.prems by simp
    with less.IH [of k "s + 4" "wn - 4"] k obtain xs s' n' where
      "mbs_words0 m (s + 4) (wn - 4) = Some (s', wn - 4 - of_nat (length xs))" "k = n' + length xs"
      "char_run m (s + 4) k = prepend xs (char_run m s' n')" by auto
    then show ?thesis using True k run
      by (intro exI [of _ "?ys @ xs"] exI [of _ s'] exI [of _ n']) (simp add: mbs_words0.simps [of m s])
  qed
qed

lemma mbs_count_run:
  assumes "snd (snd (char_run m s n)) \<noteq> Full"
  shows "mbs_count m wn0 wn s = Some (if snd (snd (char_run m s n)) = End then wn0 - wn + of_nat (length (fst (char_run m s n))) else - 1)"
  using assms
proof (induction n arbitrary: s wn rule: less_induct)
  case (less n)
  obtain xs s1 n1 where xs: "(if ascii (m s) \<and> s mod 4 = 0 then mbs_words0 m s wn else Some (s, wn)) = Some (s1, wn - of_nat (length xs))"
    "n = n1 + length xs" "char_run m s n = prepend xs (char_run m s1 n1)"
  proof (cases "ascii (m s) \<and> s mod 4 = 0")
    case True
    then show ?thesis using mbs_words0_run [OF less.prems, of wn] that by auto
  next
    case False
    then show ?thesis using that [of s "[]" n] by auto
  qed
  have nf: "snd (snd (char_run m s1 n1)) \<noteq> Full" using less.prems xs(3) by simp
  then obtain k where k: "n1 = Suc k" by (cases n1) auto
  let ?w = "wn - of_nat (length xs)"
  have loop: "mbs_count m wn0 wn s =
     (if ascii (m s1) then mbs_count m wn0 (?w - 1) (s1 + 1)
      else if not_lead (m s1) then Some (mbs_finish0 m wn0 ?w (s1, 0))
      else case mbs_resume0 m (s1 + 1) (lead_state (m s1)) of Inl brk \<Rightarrow> Some (mbs_finish0 m wn0 ?w brk)
        | Inr t \<Rightarrow> mbs_count m wn0 (?w - 1) t)"
    unfolding mbs_count.simps [of m wn0 wn s] xs(1) by (simp only: bind.bind_lunit prod.case)
  have step: "mbs_count m wn0 (?w - 1) t = Some (if snd (snd (char_run m s n)) = End then wn0 - wn + of_nat (length (fst (char_run m s n))) else - 1)"
    if "char_run m s1 (Suc k) = prepend [c] (char_run m t k)" for c t
    using less.IH [of k t "?w - 1"] nf that k xs(2) unfolding xs(3) by (simp del: char_run.simps)
  show ?case
  proof (cases "ascii (m s1)")
    case True
    then show ?thesis using step [of _ "s1 + 1"] char_run_ascii [of m s1 k] by (simp add: loop del: char_run.simps)
  next
    case asc: False
    show ?thesis
    proof (cases "not_lead (m s1)")
      case True
      have "char_run m s n = prepend xs ([], s1, if m s1 = 0 then End else Bad)"
        unfolding xs(3) k char_run_not_lead [of m s1, OF asc True] by simp
      then show ?thesis unfolding loop using asc True by (simp add: mbs_finish0_def)
    next
      case False
      note char = mbs_resume0_char [of m s1, OF lead_seq_len [OF asc False]]
      show ?thesis
      proof (cases "mbs_resume0 m (s1 + 1) (lead_state (m s1))")
        case (Inl brk)
        then have "char_run m s1 (Suc k) = ([], s1, Bad)" using char by (intro char_run_Bad) (auto split: prod.splits)
        then show ?thesis using char asc False Inl unfolding loop xs(3) k
          by (cases brk) (simp add: mbs_finish0_def del: char_run.simps)
      next
        case (Inr t)
        then obtain r wc where "mbrtowc True (Some [m s1, m (s1 + 1), m (s1 + 2), m (s1 + 3)]) 0 = (r, Some wc, 0)" "r \<noteq> 0" "t = s1 + unat r"
          using char by auto
        then show ?thesis using step [OF char_run_step, of r wc] asc False Inr by (simp add: loop del: char_run.simps)
      qed
    qed
  qed
qed


section \<open>Terminated strings\<close>

lemma wf_seq_no_0: "wf_seq (a # bs) \<Longrightarrow> 0 \<notin> set bs"
  by (cases "a # bs" rule: wf_seq.cases) (auto simp: second_def cont_def)

lemma four_nth: "i < 4 \<Longrightarrow> [m s, m (s + 1), m (s + 2), m (s + 3)] ! i = m (s + i)"
  by (auto simp: less_Suc_eq numeral_eq_Suc)

lemma char_run_zero:
  assumes "m (s + k) = 0" "k < n"
  shows "snd (snd (char_run m s n)) \<noteq> Full"
  using assms
proof (induction k arbitrary: s n rule: less_induct)
  case (less k)
  obtain n' where n: "n = Suc n'" using less.prems(2) by (cases n) auto
  obtain r w st where dec: "mbrtowc True (Some [m s, m (s + 1), m (s + 2), m (s + 3)]) 0 = (r, w, st)" by (metis prod.exhaust)
  show ?case
  proof (cases "w = None \<or> r = 0")
    case True
    then show ?thesis unfolding n using dec by (auto split: option.splits)
  next
    case False
    then obtain wc where w: "w = Some wc" "r \<noteq> 0" by auto
    then obtain sq rest where sq: "[m s, m (s + 1), m (s + 2), m (s + 3)] = sq @ rest" "wf_seq sq" "r = of_nat (length sq)"
      using dec mbrtowc_iff [of _ r wc st] wcrtomb_wf [of wc] by (auto split: if_splits)
    have len: "0 < length sq" "length sq \<le> 4" using sq(1,2) by (cases sq rule: wf_seq.cases; simp)+
    then have r: "unat r = length sq" unfolding sq(3) unat_of_nat by (simp add: take_bit_nat_eq_self)
    have mem: "m (s + i) = sq ! i" if "i < length sq" for i
    proof -
      have "i < 4" using that len(2) by simp
      from four_nth [OF this, of m s] show ?thesis unfolding sq(1) using that by (simp add: nth_append)
    qed
    have "m s \<noteq> 0"
    proof
      assume "m s = 0"
      then have "mbrtowc True (Some [m s, m (s + 1), m (s + 2), m (s + 3)]) 0 = (0, Some 0, 0)" by (simp add: mbrtowc_def)
      then show False using dec w by simp
    qed
    then have "k \<noteq> 0" using less.prems(1) by (cases k) auto
    have "length sq \<le> k"
    proof (rule ccontr)
      assume "\<not> length sq \<le> k"
      then have "sq ! k = 0" using mem [of k] less.prems(1) by simp
      moreover obtain b bs where "sq = b # bs" using len(1) by (cases sq) auto
      ultimately show False using wf_seq_no_0 [of b bs] sq(2) \<open>k \<noteq> 0\<close> \<open>\<not> length sq \<le> k\<close>
        by (metis Suc_pred' length_Cons linorder_not_le not_gr_zero not_less_eq nth_Cons_Suc nth_mem)
    qed
    then obtain j where j: "k = length sq + j" using le_Suc_ex by blast
    have "snd (snd (char_run m (s + unat r) n')) \<noteq> Full"
      using less.IH [of j "s + unat r" n'] less.prems j len(1) r n by (simp add: add.assoc)
    moreover have "st = 0" using dec w mbrtowc_iff [of _ r wc st] by auto
    ultimately show ?thesis unfolding n using char_run_step [of m s r wc n'] dec w by (simp del: char_run.simps)
  qed
qed


section \<open>Encoding strings\<close>

lemma wcrtomb_length: "wcrtomb utf8 w = Some bs \<Longrightarrow> 0 < length bs \<and> length bs \<le> 4"
  by (auto simp: wcrtomb_def split: if_splits)

lemma wcrtomb_ascii: "\<not> w - 1 \<ge> 0x7f \<Longrightarrow> wcrtomb utf8 w = Some [ucast w] \<and> w \<noteq> 0"
  using sub_less_range [of 1 "0x7f" w] by (auto simp: wcrtomb_def word_less_nat_alt not_le unat_eq_zero)

text \<open>The loop that needs no test of the room left is the one that tests.\<close>

lemma wcs_loop_tail: "wcs_loop utf8 N n ws s = wcs_tail utf8 N n ws s"
proof (induction ws arbitrary: n s)
  case (Cons w ws)
  show ?case using Cons.IH wcrtomb_length [of utf8 w] by (auto split: option.splits)
qed simp

lemma wcs_tail_encodes:
  assumes "wcs_tail True N n (xs @ [0]) s = Some (r, bs, None)" "0 \<notin> set xs" "n \<le> N"
  shows "\<exists>sqs. map (wcrtomb True) xs = map Some sqs \<and> bs = s @ concat sqs @ [0] \<and> length (concat sqs) < n \<and>
    r = of_nat (N - n + length (concat sqs))"
  using assms
proof (induction xs arbitrary: n s)
  case Nil
  then show ?case by (auto split: if_splits)
next
  case (Cons w xs)
  have "w \<noteq> 0" "n \<noteq> 0" using Cons.prems(1,2) by (auto split: if_splits)
  then obtain sq where sq: "wcrtomb True w = Some sq" "length sq \<le> n"
    "wcs_tail True N (n - length sq) (xs @ [0]) (s @ sq) = Some (r, bs, None)"
    using Cons.prems(1) wcrtomb_ascii [of w True] by (cases "w - 1 \<ge> 0x7f") (auto split: option.splits if_splits)
  have "n - length sq \<le> N" "0 \<notin> set xs" using Cons.prems(2,3) by auto
  from Cons.IH [OF sq(3) this(2,1)] obtain sqs where
    "map (wcrtomb True) xs = map Some sqs" "bs = (s @ sq) @ concat sqs @ [0]" "length (concat sqs) < n - length sq"
    "r = of_nat (N - (n - length sq) + length (concat sqs))" by blast
  then show ?case using sq(1,2) Cons.prems(3) by (intro exI [of _ "sq # sqs"]) (auto simp: of_nat_diff)
qed

lemma char_run_encoded:
  assumes "map (wcrtomb True) xs = map Some sqs" "0 \<notin> set xs" "length xs < n"
    and "\<And>i. i < length (concat sqs @ [0]) \<Longrightarrow> m (s + i) = (concat sqs @ [0]) ! i"
  shows "char_run m s n = (xs, s + length (concat sqs), End)"
  using assms
proof (induction xs arbitrary: sqs s n)
  case Nil
  then have "m s = 0" "sqs = []" using Nil(4) [of 0] by auto
  moreover obtain n' where "n = Suc n'" using Nil(3) by (cases n) auto
  ultimately show ?case by (simp add: mbrtowc_def)
next
  case (Cons w xs)
  obtain sq sqs' where sqs: "sqs = sq # sqs'" "wcrtomb True w = Some sq" "map (wcrtomb True) xs = map Some sqs'"
    using Cons.prems(1) by (cases sqs) auto
  obtain n' where n: "n = Suc n'" "length xs < n'" using Cons.prems(3) by (cases n) auto
  have "w \<noteq> 0" "0 \<notin> set xs" using Cons.prems(2) by auto
  have len: "0 < length sq" "length sq \<le> 4" using wcrtomb_length [OF sqs(2)] by auto
  have mem: "m (s + i) = sq ! i" if "i < length sq" for i using Cons.prems(4) [of i] that by (simp add: sqs nth_append)
  have "take (length sq) [m s, m (s + 1), m (s + 2), m (s + 3)] = sq"
    using len mem four_nth [of _ m s] by (intro nth_equalityI) simp_all
  then have "[m s, m (s + 1), m (s + 2), m (s + 3)] = sq @ drop (length sq) [m s, m (s + 1), m (s + 2), m (s + 3)]"
    by (metis append_take_drop_id)
  then have dec: "mbrtowc True (Some [m s, m (s + 1), m (s + 2), m (s + 3)]) 0 = (of_nat (length sq), Some w, 0)"
    using mbrtowc_iff [of "[m s, m (s + 1), m (s + 2), m (s + 3)]" "of_nat (length sq)" w 0] sqs(2) \<open>w \<noteq> 0\<close> by auto
  have r: "unat (of_nat (length sq) :: u64) = length sq" using len unfolding unat_of_nat by (simp add: take_bit_nat_eq_self)
  then have "(of_nat (length sq) :: u64) \<noteq> 0" using len(1) by (metis unat_0 less_irrefl)
  moreover have "char_run m (s + length sq) n' = (xs, s + length sq + length (concat sqs'), End)"
  proof (rule Cons.IH [OF sqs(3) \<open>0 \<notin> set xs\<close> n(2)])
    show "m (s + length sq + i) = (concat sqs' @ [0]) ! i" if "i < length (concat sqs' @ [0])" for i
      using Cons.prems(4) [of "length sq + i"] that by (simp add: sqs add.assoc nth_append)
  qed
  ultimately show ?case unfolding n(1) using char_run_step [OF dec, of n'] r
    by (simp add: prepend_def sqs del: char_run.simps)
qed


section \<open>Resuming a character\<close>

text \<open>In the state that a proper prefix of an encoding leaves, the bytes left in memory complete the character.\<close>

lemma mbs_resume_suffix:
  assumes "wcrtomb True w = Some (pre @ suf)" "pre \<noteq> []" "suf \<noteq> []" "mbrtowc True (Some pre) 0 = (- 2, None, st)"
    and "\<And>i. i < length suf \<Longrightarrow> m (src + i) = suf ! i"
  shows "st \<noteq> 0 \<and> mbs_resume m src st = Inr (w, src + length suf)"
proof -
  have wf: "wf_seq (pre @ suf)" and w: "w = seq_wc (pre @ suf)"
    using assms(1) by (auto simp: wcrtomb_wf intro: seq_wcI)
  have mem: "m src = suf ! 0" "1 < length suf \<Longrightarrow> m (Suc src) = suf ! 1" "2 < length suf \<Longrightarrow> m (Suc (Suc src)) = suf ! 2"
    using assms(5) [of 0] assms(5) [of 1] assms(5) [of 2] assms(3) by auto
  from assms(4,2) show ?thesis
  proof (cases rule: mbrtowc_partial_cases)
    case (1 a)
    note lead = OOB_second [OF 1(2)] lead_state_not_0 [OF 1(2)]
    from wf 1 assms(3) consider b where "suf = [b]" "seq_len a = 2" "second a b"
      | b c where "suf = [b, c]" "seq_len a = 3" "second a b" "cont c"
      | b c d where "suf = [b, c, d]" "seq_len a = 4" "second a b" "cont c" "cont d"
      by (cases "pre @ suf" rule: wf_seq.cases) auto
    then show ?thesis
    proof cases
      case (1 b)
      then show ?thesis using lead mem state2(1) [THEN seq_wcI, OF 1(2) secondD [OF 1(3)]] state2(2) [OF 1(2) secondD [OF 1(3)]]
        by (simp add: \<open>pre = [a]\<close> \<open>st = _\<close> w mbs_resume_def Let_def)
    next
      case (2 b c)
      then show ?thesis using lead mem state3(1,3) [OF 2(2) secondD [OF 2(3)]] state3(2) [THEN seq_wcI, OF 2(2) secondD [OF 2(3)]]
        by (simp add: \<open>pre = [a]\<close> \<open>st = _\<close> w mbs_resume_def Let_def not_cont_iff)
    next
      case (3 b c d)
      then show ?thesis using lead mem state4(1,2,4) [OF 3(2) secondD [OF 3(3)]] state4(3) [THEN seq_wcI, OF 3(2) secondD [OF 3(3)]]
        by (simp add: \<open>pre = [a]\<close> \<open>st = _\<close> w mbs_resume_def Let_def not_cont_iff)
    qed
  next
    case (2 a b)
    from wf 2 assms(3) consider c where "suf = [c]" "seq_len a = 3" "cont c"
      | c d where "suf = [c, d]" "seq_len a = 4" "cont c" "cont d"
      by (cases "pre @ suf" rule: wf_seq.cases) auto
    then show ?thesis
    proof cases
      case (1 c)
      note s = state3(1,3) [OF 1(2) secondD [OF 2(3)]] state3(2) [THEN seq_wcI, OF 1(2) secondD [OF 2(3)]]
      show ?thesis using 1 s mem inside3 [OF 1(2) secondD [OF 2(3)], of c] more_not_0 [OF s(1)]
        by (simp add: 2(1,4) w mbs_resume_def Let_def)
    next
      case (2 c d)
      note b = secondD [OF \<open>second a b\<close>]
      note s = state4(1,2,4) [OF 2(2) b] state4(3) [THEN seq_wcI, OF 2(2) b]
      show ?thesis using 2 s mem inside4(1) [OF 2(2) b, of c] more_not_0 [OF s(1)]
        by (simp add: \<open>pre = _\<close> \<open>st = _\<close> w mbs_resume_def Let_def not_cont_iff)
    qed
  next
    case (3 a b c)
    note b = secondD [OF 3(3)]
    obtain d where d: "suf = [d]" "cont d"
      using wf 3 assms(3) by (cases "pre @ suf" rule: wf_seq.cases) auto
    note s = state4(2,4) [OF 3(2) b] state4(3) [THEN seq_wcI, OF 3(2) b]
    show ?thesis using d 3 s mem inside4(2) [OF 3(2) b, of c d] more_not_0 [OF s(1)]
      by (simp add: w mbs_resume_def Let_def)
  qed
qed

text \<open>The room given at the start matters for the result only, and there as a \<open>size_t\<close>.\<close>

lemma mbs_loop_size:
  assumes "(of_nat a :: u64) = of_nat b"
  shows "mbs_loop m a wn s ws = mbs_loop m b wn s ws"
proof (induction wn arbitrary: s ws rule: less_induct)
  case (less wn)
  define p where "p = (if ascii (m s) \<and> s mod 4 = 0 then mbs_words m s wn ws else (s, wn, ws))"
  obtain s1 wn1 ws1 where p: "p = (s1, wn1, ws1)" by (cases p)
  have "wn1 - 1 < wn" if "wn \<noteq> 0"
    using p that mbs_words_wn [of m s wn ws s1 wn1 ws1] unfolding p_def by (auto split: if_splits)
  then have IH: "mbs_loop m a (wn1 - 1) t xs = mbs_loop m b (wn1 - 1) t xs" if "wn \<noteq> 0" for t xs
    using less.IH that by blast
  have "mbs_finish m a = mbs_finish m b" using assms by (simp add: mbs_finish_def fun_eq_iff)
  then show ?case unfolding mbs_loop.simps [of m _ wn s ws] p_def [symmetric] p assms prod.case
    using IH by (simp split: sum.splits)
qed

lemma char_run_length: "char_run m s n = (ws, t, e) \<Longrightarrow> length ws \<le> n \<and> (e = End \<longrightarrow> length ws < n)"
proof (induction n arbitrary: s ws)
  case (Suc n)
  then show ?case
    by (fastforce split: prod.splits option.splits if_splits)
qed simp

section \<open>Properties\<close>

text \<open>
  C28. In a UTF-8 locale and from the initial state, \<open>mbsrtowcs\<close> with its path for four aligned bytes at once
  stores, returns and leaves in \<open>*src\<close> exactly what converting one character after the other does, for
  every memory, address and room for characters; what lies behind the end of the string has no influence.
\<close>

theorem mbsrtowcs_reference:
  "mbsrtowcs True m src wn 0 =
    (case char_run m src wn of
       (ws, t, Full) \<Rightarrow> (of_nat wn, ws, t, 0)
     | (ws, t, End) \<Rightarrow> (of_nat (length ws), ws @ [0], 0, 0)
     | (ws, t, Bad) \<Rightarrow> (- 1, ws, t, 0))"
  using mbs_loop_run [of wn wn "[]" m src]
  by (simp add: mbsrtowcs_def run_result_def split: prod.splits stop.splits)

text \<open>
  C37. Without a buffer \<open>mbsrtowcs\<close> has no bound on its loops, and returns for every string that has a
  terminator: the number of characters, or -1 when the string is ill-formed.
\<close>

theorem mbsrtowcs_null_returns:
  assumes "m (src + k) = 0"
  shows "\<exists>ws t e. char_run m src (Suc k) = (ws, t, e) \<and> e \<noteq> Full \<and>
    mbsrtowcs_null True m src wn 0 = Some (if e = End then of_nat (length ws) else - 1)"
  using char_run_zero [of m src k "Suc k"] mbs_count_run [of m src "Suc k" wn wn] assms
  by (cases "char_run m src (Suc k)") (simp add: mbsrtowcs_null_def del: char_run.simps)

theorem mbsrtowcs_null_returns_witness:
  "\<exists>r. mbsrtowcs_null True (\<lambda>i. if i < 6 then 0x41 else 0) 0 0 0 = Some r"
  using mbsrtowcs_null_returns [of "\<lambda>i. if i < 6 then 0x41 else 0" 0 6 0] by auto

text \<open>
  C34. A wide string of nonzero characters that \<open>wcsrtombs\<close> converts completely is what \<open>mbsrtowcs\<close> gives
  for the bytes it stored, wherever they lie in memory, and \<open>wcsrtombs\<close> never stores more bytes than it has
  room for.
\<close>

theorem wide_string_roundtrip:
  assumes "wcsrtombs True (xs @ [0]) n = Some (r, bs, None)" "0 \<notin> set xs"
    and "\<And>i. i < length bs \<Longrightarrow> m (s + i) = bs ! i" "length xs < wn"
  shows "mbsrtowcs True m s wn 0 = (of_nat (length xs), xs @ [0], 0, 0) \<and> r = of_nat (length bs - 1) \<and> length bs \<le> n"
proof -
  obtain sqs where sqs: "map (wcrtomb True) xs = map Some sqs" "bs = concat sqs @ [0]" "length (concat sqs) < n"
    "r = of_nat (length (concat sqs))"
    using wcs_tail_encodes [of n n xs "[]"] assms(1,2) by (auto simp: wcsrtombs_def wcs_loop_tail)
  have "char_run m s wn = (xs, s + length (concat sqs), End)"
    using char_run_encoded [OF sqs(1) assms(2,4)] assms(3) unfolding sqs(2) by blast
  then show ?thesis using mbs_loop_run [of wn wn "[]" m s] sqs by (simp add: mbsrtowcs_def run_result_def)
qed

theorem wide_string_roundtrip_witness:
  "mbsrtowcs True (\<lambda>i. [0xe2, 0x82, 0xac, 0x41, 0] ! (i - 7)) 7 3 0 = (2, [0x20ac, 0x41, 0], 0, 0)"
proof -
  have "wcsrtombs True ([0x20ac, 0x41] @ [0]) 8 = Some (4, [0xe2, 0x82, 0xac, 0x41, 0], None)"
    by (simp add: wcsrtombs_def wcrtomb_def)
  from wide_string_roundtrip [OF this, of "\<lambda>i. [0xe2, 0x82, 0xac, 0x41, 0] ! (i - 7)" 7 3] show ?thesis by simp
qed

section \<open>A pending character\<close>

text \<open>
  C40. \<open>mbsrtowcs\<close> in a UTF-8 locale with a pending character: in the state that any proper prefix of the encoding of a character
  leaves, and with the rest of that encoding at \<open>*src\<close>, it stores the character and then what converting character by character
  stores in the room that is left. That room is computed as \<open>wn - 1\<close> on a \<open>size_t\<close> without a test, since the label \<open>resume\<close> lies
  behind the test of \<open>wn\<close>: with \<open>wn\<close> = 0 it wraps around to \<open>2 ^ 64 - 1\<close>, and the call stores more than \<open>wn\<close> characters exactly
  when \<open>wn\<close> is 0.
\<close>

theorem mbsrtowcs_pending_overflows:
  assumes "wcrtomb True w = Some (pre @ suf)" "pre \<noteq> []" "suf \<noteq> []" "mbrtowc True (Some pre) 0 = (- 2, None, st)"
    and "\<And>i. i < length suf \<Longrightarrow> m (src + i) = suf ! i" "wn < 2 ^ 64"
  shows "mbsrtowcs True m src wn st =
      (case char_run m (src + length suf) (if wn = 0 then 2 ^ 64 - 1 else wn - 1) of
         (ws, t, Full) \<Rightarrow> (of_nat wn, w # ws, t, 0)
       | (ws, t, End) \<Rightarrow> (of_nat (length (w # ws)), w # ws @ [0], 0, 0)
       | (ws, t, Bad) \<Rightarrow> (- 1, w # ws, t, 0)) \<and>
    (wn < length (fst (snd (mbsrtowcs True m src wn st))) \<longleftrightarrow> wn = 0)"
proof -
  let ?n = "if wn = 0 then 2 ^ 64 - 1 else wn - 1"
  have n: "unat (of_nat wn - 1 :: u64) = ?n"
    using assms(6) by (simp add: unsigned_minus_1_eq_mask mask_eq_exp_minus_1 unat_sub_if' unat_of_nat take_bit_nat_eq_self)
  have "mbsrtowcs True m src wn st = mbs_loop m wn ?n (src + length suf) [w]"
    using mbs_resume_suffix [OF assms(1-5)] unfolding mbsrtowcs_def n by simp
  also have "\<dots> = mbs_loop m (?n + 1) ?n (src + length suf) [w]"
    by (rule mbs_loop_size) simp
  also have "\<dots> = run_result (?n + 1) [w] (char_run m (src + length suf) ?n)"
    using mbs_loop_run [of "?n + 1" ?n "[w]" m "src + length suf"] by simp
  finally have r: "mbsrtowcs True m src wn st = run_result (?n + 1) [w] (char_run m (src + length suf) ?n)" .
  obtain ws t e where c: "char_run m (src + length suf) ?n = (ws, t, e)" by (metis prod.exhaust)
  have "(of_nat (?n + 1) :: u64) = of_nat wn" by simp
  then show ?thesis using char_run_length [OF c] unfolding r c
    by (cases e) (auto simp: run_result_def split: if_splits)
qed

text \<open>The second byte of U+00E9 with no room: it, the letter behind it and the terminator are stored.\<close>

theorem mbsrtowcs_pending_overflows_witness:
  "mbsrtowcs True (\<lambda>i. [0xa9, 0x41, 0] ! i) 0 0 (lead_state 0xc3) = (2, [0xe9, 0x41, 0], 0, 0)"
proof -
  have "seq_len 0xc3 = 2" by (simp add: seq_len.simps)
  then have p: "mbrtowc True (Some [0xc3]) 0 = (- 2, None, lead_state 0xc3)" by (simp add: mbrtowc_2)
  have w: "wcrtomb True 0xe9 = Some ([0xc3] @ [0xa9])" by (simp add: wcrtomb_def)
  have c: "char_run (\<lambda>i. [0xa9, 0x41, 0] ! i) 1 18446744073709551615 = ([0x41], 2, End)"
  proof -
    have n: "18446744073709551615 = Suc (Suc 18446744073709551613)" by simp
    have "mbrtowc True (Some (0x41 # r)) 0 = (1, Some 0x41, 0)" "mbrtowc True (Some (0 # r)) 0 = (0, Some 0, 0)" for r
      by (simp_all add: mbrtowc_def)
    then show ?thesis unfolding n char_run.simps by (simp add: numeral_2_eq_2)
  qed
  show ?thesis
    using mbsrtowcs_pending_overflows [OF w _ _ p, of "\<lambda>i. [0xa9, 0x41, 0] ! i" 0 0] c by simp
qed

end
