(* ===== verification/Calendar.thy ===== *)
theory Calendar
  imports Prelude "HOL-Library.Signed_Division"
begin

text \<open>
  Calendar time: \<open>__secs_to_tm.c\<close>, \<open>__tm_to_secs.c\<close>, \<open>__year_to_secs.c\<close>, \<open>__month_to_secs.c\<close>, \<open>gmtime_r.c\<close>,
  \<open>gmtime.c\<close> and \<open>timegm.c\<close> under \<open>src/musl-1.2.5/src/time\<close>. The values are mathematical integers; C's
  division truncates (\<open>sdiv\<close>, \<open>smod\<close>). The first test of \<open>__secs_to_tm\<close> keeps its \<open>long long\<close> values small;
  the 32-bit product in the shortcut of \<open>__year_to_secs\<close> is the tight one and is shown to fit.

  Shown here: the conversion of seconds gives exactly the date of the Gregorian calendar, and fails
  exactly when the year does not fit an \<open>int\<close>; the two directions are inverse, through the shortcut for the
  years 1902 to 2038 and through the general computation.
\<close>

section \<open>The code\<close>

record tm =
  tm_sec :: int
  tm_min :: int
  tm_hour :: int
  tm_mday :: int
  tm_mon :: int
  tm_year :: int
  tm_wday :: int
  tm_yday :: int

definition INT_MAX :: int where "INT_MAX = 2147483647"

definition INT_MIN :: int where "INT_MIN = - 2147483648"

definition LEAPOCH :: int where "LEAPOCH = 946684800 + 86400 * (31 + 29)"

definition DAYS_PER_400Y :: int where "DAYS_PER_400Y = 365 * 400 + 97"

definition DAYS_PER_100Y :: int where "DAYS_PER_100Y = 365 * 100 + 24"

definition DAYS_PER_4Y :: int where "DAYS_PER_4Y = 365 * 4 + 1"

definition days_in_month :: "int list" where
  "days_in_month = [31, 30, 31, 30, 31, 31, 30, 31, 30, 31, 31, 29]"

text \<open>The loop over the months from March on; running off the table is \<open>None\<close>.\<close>

fun months_loop :: "int list \<Rightarrow> int \<Rightarrow> int \<Rightarrow> (int \<times> int) option" where
  "months_loop [] months remdays = None"
| "months_loop (d # ds) months remdays =
     (if d \<le> remdays then months_loop ds (months + 1) (remdays - d) else Some (months, remdays))"

text \<open>\<open>__secs_to_tm\<close>; the outer \<open>None\<close> is undefined behaviour, the inner one the result -1.\<close>

definition secs_to_tm :: "int \<Rightarrow> tm option option" where
  "secs_to_tm t =
     (if t < INT_MIN * 31622400 \<or> t > INT_MAX * 31622400 then Some None
      else
        let secs = t - LEAPOCH;
            days = secs sdiv 86400;
            remsecs = secs smod 86400;
            (remsecs, days) = (if remsecs < 0 then (remsecs + 86400, days - 1) else (remsecs, days));
            wday = (3 + days) smod 7;
            wday = (if wday < 0 then wday + 7 else wday);
            qc_cycles = days sdiv DAYS_PER_400Y;
            remdays = days smod DAYS_PER_400Y;
            (remdays, qc_cycles) = (if remdays < 0 then (remdays + DAYS_PER_400Y, qc_cycles - 1) else (remdays, qc_cycles));
            c_cycles = remdays sdiv DAYS_PER_100Y;
            c_cycles = (if c_cycles = 4 then c_cycles - 1 else c_cycles);
            remdays = remdays - c_cycles * DAYS_PER_100Y;
            q_cycles = remdays sdiv DAYS_PER_4Y;
            q_cycles = (if q_cycles = 25 then q_cycles - 1 else q_cycles);
            remdays = remdays - q_cycles * DAYS_PER_4Y;
            remyears = remdays sdiv 365;
            remyears = (if remyears = 4 then remyears - 1 else remyears);
            remdays = remdays - remyears * 365;
            leap = (if remyears = 0 \<and> (q_cycles \<noteq> 0 \<or> c_cycles = 0) then 1 else 0);
            yday = remdays + 31 + 28 + leap;
            yday = (if yday \<ge> 365 + leap then yday - (365 + leap) else yday);
            years = remyears + 4 * q_cycles + 100 * c_cycles + 400 * qc_cycles
        in do {
          (months, remdays) \<leftarrow> months_loop days_in_month 0 remdays;
          let (months, years) = (if months \<ge> 10 then (months - 12, years + 1) else (months, years));
          if years + 100 > INT_MAX \<or> years + 100 < INT_MIN then Some None
          else Some (Some \<lparr>
            tm_sec = remsecs smod 60,
            tm_min = remsecs sdiv 60 smod 60,
            tm_hour = remsecs sdiv 3600,
            tm_mday = remdays + 1,
            tm_mon = months + 2,
            tm_year = years + 100,
            tm_wday = wday,
            tm_yday = yday\<rparr>) })"

text \<open>\<open>__year_to_secs\<close>: the seconds and \<open>*is_leap\<close>.\<close>

definition year_to_secs :: "int \<Rightarrow> int \<times> int" where
  "year_to_secs year =
     (if (of_int year - 2 :: u64) \<le> 136 then
        let y = year;
            leaps = drop_bit 2 (y - 68);
            (leaps, is_leap) = (if and (y - 68) 3 = 0 then (leaps - 1, 1) else (leaps, 0))
        in (31536000 * (y - 70) + 86400 * leaps, is_leap)
      else
        let cycles = (year - 100) sdiv 400;
            rem = (year - 100) smod 400;
            (cycles, rem) = (if rem < 0 then (cycles - 1, rem + 400) else (cycles, rem));
            (is_leap, centuries, leaps) =
              (if rem = 0 then (1, 0, 0)
               else
                 let (centuries, rem) =
                       (if rem \<ge> 200 then if rem \<ge> 300 then (3, rem - 300) else (2, rem - 200)
                        else if rem \<ge> 100 then (1, rem - 100) else (0, rem))
                 in if rem = 0 then (0, centuries, 0)
                    else (if rem mod 4 = 0 then 1 else 0, centuries, rem div 4));
            leaps = leaps + (97 * cycles + 24 * centuries - is_leap)
        in ((year - 100) * 31536000 + leaps * 86400 + 946684800 + 86400, is_leap))"

definition secs_through_month :: "int list" where
  "secs_through_month =
     [0, 31 * 86400, 59 * 86400, 90 * 86400, 120 * 86400, 151 * 86400, 181 * 86400, 212 * 86400,
      243 * 86400, 273 * 86400, 304 * 86400, 334 * 86400]"

definition month_to_secs :: "int \<Rightarrow> int \<Rightarrow> int" where
  "month_to_secs month is_leap =
     (let t = secs_through_month ! nat month in if is_leap \<noteq> 0 \<and> month \<ge> 2 then t + 86400 else t)"

definition tm_to_secs :: "tm \<Rightarrow> int" where
  "tm_to_secs tm =
     (let year = tm_year tm;
          month = tm_mon tm;
          (month, year) =
            (if month \<ge> 12 \<or> month < 0 then
               let adj = month sdiv 12; month = month smod 12;
                   (adj, month) = (if month < 0 then (adj - 1, month + 12) else (adj, month))
               in (month, year + adj)
             else (month, year));
          (t, is_leap) = year_to_secs year
      in t + month_to_secs month is_leap + 86400 * (tm_mday tm - 1) + 3600 * tm_hour tm + 60 * tm_min tm + tm_sec tm)"

text \<open>
  \<open>gmtime_r\<close> and \<open>gmtime\<close>; null is the error \<open>EOVERFLOW\<close>. They also set the zone members to UTC. \<open>timegm\<close>
  gives its result and the normalised \<open>*tm\<close>.
\<close>

definition gmtime_r :: "int \<Rightarrow> tm option option" where
  "gmtime_r t = secs_to_tm t"

definition gmtime :: "int \<Rightarrow> tm option option" where
  "gmtime t = gmtime_r t"

definition timegm :: "tm \<Rightarrow> (int \<times> tm) option" where
  "timegm tm = (let t = tm_to_secs tm in do {
     new \<leftarrow> secs_to_tm t;
     Some (case new of None \<Rightarrow> (- 1, tm) | Some tm' \<Rightarrow> (t, tm')) })"

section \<open>The Gregorian calendar\<close>

definition leap :: "int \<Rightarrow> bool" where
  "leap y \<longleftrightarrow> 4 dvd y \<and> (\<not> 100 dvd y \<or> 400 dvd y)"

definition leaps_before :: "int \<Rightarrow> int" where
  "leaps_before y = (y - 1) div 4 - (y - 1) div 100 + (y - 1) div 400"

text \<open>The number of the first day of a year; day 0 is 1 January 1970.\<close>

definition year_day :: "int \<Rightarrow> int" where
  "year_day y = 365 * (y - 1970) + (leaps_before y - leaps_before 1970)"

lemma div_pred: "0 < k \<Longrightarrow> y div k = (y - 1) div k + (if k dvd y then 1 else 0)" for y k :: int
proof -
  assume k: "0 < k"
  show ?thesis
  proof (cases "k dvd y")
    case True
    then obtain q where "y = k * q" by blast
    moreover have "(k * q - 1) div k = q - 1" using k by (intro int_div_pos_eq [of _ _ _ "k - 1"]) (auto simp: algebra_simps)
    ultimately show ?thesis using k by simp
  next
    case False
    then have "0 < y mod k" "y mod k < k"
      using k pos_mod_sign [OF k, of y] pos_mod_bound [OF k, of y] by (auto simp: dvd_eq_mod_eq_0 order_less_le)
    then have "(y - 1) div k = y div k" by (intro int_div_pos_eq [of _ _ _ "y mod k - 1"]) auto
    with False show ?thesis by simp
  qed
qed

text \<open>A year has 366 days when it is a leap year and 365 otherwise.\<close>

lemma year_day_step: "year_day (y + 1) = year_day y + (if leap y then 366 else 365)"
proof -
  have d: "100 dvd y \<Longrightarrow> 4 dvd y" by (rule dvd_trans [of 4 100]) simp_all
  have d': "400 dvd y \<Longrightarrow> 100 dvd y" by (rule dvd_trans [of 100 400]) simp_all
  have sum: "A = A' + a \<Longrightarrow> B = B' + b \<Longrightarrow> C = C' + c \<Longrightarrow> A - B + C = (A' - B' + C') + (a - b + c)" for A A' a B B' b C C' c :: int
    by simp
  have "leaps_before (y + 1) = leaps_before y + ((if 4 dvd y then 1 else 0) - (if 100 dvd y then 1 else 0) + (if 400 dvd y then 1 else 0))"
    unfolding leaps_before_def add_diff_cancel_right' by (intro sum div_pred) simp_all
  also have "((if 4 dvd y then 1 else 0) - (if 100 dvd y then 1 else 0) + (if 400 dvd y then 1 else 0)) = (if leap y then 1 else (0 :: int))"
    unfolding leap_def using d d' by (cases "4 dvd y"; cases "100 dvd y"; cases "400 dvd y") simp_all
  finally show ?thesis by (cases "leap y") (simp_all add: year_day_def)
qed

lemma year_day_mono: "a \<le> b \<Longrightarrow> year_day a \<le> year_day b"
proof (induction b rule: int_ge_induct)
  case (step i)
  then show ?case using year_day_step [of i] by (simp split: if_splits)
qed simp

definition month_days :: "bool \<Rightarrow> int list" where
  "month_days l = [31, if l then 29 else 28, 31, 30, 31, 30, 31, 31, 30, 31, 30, 31]"

definition days_before :: "bool \<Rightarrow> int \<Rightarrow> int" where
  "days_before l mon = sum_list (take (nat mon) (month_days l))"

text \<open>A date and time of the calendar, with the day of the week and of the year that belong to it.\<close>

definition civil :: "tm \<Rightarrow> bool" where
  "civil tm \<longleftrightarrow> (let l = leap (1900 + tm_year tm) in
     0 \<le> tm_mon tm \<and> tm_mon tm < 12 \<and> 1 \<le> tm_mday tm \<and> tm_mday tm \<le> month_days l ! nat (tm_mon tm) \<and>
     0 \<le> tm_hour tm \<and> tm_hour tm < 24 \<and> 0 \<le> tm_min tm \<and> tm_min tm < 60 \<and> 0 \<le> tm_sec tm \<and> tm_sec tm < 60 \<and>
     tm_yday tm = days_before l (tm_mon tm) + tm_mday tm - 1 \<and>
     tm_wday tm = (year_day (1900 + tm_year tm) + tm_yday tm + 4) mod 7)"

definition civil_secs :: "tm \<Rightarrow> int" where
  "civil_secs tm = 86400 * (year_day (1900 + tm_year tm) + tm_yday tm) + 3600 * tm_hour tm + 60 * tm_min tm + tm_sec tm"

section \<open>Truncating division\<close>

lemma sdiv_pos: "0 \<le> x \<Longrightarrow> 0 < k \<Longrightarrow> x sdiv k = x div k" "0 \<le> x \<Longrightarrow> 0 < k \<Longrightarrow> x smod k = x mod k" for x k :: int
  by (auto simp: signed_divide_int_def signed_modulo_int_def sgn_if minus_div_mult_eq_mod)

lemma sdiv_floor:
  fixes x k :: int
  assumes "0 < k"
  shows "(if x smod k < 0 then x sdiv k - 1 else x sdiv k) = x div k"
    "(if x smod k < 0 then x smod k + k else x smod k) = x mod k"
proof -
  have "(if x smod k < 0 then x sdiv k - 1 else x sdiv k) = x div k \<and> (if x smod k < 0 then x smod k + k else x smod k) = x mod k"
  proof (cases "0 \<le> x")
    case True
    then show ?thesis using assms sdiv_pos [of x k] pos_mod_sign [OF assms, of x] by (simp add: not_less)
  next
    case False
    define q r where "q = (- x) div k" and "r = (- x) mod k"
    have x: "x = - (k * q) - r" using mult_div_mod_eq [of k "- x"] unfolding q_def r_def by linarith
    have r: "0 \<le> r" "r < k" using assms by (simp_all add: r_def)
    have s: "x sdiv k = - q" using False assms by (simp add: signed_divide_int_def q_def sgn_if)
    have m: "x smod k = - r" using False assms by (simp add: signed_modulo_int_def r_def sgn_if)
    show ?thesis
    proof (cases "r = 0")
      case True
      then have "x = k * (- q)" using x by simp
      then have "x div k = - q" "x mod k = 0" using assms by (simp_all only: nonzero_mult_div_cancel_left mod_mult_self1_is_0)
      with True s m show ?thesis by simp
    next
      case False
      then have "x div k = - q - 1" using x r by (intro int_div_pos_eq [of _ _ _ "k - r"]) (auto simp: algebra_simps)
      moreover have "x mod k = k - r" using x r False by (intro int_mod_pos_eq [of _ _ "- q - 1"]) (auto simp: algebra_simps)
      ultimately show ?thesis using False s m r by simp
    qed
  qed
  then show "(if x smod k < 0 then x sdiv k - 1 else x sdiv k) = x div k"
    "(if x smod k < 0 then x smod k + k else x smod k) = x mod k" by simp_all
qed


section \<open>Splitting a day number\<close>

text \<open>
  Days from 1 March 2000: \<open>qc\<close> cycles of 400 years, \<open>c\<close> centuries, \<open>q\<close> cycles of four years, \<open>y\<close> years and
  \<open>r\<close> days, as the code computes them.
\<close>

lemma capped_div:
  fixes r k m :: int
  assumes "0 \<le> r" "0 < k" "0 \<le> m" "c = min m (r div k)"
  shows "0 \<le> c" "c \<le> m" "0 \<le> r - c * k" "c < m \<Longrightarrow> r - c * k < k"
proof -
  have q: "0 \<le> r div k" using assms(1,2) by (simp add: pos_imp_zdiv_nonneg_iff)
  show "0 \<le> c" "c \<le> m" using q assms(3,4) by simp_all
  have r: "r = k * (r div k) + r mod k" "0 \<le> r mod k" "r mod k < k" using assms(2) by simp_all
  have "c * k \<le> r div k * k" using assms(2,4) by (intro mult_right_mono) simp_all
  also have "\<dots> \<le> r" using r unfolding mult.commute [of "r div k"] by linarith
  finally show "0 \<le> r - c * k" by simp
  show "r - c * k < k" if "c < m"
  proof -
    have "c = r div k" using that assms(4) by (simp add: min_def split: if_splits)
    then have "r - c * k = r mod k" by (simp add: minus_div_mult_eq_mod)
    with r(3) show ?thesis by simp
  qed
qed

lemma split_days:
  fixes days :: int
  assumes v: "qc = days div 146097" "c = min 3 (r0 div 36524)" "q = min 24 (r1 div 1461)" "y = min 3 (r2 div 365)" "r = r2 - y * 365"
    and r0_def: "r0 = days mod 146097" and r1_def: "r1 = r0 - c * 36524" and r2_def: "r2 = r1 - q * 1461"
  shows "days = 146097 * qc + 36524 * c + 1461 * q + 365 * y + r" "0 \<le> c" "c \<le> 3" "0 \<le> q" "q \<le> 24" "0 \<le> y" "y \<le> 3"
    "0 \<le> r" "r \<le> 365" "r = 365 \<Longrightarrow> y = 3 \<and> (q < 24 \<or> c = 3)"
proof -
  have d: "days = 146097 * qc + r0" "0 \<le> r0" "r0 < 146097" by (simp_all add: v(1) r0_def)
  have c: "0 \<le> c" "c \<le> 3" "0 \<le> r1" "c < 3 \<Longrightarrow> r1 < 36524"
    using capped_div [OF d(2) _ _ v(2)] unfolding r1_def by simp_all
  have c': "r1 \<le> 36524"
  proof (cases "c < 3")
    case True
    then show ?thesis using c(4) by simp
  next
    case False
    then show ?thesis using c(2) d(3) unfolding r1_def by linarith
  qed
  have q: "0 \<le> q" "q \<le> 24" "0 \<le> r2" "q < 24 \<Longrightarrow> r2 < 1461"
    using capped_div [OF c(3) _ _ v(3)] unfolding r2_def by simp_all
  have q': "r2 \<le> 1460" "r2 = 1460 \<Longrightarrow> q < 24 \<or> c = 3"
  proof -
    show "r2 \<le> 1460"
    proof (cases "q < 24")
      case True
      then show ?thesis using q(4) by simp
    next
      case False
      then show ?thesis using q(2) c' unfolding r2_def by linarith
    qed
    show "q < 24 \<or> c = 3" if "r2 = 1460"
    proof (rule ccontr)
      assume "\<not> (q < 24 \<or> c = 3)"
      then have "q = 24" "r1 < 36524" using q(2) c(2,4) by auto
      with that show False unfolding r2_def by linarith
    qed
  qed
  have y: "0 \<le> y" "y \<le> 3" "0 \<le> r" "y < 3 \<Longrightarrow> r < 365"
    using capped_div [OF q(3) _ _ v(4)] unfolding v(5) by simp_all
  have y': "r \<le> 365" "r = 365 \<Longrightarrow> y = 3 \<and> r2 = 1460"
  proof -
    have "y = 3 \<Longrightarrow> r = r2 - 1095" using v(5) by simp
    then show "r \<le> 365" "r = 365 \<Longrightarrow> y = 3 \<and> r2 = 1460" using y(2,4) q'(1) by (cases "y < 3"; auto)+
  qed
  show "days = 146097 * qc + 36524 * c + 1461 * q + 365 * y + r" using d(1) v(5) r1_def r2_def by linarith
  show "0 \<le> c" "c \<le> 3" "0 \<le> q" "q \<le> 24" "0 \<le> y" "y \<le> 3" "0 \<le> r" "r \<le> 365" using c q y y' by simp_all
  show "y = 3 \<and> (q < 24 \<or> c = 3)" if "r = 365" using y'(2) [OF that] q'(2) by simp
qed

lemma march_year:
  assumes "0 \<le> c" "c \<le> 3" "0 \<le> q" "q \<le> 24" "0 \<le> y" "y \<le> (3 :: int)"
    and n_def: "n = y + 4 * q + 100 * c + 400 * qc"
  shows "year_day (2001 + n) = 11323 + 365 * n + q + 24 * c + 97 * qc"
    "leap (2000 + n) \<longleftrightarrow> y = 0 \<and> (q \<noteq> 0 \<or> c = 0)"
    "y = 3 \<Longrightarrow> q < 24 \<or> c = 3 \<Longrightarrow> leap (2001 + n)"
proof -
  have "(2000 + n) div 4 = 500 + q + 25 * c + 100 * qc \<and> (2000 + n) mod 4 = y"
    using assms(5,6) by (intro conjI int_div_pos_eq [of _ _ _ y] int_mod_pos_eq [of _ _ "500 + q + 25 * c + 100 * qc"]) (simp_all add: n_def)
  moreover have "(2000 + n) div 100 = 20 + c + 4 * qc \<and> (2000 + n) mod 100 = y + 4 * q"
    using assms(3-6) by (intro conjI int_div_pos_eq [of _ _ _ "y + 4 * q"] int_mod_pos_eq [of _ _ "20 + c + 4 * qc"]) (simp_all add: n_def)
  moreover have "(2000 + n) div 400 = 5 + qc \<and> (2000 + n) mod 400 = y + 4 * q + 100 * c"
    using assms(1-6) by (intro conjI int_div_pos_eq [of _ _ _ "y + 4 * q + 100 * c"] int_mod_pos_eq [of _ _ "5 + qc"]) (simp_all add: n_def)
  ultimately have d: "(2000 + n) div 4 = 500 + q + 25 * c + 100 * qc" "(2000 + n) mod 4 = y"
    "(2000 + n) div 100 = 20 + c + 4 * qc" "(2000 + n) mod 100 = y + 4 * q"
    "(2000 + n) div 400 = 5 + qc" "(2000 + n) mod 400 = y + 4 * q + 100 * c" by blast+
  have "leaps_before 1970 = 477" by (simp add: leaps_before_def)
  then show "year_day (2001 + n) = 11323 + 365 * n + q + 24 * c + 97 * qc"
    using d by (simp add: year_day_def leaps_before_def)
  have z: "y + 4 * q = 0 \<longleftrightarrow> y = 0 \<and> q = 0" "y + 4 * q + 100 * c = 0 \<longleftrightarrow> y = 0 \<and> q = 0 \<and> c = 0"
    using assms(1-6) by (intro iffI conjI; linarith)+
  show "leap (2000 + n) \<longleftrightarrow> y = 0 \<and> (q \<noteq> 0 \<or> c = 0)"
    unfolding leap_def dvd_eq_mod_eq_0 d z by blast
  show "leap (2001 + n)" if "y = 3" "q < 24 \<or> c = 3"
  proof -
    have 4: "4 dvd 2001 + n" using that(1) by (simp add: n_def)
    have "(2001 + n) mod 100 = 4 * (q + 1)" if "q < 24"
      using assms(3) \<open>y = 3\<close> that by (intro int_mod_pos_eq [of _ _ "20 + c + 4 * qc"]) (simp_all add: n_def)
    then have 100: "\<not> 100 dvd 2001 + n" if "q < 24" using that assms(3) by (simp add: dvd_eq_mod_eq_0)
    have 400: "400 dvd 2001 + n" if "q = 24" "c = 3" using that \<open>y = 3\<close> by (simp add: n_def)
    have "q < 24 \<or> q = 24 \<and> c = 3" using that(2) assms(4) by auto
    with 4 100 400 show ?thesis unfolding leap_def by blast
  qed
qed


section \<open>Months\<close>

text \<open>The loop over the months finds the month in which a day falls.\<close>

lemma months_loop_eq:
  assumes "0 \<le> r" "r < sum_list ds"
  shows "\<exists>k < length ds. months_loop ds m r = Some (m + int k, r - sum_list (take k ds)) \<and>
    sum_list (take k ds) \<le> r \<and> r < sum_list (take k ds) + ds ! k"
  using assms
proof (induction ds arbitrary: m r)
  case (Cons d ds)
  show ?case
  proof (cases "d \<le> r")
    case True
    then obtain k where "k < length ds" "months_loop ds (m + 1) (r - d) = Some (m + 1 + int k, r - d - sum_list (take k ds))"
      "sum_list (take k ds) \<le> r - d" "r - d < sum_list (take k ds) + ds ! k"
      using Cons.IH [of "r - d" "m + 1"] Cons.prems by auto
    with True show ?thesis by (intro exI [of _ "Suc k"]) simp
  next
    case False
    with Cons.prems(1) show ?thesis by (intro exI [of _ 0]) simp
  qed
qed simp

lemma below_10: "k < (10 :: nat) \<Longrightarrow> k \<in> {0, 1, 2, 3, 4, 5, 6, 7, 8, 9}"
  by auto

lemma march_to_december:
  assumes "k < 10"
  shows "days_before l (int k + 2) = 59 + (if l then 1 else 0) + sum_list (take k days_in_month)"
    "month_days l ! nat (int k + 2) = days_in_month ! k"
  using below_10 [OF assms] by (auto simp: days_before_def month_days_def days_in_month_def numeral_eq_Suc)

lemma sum_march: "sum_list days_in_month = 366" "sum_list (take 10 days_in_month) = 306" "sum_list (take 11 days_in_month) = 337"
  "length days_in_month = 12" "days_in_month ! 10 = 31" "days_in_month ! 11 = 29"
  by (simp_all add: days_in_month_def)

lemma days_before_init: "days_before l 0 = 0" "days_before l 1 = 31" "month_days l ! 0 = 31" "month_days l ! 1 = (if l then 29 else 28)"
  "month_days l ! Suc 0 = (if l then 29 else 28)"
  by (simp_all add: days_before_def month_days_def)

lemma sum_take_mono: "k \<le> j \<Longrightarrow> (\<And>x. x \<in> set xs \<Longrightarrow> 0 \<le> x) \<Longrightarrow> sum_list (take k xs) \<le> sum_list (take j (xs :: int list))"
proof -
  assume "k \<le> j" and nn: "\<And>x. x \<in> set xs \<Longrightarrow> 0 \<le> x"
  then obtain i where i: "j = k + i" using le_Suc_ex by blast
  have "0 \<le> sum_list (take i (drop k xs))" by (rule sum_list_nonneg) (use nn in \<open>auto dest: in_set_takeD in_set_dropD\<close>)
  then show ?thesis unfolding i take_add sum_list_append by simp
qed


section \<open>Seconds to dates\<close>

lemma floor_pair:
  fixes x k :: int
  assumes "0 < k"
  shows "(if x smod k < 0 then (x smod k + k, x sdiv k - 1) else (x smod k, x sdiv k)) = (x mod k, x div k)"
    "(if x smod k < 0 then (x sdiv k - 1, x smod k + k) else (x sdiv k, x smod k)) = (x div k, x mod k)"
  using sdiv_floor [OF assms, of x] by (simp_all split: if_splits)

lemma capped_sdiv:
  fixes x k m :: int
  assumes "0 \<le> x" "0 < k" "x < k * (m + 2)"
  shows "(if x sdiv k = m + 1 then x sdiv k - 1 else x sdiv k) = min m (x div k)"
proof -
  have "x div k < m + 2"
  proof (rule ccontr)
    assume "\<not> x div k < m + 2"
    then have "k * (m + 2) \<le> k * (x div k)" using assms(2) by (intro mult_left_mono) simp_all
    also have "\<dots> \<le> x" using mult_div_mod_eq [of k x] pos_mod_sign [OF assms(2), of x] by linarith
    finally show False using assms(3) by simp
  qed
  then show ?thesis using assms by (simp add: sdiv_pos min_def)
qed

text \<open>The last part of \<open>__secs_to_tm\<close>, from the loop over the months on.\<close>

definition tm_of :: "int \<Rightarrow> int \<Rightarrow> int \<Rightarrow> int \<Rightarrow> int \<Rightarrow> tm option option" where
  "tm_of sec wday l years r =
     (let yday = r + 31 + 28 + l; yday = (if yday \<ge> 365 + l then yday - (365 + l) else yday)
      in do {
        (months, remdays) \<leftarrow> months_loop days_in_month 0 r;
        let (months, years) = (if months \<ge> 10 then (months - 12, years + 1) else (months, years));
        if years + 100 > INT_MAX \<or> years + 100 < INT_MIN then Some None
        else Some (Some \<lparr> tm_sec = sec smod 60, tm_min = sec sdiv 60 smod 60, tm_hour = sec sdiv 3600,
          tm_mday = remdays + 1, tm_mon = months + 2, tm_year = years + 100, tm_wday = wday, tm_yday = yday\<rparr>) })"

lemma secs_to_tm_split:
  assumes guard: "INT_MIN * 31622400 \<le> t" "t \<le> INT_MAX * 31622400"
    and days_def: "days = (t - LEAPOCH) div 86400"
    and v: "qc = days div 146097" "c = min 3 (r0 div 36524)" "q = min 24 (r1 div 1461)" "y = min 3 (r2 div 365)" "r = r2 - y * 365"
    and r0_def: "r0 = days mod 146097" and r1_def: "r1 = r0 - c * 36524" and r2_def: "r2 = r1 - q * 1461"
  shows "secs_to_tm t = tm_of ((t - LEAPOCH) mod 86400) ((3 + days) mod 7)
    (if y = 0 \<and> (q \<noteq> 0 \<or> c = 0) then 1 else 0) (y + 4 * q + 100 * c + 400 * qc) r"
proof -
  have r0: "0 \<le> r0" "r0 < 146097" by (simp_all add: r0_def)
  note sp = split_days [OF v r0_def r1_def r2_def]
  have r: "r2 = r + y * 365" and r1': "r1 = r2 + q * 1461" using v(5) r2_def by simp_all
  have r2: "0 \<le> r2" "r2 < 365 * (3 + 2)" using sp(6-9) r by simp_all
  have "r2 \<le> 1460" using sp(6-9) r by simp
  with sp(4,5) r1' r2(1) have r1: "0 \<le> r1" "r1 < 1461 * (24 + 2)" by simp_all
  have D: "DAYS_PER_400Y = 146097" "DAYS_PER_100Y = 36524" "DAYS_PER_4Y = 1461"
    by (simp_all add: DAYS_PER_400Y_def DAYS_PER_100Y_def DAYS_PER_4Y_def)
  have c: "(if r0 sdiv 36524 = 4 then r0 sdiv 36524 - 1 else r0 sdiv 36524) = c"
    using capped_sdiv [of r0 36524 3] r0 v(2) by simp
  have q: "(if r1 sdiv 1461 = 25 then r1 sdiv 1461 - 1 else r1 sdiv 1461) = q"
    using capped_sdiv [OF r1(1) _ r1(2)] v(3) by simp
  have y: "(if r2 sdiv 365 = 4 then r2 sdiv 365 - 1 else r2 sdiv 365) = y"
    using capped_sdiv [OF r2(1) _ r2(2)] v(4) by simp
  have w: "(if (3 + days) smod 7 < 0 then (3 + days) smod 7 + 7 else (3 + days) smod 7) = (3 + days) mod 7"
    by (rule sdiv_floor) simp
  have e1: "(if (t - LEAPOCH) smod 86400 < 0 then ((t - LEAPOCH) smod 86400 + 86400, (t - LEAPOCH) sdiv 86400 - 1)
     else ((t - LEAPOCH) smod 86400, (t - LEAPOCH) sdiv 86400)) = ((t - LEAPOCH) mod 86400, days)"
    unfolding days_def by (rule floor_pair) simp
  have e2: "(if days smod 146097 < 0 then (days smod 146097 + 146097, days sdiv 146097 - 1)
     else (days smod 146097, days sdiv 146097)) = (r0, qc)"
    unfolding r0_def v(1) by (rule floor_pair) simp
  have g: "\<not> (t < INT_MIN * 31622400 \<or> t > INT_MAX * 31622400)" using guard by simp
  show ?thesis
    unfolding secs_to_tm_def tm_of_def Let_def D
    by (simp only: g if_False e1 prod.case w e2 c r1_def [symmetric] q r2_def [symmetric] y v(5) [symmetric])
qed


text \<open>The seconds of a day.\<close>

lemma time_of_day:
  fixes sec :: int
  assumes "0 \<le> sec" "sec < 86400"
  shows "0 \<le> sec sdiv 3600" "sec sdiv 3600 < 24" "0 \<le> sec sdiv 60 smod 60" "sec sdiv 60 smod 60 < 60" "0 \<le> sec smod 60" "sec smod 60 < 60"
    "3600 * (sec sdiv 3600) + 60 * (sec sdiv 60 smod 60) + sec smod 60 = sec"
proof -
  have s: "sec sdiv 3600 = sec div 3600" "sec sdiv 60 smod 60 = sec div 60 mod 60" "sec smod 60 = sec mod 60"
    using assms(1) by (simp_all add: sdiv_pos pos_imp_zdiv_nonneg_iff)
  have "sec div 3600 = sec div 60 div 60" by (simp flip: zdiv_zmult2_eq)
  then have "3600 * (sec div 3600) + 60 * (sec div 60 mod 60) + sec mod 60 = sec"
    using mult_div_mod_eq [of 60 sec] mult_div_mod_eq [of 60 "sec div 60"] by linarith
  then show "3600 * (sec sdiv 3600) + 60 * (sec sdiv 60 smod 60) + sec smod 60 = sec" unfolding s .
  show "0 \<le> sec sdiv 3600" "sec sdiv 3600 < 24" "0 \<le> sec sdiv 60 smod 60" "sec sdiv 60 smod 60 < 60" "0 \<le> sec smod 60" "sec smod 60 < 60"
    unfolding s using assms by (simp_all add: pos_imp_zdiv_nonneg_iff)
qed

text \<open>
  The date of day \<open>r\<close> of the year that begins in March \<open>2000 + n\<close>; it is a date of the calendar.
\<close>

lemma tm_of_civil:
  assumes "0 \<le> sec" "sec < 86400" "0 \<le> r" "r \<le> 365" "r = 365 \<Longrightarrow> leap (2001 + n)"
    and l: "l = (if leap (2000 + n) then 1 else 0)"
    and w: "wday = (year_day (2001 + n) - 306 + r + 4) mod 7"
  shows "\<exists>tm. civil tm \<and> civil_secs tm = 86400 * (year_day (2001 + n) - 306 + r) + sec \<and>
    tm_of sec wday l n r = Some (if tm_year tm > INT_MAX \<or> tm_year tm < INT_MIN then None else Some tm)"
proof -
  note s = time_of_day [OF assms(1,2)]
  obtain k where k: "k < 12" "months_loop days_in_month 0 r = Some (int k, r - sum_list (take k days_in_month))"
    "sum_list (take k days_in_month) \<le> r" "r < sum_list (take k days_in_month) + days_in_month ! k"
    using months_loop_eq [of r days_in_month 0] assms(3,4) by (auto simp: sum_march)
  have step: "year_day (2001 + n) = year_day (2000 + n) + 365 + l"
    using year_day_step [of "2000 + n"] l by (simp add: algebra_simps)
  have nn: "0 \<le> x" if "x \<in> set days_in_month" for x using that by (auto simp: days_in_month_def)
  let ?tm = "\<lambda>mon year yday. \<lparr>tm_sec = sec smod 60, tm_min = sec sdiv 60 smod 60, tm_hour = sec sdiv 3600,
    tm_mday = r - sum_list (take k days_in_month) + 1, tm_mon = mon, tm_year = year, tm_wday = wday, tm_yday = yday\<rparr>"
  show ?thesis
  proof (cases "k < 10")
    case True
    note d = march_to_december [OF True, of "leap (2000 + n)"]
    have "sum_list (take k days_in_month) + days_in_month ! k = sum_list (take (Suc k) days_in_month)"
      using True by (simp add: take_Suc_conv_app_nth sum_march)
    also have "\<dots> \<le> 306" using True sum_take_mono [of "Suc k" 10 days_in_month] nn by (simp add: sum_march)
    finally have r: "r < 306" using k(4) by simp
    have "tm_of sec wday l n r = Some (if n + 100 > INT_MAX \<or> n + 100 < INT_MIN then None else Some (?tm (int k + 2) (n + 100) (r + 59 + l)))"
      using True r by (simp add: tm_of_def k(2))
    moreover have "civil (?tm (int k + 2) (n + 100) (r + 59 + l))"
      using s True k(3,4) d l w step by (simp add: civil_def Let_def algebra_simps)
    moreover have "civil_secs (?tm (int k + 2) (n + 100) (r + 59 + l)) = 86400 * (year_day (2001 + n) - 306 + r) + sec"
      using s(7) step by (simp add: civil_secs_def algebra_simps)
    ultimately show ?thesis by (intro exI [of _ "?tm (int k + 2) (n + 100) (r + 59 + l)"]) simp
  next
    case False
    then consider "k = 10" | "k = 11" using k(1) by linarith
    then have c: "306 \<le> r \<and> civil (?tm (int k - 10) (n + 101) (r - 306))"
    proof cases
      case 1
      then show ?thesis using s k(3,4) w by (simp add: civil_def Let_def sum_march days_before_init algebra_simps)
    next
      case 2
      have "r \<le> 364" if "\<not> leap (2001 + n)" using that assms(4,5) by (cases "r = 365") auto
      then show ?thesis using 2 s k(3,4) w assms(4) by (simp add: civil_def Let_def sum_march days_before_init algebra_simps)
    qed
    have "tm_of sec wday l n r = Some (if n + 101 > INT_MAX \<or> n + 101 < INT_MIN then None else Some (?tm (int k - 10) (n + 101) (r - 306)))"
      using False c by (simp add: tm_of_def k(2))
    moreover have "civil_secs (?tm (int k - 10) (n + 101) (r - 306)) = 86400 * (year_day (2001 + n) - 306 + r) + sec"
      using s(7) by (simp add: civil_secs_def algebra_simps)
    ultimately show ?thesis using c by (intro exI [of _ "?tm (int k - 10) (n + 101) (r - 306)"]) simp
  qed
qed


lemma secs_to_tm_civil:
  assumes "INT_MIN * 31622400 \<le> t" "t \<le> INT_MAX * 31622400"
  shows "\<exists>tm. civil tm \<and> civil_secs tm = t \<and>
    secs_to_tm t = Some (if tm_year tm > INT_MAX \<or> tm_year tm < INT_MIN then None else Some tm)"
proof -
  define days where "days = (t - LEAPOCH) div 86400"
  define qc r0 where "qc = days div 146097" and "r0 = days mod 146097"
  define c where "c = min 3 (r0 div 36524)"
  define r1 where "r1 = r0 - c * 36524"
  define q where "q = min 24 (r1 div 1461)"
  define r2 where "r2 = r1 - q * 1461"
  define y where "y = min 3 (r2 div 365)"
  define r where "r = r2 - y * 365"
  define n where "n = y + 4 * q + 100 * c + 400 * qc"
  note defs = qc_def c_def q_def y_def r_def r0_def r1_def r2_def
  note sp = split_days [OF defs]
  note my = march_year [OF sp(2-7) n_def]
  have days: "days + 11017 = year_day (2001 + n) - 306 + r" using sp(1) my(1) n_def by simp
  have t: "t = 86400 * (days + 11017) + (t - LEAPOCH) mod 86400"
    using mult_div_mod_eq [of 86400 "t - LEAPOCH"] unfolding days_def LEAPOCH_def by simp
  have "(3 + days) mod 7 = (days + 11017 + 4) mod 7"
  proof -
    have "days + 11017 + 4 = 3 + days + 7 * 1574" by simp
    then show ?thesis by (metis mod_mult_self2)
  qed
  then have w: "(3 + days) mod 7 = (year_day (2001 + n) - 306 + r + 4) mod 7" unfolding days .
  have "(0 :: int) \<le> (t - LEAPOCH) mod 86400" "(t - LEAPOCH) mod 86400 < 86400" by simp_all
  from tm_of_civil [OF this sp(8,9) _ _ w, of "if leap (2000 + n) then 1 else 0"] sp(10) my(3)
  obtain tm where tm: "civil tm" "civil_secs tm = 86400 * (year_day (2001 + n) - 306 + r) + (t - LEAPOCH) mod 86400"
    "tm_of ((t - LEAPOCH) mod 86400) ((3 + days) mod 7) (if leap (2000 + n) then 1 else 0) n r =
      Some (if tm_year tm > INT_MAX \<or> tm_year tm < INT_MIN then None else Some tm)" by blast
  have "secs_to_tm t = Some (if tm_year tm > INT_MAX \<or> tm_year tm < INT_MIN then None else Some tm)"
    using secs_to_tm_split [OF assms days_def defs] tm(3) unfolding my(2) n_def [symmetric] by (simp only:)
  with tm(1,2) t days show ?thesis by auto
qed

section \<open>Dates are unique\<close>

lemma month_days_pos: "x \<in> set (month_days l) \<Longrightarrow> 0 \<le> x"
  by (auto simp: month_days_def split: if_splits)

lemma length_month_days: "length (month_days l) = 12"
  by (simp add: month_days_def)

lemma days_before_next:
  assumes "0 \<le> m" "m < m'" "m' \<le> 12"
  shows "days_before l m + month_days l ! nat m \<le> days_before l m'"
proof -
  have "sum_list (take (Suc (nat m)) (month_days l)) \<le> sum_list (take (nat m') (month_days l))"
    using assms by (intro sum_take_mono month_days_pos) auto
  moreover have "nat m < length (month_days l)" using assms by (simp add: length_month_days)
  ultimately show ?thesis by (simp add: days_before_def take_Suc_conv_app_nth)
qed

lemma days_before_12: "days_before l 12 = (if l then 366 else 365)"
  by (simp add: days_before_def month_days_def)

lemma civil_yday: "civil tm \<Longrightarrow> 0 \<le> tm_yday tm \<and> tm_yday tm < (if leap (1900 + tm_year tm) then 366 else 365)"
proof -
  assume c: "civil tm"
  let ?l = "leap (1900 + tm_year tm)"
  have "0 \<le> days_before ?l (tm_mon tm)"
    unfolding days_before_def by (rule sum_list_nonneg) (auto dest: in_set_takeD month_days_pos)
  moreover have "days_before ?l (tm_mon tm) + month_days ?l ! nat (tm_mon tm) \<le> days_before ?l 12"
    using c by (intro days_before_next) (auto simp: civil_def Let_def)
  ultimately show ?thesis using c unfolding civil_def Let_def days_before_12 by linarith
qed

lemma civil_unique:
  assumes "civil a" "civil b" "civil_secs a = civil_secs b"
  shows "a = b"
proof -
  have day: "civil_secs tm div 86400 = year_day (1900 + tm_year tm) + tm_yday tm"
    "civil_secs tm mod 86400 = 3600 * tm_hour tm + 60 * tm_min tm + tm_sec tm" if "civil tm" for tm
  proof -
    let ?d = "year_day (1900 + tm_year tm) + tm_yday tm" and ?s = "3600 * tm_hour tm + 60 * tm_min tm + tm_sec tm"
    have "civil_secs tm = 86400 * ?d + ?s" by (simp add: civil_secs_def)
    moreover have "0 \<le> ?s" "?s < 86400" using that unfolding civil_def Let_def by linarith+
    ultimately show "civil_secs tm div 86400 = ?d" "civil_secs tm mod 86400 = ?s" by (metis int_div_pos_eq, metis int_mod_pos_eq)
  qed
  have sec: "3600 * tm_hour a + 60 * tm_min a + tm_sec a = 3600 * tm_hour b + 60 * tm_min b + tm_sec b"
    using day(2) [OF assms(1)] day(2) [OF assms(2)] assms(3) by simp
  have d: "year_day (1900 + tm_year a) + tm_yday a = year_day (1900 + tm_year b) + tm_yday b"
    using day(1) [OF assms(1)] day(1) [OF assms(2)] assms(3) by simp
  have less: "year_day (1900 + tm_year x) + tm_yday x < year_day (1900 + tm_year y) + tm_yday y"
    if "civil x" "civil y" "tm_year x < tm_year y" for x y
    using civil_yday [OF that(1)] civil_yday [OF that(2)] year_day_step [of "1900 + tm_year x"]
      year_day_mono [of "1900 + tm_year x + 1" "1900 + tm_year y"] that(3) by (simp split: if_splits)
  have year: "tm_year a = tm_year b" using less [OF assms(1,2)] less [OF assms(2,1)] d by linarith
  then have yday: "tm_yday a = tm_yday b" using d by simp
  have mless: "tm_yday x < tm_yday y" if "civil x" "civil y" "tm_mon x < tm_mon y" "tm_year x = tm_year y" for x y
    using days_before_next [of "tm_mon x" "tm_mon y" "leap (1900 + tm_year x)"] that by (auto simp: civil_def Let_def)
  have mon: "tm_mon a = tm_mon b" using mless [OF assms(1,2)] mless [OF assms(2,1)] year yday by linarith
  have mday: "tm_mday a = tm_mday b" using assms(1,2) year yday mon by (simp add: civil_def Let_def)
  have "tm_wday a = tm_wday b" using assms(1,2) year yday by (simp add: civil_def Let_def)
  moreover have h: "tm_hour a = tm_hour b" using sec assms(1,2) unfolding civil_def Let_def by linarith
  moreover have m: "tm_min a = tm_min b" using h sec assms(1,2) unfolding civil_def Let_def by linarith
  moreover have "tm_sec a = tm_sec b" using h m sec by simp
  ultimately show ?thesis using year yday mon mday by (cases a; cases b) simp
qed


section \<open>Dates to seconds\<close>

lemma short_year_iff:
  assumes "- (2 ^ 62) \<le> year" "year \<le> 2 ^ 62"
  shows "(of_int year - 2 :: u64) \<le> 136 \<longleftrightarrow> 2 \<le> year \<and> year \<le> 138"
proof -
  have w: "of_int year - 2 = (of_int (year - 2) :: u64)" by simp
  have u: "uint (of_int (year - 2) :: u64) = (year - 2) mod 2 ^ 64" by (simp only: uint_word_of_int_eq) (simp add: take_bit_eq_mod)
  show ?thesis
  proof (cases "2 \<le> year")
    case True
    then have "(year - 2) mod 2 ^ 64 = year - 2" using assms(2) by (intro mod_pos_pos_trivial) simp_all
    with u True show ?thesis unfolding w by (simp add: word_le_def)
  next
    case False
    then have "(year - 2) mod 2 ^ 64 = year - 2 + 2 ^ 64" using assms(1) by (intro int_mod_pos_eq [of _ _ "- 1"]) simp_all
    with u False assms(1) show ?thesis unfolding w by (simp add: word_le_def)
  qed
qed

lemma leap_mod: "leap y \<longleftrightarrow> y mod 4 = 0 \<and> (y mod 100 \<noteq> 0 \<or> y mod 400 = 0)"
  by (auto simp: leap_def dvd_eq_mod_eq_0)

text \<open>The years 1902 to 2038: every fourth one is a leap year.\<close>

lemma short_year:
  assumes "2 \<le> y" "y \<le> (138 :: int)"
  shows "year_day (1900 + y) = 365 * (y - 70) + (if (y - 68) mod 4 = 0 then (y - 68) div 4 - 1 else (y - 68) div 4)"
    "leap (1900 + y) \<longleftrightarrow> (y - 68) mod 4 = 0"
proof -
  obtain k j where y: "y = 4 * k + j" "0 \<le> j" "j < 4" by (metis mult_div_mod_eq pos_mod_bound pos_mod_sign zero_less_numeral)
  have k: "0 \<le> k" "k \<le> 34" using assms y by linarith+
  have m: "(y - 68) mod 4 = j" "(y - 68) div 4 = k - 17" "(1900 + y) mod 4 = j"
    using y by (intro int_mod_pos_eq [of _ _ "k - 17"] int_div_pos_eq [of _ _ _ j] int_mod_pos_eq [of _ _ "475 + k"]; simp)+
  have d4: "(1900 + y - 1) div 4 = (if j = 0 then 474 + k else 475 + k)"
    using y by (cases "j = 0") (auto intro!: int_div_pos_eq [of _ _ _ "if j = 0 then 3 else j - 1"])
  have d100: "(1900 + y - 1) div 100 = (if y \<le> 100 then 19 else 20)" "(1900 + y - 1) div 400 = (if y \<le> 100 then 4 else 5)"
    using assms by auto
  have "leaps_before 1970 = 477" by (simp add: leaps_before_def)
  then show "year_day (1900 + y) = 365 * (y - 70) + (if (y - 68) mod 4 = 0 then (y - 68) div 4 - 1 else (y - 68) div 4)"
    unfolding year_day_def leaps_before_def [of "1900 + y"] d4 d100 m using y(2) by simp
  have "(1900 + y) mod 100 = 0 \<Longrightarrow> y = 100" using assms by presburger
  moreover have "y = 100 \<Longrightarrow> (1900 + y) mod 400 = 0" by simp
  ultimately show "leap (1900 + y) \<longleftrightarrow> (y - 68) mod 4 = 0" unfolding leap_mod m by auto
qed


lemma short_year_fits:
  assumes "2 \<le> y" "y \<le> (138 :: int)"
  shows "INT_MIN \<le> 31536000 * (y - 70) + 86400 * ((y - 68) div 4 - 1)" "31536000 * (y - 70) + 86400 * ((y - 68) div 4) \<le> INT_MAX"
proof -
  have "- 17 \<le> (y - 68) div 4" "(y - 68) div 4 \<le> 17" using assms by auto
  then show "INT_MIN \<le> 31536000 * (y - 70) + 86400 * ((y - 68) div 4 - 1)" "31536000 * (y - 70) + 86400 * ((y - 68) div 4) \<le> INT_MAX"
    using assms unfolding INT_MIN_def INT_MAX_def by simp_all
qed

lemma year_to_secs_eq:
  assumes "- (2 ^ 62) \<le> year" "year \<le> 2 ^ 62"
  shows "year_to_secs year = (86400 * year_day (1900 + year), if leap (1900 + year) then 1 else 0)"
proof (cases "2 \<le> year \<and> year \<le> 138")
  case True
  have "drop_bit 2 (year - 68) = (year - 68) div 4" "and (year - 68) 3 = (year - 68) mod 4"
    by (simp add: drop_bit_eq_div, simp add: take_bit_eq_mod [of 2, simplified, symmetric] take_bit_eq_mask mask_eq_exp_minus_1)
  moreover have "2 \<le> year" "year \<le> 138" using True by simp_all
  ultimately show ?thesis
    unfolding year_to_secs_def short_year_iff [OF assms] short_year [OF \<open>2 \<le> year\<close> \<open>year \<le> 138\<close>]
    by (simp add: Let_def algebra_simps)
next
  case False
  define n cyc rem where "n = year - 100" and "cyc = n div 400" and "rem = n mod 400"
  define cent r where "cent = rem div 100" and "r = rem mod 100"
  have rem: "0 \<le> rem" "rem < 400" by (simp_all add: rem_def)
  have r: "rem = 100 * cent + r" "0 \<le> r" "r < 100" by (simp_all add: cent_def r_def)
  have cent: "0 \<le> cent" "cent \<le> 3" using rem r by linarith+
  have q: "r = 4 * (r div 4) + r mod 4" "0 \<le> r mod 4" "r mod 4 \<le> 3" "0 \<le> r div 4" "r div 4 \<le> 24" using r(2,3) by auto
  have n: "n = r mod 4 + 4 * (r div 4) + 100 * cent + 400 * cyc"
    using mult_div_mod_eq [of 400 n] r(1) q(1) unfolding cyc_def rem_def by linarith
  note my = march_year [OF cent q(4,5,2,3) n]
  have y: "1900 + year = 2000 + n" by (simp add: n_def)
  have yd: "year_day (2000 + n) = 10958 + 365 * n + r div 4 + 24 * cent + 97 * cyc - (if leap (2000 + n) then 1 else 0)"
    using my(1) year_day_step [of "2000 + n"] by (cases "leap (2000 + n)") (simp_all add: algebra_simps)
  have cr: "(if rem \<ge> 200 then if rem \<ge> 300 then (3, rem - 300) else (2, rem - 200)
      else if rem \<ge> 100 then (1, rem - 100) else (0, rem)) = (cent, r)"
    using r cent by auto
  have fp: "(if n smod 400 < 0 then (n sdiv 400 - 1, n smod 400 + 400) else (n sdiv 400, n smod 400)) = (cyc, rem)"
    unfolding cyc_def rem_def by (rule floor_pair) simp
  have il: "(if rem = 0 then (1, 0, 0) else if r = 0 then (0, cent, 0) else (if r mod 4 = 0 then 1 else 0, cent, r div 4)) =
      (if leap (2000 + n) then 1 else (0 :: int), cent, r div 4)"
    unfolding my(2) using r q cent by auto
  have g: "\<not> (of_int year - 2 :: u64) \<le> 136" using short_year_iff [OF assms] False by blast
  show ?thesis
    unfolding year_to_secs_def if_not_P [OF g] Let_def n_def [symmetric] fp prod.case cr il y yd
    by (simp add: algebra_simps)
qed

lemma month_to_secs_eq:
  assumes "0 \<le> m" "m < 12"
  shows "month_to_secs m (if l then 1 else 0) = 86400 * days_before l m"
proof -
  have "m \<in> {0, 1, 2, 3, 4, 5, 6, 7, 8, 9, 10, 11}" using assms by (cases "m < 6") auto
  then show ?thesis by (auto simp: month_to_secs_def secs_through_month_def days_before_def month_days_def numeral_eq_Suc)
qed

lemma tm_to_secs_civil:
  assumes "civil tm" "- (2 ^ 62) \<le> tm_year tm" "tm_year tm \<le> 2 ^ 62"
  shows "tm_to_secs tm = civil_secs tm"
proof -
  have m: "0 \<le> tm_mon tm" "tm_mon tm < 12" and yd: "tm_yday tm = days_before (leap (1900 + tm_year tm)) (tm_mon tm) + tm_mday tm - 1"
    using assms(1) by (simp_all add: civil_def Let_def)
  show ?thesis
    using m by (simp add: tm_to_secs_def year_to_secs_eq [OF assms(2,3)] month_to_secs_eq [OF m] civil_secs_def yd algebra_simps)
qed

text \<open>Dates whose year fits an \<open>int\<close> pass the first test of \<open>__secs_to_tm\<close>.\<close>

lemma civil_secs_bounds:
  assumes "civil tm" "INT_MIN \<le> tm_year tm" "tm_year tm \<le> INT_MAX"
  shows "INT_MIN * 31622400 \<le> civil_secs tm" "civil_secs tm \<le> INT_MAX * 31622400"
proof -
  have y: "year_day (1900 + INT_MIN) \<le> year_day (1900 + tm_year tm)" "year_day (1900 + tm_year tm) \<le> year_day (1900 + INT_MAX)"
    using assms(2,3) by (auto intro: year_day_mono)
  have v: "year_day (1900 + INT_MIN) = - 784352321872" "year_day (1900 + INT_MAX) = 784352270372"
    by (simp_all add: year_day_def leaps_before_def INT_MIN_def INT_MAX_def)
  have s: "0 \<le> tm_yday tm" "tm_yday tm < 366" "0 \<le> 3600 * tm_hour tm + 60 * tm_min tm + tm_sec tm" "3600 * tm_hour tm + 60 * tm_min tm + tm_sec tm < 86400"
    using civil_yday [OF assms(1)] assms(1) unfolding civil_def Let_def by (auto split: if_splits)
  let ?d = "year_day (1900 + tm_year tm) + tm_yday tm"
  have d: "- 784352321872 \<le> ?d" "?d \<le> 784352270738" using y [unfolded v] s(1,2) by simp_all
  have c: "civil_secs tm = 86400 * ?d + (3600 * tm_hour tm + 60 * tm_min tm + tm_sec tm)" by (simp add: civil_secs_def)
  have "86400 * - 784352321872 \<le> 86400 * ?d" using d(1) by (intro mult_left_mono) simp_all
  then show "INT_MIN * 31622400 \<le> civil_secs tm" using s(3) c by (simp add: INT_MIN_def)
  have "86400 * ?d \<le> 86400 * 784352270738" using d(2) by (intro mult_left_mono) simp_all
  then show "civil_secs tm \<le> INT_MAX * 31622400" using s(4) c by (simp add: INT_MAX_def)
qed


lemma secs_to_tm_gregorian:
  "(secs_to_tm t = Some (Some tm) \<longleftrightarrow> civil tm \<and> civil_secs tm = t \<and> INT_MIN \<le> tm_year tm \<and> tm_year tm \<le> INT_MAX) \<and>
   secs_to_tm t \<noteq> None"
proof (cases "INT_MIN * 31622400 \<le> t \<and> t \<le> INT_MAX * 31622400")
  case True
  then obtain tm' where tm': "civil tm'" "civil_secs tm' = t"
    "secs_to_tm t = Some (if tm_year tm' > INT_MAX \<or> tm_year tm' < INT_MIN then None else Some tm')"
    using secs_to_tm_civil by blast
  then show ?thesis using civil_unique [of tm tm'] by auto
next
  case False
  then have g: "t < INT_MIN * 31622400 \<or> t > INT_MAX * 31622400" by auto
  have "secs_to_tm t = Some None" unfolding secs_to_tm_def if_P [OF g] ..
  with False show ?thesis using civil_secs_bounds [of tm] by auto
qed

section \<open>Properties\<close>

text \<open>
  C30. \<open>gmtime_r\<close> gives exactly the date of the Gregorian calendar: it returns a broken-down time if and only
  if that is the date, time, day of the week and day of the year of the given second and its year fits an
  \<open>int\<close>, and it returns the error otherwise, for all 64-bit times; it never leaves the table of months.
\<close>

theorem gmtime_gregorian:
  "(gmtime_r t = Some (Some tm) \<longleftrightarrow> civil tm \<and> civil_secs tm = t \<and> INT_MIN \<le> tm_year tm \<and> tm_year tm \<le> INT_MAX) \<and>
   gmtime_r t \<noteq> None"
  unfolding gmtime_r_def by (rule secs_to_tm_gregorian)

text \<open>
  C31. \<open>timegm\<close> and \<open>gmtime_r\<close> are inverse: the broken-down time of a second gives back that second, unchanged
  itself, through the shortcut for the years 1902 to 2038 and through the general computation alike.
\<close>

theorem timegm_inverse:
  assumes "gmtime_r t = Some (Some tm)"
  shows "timegm tm = Some (t, tm)"
proof -
  have tm: "civil tm" "civil_secs tm = t" "INT_MIN \<le> tm_year tm" "tm_year tm \<le> INT_MAX"
    using assms secs_to_tm_gregorian [of t tm] by (simp_all add: gmtime_r_def)
  then have "tm_to_secs tm = t" by (subst tm_to_secs_civil) (simp_all add: INT_MIN_def INT_MAX_def)
  then show ?thesis using assms by (simp add: timegm_def gmtime_r_def)
qed

theorem timegm_inverse_witness:
  "\<exists>tm. gmtime_r 951782400 = Some (Some tm) \<and> timegm tm = Some (951782400, tm) \<and> tm_mon tm = 1 \<and> tm_mday tm = 29"
proof -
  have "gmtime_r 951782400 = Some (Some \<lparr>tm_sec = 0, tm_min = 0, tm_hour = 0, tm_mday = 29, tm_mon = 1, tm_year = 100, tm_wday = 2, tm_yday = 59\<rparr>)"
    by code_simp
  with timegm_inverse [OF this] show ?thesis by simp
qed

end
