(* ===== verification/Prng.thy ===== *)
theory Prng
  imports Prelude
begin

text \<open>
  The random number generators of the C library, \<open>src/musl-1.2.5/src/prng\<close>: \<open>random.c\<close> with its switchable
  state arrays, the \<open>rand48\<close> family, \<open>rand.c\<close> and \<open>rand_r.c\<close>. State arrays live in a memory from addresses
  to lists of 32-bit words; the word before \<open>x\<close> holds the packed indices. An access outside a buffer is
  \<open>None\<close>. The lock is not modelled: each call is atomic. \<open>drand48\<close> and \<open>erand48\<close> return a \<open>double\<close> and
  are left out.

  Shown here: in any sequence of calls the state arrays are independent generators, each a lagged Fibonacci
  shift register or a linear congruence, and no call leaves its array; the circular buffer with its two
  indices is a queue; the indices packed in the first word are recovered; the \<open>rand48\<close> step is the linear
  congruence modulo 2^48, and all results are in the range of their types.
\<close>

section \<open>random\<close>

record rnd =
  rnd_n :: nat
  rnd_i :: nat
  rnd_j :: nat
  rnd_x :: nat
  rnd_mem :: "nat \<rightharpoonup> u32 list"

definition init :: "u32 list" where
  "init = [0x00000000, 0x5851f42d, 0xc0b18ccf, 0xcbb5f646] @ [0xc7033129, 0x30705b04, 0x20fd5db4, 0x9a8b7f78] @
     [0x502959d8, 0xab894868, 0x6c0356a7, 0x88cdb7ff] @ [0xb477d43f, 0x70a3a52b, 0xa8e4baf1, 0xfd8341fc] @
     [0x8ae16fd9, 0x742d2f7a, 0x0d1f0796, 0x76035e09] @ [0x40f7702c, 0x6fa72ca5, 0xaaa84157, 0x58a0df74] @
     [0xc74a0364, 0xae533cc4, 0x04185faf, 0x6de3b115] @ [0x0cab8628, 0xf043bfa4, 0x398150e9, 0x37521657]"

text \<open>The state at program start; the address 0 stands for \<open>init\<close>, \<open>m\<close> is the rest of the memory.\<close>

definition rnd_start :: "(nat \<rightharpoonup> u32 list) \<Rightarrow> rnd" where
  "rnd_start m = \<lparr>rnd_n = 31, rnd_i = 3, rnd_j = 0, rnd_x = 0, rnd_mem = m(0 \<mapsto> init)\<rparr>"

text \<open>\<open>x[k]\<close> is word \<open>k + 1\<close> of the buffer, and word 0 is \<open>x[-1]\<close>.\<close>

definition get_word :: "nat \<Rightarrow> rnd \<Rightarrow> u32 option" where
  "get_word k s = do { buf \<leftarrow> rnd_mem s (rnd_x s); if k < length buf then Some (buf ! k) else None }"

definition put_word :: "nat \<Rightarrow> u32 \<Rightarrow> rnd \<Rightarrow> rnd option" where
  "put_word k v s = do {
     buf \<leftarrow> rnd_mem s (rnd_x s);
     if k < length buf then Some (s\<lparr>rnd_mem := (rnd_mem s)(rnd_x s \<mapsto> buf[k := v])\<rparr>) else None }"

definition lcg31 :: "u32 \<Rightarrow> u32" where
  "lcg31 x = and (1103515245 * x + 12345) 0x7fffffff"

definition lcg64 :: "u64 \<Rightarrow> u64" where
  "lcg64 x = 6364136223846793005 * x + 1"

definition savestate :: "rnd \<Rightarrow> (rnd \<times> nat) option" where
  "savestate s = do {
     s \<leftarrow> put_word 0 (or (or (push_bit 16 (of_nat (rnd_n s))) (push_bit 8 (of_nat (rnd_i s)))) (of_nat (rnd_j s))) s;
     Some (s, rnd_x s) }"

definition loadstate :: "nat \<Rightarrow> rnd \<Rightarrow> rnd option" where
  "loadstate state s = (let s = s\<lparr>rnd_x := state\<rparr> in do {
     w \<leftarrow> get_word 0 s;
     Some (s\<lparr>rnd_n := unat (drop_bit 16 w), rnd_i := unat (and (drop_bit 8 w) 0xff), rnd_j := unat (and w 0xff)\<rparr>) })"

fun seed_loop :: "nat \<Rightarrow> nat \<Rightarrow> u64 \<Rightarrow> rnd \<Rightarrow> rnd option" where
  "seed_loop k 0 sd s = Some s"
| "seed_loop k (Suc c) sd s = (let sd = lcg64 sd in do {
     s \<leftarrow> put_word (k + 1) (ucast (drop_bit 32 sd)) s;
     seed_loop (k + 1) c sd s })"

definition srandom0 :: "u32 \<Rightarrow> rnd \<Rightarrow> rnd option" where
  "srandom0 seed s =
     (if rnd_n s = 0 then put_word 1 seed s
      else do {
        let s = s\<lparr>rnd_i := if rnd_n s = 31 \<or> rnd_n s = 7 then 3 else 1, rnd_j := 0\<rparr>;
        s \<leftarrow> seed_loop 0 (rnd_n s) (ucast seed) s;
        x0 \<leftarrow> get_word 1 s;
        put_word 1 (or x0 1) s })"

definition srandom :: "u32 \<Rightarrow> rnd \<Rightarrow> rnd option" where
  "srandom seed s = srandom0 seed s"

text \<open>\<open>initstate\<close> and \<open>setstate\<close> return the old buffer; \<open>None\<close> inside is the null pointer.\<close>

definition initstate :: "u32 \<Rightarrow> nat \<Rightarrow> nat \<Rightarrow> rnd \<Rightarrow> (rnd \<times> nat option) option" where
  "initstate seed state sz s =
     (if sz < 8 then Some (s, None)
      else do {
        (s, old) \<leftarrow> savestate s;
        let n = (if sz < 32 then 0 else if sz < 64 then 7 else if sz < 128 then 15 else if sz < 256 then 31 else 63);
        s \<leftarrow> srandom0 seed (s\<lparr>rnd_n := n, rnd_x := state\<rparr>);
        (s, _) \<leftarrow> savestate s;
        Some (s, Some old) })"

definition setstate :: "nat \<Rightarrow> rnd \<Rightarrow> (rnd \<times> nat) option" where
  "setstate state s = do { (s, old) \<leftarrow> savestate s; s \<leftarrow> loadstate state s; Some (s, old) }"

definition random :: "rnd \<Rightarrow> (rnd \<times> u32) option" where
  "random s =
     (if rnd_n s = 0 then do {
        x0 \<leftarrow> get_word 1 s;
        let k = lcg31 x0;
        s \<leftarrow> put_word 1 k s;
        Some (s, k) }
      else do {
        xi \<leftarrow> get_word (rnd_i s + 1) s;
        xj \<leftarrow> get_word (rnd_j s + 1) s;
        let v = xi + xj;
        s \<leftarrow> put_word (rnd_i s + 1) v s;
        let i = rnd_i s + 1;
        let i = (if i = rnd_n s then 0 else i);
        let j = rnd_j s + 1;
        let j = (if j = rnd_n s then 0 else j);
        Some (s\<lparr>rnd_i := i, rnd_j := j\<rparr>, drop_bit 1 v) })"

section \<open>rand48, rand and rand\_r\<close>

text \<open>\<open>__rand48_step\<close> on the three words of the state and the four of the multiplier and addend.\<close>

type_synonym words3 = "u16 \<times> u16 \<times> u16"
type_synonym words4 = "u16 \<times> u16 \<times> u16 \<times> u16"

definition rand48_step :: "words3 \<Rightarrow> words4 \<Rightarrow> words3 \<times> u64" where
  "rand48_step = (\<lambda>(x0, x1, x2) (l0, l1, l2, l3).
     let x = or (or (ucast x0) (push_bit 16 (ucast x1))) (push_bit 32 (ucast x2));
         a = or (or (ucast l0) (push_bit 16 (ucast l1))) (push_bit 32 (ucast l2));
         x = a * x + ucast l3
     in ((ucast x, ucast (drop_bit 16 x), ucast (drop_bit 32 x)), and x 0xffffffffffff))"

text \<open>\<open>__seed48\<close>: the state and the parameters.\<close>

type_synonym seed48_state = "words3 \<times> words4"

definition seed48_init :: seed48_state where
  "seed48_init = ((0, 0, 0), (0xe66d, 0xdeec, 0x5, 0xb))"

definition seed48 :: "words3 \<Rightarrow> seed48_state \<Rightarrow> seed48_state \<times> words3" where
  "seed48 s = (\<lambda>(x, lc). ((s, lc), x))"

definition srand48 :: "u64 \<Rightarrow> seed48_state \<Rightarrow> seed48_state" where
  "srand48 seed st = fst (seed48 (0x330e, ucast seed, ucast (signed_drop_bit 16 seed)) st)"

definition lcong48 :: "seed48_state \<Rightarrow> seed48_state \<Rightarrow> seed48_state" where
  "lcong48 p st = p"

definition nrand48 :: "words3 \<Rightarrow> seed48_state \<Rightarrow> words3 \<times> u64" where
  "nrand48 s st = (case rand48_step s (snd st) of (s', r) \<Rightarrow> (s', drop_bit 17 r))"

definition lrand48 :: "seed48_state \<Rightarrow> seed48_state \<times> u64" where
  "lrand48 st = (case nrand48 (fst st) st of (s', r) \<Rightarrow> ((s', snd st), r))"

definition jrand48 :: "words3 \<Rightarrow> seed48_state \<Rightarrow> words3 \<times> int" where
  "jrand48 s st = (case rand48_step s (snd st) of (s', r) \<Rightarrow> (s', sint (ucast (drop_bit 16 r) :: u32)))"

definition mrand48 :: "seed48_state \<Rightarrow> seed48_state \<times> int" where
  "mrand48 st = (case jrand48 (fst st) st of (s', r) \<Rightarrow> ((s', snd st), r))"

definition srand :: "u32 \<Rightarrow> u64" where
  "srand s = ucast (s - 1)"

definition rand :: "u64 \<Rightarrow> u64 \<times> u64" where
  "rand seed = (let seed = 6364136223846793005 * seed + 1 in (seed, drop_bit 33 seed))"

definition temper :: "u32 \<Rightarrow> u32" where
  "temper x = (let x = xor x (drop_bit 11 x);
     x = xor x (and (push_bit 7 x) 0x9D2C5680);
     x = xor x (and (push_bit 15 x) 0xEFC60000)
   in xor x (drop_bit 18 x))"

definition rand_r :: "u32 \<Rightarrow> u32 \<times> u32" where
  "rand_r seed = (let seed = seed * 1103515245 + 12345 in (seed, temper seed div 2))"

section \<open>The specification of random\<close>

text \<open>
  A generator is either the linear congruence on one word or a lagged Fibonacci shift register: a queue of
  the last values, of which the next one is the sum of the oldest and the one \<open>sep\<close> places before the end.
  A state is the current array and the generators of all arrays that were initialised.
\<close>

datatype gen = Lcg u32 | Fib nat "u32 list"

fun gen_next :: "gen \<Rightarrow> gen \<times> u32" where
  "gen_next (Lcg x) = (Lcg (lcg31 x), lcg31 x)"
| "gen_next (Fib sep q) = (let v = q ! 0 + q ! ((length q - sep) mod length q) in (Fib sep (tl q @ [v]), drop_bit 1 v))"

fun gen_order :: "gen \<Rightarrow> nat" where
  "gen_order (Lcg x) = 0"
| "gen_order (Fib sep q) = length q"

definition seed_words :: "u64 \<Rightarrow> nat \<Rightarrow> u32 list" where
  "seed_words sd c = map (\<lambda>k. ucast (drop_bit 32 ((lcg64 ^^ Suc k) sd))) [0..<c]"

definition seed_sep :: "nat \<Rightarrow> nat" where
  "seed_sep n = (if n = 31 \<or> n = 7 then 3 else 1)"

definition seeded :: "nat \<Rightarrow> u32 \<Rightarrow> gen" where
  "seeded n seed = (if n = 0 then Lcg seed
     else let ws = seed_words (ucast seed) n in Fib (seed_sep n) (rotate (seed_sep n) (ws[0 := or (ws ! 0) 1])))"

definition order_of_size :: "nat \<Rightarrow> nat" where
  "order_of_size sz = (if sz < 32 then 0 else if sz < 64 then 7 else if sz < 128 then 15 else if sz < 256 then 31 else 63)"

datatype rnd_cmd = Srandom u32 | Initstate u32 nat nat | Setstate nat | Random
datatype rnd_res = Done | Old "nat option" | Value u32

type_synonym gens = "nat \<times> (nat \<rightharpoonup> gen)"

fun rnd_spec :: "rnd_cmd \<Rightarrow> gens \<Rightarrow> gens \<times> rnd_res" where
  "rnd_spec (Srandom seed) (cur, g) = ((cur, g(cur \<mapsto> seeded (gen_order (the (g cur))) seed)), Done)"
| "rnd_spec (Initstate seed a sz) (cur, g) =
     (if sz < 8 then ((cur, g), Old None)
      else ((a, g(a \<mapsto> seeded (order_of_size sz) seed)), Old (Some cur)))"
| "rnd_spec (Setstate a) (cur, g) = ((a, g), Old (Some cur))"
| "rnd_spec Random (cur, g) = (case gen_next (the (g cur)) of (h, v) \<Rightarrow> ((cur, g(cur \<mapsto> h)), Value v))"

fun rnd_call :: "rnd_cmd \<Rightarrow> rnd \<Rightarrow> (rnd \<times> rnd_res) option" where
  "rnd_call (Srandom seed) s = do { s \<leftarrow> srandom seed s; Some (s, Done) }"
| "rnd_call (Initstate seed a sz) s = do { (s, old) \<leftarrow> initstate seed a sz s; Some (s, Old old) }"
| "rnd_call (Setstate a) s = do { (s, old) \<leftarrow> setstate a s; Some (s, Old (Some old)) }"
| "rnd_call Random s = do { (s, v) \<leftarrow> random s; Some (s, Value v) }"

text \<open>The indices fit the array; a saved array packs such indices in its first word.\<close>

definition indices_ok :: "nat \<Rightarrow> nat \<Rightarrow> nat \<Rightarrow> nat \<Rightarrow> bool" where
  "indices_ok n i j len \<longleftrightarrow> n \<in> {0, 7, 15, 31, 63} \<and> i < 256 \<and> j < 256 \<and> (n \<noteq> 0 \<longrightarrow> i < n \<and> j < n) \<and> max 2 (n + 1) \<le> len"

definition rnd_ok :: "rnd \<Rightarrow> bool" where
  "rnd_ok s \<longleftrightarrow> (case rnd_mem s (rnd_x s) of None \<Rightarrow> False
     | Some buf \<Rightarrow> indices_ok (rnd_n s) (rnd_i s) (rnd_j s) (length buf))"

definition gen_of :: "nat \<Rightarrow> nat \<Rightarrow> nat \<Rightarrow> u32 list \<Rightarrow> gen" where
  "gen_of n i j buf = (if n = 0 then Lcg (buf ! 1) else Fib ((i + n - j) mod n) (rotate i (take n (tl buf))))"

definition saved_gen :: "u32 list \<Rightarrow> gen option" where
  "saved_gen buf = (case buf of [] \<Rightarrow> None | w # _ \<Rightarrow>
     let n = unat (drop_bit 16 w); i = unat (and (drop_bit 8 w) 0xff); j = unat (and w 0xff)
     in if indices_ok n i j (length buf) then Some (gen_of n i j buf) else None)"

definition rnd_abs :: "rnd \<Rightarrow> gens" where
  "rnd_abs s = (rnd_x s, \<lambda>a. case rnd_mem s a of None \<Rightarrow> None
     | Some buf \<Rightarrow> if a = rnd_x s then Some (gen_of (rnd_n s) (rnd_i s) (rnd_j s) buf) else saved_gen buf)"

text \<open>What a call relies on: a buffer of the given size, or one that was the state before.\<close>

fun rnd_pre :: "rnd_cmd \<Rightarrow> rnd \<Rightarrow> bool" where
  "rnd_pre (Initstate seed a sz) s \<longleftrightarrow> sz < 8 \<or> (case rnd_mem s a of None \<Rightarrow> False | Some buf \<Rightarrow> sz \<le> 4 * length buf)"
| "rnd_pre (Setstate a) s \<longleftrightarrow> snd (rnd_abs s) a \<noteq> None"
| "rnd_pre c s \<longleftrightarrow> True"

section \<open>The packed indices\<close>

definition pack :: "nat \<Rightarrow> nat \<Rightarrow> nat \<Rightarrow> u32" where
  "pack n i j = or (or (push_bit 16 (of_nat n)) (push_bit 8 (of_nat i))) (of_nat j)"

lemma pack_value:
  assumes "n < 64" "i < 256" "j < 256"
  shows "pack n i j = of_nat (n * 65536 + i * 256 + j)"
proof -
  have "pack n i j = or (push_bit 16 (of_nat n)) (or (push_bit 8 (of_nat i)) (of_nat j))"
    by (simp add: pack_def or.assoc)
  also have "or (push_bit 8 (of_nat i)) (of_nat j) = (of_nat (i * 256 + j) :: u32)"
    using assms or_push_bit_of_nat [of j 8 "of_nat i :: u32"] by simp
  also have "or (push_bit 16 (of_nat n)) (of_nat (i * 256 + j)) = (of_nat n * 2 ^ 16 + of_nat (i * 256 + j) :: u32)"
    using assms by (intro or_push_bit_of_nat) simp
  finally show ?thesis by simp
qed

lemma unpack_pack:
  assumes "n < 64" "i < 256" "j < 256"
  shows "unat (drop_bit 16 (pack n i j)) = n" "unat (and (drop_bit 8 (pack n i j)) 0xff) = i"
    "unat (and (pack n i j) 0xff) = j"
proof -
  have v: "unat (pack n i j) = n * 65536 + i * 256 + j"
    using assms by (simp only: pack_value) (simp add: unat_of_nat take_bit_nat_eq_self_iff del: of_nat_add of_nat_mult)
  have m: "and w 0xff = take_bit 8 w" for w :: u32
    using take_bit_eq_mask [of 8 w] by (simp add: mask_eq_exp_minus_1)
  have "unat (drop_bit 16 (pack n i j)) = drop_bit 16 (n * 65536 + i * 256 + j)"
    by (simp only: unat_drop_bit_eq v)
  also have "\<dots> = n" using assms by (simp add: drop_bit_eq_div)
  finally show "unat (drop_bit 16 (pack n i j)) = n" .
  have "unat (and (drop_bit 8 (pack n i j)) 0xff) = take_bit 8 (drop_bit 8 (n * 65536 + i * 256 + j))"
    by (simp only: m unsigned_take_bit_eq unat_drop_bit_eq v)
  also have "drop_bit 8 (n * 65536 + i * 256 + j) = n * 256 + i"
    using assms by (simp add: drop_bit_eq_div div_nat_eqI)
  also have "take_bit 8 (n * 256 + i) = i" using assms by (simp add: take_bit_eq_mod)
  finally show "unat (and (drop_bit 8 (pack n i j)) 0xff) = i" .
  have "unat (and (pack n i j) 0xff) = take_bit 8 (n * 65536 + i * 256 + j)"
    by (simp only: m unsigned_take_bit_eq v)
  also have "n * 65536 + i * 256 + j = (n * 256 + i) * 256 + j" by simp
  also have "take_bit 8 ((n * 256 + i) * 256 + j) = j"
    using assms mod_mult_self3 [of "n * 256 + i" 256 j] by (simp add: take_bit_eq_mod del: mod_mult_self3)
  finally show "unat (and (pack n i j) 0xff) = j" .
qed

lemma indices_ok_bounds: "indices_ok n i j len \<Longrightarrow> n < 64 \<and> i < 256 \<and> j < 256 \<and> 2 \<le> len \<and> n < len"
  by (auto simp: indices_ok_def)

lemma saved_gen_pack:
  "indices_ok n i j (Suc (length xs)) \<Longrightarrow> saved_gen (pack n i j # xs) = Some (gen_of n i j (pack n i j # xs))"
  using indices_ok_bounds [of n i j "Suc (length xs)"] by (simp add: saved_gen_def Let_def unpack_pack)

section \<open>Words of the current array\<close>

lemma put_word_Some:
  "rnd_mem s (rnd_x s) = Some buf \<Longrightarrow> k < length buf \<Longrightarrow>
   put_word k v s = Some (s\<lparr>rnd_mem := (rnd_mem s)(rnd_x s \<mapsto> buf[k := v])\<rparr>)"
  by (simp add: put_word_def)

lemma get_word_Some:
  "rnd_mem s (rnd_x s) = Some buf \<Longrightarrow> k < length buf \<Longrightarrow> get_word k s = Some (buf ! k)"
  by (simp add: get_word_def)

lemma savestate_Some:
  "rnd_mem s (rnd_x s) = Some (w # xs) \<Longrightarrow>
   savestate s = Some (s\<lparr>rnd_mem := (rnd_mem s)(rnd_x s \<mapsto> pack (rnd_n s) (rnd_i s) (rnd_j s) # xs)\<rparr>, rnd_x s)"
  by (simp add: savestate_def put_word_def pack_def)

lemma seed_words_Suc: "seed_words sd (Suc c) = ucast (drop_bit 32 (lcg64 sd)) # seed_words (lcg64 sd) c"
  by (simp add: seed_words_def upt_conv_Cons map_Suc_upt [symmetric] funpow_swap1 comp_def del: upt_Suc)

lemma seed_loop_words:
  assumes "rnd_mem s (rnd_x s) = Some (ys @ zs @ rest)" "length ys = k + 1" "length zs = c"
  shows "seed_loop k c sd s = Some (s\<lparr>rnd_mem := (rnd_mem s)(rnd_x s \<mapsto> ys @ seed_words sd c @ rest)\<rparr>)"
  using assms
proof (induction c arbitrary: k sd s ys zs)
  case 0
  then have "(rnd_mem s)(rnd_x s \<mapsto> ys @ rest) = rnd_mem s" by (simp add: map_upd_eq_self_iff)
  then show ?case by (simp add: seed_words_def)
next
  case (Suc c)
  obtain z zs' where z: "zs = z # zs'" "length zs' = c" using Suc.prems(3) by (cases zs) auto
  let ?w = "ucast (drop_bit 32 (lcg64 sd)) :: u32"
  have p: "put_word (k + 1) ?w s = Some (s\<lparr>rnd_mem := (rnd_mem s)(rnd_x s \<mapsto> (ys @ [?w]) @ zs' @ rest)\<rparr>)"
    using Suc.prems z by (simp add: put_word_def list_update_append)
  have "seed_loop (k + 1) c (lcg64 sd) (s\<lparr>rnd_mem := (rnd_mem s)(rnd_x s \<mapsto> (ys @ [?w]) @ zs' @ rest)\<rparr>) =
    Some (s\<lparr>rnd_mem := (rnd_mem s)(rnd_x s \<mapsto> (ys @ [?w]) @ seed_words (lcg64 sd) c @ rest)\<rparr>)"
    using Suc.IH [of "s\<lparr>rnd_mem := (rnd_mem s)(rnd_x s \<mapsto> (ys @ [?w]) @ zs' @ rest)\<rparr>" "ys @ [?w]" zs' "k + 1" "lcg64 sd"] Suc.prems z
    by (simp add: fun_upd_def cong: if_cong)
  with p show ?case by (simp add: Let_def seed_words_Suc fun_upd_def cong: if_cong)
qed

lemma length_seed_words [simp]: "length (seed_words sd c) = c"
  by (simp add: seed_words_def)

section \<open>The circular buffer is a queue\<close>

lemma rotate_update:
  assumes "i < length xs"
  shows "rotate (if Suc i = length xs then 0 else Suc i) (xs[i := v]) = tl (rotate i xs) @ [v]"
proof -
  have xs: "xs = take i xs @ xs ! i # drop (Suc i) xs" using assms by (rule id_take_nth_drop)
  have "rotate i xs = drop i xs @ take i xs" using assms by (simp add: rotate_drop_take)
  also have "drop i xs = xs ! i # drop (Suc i) xs" using assms by (simp add: Cons_nth_drop_Suc)
  finally have r: "tl (rotate i xs) = drop (Suc i) xs @ take i xs" by simp
  have u: "xs[i := v] = take i xs @ v # drop (Suc i) xs" using assms by (rule upd_conv_take_nth_drop)
  show ?thesis
  proof (cases "Suc i = length xs")
    case True
    with r u show ?thesis by simp
  next
    case False
    with assms have "rotate (Suc i) (xs[i := v]) = drop (Suc i) (xs[i := v]) @ take (Suc i) (xs[i := v])"
      by (simp add: rotate_drop_take)
    with False assms r u show ?thesis by simp
  qed
qed

lemma lag_mod:
  assumes "i < n" "j < n"
  shows "(i + n - j) mod n = (if i < j then i + n - j else i - (j::nat))"
proof (cases "i < j")
  case False
  then have "i + n - j = (i - j) + n" by simp
  then have "(i + n - j) mod n = (i - j) mod n" by (simp only: mod_add_self2)
  with False assms show ?thesis by simp
qed (use assms in simp)

lemma lag_step:
  assumes "i < n" "j < n"
  shows "((if Suc i = n then 0 else Suc i) + n - (if Suc j = n then 0 else Suc j)) mod n = (i + n - j) mod (n::nat)"
proof -
  let ?i = "if Suc i = n then 0 else Suc i" and ?j = "if Suc j = n then 0 else Suc j"
  have "?i < n" "?j < n" using assms by auto
  then have "(?i + n - ?j) mod n = (if ?i < ?j then ?i + n - ?j else ?i - ?j)" by (rule lag_mod)
  also have "\<dots> = (if i < j then i + n - j else i - j)" using assms by (auto split: if_splits)
  finally show ?thesis using lag_mod [OF assms] by simp
qed

lemma lag_nth:
  assumes "i < length xs" "j < length xs"
  shows "rotate i xs ! ((length xs - (i + length xs - j) mod length xs) mod length xs) = xs ! j"
proof -
  define n where "n = length xs"
  have n: "i < n" "j < n" using assms by (simp_all add: n_def)
  define d where "d = (n - (i + n - j) mod n) mod n"
  have "d = (if i = j then 0 else if i < j then j - i else n - (i - j))"
    unfolding d_def lag_mod [OF n] using n by auto
  then have "i + d = (if i \<le> j then j else j + n)" "d < n" using n by (auto split: if_splits)
  then have "rotate i xs ! d = xs ! j" using n by (simp add: nth_rotate n_def)
  then show ?thesis by (simp only: d_def n_def)
qed

section \<open>Each call refines the specification\<close>

lemma rnd_okE:
  assumes "rnd_ok s"
  obtains w xs where "rnd_mem s (rnd_x s) = Some (w # xs)" "indices_ok (rnd_n s) (rnd_i s) (rnd_j s) (Suc (length xs))"
  using assms indices_ok_bounds unfolding rnd_ok_def
  by (auto split: option.splits) (metis length_Cons list.exhaust list.size(3) not_numeral_le_zero indices_ok_bounds)

text \<open>\<open>__srandom\<close> on an array large enough for the order.\<close>

lemma srandom0_seeds:
  assumes "rnd_mem s (rnd_x s) = Some (w # xs)" "indices_ok (rnd_n s) 0 0 (Suc (length xs))" "rnd_i s < 256" "rnd_j s < 256"
  shows "\<exists>ys i j. srandom0 seed s = Some (s\<lparr>rnd_i := i, rnd_j := j, rnd_mem := (rnd_mem s)(rnd_x s \<mapsto> w # ys)\<rparr>) \<and>
    length ys = length xs \<and> indices_ok (rnd_n s) i j (Suc (length xs)) \<and> (\<forall>v. gen_of (rnd_n s) i j (v # ys) = seeded (rnd_n s) seed)"
proof (cases "rnd_n s = 0")
  case True
  with assms have "srandom0 seed s = Some (s\<lparr>rnd_i := rnd_i s, rnd_j := rnd_j s, rnd_mem := (rnd_mem s)(rnd_x s \<mapsto> w # xs[0 := seed])\<rparr>)"
    using indices_ok_bounds [OF assms(2)] by (cases xs) (simp_all add: srandom0_def put_word_def)
  moreover have "gen_of (rnd_n s) (rnd_i s) (rnd_j s) (v # xs[0 := seed]) = seeded (rnd_n s) seed" for v
    using True indices_ok_bounds [OF assms(2)] by (cases xs) (simp_all add: gen_of_def seeded_def)
  moreover have "indices_ok (rnd_n s) (rnd_i s) (rnd_j s) (Suc (length xs))" "length (xs[0 := seed]) = length xs"
    using True assms by (auto simp: indices_ok_def)
  ultimately show ?thesis by blast
next
  case False
  let ?n = "rnd_n s" and ?i = "seed_sep (rnd_n s)" and ?ws = "seed_words (ucast seed) (rnd_n s)"
  define s1 where "s1 = s\<lparr>rnd_i := ?i, rnd_j := 0\<rparr>"
  have len: "?n \<le> length xs" using indices_ok_bounds [OF assms(2)] by simp
  have ws: "?ws = ?ws ! 0 # tl ?ws" using False by (cases ?ws) (auto dest: arg_cong [where f = length])
  have "rnd_mem s1 (rnd_x s1) = Some ([w] @ take ?n xs @ drop ?n xs)" using assms by (simp add: s1_def)
  then have "seed_loop 0 ?n (ucast seed) s1 = Some (s1\<lparr>rnd_mem := (rnd_mem s1)(rnd_x s1 \<mapsto> [w] @ ?ws @ drop ?n xs)\<rparr>)"
    using len by (intro seed_loop_words [where zs = "take ?n xs"]) auto
  then have "srandom0 seed s = Some (s1\<lparr>rnd_mem := (rnd_mem s1)(rnd_x s1 \<mapsto> w # ?ws[0 := or (?ws ! 0) 1] @ drop ?n xs)\<rparr>)"
    using False by (simp add: srandom0_def s1_def seed_sep_def Let_def get_word_def put_word_def nth_append list_update_append fun_upd_def cong: if_cong)
  moreover have "gen_of ?n ?i 0 (v # ?ws[0 := or (?ws ! 0) 1] @ drop ?n xs) = seeded ?n seed" for v
    using False assms(2) by (auto simp: gen_of_def seeded_def Let_def seed_sep_def indices_ok_def)
  moreover have "indices_ok ?n ?i 0 (Suc (length xs))"
    using False assms(2) by (auto simp: indices_ok_def seed_sep_def)
  moreover have "length (?ws[0 := or (?ws ! 0) 1] @ drop ?n xs) = length xs" using len by simp
  ultimately show ?thesis unfolding s1_def by fastforce
qed

text \<open>Writing the current array and its indices changes the current generator only.\<close>

lemma rnd_update:
  assumes "rnd_mem s (rnd_x s) = Some buf" "length buf' = length buf" "indices_ok n i j (length buf)"
    and "s' = s\<lparr>rnd_n := n, rnd_i := i, rnd_j := j, rnd_mem := (rnd_mem s)(rnd_x s \<mapsto> buf')\<rparr>"
  shows "rnd_ok s' \<and> rnd_abs s' = (rnd_x s, (snd (rnd_abs s))(rnd_x s \<mapsto> gen_of n i j buf'))"
  using assms by (auto simp: rnd_ok_def rnd_abs_def fun_eq_iff split: option.splits)

lemma rnd_abs_current:
  "rnd_mem s (rnd_x s) = Some buf \<Longrightarrow> snd (rnd_abs s) (rnd_x s) = Some (gen_of (rnd_n s) (rnd_i s) (rnd_j s) buf)"
  by (simp add: rnd_abs_def)

lemma fst_rnd_abs [simp]: "fst (rnd_abs s) = rnd_x s"
  by (simp add: rnd_abs_def)

lemma gen_order_gen_of: "n < length buf \<Longrightarrow> gen_order (gen_of n i j buf) = n"
  by (simp add: gen_of_def)

lemma srandom_step:
  assumes "rnd_ok s"
  shows "\<exists>s'. srandom seed s = Some s' \<and> rnd_ok s' \<and>
    rnd_abs s' = (rnd_x s, (snd (rnd_abs s))(rnd_x s \<mapsto> seeded (rnd_n s) seed))"
proof -
  obtain w xs where s: "rnd_mem s (rnd_x s) = Some (w # xs)" "indices_ok (rnd_n s) (rnd_i s) (rnd_j s) (Suc (length xs))"
    using assms by (rule rnd_okE)
  have "indices_ok (rnd_n s) 0 0 (Suc (length xs))" using s(2) by (auto simp: indices_ok_def)
  from srandom0_seeds [OF s(1) this] indices_ok_bounds [OF s(2)] obtain ys i j where
    ys: "srandom0 seed s = Some (s\<lparr>rnd_i := i, rnd_j := j, rnd_mem := (rnd_mem s)(rnd_x s \<mapsto> w # ys)\<rparr>)"
      "length ys = length xs" "indices_ok (rnd_n s) i j (Suc (length xs))" "gen_of (rnd_n s) i j (w # ys) = seeded (rnd_n s) seed"
    by blast
  then show ?thesis
    using rnd_update [OF s(1), of "w # ys" "rnd_n s" i j] by (simp add: srandom_def)
qed

text \<open>Saving and loading.\<close>

lemma savestate_step:
  assumes "rnd_ok s"
  obtains s' w xs where "savestate s = Some (s', rnd_x s)" "rnd_ok s'" "rnd_abs s' = rnd_abs s"
    "rnd_mem s' = (rnd_mem s)(rnd_x s \<mapsto> w # xs)" "rnd_mem s (rnd_x s) = Some (hd (the (rnd_mem s (rnd_x s))) # xs)"
    "saved_gen (w # xs) = snd (rnd_abs s) (rnd_x s)" "rnd_x s' = rnd_x s" "rnd_i s' < 256" "rnd_j s' < 256"
proof -
  obtain v xs where s: "rnd_mem s (rnd_x s) = Some (v # xs)" "indices_ok (rnd_n s) (rnd_i s) (rnd_j s) (Suc (length xs))"
    using assms by (rule rnd_okE)
  let ?w = "pack (rnd_n s) (rnd_i s) (rnd_j s)"
  define s' where "s' = s\<lparr>rnd_n := rnd_n s, rnd_i := rnd_i s, rnd_j := rnd_j s, rnd_mem := (rnd_mem s)(rnd_x s \<mapsto> ?w # xs)\<rparr>"
  have g: "gen_of (rnd_n s) (rnd_i s) (rnd_j s) (?w # xs) = gen_of (rnd_n s) (rnd_i s) (rnd_j s) (v # xs)"
    by (simp add: gen_of_def)
  from rnd_update [OF s(1) _ _ s'_def] s
  have "rnd_ok s'" "rnd_abs s' = (rnd_x s, (snd (rnd_abs s))(rnd_x s \<mapsto> gen_of (rnd_n s) (rnd_i s) (rnd_j s) (v # xs)))"
    by (simp_all add: g)
  moreover have "(snd (rnd_abs s))(rnd_x s \<mapsto> gen_of (rnd_n s) (rnd_i s) (rnd_j s) (v # xs)) = snd (rnd_abs s)"
    using rnd_abs_current [OF s(1)] by (simp add: map_upd_eq_self_iff)
  ultimately show thesis
    using that [of s' ?w xs] s indices_ok_bounds [OF s(2)] savestate_Some [OF s(1)] saved_gen_pack [OF s(2)]
    by (simp add: s'_def g rnd_abs_current prod_eq_iff)
qed

lemma setstate_step:
  assumes "rnd_ok s" "snd (rnd_abs s) a \<noteq> None"
  shows "\<exists>s'. setstate a s = Some (s', rnd_x s) \<and> rnd_ok s' \<and> rnd_abs s' = (a, snd (rnd_abs s))"
proof -
  obtain s1 w xs where s1: "savestate s = Some (s1, rnd_x s)" "rnd_ok s1" "rnd_abs s1 = rnd_abs s"
    "rnd_mem s1 = (rnd_mem s)(rnd_x s \<mapsto> w # xs)" "saved_gen (w # xs) = snd (rnd_abs s) (rnd_x s)" "rnd_x s1 = rnd_x s"
    using savestate_step [OF assms(1)] by metis
  have saved: "\<exists>buf. rnd_mem s1 b = Some buf \<and> saved_gen buf = Some g" if "snd (rnd_abs s) b = Some g" for b g
  proof (cases "b = rnd_x s")
    case True
    with that s1 show ?thesis by simp
  next
    case False
    with that s1 show ?thesis by (auto simp: rnd_abs_def split: option.splits)
  qed
  with assms obtain buf g where buf: "rnd_mem s1 a = Some buf" "saved_gen buf = Some g" "snd (rnd_abs s) a = Some g" by blast
  then obtain v ys where v: "buf = v # ys" by (cases buf) (auto simp: saved_gen_def)
  define s' where "s' = s1\<lparr>rnd_x := a, rnd_n := unat (drop_bit 16 v), rnd_i := unat (and (drop_bit 8 v) 0xff), rnd_j := unat (and v 0xff)\<rparr>"
  have l: "loadstate a s1 = Some s'"
    using buf v by (simp add: loadstate_def get_word_def s'_def)
  have ok: "indices_ok (rnd_n s') (rnd_i s') (rnd_j s') (length buf)" "gen_of (rnd_n s') (rnd_i s') (rnd_j s') buf = g"
    using buf(2) v by (auto simp: saved_gen_def Let_def s'_def split: if_splits)
  have "snd (rnd_abs s') b = snd (rnd_abs s) b" for b
  proof (cases "b = a")
    case True
    with buf ok show ?thesis by (simp add: rnd_abs_def s'_def)
  next
    case False
    then show ?thesis using s1 saved [of b] by (cases "b = rnd_x s") (auto simp: rnd_abs_def s'_def split: option.splits)
  qed
  then have "rnd_abs s' = (a, snd (rnd_abs s))" by (simp add: prod_eq_iff fun_eq_iff s'_def)
  moreover have "rnd_ok s'" using buf ok by (simp add: rnd_ok_def s'_def)
  ultimately show ?thesis using s1 l by (simp add: setstate_def)
qed

lemma order_of_size_ok:
  "8 \<le> sz \<Longrightarrow> sz \<le> 4 * len \<Longrightarrow> indices_ok (order_of_size sz) 0 0 len"
  by (auto simp: indices_ok_def order_of_size_def)

lemma initstate_step:
  assumes "rnd_ok s" "8 \<le> sz" "rnd_mem s a = Some buf" "sz \<le> 4 * length buf"
  shows "\<exists>s'. initstate seed a sz s = Some (s', Some (rnd_x s)) \<and> rnd_ok s' \<and>
    rnd_abs s' = (a, (snd (rnd_abs s))(a \<mapsto> seeded (order_of_size sz) seed))"
proof -
  let ?n = "order_of_size sz"
  obtain s1 w xs where s1: "savestate s = Some (s1, rnd_x s)" "rnd_ok s1" "rnd_abs s1 = rnd_abs s"
    "rnd_mem s1 = (rnd_mem s)(rnd_x s \<mapsto> w # xs)" "rnd_mem s (rnd_x s) = Some (hd (the (rnd_mem s (rnd_x s))) # xs)"
    "saved_gen (w # xs) = snd (rnd_abs s) (rnd_x s)" "rnd_x s1 = rnd_x s" "rnd_i s1 < 256" "rnd_j s1 < 256"
    using savestate_step [OF assms(1)] by metis
  define s2 where "s2 = s1\<lparr>rnd_n := ?n, rnd_x := a\<rparr>"
  obtain buf2 where buf2: "rnd_mem s2 a = Some buf2" "length buf2 = length buf"
    using assms(3) s1(4) arg_cong [OF s1(5), of "\<lambda>b. length (the b)"]
    by (cases "a = rnd_x s") (simp_all add: s2_def del: list.collapse)
  have io: "indices_ok ?n 0 0 (length buf)" using assms by (intro order_of_size_ok)
  then obtain v zs where v: "buf2 = v # zs" "Suc (length zs) = length buf"
    using indices_ok_bounds [OF io] buf2(2) by (cases buf2) auto
  have "rnd_mem s2 (rnd_x s2) = Some (v # zs)" "indices_ok (rnd_n s2) 0 0 (Suc (length zs))" "rnd_i s2 < 256" "rnd_j s2 < 256"
    using buf2 v io s1 by (simp_all add: s2_def)
  from srandom0_seeds [OF this, of seed] obtain ys i j where
    ys: "srandom0 seed s2 = Some (s2\<lparr>rnd_i := i, rnd_j := j, rnd_mem := (rnd_mem s2)(a \<mapsto> v # ys)\<rparr>)"
      "length ys = length zs" "indices_ok ?n i j (Suc (length zs))" "\<forall>v. gen_of ?n i j (v # ys) = seeded ?n seed"
    by (auto simp: s2_def)
  define s3 where "s3 = s2\<lparr>rnd_i := i, rnd_j := j, rnd_mem := (rnd_mem s2)(a \<mapsto> v # ys)\<rparr>"
  have ok3: "rnd_ok s3" using ys v by (simp add: rnd_ok_def s3_def s2_def)
  have abs3: "snd (rnd_abs s3) b = ((snd (rnd_abs s))(a \<mapsto> seeded ?n seed)) b" for b
    using s1(4,6) ys(4) by (cases "b = a"; cases "b = rnd_x s") (simp_all add: rnd_abs_def s3_def s2_def split: option.splits)
  obtain s4 where "savestate s3 = Some (s4, rnd_x s3)" "rnd_ok s4" "rnd_abs s4 = rnd_abs s3"
    using savestate_step [OF ok3] by metis
  moreover have "rnd_abs s3 = (a, (snd (rnd_abs s))(a \<mapsto> seeded ?n seed))"
    using abs3 by (simp add: prod_eq_iff fun_eq_iff s3_def s2_def)
  moreover have "initstate seed a sz s = do { (s, _) \<leftarrow> savestate s3; Some (s, Some (rnd_x s1)) }"
    using assms(2) s1 ys(1) by (simp add: initstate_def s3_def s2_def order_of_size_def Let_def)
  ultimately show ?thesis using s1 by auto
qed

lemma random_step:
  assumes "rnd_ok s" "gen_next (the (snd (rnd_abs s) (rnd_x s))) = (h, v)"
  shows "\<exists>s'. random s = Some (s', v) \<and> rnd_ok s' \<and> rnd_abs s' = (rnd_x s, (snd (rnd_abs s))(rnd_x s \<mapsto> h))"
proof -
  obtain w xs where s: "rnd_mem s (rnd_x s) = Some (w # xs)" "indices_ok (rnd_n s) (rnd_i s) (rnd_j s) (Suc (length xs))"
    using assms(1) by (rule rnd_okE)
  let ?n = "rnd_n s" and ?i = "rnd_i s" and ?j = "rnd_j s"
  have g: "gen_next (gen_of ?n ?i ?j (w # xs)) = (h, v)" using assms(2) rnd_abs_current [OF s(1)] by simp
  show ?thesis
  proof (cases "?n = 0")
    case True
    define x0 where "x0 = xs ! 0"
    have "xs = x0 # tl xs" using indices_ok_bounds [OF s(2)] by (cases xs) (simp_all add: x0_def)
    from True g have hv: "h = Lcg (lcg31 x0)" "v = lcg31 x0" by (auto simp: gen_of_def x0_def)
    have "random s = Some (s\<lparr>rnd_mem := (rnd_mem s)(rnd_x s \<mapsto> w # xs[0 := v])\<rparr>, v)"
      using True s(1) indices_ok_bounds [OF s(2)]
      by (cases xs) (simp_all add: random_def get_word_def put_word_def Let_def x0_def hv)
    moreover have "gen_of ?n ?i ?j (w # xs[0 := v]) = h"
      using True \<open>xs = x0 # tl xs\<close> hv by (cases xs) (simp_all add: gen_of_def)
    ultimately show ?thesis
      using rnd_update [OF s(1), of "w # xs[0 := v]" ?n ?i ?j] s(2) by simp
  next
    case False
    define X where "X = take ?n xs"
    define u where "u = xs ! ?i + xs ! ?j"
    define i' where "i' = (if Suc ?i = ?n then 0 else Suc ?i)"
    define j' where "j' = (if Suc ?j = ?n then 0 else Suc ?j)"
    have ij: "?i < ?n" "?j < ?n" "?n \<le> length xs" using s(2) False by (auto simp: indices_ok_def)
    then have X: "length X = ?n" "X ! ?i = xs ! ?i" "X ! ?j = xs ! ?j" by (simp_all add: X_def)
    have q: "rotate ?i X ! 0 = X ! ?i" using X ij by (simp add: nth_rotate)
    have q': "rotate ?i X ! ((?n - (?i + ?n - ?j) mod ?n) mod ?n) = X ! ?j" using lag_nth [of ?i X ?j] X ij by simp
    from g False have hv: "h = Fib ((?i + ?n - ?j) mod ?n) (tl (rotate ?i X) @ [u])" "v = drop_bit 1 u"
      using q q' X by (auto simp: gen_of_def Let_def u_def X_def [symmetric])
    have "random s = Some (s\<lparr>rnd_i := i', rnd_j := j', rnd_mem := (rnd_mem s)(rnd_x s \<mapsto> w # xs[?i := u])\<rparr>, v)"
      using False ij s by (simp add: random_def get_word_def put_word_def Let_def u_def hv i'_def j'_def)
    moreover have "gen_of ?n i' j' (w # xs[?i := u]) = h"
      using False ij rotate_update [of ?i X u] lag_step [of ?i ?n ?j] X
      by (simp add: gen_of_def hv take_update_swap X_def i'_def j'_def)
    moreover have "indices_ok ?n i' j' (Suc (length xs))" using s(2) ij False by (auto simp: indices_ok_def i'_def j'_def)
    ultimately show ?thesis
      using rnd_update [OF s(1), of "w # xs[?i := u]" ?n i' j'] by simp
  qed
qed

lemma rnd_step:
  assumes "rnd_ok s" "rnd_pre c s"
  shows "\<exists>s'. rnd_call c s = Some (s', snd (rnd_spec c (rnd_abs s))) \<and> rnd_ok s' \<and> rnd_abs s' = fst (rnd_spec c (rnd_abs s))"
proof -
  obtain g where g: "rnd_abs s = (rnd_x s, g)" "snd (rnd_abs s) = g" by (cases "rnd_abs s") (auto dest: arg_cong [where f = fst])
  show ?thesis
  proof (cases c)
    case (Srandom seed)
    obtain w xs where s: "rnd_mem s (rnd_x s) = Some (w # xs)" "indices_ok (rnd_n s) (rnd_i s) (rnd_j s) (Suc (length xs))"
      using assms(1) by (rule rnd_okE)
    have "gen_order (the (g (rnd_x s))) = rnd_n s"
      using rnd_abs_current [OF s(1)] g indices_ok_bounds [OF s(2)] by (simp add: gen_order_gen_of)
    with Srandom srandom_step [OF assms(1), of seed] g show ?thesis by auto
  next
    case (Initstate seed a sz)
    show ?thesis
    proof (cases "sz < 8")
      case True
      with Initstate assms g show ?thesis by (simp add: initstate_def)
    next
      case False
      with Initstate assms(2) obtain buf where "rnd_mem s a = Some buf" "sz \<le> 4 * length buf" by (auto split: option.splits)
      with initstate_step [OF assms(1), of sz a buf seed] False Initstate g show ?thesis by auto
    qed
  next
    case (Setstate a)
    with assms setstate_step [OF assms(1), of a] g show ?thesis by auto
  next
    case Random
    obtain h v where hv: "gen_next (the (g (rnd_x s))) = (h, v)" by fastforce
    with random_step [OF assms(1), of h v] Random g show ?thesis by auto
  qed
qed

interpretation rnd: simulation rnd_ok rnd_pre rnd_abs rnd_call rnd_spec
  by unfold_locales (rule rnd_step)

lemma rnd_start_ok: "rnd_ok (rnd_start m)"
  by (simp add: rnd_ok_def rnd_start_def init_def indices_ok_def)

section \<open>The linear congruences\<close>

lemma drop_bit_less:
  fixes w :: "'w::len word"
  assumes "LENGTH('w) = k + l"
  shows "unat (drop_bit k w) < 2 ^ l"
proof -
  have "unat w < 2 ^ k * 2 ^ l" using unsigned_less [of w, where ?'a = nat] by (simp add: assms power_add)
  then have "drop_bit k (unat w) < 2 ^ l" by (simp add: drop_bit_eq_div less_mult_imp_div_less mult.commute)
  then show ?thesis by (simp only: unat_drop_bit_eq)
qed

definition val48 :: "words3 \<Rightarrow> nat" where
  "val48 = (\<lambda>(x0, x1, x2). unat x0 + 2 ^ 16 * unat x1 + 2 ^ 32 * unat x2)"

lemma unat_u16_less: "unat (x :: u16) < 65536"
  using unsigned_less [of x, where ?'a = nat] by simp

lemma val48_less: "val48 x < 2 ^ 48"
proof -
  obtain a b c where x: "x = (a, b, c)" by (cases x)
  show ?thesis using unat_u16_less [of a] unat_u16_less [of b] unat_u16_less [of c] by (simp add: x val48_def)
qed

lemma word48: "or (or (ucast x0) (push_bit 16 (ucast x1))) (push_bit 32 (ucast x2)) = (of_nat (val48 (x0, x1, x2)) :: u64)"
proof -
  have c: "ucast x = (of_nat (unat x) :: u64)" for x :: u16 by simp
  have "or (or (ucast x0) (push_bit 16 (ucast x1))) (push_bit 32 (ucast x2)) =
    (or (push_bit 32 (ucast x2)) (or (push_bit 16 (ucast x1)) (of_nat (unat x0))) :: u64)"
    by (simp only: or.commute or.left_commute or.assoc c)
  also have "or (push_bit 16 (ucast x1)) (of_nat (unat x0)) = (of_nat (unat x1 * 65536 + unat x0) :: u64)"
    using or_push_bit_of_nat [of "unat x0" 16 "ucast x1 :: u64"] unat_u16_less [of x0] by simp
  also have "or (push_bit 32 (ucast x2)) (of_nat (unat x1 * 65536 + unat x0)) = (ucast x2 * 2 ^ 32 + of_nat (unat x1 * 65536 + unat x0) :: u64)"
    using unat_u16_less [of x0] unat_u16_less [of x1] by (intro or_push_bit_of_nat) simp
  finally show ?thesis by (simp add: val48_def)
qed

lemma val48_of_word: "val48 (ucast (x :: u64), ucast (drop_bit 16 x), ucast (drop_bit 32 x)) = unat x mod 2 ^ 48"
proof -
  define n where "n = unat x"
  have "n mod 2 ^ 48 = n mod (2 ^ 16 * 2 ^ 32)" by simp
  also have "\<dots> = 2 ^ 16 * (n div 2 ^ 16 mod 2 ^ 32) + n mod 2 ^ 16" by (rule mod_mult2_eq)
  also have "n div 2 ^ 16 mod 2 ^ 32 = n div 2 ^ 16 mod (2 ^ 16 * 2 ^ 16)" by simp
  also have "\<dots> = 2 ^ 16 * (n div 2 ^ 16 div 2 ^ 16 mod 2 ^ 16) + n div 2 ^ 16 mod 2 ^ 16" by (rule mod_mult2_eq)
  also have "n div 2 ^ 16 div 2 ^ 16 = n div 2 ^ 32" by (simp add: div_mult2_eq [symmetric])
  finally have e: "n mod 2 ^ 48 = n mod 2 ^ 16 + 2 ^ 16 * (n div 2 ^ 16 mod 2 ^ 16) + 2 ^ 32 * (n div 2 ^ 32 mod 2 ^ 16)"
    by (simp add: distrib_left)
  have "unat (ucast (drop_bit k x) :: u16) = take_bit 16 (drop_bit k n)" for k
    by (simp only: unsigned_ucast_eq unat_drop_bit_eq n_def) simp
  then have "unat (ucast (drop_bit k x) :: u16) = n div 2 ^ k mod 2 ^ 16" for k
    by (simp only: take_bit_eq_mod drop_bit_eq_div)
  from this [of 0] this [of 16] this [of 32] show ?thesis
    unfolding n_def [symmetric] e by (simp add: val48_def)
qed

lemma rand48_step_lcg:
  assumes "rand48_step x (l0, l1, l2, l3) = (x', r)"
  shows "val48 x' = (val48 (l0, l1, l2) * val48 x + unat l3) mod 2 ^ 48 \<and> unat r = val48 x'"
proof -
  obtain x0 x1 x2 where x: "x = (x0, x1, x2)" by (cases x)
  define v where "v = of_nat (val48 (l0, l1, l2)) * of_nat (val48 x) + (ucast l3 :: u64)"
  have x': "x' = (ucast v, ucast (drop_bit 16 v), ucast (drop_bit 32 v))" and r: "r = and v 0xffffffffffff"
    using assms by (auto simp: rand48_step_def word48 Let_def v_def x)
  have "v = of_nat (val48 (l0, l1, l2) * val48 x + unat l3)" by (simp add: v_def)
  then have "unat v = (val48 (l0, l1, l2) * val48 x + unat l3) mod 2 ^ 64"
    by (simp only: unat_of_nat take_bit_eq_mod) simp
  then have m: "unat v mod 2 ^ 48 = (val48 (l0, l1, l2) * val48 x + unat l3) mod 2 ^ 48"
    by (simp add: mod_mod_cancel)
  have "r = take_bit 48 v" using take_bit_eq_mask [of 48 v] by (simp add: r mask_eq_exp_minus_1)
  then have "unat r = take_bit 48 (unat v)" by (simp only: unsigned_take_bit_eq)
  then have "unat r = unat v mod 2 ^ 48" by (simp only: take_bit_eq_mod)
  with m show ?thesis by (simp only: x' val48_of_word)
qed

lemma lrand48_less: "unat (snd (lrand48 st)) < 2 ^ 31"
proof -
  obtain x l0 l1 l2 l3 where st: "st = (x, l0, l1, l2, l3)" by (metis surj_pair)
  obtain x' r where r: "rand48_step x (l0, l1, l2, l3) = (x', r)" by fastforce
  have "unat r < 2 ^ 17 * 2 ^ 31" using rand48_step_lcg [OF r] val48_less [of x'] by simp
  then have "drop_bit 17 (unat r) < 2 ^ 31" by (simp add: drop_bit_eq_div less_mult_imp_div_less)
  then show ?thesis by (simp only: st lrand48_def nrand48_def fst_conv snd_conv r prod.case unat_drop_bit_eq)
qed

lemma lrand48_lcg:
  "val48 (fst (fst (lrand48 (x, (l0, l1, l2, l3))))) = (val48 (l0, l1, l2) * val48 x + unat l3) mod 2 ^ 48"
proof -
  obtain x' r where r: "rand48_step x (l0, l1, l2, l3) = (x', r)" by fastforce
  then show ?thesis using rand48_step_lcg [OF r] by (simp add: lrand48_def nrand48_def)
qed

lemma mrand48_range: "snd (mrand48 st) \<in> {- (2 ^ 31)..<2 ^ 31}"
proof -
  have "sint w \<in> {- (2 ^ 31)..<2 ^ 31}" for w :: u32
    using sint_ge [of w] sint_lt [of w] by simp
  then show ?thesis by (simp add: mrand48_def jrand48_def split: prod.splits)
qed

lemma random_returns:
  assumes "rnd_ok s"
  shows "\<exists>s' v. random s = Some (s', v) \<and> rnd_ok s' \<and> unat v < 2 ^ 31"
proof -
  obtain h v where hv: "gen_next (the (snd (rnd_abs s) (rnd_x s))) = (h, v)" by fastforce
  have "unat v < 2 ^ 31"
  proof (cases "the (snd (rnd_abs s) (rnd_x s))")
    case (Lcg x)
    have "lcg31 x = take_bit 31 (1103515245 * x + 12345)"
      using take_bit_eq_mask [of 31 "1103515245 * x + 12345"] by (simp add: lcg31_def mask_eq_exp_minus_1)
    then have "unat (lcg31 x) = take_bit 31 (unat (1103515245 * x + 12345))" by (simp only: unsigned_take_bit_eq)
    with hv Lcg show ?thesis using take_bit_nat_less_exp [of 31 "unat (1103515245 * x + 12345)"] by simp
  next
    case (Fib sep q)
    with hv show ?thesis using drop_bit_less [of 1 31, where ?'w = 32] by (auto simp: Let_def)
  qed
  with random_step [OF assms hv] show ?thesis by auto
qed

section \<open>Properties\<close>

text \<open>
  C32. \<open>srandom\<close>, \<open>initstate\<close>, \<open>setstate\<close> and \<open>random\<close> behave, in any sequence from program start, as a set
  of independent generators, one per state array: a lagged Fibonacci shift register of 7, 15, 31 or 63 words, or
  the linear congruence for an array of less than 32 bytes. Every call stays inside its arrays; switching to
  another array and back resumes the sequence where it was. A caller owes \<open>initstate\<close> an array of the given
  size and \<open>setstate\<close> one that was a state before.
\<close>

theorem random_refines_generators:
  assumes "run_pre rnd_pre rnd_call cs (rnd_start m)"
  shows "\<exists>s'. run_impl rnd_call cs (rnd_start m) = Some (s', snd (run_spec rnd_spec cs (rnd_abs (rnd_start m)))) \<and>
    rnd_ok s' \<and> rnd_abs s' = fst (run_spec rnd_spec cs (rnd_abs (rnd_start m)))"
  using rnd.run_refines [OF rnd_start_ok assms] .

lemma run_pre_example: "run_pre rnd_pre rnd_call [Initstate 1 8 32, Random, Setstate 0, Random, Setstate 8, Random] (rnd_start [8 \<mapsto> replicate 8 0])"
  by code_simp

theorem random_refines_generators_witness:
  "\<exists>s'. run_impl rnd_call [Initstate 1 8 32, Random, Setstate 0, Random, Setstate 8, Random] (rnd_start [8 \<mapsto> replicate 8 0]) =
     Some (s', snd (run_spec rnd_spec [Initstate 1 8 32, Random, Setstate 0, Random, Setstate 8, Random] (rnd_abs (rnd_start [8 \<mapsto> replicate 8 0])))) \<and>
    rnd_ok s' \<and> rnd_abs s' = fst (run_spec rnd_spec [Initstate 1 8 32, Random, Setstate 0, Random, Setstate 8, Random] (rnd_abs (rnd_start [8 \<mapsto> replicate 8 0])))"
  using random_refines_generators [OF run_pre_example] .

text \<open>
  C33. The results are in the ranges of their types: \<open>random\<close> (which returns in every well-formed state and keeps
  it well-formed), \<open>lrand48\<close>, \<open>rand\<close> and \<open>rand_r\<close> return values in [0, 2^31), so that the conversions to \<open>int\<close>
  and \<open>long\<close> keep them, and \<open>mrand48\<close> values in [-2^31, 2^31); a step of the 48-bit generators is the linear
  congruence modulo 2^48 with the current parameters.
\<close>

theorem random_types:
  "(rnd_ok s \<longrightarrow> (\<exists>s' v. random s = Some (s', v) \<and> rnd_ok s' \<and> unat v < 2 ^ 31)) \<and>
   unat (snd (lrand48 st)) < 2 ^ 31 \<and> snd (mrand48 st) \<in> {- (2 ^ 31)..<2 ^ 31} \<and>
   unat (snd (rand seed)) < 2 ^ 31 \<and> unat (snd (rand_r sd)) < 2 ^ 31 \<and>
   val48 (fst (fst (lrand48 (x, (l0, l1, l2, l3))))) = (val48 (l0, l1, l2) * val48 x + unat l3) mod 2 ^ 48"
  using random_returns [of s] lrand48_less [of st] mrand48_range [of st] lrand48_lcg [of x l0 l1 l2 l3]
    drop_bit_less [of 33 31 "6364136223846793005 * seed + 1 :: u64"]
    drop_bit_less [of 1 31 "temper (sd * 1103515245 + 12345)"]
  by (simp add: rand_def rand_r_def Let_def drop_bit_eq_div)

theorem random_types_witness:
  "\<exists>s' v. random (rnd_start Map.empty) = Some (s', v) \<and> rnd_ok s' \<and> unat v < 2 ^ 31"
proof -
  have "rnd_ok (rnd_start Map.empty)" by (rule rnd_start_ok)
  with random_types [of "rnd_start Map.empty"] show ?thesis by blast
qed

end
