(* ===== verification/Env.thy ===== *)
theory Env
  imports Prelude
begin

text \<open>
  The environment of a process, \<open>src/musl-1.2.5/src/env\<close>: \<open>getenv\<close>, \<open>secure_getenv\<close>, \<open>setenv\<close>, \<open>putenv\<close>,
  \<open>unsetenv\<close> and \<open>clearenv\<close>, with \<open>__putenv\<close> and the list of strings the library itself allocated
  (\<open>__env_rm_add\<close>). Pointers are numbers, 0 is the null pointer; arrays of pointers and strings live in
  two memories. A read or a write outside an array, a missing terminator, a use of a freed string
  and a free of something that is not allocated are \<open>None\<close>. The results of \<open>malloc\<close> and \<open>realloc\<close> and the
  contents of fresh memory are arguments. \<open>__strchrnul\<close>, \<open>strncmp\<close>, \<open>memcpy\<close> and \<open>strlen\<close> are their meaning on
  strings.

  Shown here: in any sequence of calls, with any outcomes of the allocations, the environment behaves as
  a map from names to values, no string is used after it was freed or freed twice, and no string
  the library allocated is lost (the list of them may not grow when memory is short: then it is leaked).
\<close>

section \<open>State and operations\<close>

record env =
  environ :: nat
  oldenv :: nat
  env_alloced :: "nat list"
  arrs :: "nat \<rightharpoonup> nat list"
  strs :: "nat \<rightharpoonup> string"
  env_errno :: int

definition free_str :: "nat \<Rightarrow> env \<Rightarrow> env option" where
  "free_str p s = (if p = 0 then Some s else if strs s p = None then None else Some (s\<lparr>strs := (strs s)(p := None)\<rparr>))"

definition free_arr :: "nat \<Rightarrow> env \<Rightarrow> env option" where
  "free_arr p s = (if p = 0 then Some s else if arrs s p = None then None else Some (s\<lparr>arrs := (arrs s)(p := None)\<rparr>))"

text \<open>The loop of \<open>__env_rm_add\<close>: the list, what is left of \<open>new\<close>, and whether \<open>old\<close> was found.\<close>

fun rm_add_loop :: "nat \<Rightarrow> nat \<Rightarrow> nat list \<Rightarrow> nat list \<times> nat \<times> bool" where
  "rm_add_loop old new [] = ([], new, False)"
| "rm_add_loop old new (p # ps) =
     (if p = old then (new # ps, new, True)
      else if p = 0 \<and> new \<noteq> 0 then (case rm_add_loop old 0 ps of (ps', n, f) \<Rightarrow> (new # ps', n, f))
      else (case rm_add_loop old new ps of (ps', n, f) \<Rightarrow> (p # ps', n, f)))"

definition env_rm_add :: "nat \<Rightarrow> nat \<Rightarrow> bool \<Rightarrow> env \<Rightarrow> env option" where
  "env_rm_add old new t s = (case rm_add_loop old new (env_alloced s) of (ps, n, found) \<Rightarrow>
     if found then free_str old (s\<lparr>env_alloced := ps\<rparr>)
     else if n = 0 then Some (s\<lparr>env_alloced := ps\<rparr>)
     else if \<not> t then Some (s\<lparr>env_alloced := ps\<rparr>)
     else Some (s\<lparr>env_alloced := ps @ [n]\<rparr>))"

text \<open>\<open>__strchrnul(name, '=') - name\<close>, and \<open>!strncmp(name, e, l) && e[l] == '='\<close>.\<close>

definition eq_pos :: "string \<Rightarrow> nat" where
  "eq_pos name = length (takeWhile (\<lambda>c. c \<noteq> CHR ''='') name)"

definition env_match :: "string \<Rightarrow> nat \<Rightarrow> string \<Rightarrow> bool option" where
  "env_match name l e =
     (if take l name = take l e
      then if l < length e then Some (e ! l = CHR ''='') else if l = length e then Some False else None
      else Some False)"

fun get_loop :: "string \<Rightarrow> nat \<Rightarrow> nat list \<Rightarrow> env \<Rightarrow> (nat \<times> nat) option option" where
  "get_loop name l [] s = None"
| "get_loop name l (e # es) s =
     (if e = 0 then Some None
      else do {
        x \<leftarrow> strs s e;
        m \<leftarrow> env_match name l x;
        if m then Some (Some (e, l + 1)) else get_loop name l es s })"

text \<open>\<open>getenv\<close> gives a string and an offset into it, or the null pointer.\<close>

definition getenv :: "string \<Rightarrow> env \<Rightarrow> (nat \<times> nat) option option" where
  "getenv name s = (let l = eq_pos name in
     if l \<noteq> 0 \<and> l = length name \<and> environ s \<noteq> 0 then do {
       a \<leftarrow> arrs s (environ s);
       get_loop name l a s }
     else Some None)"

definition secure_getenv :: "bool \<Rightarrow> string \<Rightarrow> env \<Rightarrow> (nat \<times> nat) option option" where
  "secure_getenv secure name s = (if secure then Some None else getenv name s)"

text \<open>The search of \<open>__putenv\<close>: the position, and whether the entry has the name.\<close>

fun put_loop :: "string \<Rightarrow> nat \<Rightarrow> nat \<Rightarrow> nat list \<Rightarrow> env \<Rightarrow> (nat \<times> bool) option" where
  "put_loop x l i [] s = None"
| "put_loop x l i (e # es) s =
     (if e = 0 then Some (i, False)
      else do {
        y \<leftarrow> strs s e;
        if take (l + 1) x = take (l + 1) y then Some (i, True) else put_loop x l (i + 1) es s })"

text \<open>A fresh array of \<open>n\<close> cells that starts with \<open>xs\<close>; \<open>g\<close> is what the memory contained.\<close>

definition fresh_arr :: "nat \<Rightarrow> nat list \<Rightarrow> (nat \<Rightarrow> nat) \<Rightarrow> nat list" where
  "fresh_arr n xs g = take n xs @ map g [length xs..<n]"

text \<open>
  \<open>realloc\<close> of \<open>oldenv\<close> and \<open>malloc\<close> with the copy of the first \<open>i\<close> entries; \<open>q\<close> is the result of the allocator.
\<close>

definition realloc_env :: "nat \<Rightarrow> nat \<Rightarrow> (nat \<Rightarrow> nat) \<Rightarrow> env \<Rightarrow> env option" where
  "realloc_env i q g s = do {
     a \<leftarrow> if oldenv s = 0 then Some [] else arrs s (oldenv s);
     Some (s\<lparr>arrs := (arrs s)(oldenv s := None, q \<mapsto> fresh_arr (i + 2) a g)\<rparr>) }"

definition copy_env :: "nat \<Rightarrow> nat \<Rightarrow> (nat \<Rightarrow> nat) \<Rightarrow> env \<Rightarrow> env option" where
  "copy_env i q g s = do {
     a \<leftarrow> if i = 0 then Some [] else arrs s (environ s);
     if i \<le> length a then free_arr (oldenv s) (s\<lparr>arrs := (arrs s)(q \<mapsto> fresh_arr (i + 2) (take i a) g)\<rparr>) else None }"

definition put_find :: "string \<Rightarrow> nat \<Rightarrow> env \<Rightarrow> (nat \<times> bool) option" where
  "put_find x l s = (if environ s \<noteq> 0 then do { a \<leftarrow> arrs s (environ s); put_loop x l 0 a s } else Some (0, False))"

definition putenv0 :: "nat \<Rightarrow> nat \<Rightarrow> nat \<Rightarrow> nat \<Rightarrow> (nat \<Rightarrow> nat) \<Rightarrow> bool \<Rightarrow> env \<Rightarrow> (env \<times> int) option" where
  "putenv0 p l r q g t s = do {
     x \<leftarrow> strs s p;
     (i, found) \<leftarrow> put_find x l s;
     if found then do {
       a \<leftarrow> arrs s (environ s);
       let tmp = a ! i;
       s \<leftarrow> env_rm_add tmp r t (s\<lparr>arrs := (arrs s)(environ s \<mapsto> a[i := p])\<rparr>);
       Some (s, 0) }
     else if q = 0 then do { s \<leftarrow> free_str r s; Some (s, -1) }
     else do {
       s \<leftarrow> if environ s = oldenv s then realloc_env i q g s else copy_env i q g s;
       newenv \<leftarrow> arrs s q;
       let s = s\<lparr>arrs := (arrs s)(q \<mapsto> newenv[i := p, i + 1 := 0]), environ := q, oldenv := q\<rparr>;
       s \<leftarrow> if r \<noteq> 0 then env_rm_add 0 r t s else Some s;
       Some (s, 0) } }"

text \<open>The loop of \<open>unsetenv\<close> on the array \<open>a\<close>, which it compacts in place.\<close>

function unset_loop :: "string \<Rightarrow> nat \<Rightarrow> nat \<Rightarrow> nat \<Rightarrow> nat list \<Rightarrow> env \<Rightarrow> (nat list \<times> env) option" where
  "unset_loop name l e eo a s =
     (if length a \<le> e then None
      else if a ! e = 0 then Some (if eo \<noteq> e then a[eo := 0] else a, s)
      else do {
        x \<leftarrow> strs s (a ! e);
        m \<leftarrow> env_match name l x;
        if m then do { s \<leftarrow> env_rm_add (a ! e) 0 True s; unset_loop name l (e + 1) eo a s }
        else unset_loop name l (e + 1) (eo + 1) (if eo \<noteq> e then a[eo := a ! e] else a) s })"
  by pat_completeness auto
termination
  by (relation "measure (\<lambda>(name, l, e, eo, a, s). length a - e)") auto

definition unsetenv :: "string \<Rightarrow> env \<Rightarrow> (env \<times> int) option" where
  "unsetenv name s = (let l = eq_pos name in
     if l = 0 \<or> l < length name then Some (s\<lparr>env_errno := EINVAL\<rparr>, -1)
     else if environ s \<noteq> 0 then do {
       a \<leftarrow> arrs s (environ s);
       (a, s) \<leftarrow> unset_loop name l 0 0 a s;
       Some (s\<lparr>arrs := (arrs s)(environ s \<mapsto> a)\<rparr>, 0) }
     else Some (s, 0))"

definition putenv :: "nat \<Rightarrow> nat \<Rightarrow> (nat \<Rightarrow> nat) \<Rightarrow> bool \<Rightarrow> env \<Rightarrow> (env \<times> int) option" where
  "putenv p q g t s = do {
     x \<leftarrow> strs s p;
     let l = eq_pos x;
     if l = 0 \<or> l = length x then unsetenv x s else putenv0 p l 0 q g t s }"

text \<open>\<open>setenv\<close>; \<open>m\<close> is the result of its \<open>malloc\<close>.\<close>

definition setenv :: "string option \<Rightarrow> string \<Rightarrow> bool \<Rightarrow> nat \<Rightarrow> nat \<Rightarrow> (nat \<Rightarrow> nat) \<Rightarrow> bool \<Rightarrow> env \<Rightarrow> (env \<times> int) option" where
  "setenv var val overwrite m q g t s =
     (case var of None \<Rightarrow> Some (s\<lparr>env_errno := EINVAL\<rparr>, -1)
      | Some name \<Rightarrow> let l1 = eq_pos name in
          if l1 = 0 \<or> l1 < length name then Some (s\<lparr>env_errno := EINVAL\<rparr>, -1)
          else do {
            old \<leftarrow> if overwrite then Some None else getenv name s;
            if old \<noteq> None then Some (s, 0)
            else if m = 0 then Some (s, -1)
            else putenv0 m l1 m q g t (s\<lparr>strs := (strs s)(m \<mapsto> name @ ''='' @ val)\<rparr>) })"

fun clear_loop :: "nat list \<Rightarrow> env \<Rightarrow> env option" where
  "clear_loop [] s = None"
| "clear_loop (e # es) s = (if e = 0 then Some s else do { s \<leftarrow> env_rm_add e 0 True s; clear_loop es s })"

definition clearenv :: "env \<Rightarrow> (env \<times> int) option" where
  "clearenv s = (let e = environ s; s = s\<lparr>environ := 0\<rparr> in
     if e \<noteq> 0 then do { a \<leftarrow> arrs s e; s \<leftarrow> clear_loop a s; Some (s, 0) } else Some (s, 0))"

section \<open>The specification\<close>

definition valid_name :: "string \<Rightarrow> bool" where
  "valid_name name \<longleftrightarrow> name \<noteq> [] \<and> CHR ''='' \<notin> set name"

type_synonym env_map = "string \<rightharpoonup> string"

text \<open>The commands carry the outcomes of the allocations; \<open>Putenv\<close> also the contents of the string.\<close>

datatype env_cmd = Getenv bool string
  | Setenv "string option" string bool nat nat "nat \<Rightarrow> nat" bool
  | Putenv nat string nat "nat \<Rightarrow> nat" bool
  | Unsetenv string | Clearenv

datatype env_res = Code int | Val "string option"

text \<open>Setting a name needs a new slot exactly when the name is not there.\<close>

definition env_put :: "string \<Rightarrow> string \<Rightarrow> bool \<Rightarrow> env_map \<Rightarrow> env_map \<times> env_res" where
  "env_put name val room m = (if m name = None \<and> \<not> room then (m, Code (-1)) else (m(name \<mapsto> val), Code 0))"

definition env_unset :: "string \<Rightarrow> env_map \<Rightarrow> env_map \<times> env_res" where
  "env_unset name m = (if valid_name name then (m(name := None), Code 0) else (m, Code (-1)))"

fun env_spec :: "env_cmd \<Rightarrow> env_map \<Rightarrow> env_map \<times> env_res" where
  "env_spec (Getenv secure name) m = (m, Val (if secure then None else m name))"
| "env_spec (Setenv var val ow p q g t) m =
     (case var of None \<Rightarrow> (m, Code (-1)) | Some name \<Rightarrow>
        if \<not> valid_name name then (m, Code (-1))
        else if \<not> ow \<and> m name \<noteq> None then (m, Code 0)
        else if p = 0 then (m, Code (-1))
        else env_put name val (q \<noteq> 0) m)"
| "env_spec (Putenv p x q g t) m =
     (let name = takeWhile (\<lambda>c. c \<noteq> CHR ''='') x in
      if name = [] \<or> name = x then env_unset x m else env_put name (drop (length name + 1) x) (q \<noteq> 0) m)"
| "env_spec (Unsetenv name) m = env_unset name m"
| "env_spec Clearenv m = (Map.empty, Code 0)"

text \<open>The calls; the string that \<open>getenv\<close> points to is read at once.\<close>

fun env_call :: "env_cmd \<Rightarrow> env \<Rightarrow> (env \<times> env_res) option" where
  "env_call (Getenv secure name) s = do {
     r \<leftarrow> secure_getenv secure name s;
     case r of None \<Rightarrow> Some (s, Val None) | Some (p, k) \<Rightarrow> do { x \<leftarrow> strs s p; Some (s, Val (Some (drop k x))) } }"
| "env_call (Setenv var val ow p q g t) s = do { (s, r) \<leftarrow> setenv var val ow p q g t s; Some (s, Code r) }"
| "env_call (Putenv p x q g t) s = do { (s, r) \<leftarrow> putenv p q g t s; Some (s, Code r) }"
| "env_call (Unsetenv name) s = do { (s, r) \<leftarrow> unsetenv name s; Some (s, Code r) }"
| "env_call Clearenv s = do { (s, r) \<leftarrow> clearenv s; Some (s, Code r) }"

section \<open>The invariant and the abstraction\<close>

definition entries :: "nat list \<Rightarrow> nat list" where
  "entries a = takeWhile (\<lambda>e. e \<noteq> 0) a"

definition env_ents :: "env \<Rightarrow> nat list" where
  "env_ents s = (if environ s = 0 then [] else entries (the (arrs s (environ s))))"

definition owned :: "nat list \<Rightarrow> nat list" where
  "owned al = filter (\<lambda>p. p \<noteq> 0) al"

text \<open>The entries are live strings, and each string the library owns is exactly one of them.\<close>

definition ents_ok :: "nat list \<Rightarrow> nat list \<Rightarrow> (nat \<rightharpoonup> string) \<Rightarrow> bool" where
  "ents_ok es al st \<longleftrightarrow> distinct (owned al) \<and> (\<forall>e \<in> set es. e \<noteq> 0 \<and> st e \<noteq> None) \<and> (\<forall>p \<in> set (owned al). count_list es p = 1)"

definition env_ok :: "env \<Rightarrow> bool" where
  "env_ok s \<longleftrightarrow> strs s 0 = None \<and> arrs s 0 = None \<and>
     (environ s \<noteq> 0 \<longrightarrow> (case arrs s (environ s) of None \<Rightarrow> False | Some a \<Rightarrow> 0 \<in> set a)) \<and>
     (oldenv s \<noteq> 0 \<longrightarrow> arrs s (oldenv s) \<noteq> None) \<and>
     ents_ok (env_ents s) (env_alloced s) (strs s)"

definition has_name :: "string \<Rightarrow> string \<Rightarrow> bool" where
  "has_name name x \<longleftrightarrow> take (length name + 1) x = name @ ''=''"

definition env_lookup :: "string list \<Rightarrow> env_map" where
  "env_lookup xs name =
     (if valid_name name then map_option (drop (length name + 1)) (List.find (has_name name) xs) else None)"

definition env_abs :: "env \<Rightarrow> env_map" where
  "env_abs s = env_lookup (map (\<lambda>e. the (strs s e)) (env_ents s))"

text \<open>
  What a call relies on: allocators give fresh addresses (\<open>realloc\<close> may keep the old one), and the string
  given to \<open>putenv\<close> is the caller's.
\<close>

definition fresh_env :: "nat \<Rightarrow> env \<Rightarrow> bool" where
  "fresh_env q s \<longleftrightarrow> q = 0 \<or> arrs s q = None \<or> q = oldenv s \<and> environ s = oldenv s"

fun env_pre :: "env_cmd \<Rightarrow> env \<Rightarrow> bool" where
  "env_pre (Setenv var val ow p q g t) s \<longleftrightarrow> strs s p = None \<and> fresh_env q s"
| "env_pre (Putenv p x q g t) s \<longleftrightarrow> strs s p = Some x \<and> p \<notin> set (env_alloced s) \<and> fresh_env q s"
| "env_pre c s \<longleftrightarrow> True"

section \<open>Names\<close>

lemma length_takeWhile_eq: "length (takeWhile P xs) = length xs \<longleftrightarrow> (\<forall>x \<in> set xs. P x)"
  by (induction xs) auto

lemma eq_pos_valid: "eq_pos name \<noteq> 0 \<and> eq_pos name = length name \<longleftrightarrow> valid_name name"
  unfolding eq_pos_def valid_name_def using length_takeWhile_eq [of "\<lambda>c. c \<noteq> CHR ''=''" name]
  by (cases name) auto

lemma eq_pos_le: "eq_pos name \<le> length name"
  by (simp add: eq_pos_def length_takeWhile_le)

lemma eq_pos_invalid: "eq_pos name = 0 \<or> eq_pos name < length name \<longleftrightarrow> \<not> valid_name name"
  using eq_pos_valid [of name] eq_pos_le [of name] by linarith

lemma env_match_has_name: "env_match name (length name) x = Some (has_name name x)"
proof (cases "length name < length x")
  case True
  then have "take (length name + 1) x = take (length name) x @ [x ! length name]"
    by (simp add: take_Suc_conv_app_nth)
  with True show ?thesis by (auto simp: env_match_def has_name_def)
next
  case False
  then have "take (length name) x = x" "\<not> has_name name x"
    by (auto simp: has_name_def dest: arg_cong [where f = length])
  with False show ?thesis by (auto simp: env_match_def)
qed

lemma has_name_unique: "valid_name n \<Longrightarrow> valid_name m \<Longrightarrow> has_name n x \<Longrightarrow> has_name m x \<Longrightarrow> n = m"
proof -
  have "takeWhile (\<lambda>c. c \<noteq> CHR ''='') x = k" if "valid_name k" "has_name k x" for k
  proof -
    have "x = (k @ ''='') @ drop (length k + 1) x" using that(2) by (metis append_take_drop_id has_name_def)
    then have "takeWhile (\<lambda>c. c \<noteq> CHR ''='') x = takeWhile (\<lambda>c. c \<noteq> CHR ''='') (k @ CHR ''='' # drop (length k + 1) x)" by simp
    also have "\<dots> = k" using that(1) by (subst takeWhile_append2) (auto simp: valid_name_def)
    finally show ?thesis .
  qed
  then show "valid_name n \<Longrightarrow> valid_name m \<Longrightarrow> has_name n x \<Longrightarrow> has_name m x \<Longrightarrow> n = m" by metis
qed

lemma has_name_self: "has_name name (name @ ''='' @ val)"
  by (simp add: has_name_def)

lemma find_append: "List.find P (xs @ ys) = (case List.find P xs of None \<Rightarrow> List.find P ys | Some x \<Rightarrow> Some x)"
  by (induction xs) auto

lemma find_None: "\<forall>x \<in> set xs. \<not> P x \<Longrightarrow> List.find P xs = None"
  by (simp add: find_None_iff)

lemma lookup_replace:
  assumes "valid_name name" "\<forall>z \<in> set ys. \<not> has_name name z" "has_name name y" "has_name name x"
  shows "env_lookup (ys @ x # zs) = (env_lookup (ys @ y # zs))(name \<mapsto> drop (length name + 1) x)"
  using assms has_name_unique [OF assms(1)]
  by (auto simp: env_lookup_def fun_eq_iff find_append find_None split: option.splits)

lemma lookup_append:
  assumes "valid_name name" "\<forall>z \<in> set ys. \<not> has_name name z" "has_name name x"
  shows "env_lookup (ys @ [x]) = (env_lookup ys)(name \<mapsto> drop (length name + 1) x)"
  using assms has_name_unique [OF assms(1)]
  by (auto simp: env_lookup_def fun_eq_iff find_append find_None split: option.splits)

lemma find_filter: "(\<And>x. P x \<Longrightarrow> Q x) \<Longrightarrow> List.find P (filter Q xs) = List.find P xs"
  by (induction xs) auto

lemma lookup_filter:
  assumes "valid_name name"
  shows "env_lookup (filter (\<lambda>x. \<not> has_name name x) xs) = (env_lookup xs)(name := None)"
proof
  fix n
  have "List.find (has_name n) (filter (\<lambda>x. \<not> has_name name x) xs) = List.find (has_name n) xs" if "n \<noteq> name" "valid_name n"
    using that has_name_unique [OF assms that(2)] by (intro find_filter) blast
  then show "env_lookup (filter (\<lambda>x. \<not> has_name name x) xs) n = ((env_lookup xs)(name := None)) n"
    by (auto simp: env_lookup_def find_None_iff)
qed

lemma lookup_None_iff:
  "valid_name name \<Longrightarrow> env_lookup xs name = None \<longleftrightarrow> (\<forall>x \<in> set xs. \<not> has_name name x)"
  by (auto simp: env_lookup_def find_None_iff)

section \<open>The list of allocated strings\<close>

lemma rm_add_loop_owned:
  assumes "rm_add_loop old new ps = (ps', n, f)" "distinct (owned ps)" "new \<noteq> 0 \<longrightarrow> new \<notin> set ps \<and> new \<noteq> old"
  shows "(f \<longleftrightarrow> old \<in> set ps) \<and> distinct (owned ps') \<and> (n = 0 \<or> n = new) \<and>
    set (owned ps') \<subseteq> (set (owned ps) - {old}) \<union> ({new} - {0}) \<and> (\<not> f \<and> n \<noteq> 0 \<longrightarrow> n \<notin> set ps')"
  using assms
proof (induction ps arbitrary: new ps' n f)
  case Nil
  then show ?case by (auto simp: owned_def)
next
  case (Cons p ps)
  show ?case
  proof (cases "p = old")
    case True
    with Cons.prems show ?thesis by (auto simp: owned_def split: if_splits)
  next
    case False
    define k where "k = (if p = 0 then 0 else new)"
    obtain ps1 n1 f1 where r: "rm_add_loop old k ps = (ps1, n1, f1)" by (metis surj_pair)
    have "k \<noteq> 0 \<longrightarrow> k \<notin> set ps \<and> k \<noteq> old" using Cons.prems by (auto simp: k_def)
    moreover have "distinct (owned ps)" using Cons.prems(2) by (auto simp: owned_def split: if_splits)
    ultimately have ih: "(f1 \<longleftrightarrow> old \<in> set ps) \<and> distinct (owned ps1) \<and> (n1 = 0 \<or> n1 = k) \<and>
      set (owned ps1) \<subseteq> (set (owned ps) - {old}) \<union> ({k} - {0}) \<and> (\<not> f1 \<and> n1 \<noteq> 0 \<longrightarrow> n1 \<notin> set ps1)"
      using Cons.IH [OF r] by blast
    have "ps' = (if p = 0 then new else p) # ps1" "n = n1" "f = f1"
      using Cons.prems(1) False r by (auto simp: k_def split: if_splits prod.splits)
    with ih Cons.prems(2,3) False show ?thesis
      by (cases "p = 0"; cases "new = 0") (auto simp: owned_def k_def)
  qed
qed

lemma env_rm_add_ok:
  assumes "distinct (owned (env_alloced s))" "new \<noteq> 0 \<longrightarrow> new \<notin> set (env_alloced s) \<and> new \<noteq> old"
    and "old \<in> set (owned (env_alloced s)) \<longrightarrow> strs s old \<noteq> None"
  shows "\<exists>al. env_rm_add old new t s = Some (s\<lparr>env_alloced := al,
      strs := if old \<in> set (owned (env_alloced s)) then (strs s)(old := None) else strs s\<rparr>) \<and>
    distinct (owned al) \<and> set (owned al) \<subseteq> (set (owned (env_alloced s)) - {old}) \<union> ({new} - {0})"
proof -
  obtain ps n f where r: "rm_add_loop old new (env_alloced s) = (ps, n, f)" by (metis surj_pair)
  note * = rm_add_loop_owned [OF r assms(1,2)]
  let ?st = "if old \<in> set (owned (env_alloced s)) then (strs s)(old := None) else strs s"
  show ?thesis
  proof (cases f)
    case True
    have "free_str old (s\<lparr>env_alloced := ps\<rparr>) = Some (s\<lparr>env_alloced := ps, strs := ?st\<rparr>)"
    proof (cases "old = 0")
      case True
      then have "old \<notin> set (owned (env_alloced s))" by (simp add: owned_def)
      with True show ?thesis by (simp add: free_str_def)
    next
      case False
      then have "old \<in> set (owned (env_alloced s))" using \<open>f\<close> * by (simp add: owned_def)
      with False assms(3) show ?thesis by (simp add: free_str_def)
    qed
    then have "env_rm_add old new t s = Some (s\<lparr>env_alloced := ps, strs := ?st\<rparr>)"
      using r True by (simp add: env_rm_add_def)
    with * show ?thesis by blast
  next
    case False
    define al where "al = (if n = 0 \<or> \<not> t then ps else ps @ [n])"
    have "old \<notin> set (owned (env_alloced s))" using * False by (simp add: owned_def)
    then have "env_rm_add old new t s = Some (s\<lparr>env_alloced := al, strs := ?st\<rparr>)"
      using r False by (simp add: env_rm_add_def al_def)
    moreover have "distinct (owned al)" "set (owned al) \<subseteq> (set (owned (env_alloced s)) - {old}) \<union> ({new} - {0})"
      using * False by (auto simp: owned_def al_def)
    ultimately show ?thesis by blast
  qed
qed

section \<open>The loops\<close>

lemma entries_append: "0 \<notin> set es \<Longrightarrow> entries (es @ 0 # rest) = es"
  unfolding entries_def by (subst takeWhile_append2) (auto intro!: gr0I)

lemma terminated:
  assumes "0 \<in> set a"
  obtains rest where "a = entries a @ 0 # rest" "0 \<notin> set (entries a)"
proof -
  obtain es rest where a: "a = es @ 0 # rest" "0 \<notin> set es" using split_list_first [OF assms] by blast
  with entries_append [of es rest] that [of rest] show thesis by simp
qed

lemma get_loop_find:
  assumes "\<forall>e \<in> set es. e \<noteq> 0 \<and> strs s e \<noteq> None"
  shows "get_loop name (length name) (es @ 0 # rest) s =
    Some (map_option (\<lambda>e. (e, length name + 1)) (List.find (\<lambda>e. has_name name (the (strs s e))) es))"
  using assms by (induction es) (auto simp: env_match_has_name)

lemma put_loop_find:
  assumes "\<forall>e \<in> set es. e \<noteq> 0 \<and> strs s e \<noteq> None" "has_name name x"
  shows "put_loop x (length name) i (es @ 0 # rest) s =
    Some (i + length (takeWhile (\<lambda>e. \<not> has_name name (the (strs s e))) es), \<exists>e \<in> set es. has_name name (the (strs s e)))"
  using assms by (induction es arbitrary: i) (auto simp: has_name_def)

lemma count_list_notin: "x \<notin> set xs \<Longrightarrow> count_list xs x = 0"
  by (simp add: count_list_0_iff)

text \<open>Freeing a removed entry.\<close>

lemma ents_ok_remove:
  assumes "ents_ok (xs @ p # ys) (env_alloced s) (strs s)"
  shows "\<exists>al st. env_rm_add p 0 t s = Some (s\<lparr>env_alloced := al, strs := st\<rparr>) \<and> ents_ok (xs @ ys) al st \<and>
    (\<forall>e \<in> set (xs @ ys). st e = strs s e) \<and> (\<forall>e. st e = strs s e \<or> st e = None)"
proof -
  let ?al = "env_alloced s"
  have d: "distinct (owned ?al)" and live: "\<forall>e \<in> set (xs @ p # ys). e \<noteq> 0 \<and> strs s e \<noteq> None"
    and cnt: "\<forall>q \<in> set (owned ?al). count_list (xs @ p # ys) q = 1"
    using assms by (auto simp: ents_ok_def)
  from env_rm_add_ok [OF d, of 0 p t] live obtain al where
    al: "env_rm_add p 0 t s = Some (s\<lparr>env_alloced := al, strs := if p \<in> set (owned ?al) then (strs s)(p := None) else strs s\<rparr>)"
      "distinct (owned al)" "set (owned al) \<subseteq> set (owned ?al) - {p}" by auto
  have notin: "p \<notin> set (xs @ ys)" if "p \<in> set (owned ?al)"
    using cnt that by (auto simp: count_list_0_iff)
  have "\<forall>q \<in> set (owned al). count_list (xs @ ys) q = 1"
  proof
    fix q assume "q \<in> set (owned al)"
    with al(3) have "q \<in> set (owned ?al)" "q \<noteq> p" by auto
    with cnt have "count_list (xs @ p # ys) q = 1" by blast
    with \<open>q \<noteq> p\<close> show "count_list (xs @ ys) q = 1" by simp
  qed
  with al live notin have "ents_ok (xs @ ys) al (if p \<in> set (owned ?al) then (strs s)(p := None) else strs s)"
    by (auto simp: ents_ok_def)
  with al notin show ?thesis by (intro exI [of _ al] exI [of _ "if p \<in> set (owned ?al) then (strs s)(p := None) else strs s"]) auto
qed

lemma clear_loop_ok:
  "ents_ok es (env_alloced s) (strs s) \<Longrightarrow>
   \<exists>al st. clear_loop (es @ 0 # rest) s = Some (s\<lparr>env_alloced := al, strs := st\<rparr>) \<and> ents_ok [] al st \<and>
     (\<forall>e. st e = strs s e \<or> st e = None)"
proof (induction es arbitrary: s)
  case Nil
  then show ?case by (intro exI [of _ "env_alloced s"] exI [of _ "strs s"]) simp
next
  case (Cons e es)
  have "e \<noteq> 0" using Cons.prems by (simp add: ents_ok_def)
  from ents_ok_remove [of "[]" e es s True] Cons.prems obtain al st where
    1: "env_rm_add e 0 True s = Some (s\<lparr>env_alloced := al, strs := st\<rparr>)" "ents_ok es al st"
       "\<forall>e. st e = strs s e \<or> st e = None" by auto
  from Cons.IH [of "s\<lparr>env_alloced := al, strs := st\<rparr>"] 1(2) obtain al' st' where
    "clear_loop (es @ 0 # rest) (s\<lparr>env_alloced := al, strs := st\<rparr>) = Some (s\<lparr>env_alloced := al', strs := st'\<rparr>)"
    "ents_ok [] al' st'" "\<forall>e. st' e = st e \<or> st' e = None" by auto
  with 1 \<open>e \<noteq> 0\<close> show ?case by (intro exI [of _ al'] exI [of _ st']) (simp, metis)
qed

declare unset_loop.simps [simp del]

lemma unset_loop_ok:
  assumes "eo \<le> e" "drop e a = es @ 0 # rest" "ents_ok (take eo a @ es) (env_alloced s) (strs s)"
  shows "\<exists>a' al st. unset_loop name (length name) e eo a s = Some (a', s\<lparr>env_alloced := al, strs := st\<rparr>) \<and>
    entries a' = take eo a @ filter (\<lambda>p. \<not> has_name name (the (strs s p))) es \<and> 0 \<in> set a' \<and>
    ents_ok (entries a') al st \<and> (\<forall>p \<in> set (entries a'). st p = strs s p) \<and> (\<forall>p. st p = strs s p \<or> st p = None)"
  using assms
proof (induction es arbitrary: a e eo s)
  case Nil
  have len: "e < length a" using Nil.prems(2) by (metis drop_all linorder_not_le list.distinct(1) append_Nil)
  have ae: "a ! e = 0" using Nil.prems(2) len by (metis append_Nil nth_via_drop)
  have z: "0 \<notin> set (take eo a)" using Nil.prems(3) by (auto simp: ents_ok_def)
  define a' where "a' = (if eo \<noteq> e then a[eo := 0] else a)"
  have "a' = take eo a @ 0 # drop (Suc eo) a"
    using id_take_nth_drop [OF len] len ae Nil.prems(1) by (auto simp: a'_def upd_conv_take_nth_drop)
  then have e': "entries a' = take eo a" "0 \<in> set a'" using entries_append [OF z] by auto
  have "unset_loop name (length name) e eo a s = Some (a', s)"
    using len ae by (subst unset_loop.simps) (simp add: a'_def)
  with e' Nil.prems(3) show ?case
    by (intro exI [of _ a'] exI [of _ "env_alloced s"] exI [of _ "strs s"]) simp
next
  case (Cons p es)
  have len: "e < length a" using Cons.prems(2) by (metis drop_all linorder_not_le list.distinct(1) append_Cons)
  have ae: "a ! e = p" "drop (e + 1) a = es @ 0 # rest"
    using Cons.prems(2) len by (simp_all add: Cons_nth_drop_Suc [symmetric])
  obtain x where x: "strs s p = Some x" "p \<noteq> 0" using Cons.prems(3) by (auto simp: ents_ok_def)
  have step: "unset_loop name (length name) e eo a s =
    (if has_name name x then do { s \<leftarrow> env_rm_add p 0 True s; unset_loop name (length name) (e + 1) eo a s }
     else unset_loop name (length name) (e + 1) (eo + 1) (if eo \<noteq> e then a[eo := p] else a) s)"
    using len ae x by (subst unset_loop.simps) (simp add: env_match_has_name)
  show ?case
  proof (cases "has_name name x")
    case True
    from ents_ok_remove [OF Cons.prems(3), of True] obtain al st where
      1: "env_rm_add p 0 True s = Some (s\<lparr>env_alloced := al, strs := st\<rparr>)" "ents_ok (take eo a @ es) al st"
        "\<forall>e \<in> set (take eo a @ es). st e = strs s e" "\<forall>e. st e = strs s e \<or> st e = None" by blast
    from Cons.IH [of eo "e + 1" a "s\<lparr>env_alloced := al, strs := st\<rparr>"] Cons.prems(1) ae 1(2) obtain a' al' st' where
      2: "unset_loop name (length name) (e + 1) eo a (s\<lparr>env_alloced := al, strs := st\<rparr>) = Some (a', s\<lparr>env_alloced := al', strs := st'\<rparr>)"
        "entries a' = take eo a @ filter (\<lambda>p. \<not> has_name name (the (st p))) es" "0 \<in> set a'"
        "ents_ok (entries a') al' st'" "\<forall>p \<in> set (entries a'). st' p = st p" "\<forall>p. st' p = st p \<or> st' p = None"
      by auto
    have f: "filter (\<lambda>p. \<not> has_name name (the (st p))) es = filter (\<lambda>p. \<not> has_name name (the (strs s p))) (p # es)"
      using 1(3) x True by (auto intro!: filter_cong)
    have "\<forall>p \<in> set (entries a'). st' p = strs s p" using 2(2,5) 1(3) by auto
    moreover have "\<forall>p. st' p = strs s p \<or> st' p = None" using 1(4) 2(6) by metis
    ultimately show ?thesis
      using 1(1) 2(1-4) f True step by (intro exI [of _ a'] exI [of _ al'] exI [of _ st']) simp
  next
    case False
    define b where "b = (if eo \<noteq> e then a[eo := p] else a)"
    have b: "take (eo + 1) b = take eo a @ [p]" "drop (e + 1) b = es @ 0 # rest"
      using len ae Cons.prems(1) by (auto simp: b_def take_Suc_conv_app_nth)
    from Cons.IH [of "eo + 1" "e + 1" b s] Cons.prems b obtain a' al st where
      "unset_loop name (length name) (e + 1) (eo + 1) b s = Some (a', s\<lparr>env_alloced := al, strs := st\<rparr>)"
      "entries a' = take (eo + 1) b @ filter (\<lambda>p. \<not> has_name name (the (strs s p))) es" "0 \<in> set a'"
      "ents_ok (entries a') al st" "\<forall>p \<in> set (entries a'). st p = strs s p" "\<forall>p. st p = strs s p \<or> st p = None"
      by auto
    with b False x step show ?thesis
      by (intro exI [of _ a'] exI [of _ al] exI [of _ st]) (simp add: b_def)
  qed
qed

section \<open>The calls\<close>

lemma env_okE:
  assumes "env_ok s" "environ s \<noteq> 0"
  obtains a rest where "arrs s (environ s) = Some a" "a = env_ents s @ 0 # rest" "0 \<notin> set (env_ents s)"
proof -
  obtain a where a: "arrs s (environ s) = Some a" "0 \<in> set a" using assms by (auto simp: env_ok_def split: option.splits)
  then have "env_ents s = entries a" using assms by (simp add: env_ents_def)
  with terminated [OF a(2)] that [OF a(1)] show thesis by metis
qed

lemma env_ents_null [simp]: "environ s = 0 \<Longrightarrow> env_ents s = []"
  by (simp add: env_ents_def)

lemma find_map: "List.find P (map f xs) = map_option f (List.find (\<lambda>x. P (f x)) xs)"
  by (induction xs) auto

lemma env_ok_live: "env_ok s \<Longrightarrow> \<forall>e \<in> set (env_ents s). e \<noteq> 0 \<and> strs s e \<noteq> None"
  by (simp add: env_ok_def ents_ok_def)

lemma getenv_find:
  assumes "env_ok s"
  shows "getenv name s = Some (if valid_name name
    then map_option (\<lambda>e. (e, length name + 1)) (List.find (\<lambda>e. has_name name (the (strs s e))) (env_ents s)) else None)"
proof (cases "valid_name name \<and> environ s \<noteq> 0")
  case True
  then obtain a rest where "arrs s (environ s) = Some a" "a = env_ents s @ 0 # rest" using env_okE [OF assms] by metis
  with True get_loop_find [OF env_ok_live [OF assms]] eq_pos_valid [of name] show ?thesis
    by (auto simp: getenv_def Let_def valid_name_def)
next
  case False
  with eq_pos_valid [of name] show ?thesis by (auto simp: getenv_def Let_def)
qed

lemma getenv_step:
  assumes "env_ok s"
  shows "env_call (Getenv secure name) s = Some (s, Val (if secure then None else env_abs s name))"
proof -
  have "\<exists>x. strs s e = Some x" if "List.find P (env_ents s) = Some e" for P e
    using that env_ok_live [OF assms] by (metis find_Some_iff nth_mem option.exhaust)
  then show ?thesis
    by (fastforce simp: secure_getenv_def getenv_find [OF assms] env_abs_def env_lookup_def find_map split: option.splits)
qed

lemma env_abs_None_iff:
  "valid_name name \<Longrightarrow> env_abs s name = None \<longleftrightarrow> (\<forall>e \<in> set (env_ents s). \<not> has_name name (the (strs s e)))"
  by (simp add: env_abs_def lookup_None_iff)

lemma getenv_None_iff:
  "env_ok s \<Longrightarrow> valid_name name \<Longrightarrow> \<exists>r. getenv name s = Some r \<and> (r = None \<longleftrightarrow> env_abs s name = None)"
  by (simp add: getenv_find env_abs_None_iff find_None_iff Ball_def)

lemma unsetenv_step:
  assumes "env_ok s"
  shows "\<exists>s'. env_call (Unsetenv name) s = Some (s', snd (env_unset name (env_abs s))) \<and> env_ok s' \<and>
    env_abs s' = fst (env_unset name (env_abs s))"
proof (cases "valid_name name")
  case False
  then have "eq_pos name = 0 \<or> eq_pos name < length name" by (simp add: eq_pos_invalid)
  with False assms show ?thesis
    by (auto simp: unsetenv_def Let_def env_unset_def env_ok_def env_ents_def env_abs_def split: if_splits)
next
  case True
  then have l: "eq_pos name = length name" "name \<noteq> []" using eq_pos_valid [of name] by (auto simp: valid_name_def)
  show ?thesis
  proof (cases "environ s = 0")
    case e: True
    then have "env_abs s = Map.empty" by (simp add: env_abs_def env_lookup_def fun_eq_iff)
    with e l True assms show ?thesis by (simp add: unsetenv_def Let_def env_unset_def)
  next
    case False
    then obtain a rest where a: "arrs s (environ s) = Some a" "a = env_ents s @ 0 # rest" using env_okE [OF assms] by metis
    from unset_loop_ok [of 0 0 a "env_ents s" rest s name] a assms obtain a' al st where
      u: "unset_loop name (length name) 0 0 a s = Some (a', s\<lparr>env_alloced := al, strs := st\<rparr>)"
        "entries a' = filter (\<lambda>p. \<not> has_name name (the (strs s p))) (env_ents s)" "0 \<in> set a'"
        "ents_ok (entries a') al st" "\<forall>p \<in> set (entries a'). st p = strs s p" "\<forall>p. st p = strs s p \<or> st p = None"
      by (auto simp: env_ok_def)
    define s' where "s' = s\<lparr>env_alloced := al, strs := st, arrs := (arrs s)(environ s \<mapsto> a')\<rparr>"
    have s': "env_ents s' = entries a'" using False by (simp add: env_ents_def s'_def)
    have "st 0 = None" using u(6) assms by (metis env_ok_def)
    then have "env_ok s'" using assms u False s' by (auto simp: env_ok_def s'_def)
    moreover have "map (\<lambda>e. the (strs s' e)) (env_ents s') = filter (\<lambda>x. \<not> has_name name x) (map (\<lambda>e. the (strs s e)) (env_ents s))"
      using u(2,5) s' by (auto simp: s'_def filter_map comp_def)
    then have "env_abs s' = (env_abs s)(name := None)" unfolding env_abs_def by (simp only: lookup_filter [OF True])
    moreover have "unsetenv name s = Some (s', 0)" using a(1) u(1) l False by (simp add: unsetenv_def Let_def s'_def)
    ultimately show ?thesis using True by (simp add: env_unset_def)
  qed
qed

lemma clearenv_step:
  assumes "env_ok s"
  shows "\<exists>s'. env_call Clearenv s = Some (s', Code 0) \<and> env_ok s' \<and> env_abs s' = Map.empty"
proof (cases "environ s = 0")
  case True
  with assms show ?thesis by (simp add: clearenv_def env_abs_def env_lookup_def fun_eq_iff env_ok_def env_ents_def)
next
  case False
  then obtain a rest where a: "arrs s (environ s) = Some a" "a = env_ents s @ 0 # rest" using env_okE [OF assms] by metis
  from clear_loop_ok [of "env_ents s" "s\<lparr>environ := 0\<rparr>" rest] assms obtain al st where
    c: "clear_loop a (s\<lparr>environ := 0\<rparr>) = Some (s\<lparr>environ := 0, env_alloced := al, strs := st\<rparr>)" "ents_ok [] al st"
       "\<forall>e. st e = strs s e \<or> st e = None" by (auto simp: env_ok_def a)
  have "st 0 = None" using c(3) assms by (metis env_ok_def)
  with c a False assms show ?thesis
    by (auto simp: clearenv_def env_abs_def env_lookup_def fun_eq_iff env_ok_def)
qed

text \<open>
  \<open>__putenv\<close>: the entry of the name is replaced, or a new one is added; \<open>r\<close> is the string itself when the
  library allocated it.
\<close>

lemma ents_ok_replace:
  assumes "ents_ok (xs @ old # ys) (env_alloced s) (strs s)" "strs s p \<noteq> None" "p \<noteq> 0" "p \<notin> set (env_alloced s)"
    and "r = 0 \<or> r = p \<and> p \<notin> set (xs @ old # ys)"
  shows "\<exists>al st. env_rm_add old r t s = Some (s\<lparr>env_alloced := al, strs := st\<rparr>) \<and> ents_ok (xs @ p # ys) al st \<and>
    (\<forall>e \<in> set (xs @ p # ys). st e = strs s e) \<and> (\<forall>e. st e = strs s e \<or> st e = None)"
proof -
  let ?al = "env_alloced s"
  have d: "distinct (owned ?al)" and live: "\<forall>e \<in> set (xs @ old # ys). e \<noteq> 0 \<and> strs s e \<noteq> None"
    and cnt: "\<forall>q \<in> set (owned ?al). count_list (xs @ old # ys) q = 1"
    using assms(1) by (auto simp: ents_ok_def)
  have r: "r \<noteq> 0 \<longrightarrow> r \<notin> set ?al \<and> r \<noteq> old" using assms(4,5) by auto
  let ?st = "if old \<in> set (owned ?al) then (strs s)(old := None) else strs s"
  from env_rm_add_ok [OF d r, of t] live obtain al where
    al: "env_rm_add old r t s = Some (s\<lparr>env_alloced := al, strs := ?st\<rparr>)"
      "distinct (owned al)" "set (owned al) \<subseteq> (set (owned ?al) - {old}) \<union> ({r} - {0})" by auto
  have notin: "old \<notin> set (xs @ p # ys)" if "old \<in> set (owned ?al)"
  proof -
    have "count_list (xs @ old # ys) old = 1" using cnt that by blast
    moreover have "old \<noteq> p" using that assms(4) by (auto simp: owned_def)
    ultimately show ?thesis by (auto simp: count_list_0_iff)
  qed
  have "\<forall>q \<in> set (owned al). count_list (xs @ p # ys) q = 1"
  proof
    fix q assume "q \<in> set (owned al)"
    with al(3) consider "q \<in> set (owned ?al)" "q \<noteq> old" | "q = r" "r \<noteq> 0" by auto
    then show "count_list (xs @ p # ys) q = 1"
    proof cases
      case 1
      then have "count_list (xs @ old # ys) q = 1" "q \<noteq> p" using cnt assms(4) by (blast, auto simp: owned_def)
      with 1 show ?thesis by simp
    next
      case 2
      with assms(5) show ?thesis by (simp add: count_list_0_iff)
    qed
  qed
  with al live notin assms(2,3) have "ents_ok (xs @ p # ys) al ?st" by (auto simp: ents_ok_def)
  with al notin show ?thesis by (intro exI [of _ al] exI [of _ ?st]) auto
qed

lemma ents_ok_add:
  assumes "ents_ok xs (env_alloced s) (strs s)" "strs s p \<noteq> None" "p \<noteq> 0" "p \<notin> set (env_alloced s)" "r = 0 \<or> r = p \<and> p \<notin> set xs"
  shows "\<exists>al. (if r \<noteq> 0 then env_rm_add 0 r t s else Some s) = Some (s\<lparr>env_alloced := al\<rparr>) \<and> ents_ok (xs @ [p]) al (strs s)"
proof (cases "r = 0")
  case True
  have "count_list (xs @ [p]) q = 1" if "q \<in> set (owned (env_alloced s))" for q
    using that assms(1,4) by (auto simp: ents_ok_def owned_def)
  with assms True show ?thesis by (intro exI [of _ "env_alloced s"]) (auto simp: ents_ok_def)
next
  case False
  have d: "distinct (owned (env_alloced s))" using assms(1) by (simp add: ents_ok_def)
  have r: "r \<noteq> 0 \<longrightarrow> r \<notin> set (env_alloced s) \<and> r \<noteq> 0" using assms(4,5) by auto
  have 0: "0 \<notin> set (owned (env_alloced s))" by (simp add: owned_def)
  with env_rm_add_ok [OF d r, of t] obtain al where
    al: "env_rm_add 0 r t s = Some (s\<lparr>env_alloced := al\<rparr>)"
      "distinct (owned al)" "set (owned al) \<subseteq> set (owned (env_alloced s)) \<union> {r}" by auto
  have "count_list (xs @ [p]) q = 1" if "q \<in> set (owned al)" for q
  proof (cases "q = p")
    case True
    with False assms(5) show ?thesis by (simp add: count_list_0_iff)
  next
    case ne: False
    with that al(3) assms(5) False have "q \<in> set (owned (env_alloced s))" by auto
    with assms(1) ne show ?thesis by (simp add: ents_ok_def)
  qed
  with al assms(1-3) have "ents_ok (xs @ [p]) al (strs s)" by (auto simp: ents_ok_def)
  with al False show ?thesis by auto
qed

lemma length_fresh_arr: "length (fresh_arr n xs g) = n"
  by (cases "length xs \<le> n") (simp_all add: fresh_arr_def)

lemma entries_fresh:
  assumes "length xs = i" "0 \<notin> set xs" "p \<noteq> 0"
  shows "entries ((fresh_arr (i + 2) (xs @ ys) g)[i := p, i + 1 := 0]) = xs @ [p] \<and> 0 \<in> set ((fresh_arr (i + 2) (xs @ ys) g)[i := p, i + 1 := 0])"
proof -
  have "take i (fresh_arr (i + 2) (xs @ ys) g) = xs" using assms(1) by (simp add: fresh_arr_def)
  then obtain zs where zs: "fresh_arr (i + 2) (xs @ ys) g = xs @ zs" by (metis append_take_drop_id)
  moreover from zs have "length zs = 2" using length_fresh_arr [of "i + 2" "xs @ ys" g] assms(1) by simp
  then obtain y z where "zs = [y, z]" by (auto simp: numeral_2_eq_2 length_Suc_conv)
  ultimately have "(fresh_arr (i + 2) (xs @ ys) g)[i := p, i + 1 := 0] = (xs @ [p]) @ 0 # []"
    using assms(1) by (simp add: list_update_append)
  with entries_append [of "xs @ [p]" "[]"] assms show ?thesis by simp
qed

text \<open>The new array of \<open>__putenv\<close>, by \<open>realloc\<close> or by \<open>malloc\<close> and copy.\<close>

lemma new_env:
  assumes "env_ok s" "fresh_env q s" "q \<noteq> 0"
  shows "\<exists>ar ys. (if environ s = oldenv s then realloc_env (length (env_ents s)) q g s else copy_env (length (env_ents s)) q g s) =
      Some (s\<lparr>arrs := ar\<rparr>) \<and> ar q = Some (fresh_arr (length (env_ents s) + 2) (env_ents s @ ys) g) \<and> ar 0 = None"
proof (cases "environ s = oldenv s")
  case True
  show ?thesis
  proof (cases "environ s = 0")
    case e: True
    have "arrs s 0 = None" using assms(1) by (simp add: env_ok_def)
    with e True assms(3) show ?thesis
      by (intro exI [of _ "(arrs s)(0 := None, q \<mapsto> fresh_arr (length (env_ents s) + 2) (env_ents s) g)"] exI [of _ "[]"]) (simp add: realloc_env_def)
  next
    case False
    then obtain a rest where a: "arrs s (environ s) = Some a" "a = env_ents s @ 0 # rest" using env_okE [OF assms(1)] by metis
    with False True assms show ?thesis
      by (intro exI [of _ "(arrs s)(oldenv s := None, q \<mapsto> fresh_arr (length (env_ents s) + 2) a g)"] exI [of _ "0 # rest"])
        (auto simp: realloc_env_def env_ok_def)
  qed
next
  case False
  then have q: "arrs s q = None" using assms(2,3) by (simp add: fresh_env_def)
  then have old: "oldenv s \<noteq> q" "oldenv s \<noteq> 0 \<longrightarrow> arrs s (oldenv s) \<noteq> None" "arrs s 0 = None"
    using assms(1,3) by (auto simp: env_ok_def)
  define ar where "ar = (arrs s)(q \<mapsto> fresh_arr (length (env_ents s) + 2) (env_ents s) g)"
  have f: "free_arr (oldenv s) (s\<lparr>arrs := ar\<rparr>) = Some (s\<lparr>arrs := if oldenv s = 0 then ar else ar(oldenv s := None)\<rparr>)"
    using old by (auto simp: free_arr_def ar_def)
  have "copy_env (length (env_ents s)) q g s = free_arr (oldenv s) (s\<lparr>arrs := ar\<rparr>)"
  proof (cases "environ s = 0")
    case False
    then obtain a rest where "arrs s (environ s) = Some a" "a = env_ents s @ 0 # rest" using env_okE [OF assms(1)] by metis
    then show ?thesis by (auto simp: copy_env_def ar_def)
  qed (simp add: copy_env_def ar_def)
  with f False old assms(3) show ?thesis
    by (intro exI [of _ "if oldenv s = 0 then ar else ar(oldenv s := None)"] exI [of _ "[]"]) (auto simp: ar_def)
qed

lemma putenv0_found:
  "strs s p = Some x \<Longrightarrow> put_find x l s = Some (i, True) \<Longrightarrow> arrs s (environ s) = Some a \<Longrightarrow>
   putenv0 p l r q g t s = do { s \<leftarrow> env_rm_add (a ! i) r t (s\<lparr>arrs := (arrs s)(environ s \<mapsto> a[i := p])\<rparr>); Some (s, 0) }"
  by (simp add: putenv0_def)

lemma putenv0_oom:
  "strs s p = Some x \<Longrightarrow> put_find x l s = Some (i, False) \<Longrightarrow> putenv0 p l r 0 g t s = do { s \<leftarrow> free_str r s; Some (s, -1) }"
  by (simp add: putenv0_def)

lemma putenv0_new:
  "strs s p = Some x \<Longrightarrow> put_find x l s = Some (i, False) \<Longrightarrow> q \<noteq> 0 \<Longrightarrow>
   (if environ s = oldenv s then realloc_env i q g s else copy_env i q g s) = Some (s\<lparr>arrs := ar\<rparr>) \<Longrightarrow> ar q = Some b \<Longrightarrow>
   putenv0 p l r q g t s = do {
     s \<leftarrow> let s = s\<lparr>arrs := ar(q \<mapsto> b[i := p, i + 1 := 0]), environ := q, oldenv := q\<rparr> in if r \<noteq> 0 then env_rm_add 0 r t s else Some s;
     Some (s, 0) }"
  by (simp add: putenv0_def Let_def)

lemma putenv0_step:
  assumes s: "env_ok s" and name: "valid_name name" and x: "strs s p = Some x" "has_name name x" "p \<notin> set (env_alloced s)"
    and q: "fresh_env q s" and r: "r = 0 \<or> r = p \<and> p \<notin> set (env_ents s)"
  shows "\<exists>s' c. putenv0 p (length name) r q g t s = Some (s', c) \<and> env_ok s' \<and>
    (env_abs s', Code c) = env_put name (drop (length name + 1) x) (q \<noteq> 0) (env_abs s)"
proof -
  let ?l = "length name" and ?es = "env_ents s" and ?m = "\<lambda>e. has_name name (the (strs s e))"
  let ?i = "length (takeWhile (\<lambda>e. \<not> ?m e) ?es)" and ?f = "\<exists>e \<in> set ?es. ?m e"
  have p0: "p \<noteq> 0" using x(1) s by (metis env_ok_def option.distinct(1))
  have eo: "ents_ok ?es (env_alloced s) (strs s)" using s by (simp add: env_ok_def)
  have scan: "put_find x ?l s = Some (?i, ?f)"
  proof (cases "environ s = 0")
    case False
    then obtain a rest where "arrs s (environ s) = Some a" "a = ?es @ 0 # rest" using env_okE [OF s] by metis
    with False put_loop_find [OF env_ok_live [OF s] x(2), of 0 rest] show ?thesis by (simp add: put_find_def)
  qed (simp add: put_find_def)
  show ?thesis
  proof (cases ?f)
    case True
    then have e: "environ s \<noteq> 0" using env_ents_null [of s] by (metis empty_iff list.set(1))
    then obtain a rest where a: "arrs s (environ s) = Some a" "a = ?es @ 0 # rest" "0 \<notin> set ?es" using env_okE [OF s] by metis
    obtain ys old zs where sp: "?es = ys @ old # zs" "?m old" "\<forall>y \<in> set ys. \<not> ?m y"
      using split_list_first_prop [OF True] by blast
    then have i: "?i = length ys" by (simp add: takeWhile_tail)
    define s1 where "s1 = s\<lparr>arrs := (arrs s)(environ s \<mapsto> ys @ p # zs @ 0 # rest)\<rparr>"
    have "ents_ok (ys @ old # zs) (env_alloced s1) (strs s1)" using eo sp by (simp add: s1_def)
    from ents_ok_replace [OF this, of p r t] x p0 r sp obtain al st where
      al: "env_rm_add old r t s1 = Some (s1\<lparr>env_alloced := al, strs := st\<rparr>)" "ents_ok (ys @ p # zs) al st"
        "\<forall>e \<in> set (ys @ p # zs). st e = strs s e" "\<forall>e. st e = strs s e \<or> st e = None" by (auto simp: s1_def)
    define s' where "s' = s1\<lparr>env_alloced := al, strs := st\<rparr>"
    have "putenv0 p ?l r q g t s = Some (s', 0)"
      using putenv0_found [OF x(1), of ?l "length ys" a r q g t] scan True i a(1) al(1)
      by (simp add: a(2) sp(1) s1_def [symmetric] s'_def list_update_append)
    moreover have es': "env_ents s' = ys @ p # zs"
      using e entries_append [of "ys @ p # zs" rest] a(3) sp p0 by (simp add: env_ents_def s'_def s1_def)
    moreover have "st 0 = None" using al(4) s by (metis env_ok_def)
    then have "env_ok s'" using s e al(2) es' by (auto simp: env_ok_def s'_def s1_def)
    moreover have "map (\<lambda>e. the (strs s' e)) (env_ents s') = map (\<lambda>e. the (strs s e)) ys @ x # map (\<lambda>e. the (strs s e)) zs"
      using al(3) es' x(1) by (simp add: s'_def)
    then have "env_abs s' = (env_abs s)(name \<mapsto> drop (?l + 1) x)"
      using lookup_replace [OF name, of "map (\<lambda>e. the (strs s e)) ys" "the (strs s old)" x] sp x(2)
      unfolding env_abs_def by simp
    ultimately show ?thesis using True env_abs_None_iff [OF name, of s] by (auto simp: env_put_def)
  next
    case False
    then have i: "?i = length ?es" by (simp add: length_takeWhile_eq)
    have none: "env_abs s name = None" using False env_abs_None_iff [OF name, of s] by simp
    show ?thesis
    proof (cases "q = 0")
      case q0: True
      define s' where "s' = (if r = 0 then s else s\<lparr>strs := (strs s)(r := None)\<rparr>)"
      have "putenv0 p ?l r q g t s = Some (s', -1)"
        using putenv0_oom [OF x(1), of ?l ?i r g t] scan False q0 r x(1) by (auto simp: s'_def free_str_def)
      moreover have "env_ok s' \<and> env_abs s' = env_abs s"
      proof (cases "r = 0")
        case False
        then have "r \<notin> set ?es" "r \<noteq> 0" using r p0 by auto
        then have "ents_ok ?es (env_alloced s) ((strs s)(r := None))" using eo by (auto simp: ents_ok_def)
        moreover have "env_ents s' = ?es" "strs s' = (strs s)(r := None)" using False by (simp_all add: s'_def env_ents_def)
        moreover have "map (\<lambda>e. the (((strs s)(r := None)) e)) ?es = map (\<lambda>e. the (strs s e)) ?es"
          using \<open>r \<notin> set ?es\<close> by auto
        ultimately have "env_ents s' = ?es" "ents_ok ?es (env_alloced s) (strs s')" "map (\<lambda>e. the (strs s' e)) ?es = map (\<lambda>e. the (strs s e)) ?es"
          by simp_all
        moreover from this have "env_ok s'" using s False by (simp add: env_ok_def s'_def)
        ultimately show ?thesis by (simp only: env_abs_def)
      qed (use s in \<open>simp add: s'_def\<close>)
      ultimately show ?thesis using none q0 by (simp add: env_put_def)
    next
      case q1: False
      from new_env [OF s q q1, of g] obtain ar ys where
        ar: "(if environ s = oldenv s then realloc_env (length ?es) q g s else copy_env (length ?es) q g s) = Some (s\<lparr>arrs := ar\<rparr>)"
          "ar q = Some (fresh_arr (length ?es + 2) (?es @ ys) g)" "ar 0 = None" by blast
      have z: "0 \<notin> set ?es" using env_ok_live [OF s] by auto
      define b where "b = (fresh_arr (length ?es + 2) (?es @ ys) g)[length ?es := p, length ?es + 1 := 0]"
      define s1 where "s1 = s\<lparr>arrs := ar(q \<mapsto> b), environ := q, oldenv := q\<rparr>"
      have b: "entries b = ?es @ [p]" "0 \<in> set b" using entries_fresh [OF refl z p0, of ys g] by (simp_all add: b_def)
      from ents_ok_add [of ?es s1 p r t] eo x p0 r obtain al where
        al: "(if r \<noteq> 0 then env_rm_add 0 r t s1 else Some s1) = Some (s1\<lparr>env_alloced := al\<rparr>)" "ents_ok (?es @ [p]) al (strs s1)"
        by (auto simp: s1_def)
      define s' where "s' = s1\<lparr>env_alloced := al\<rparr>"
      have "putenv0 p ?l r q g t s = Some (s', 0)"
        using putenv0_new [OF x(1) _ q1 ar(1,2), of ?l r t] scan False i al(1)
        by (simp only: simp_thms b_def [symmetric] s1_def [symmetric] Let_def s'_def bind.bind_lunit)
      moreover have es': "env_ents s' = ?es @ [p]" using q1 b by (simp add: env_ents_def s'_def s1_def)
      moreover have "env_ok s'" using s q1 b al(2) ar(3) es' by (simp add: env_ok_def s'_def s1_def)
      moreover have "env_abs s' = (env_abs s)(name \<mapsto> drop (?l + 1) x)"
        using lookup_append [OF name _ x(2), of "map (\<lambda>e. the (strs s e)) ?es"] False x(1) es'
        unfolding env_abs_def by (simp add: s'_def s1_def)
      ultimately show ?thesis using none q1 by (auto simp: env_put_def)
    qed
  qed
qed

lemma env_errno_irrelevant [simp]:
  "env_ok (s\<lparr>env_errno := n\<rparr>) = env_ok s" "env_abs (s\<lparr>env_errno := n\<rparr>) = env_abs s" "env_ents (s\<lparr>env_errno := n\<rparr>) = env_ents s"
proof -
  show "env_ents (s\<lparr>env_errno := n\<rparr>) = env_ents s" by (simp add: env_ents_def)
  then show "env_ok (s\<lparr>env_errno := n\<rparr>) = env_ok s" "env_abs (s\<lparr>env_errno := n\<rparr>) = env_abs s"
    by (simp_all add: env_ok_def env_abs_def)
qed

text \<open>The string that \<open>setenv\<close> builds is not yet part of the environment.\<close>

lemma fresh_string:
  fixes s :: env and x :: string
  assumes "env_ok s" "strs s p = None" "p \<noteq> 0"
  defines "s1 \<equiv> s\<lparr>strs := (strs s)(p \<mapsto> x)\<rparr>"
  shows "env_ok s1" "env_abs s1 = env_abs s" "p \<notin> set (env_ents s1)" "p \<notin> set (env_alloced s1)"
proof -
  have ents: "env_ents s1 = env_ents s" by (simp add: env_ents_def s1_def)
  have notin: "p \<notin> set (env_ents s)" using env_ok_live [OF assms(1)] assms(2) by auto
  then show "p \<notin> set (env_ents s1)" by (simp add: ents)
  have "ents_ok (env_ents s) (env_alloced s) (strs s1)" using assms(1) notin by (auto simp: env_ok_def ents_ok_def s1_def)
  then show "env_ok s1" using assms(1,3) ents by (simp add: env_ok_def s1_def)
  show "p \<notin> set (env_alloced s1)"
  proof
    assume "p \<in> set (env_alloced s1)"
    then have "count_list (env_ents s) p = 1" using assms(1,3) by (simp add: env_ok_def ents_ok_def owned_def s1_def)
    with notin show False by (simp add: count_list_0_iff)
  qed
  have "map (\<lambda>e. the (strs s1 e)) (env_ents s) = map (\<lambda>e. the (strs s e)) (env_ents s)" using notin by (auto simp: s1_def)
  then show "env_abs s1 = env_abs s" by (simp only: env_abs_def ents)
qed

lemma setenv_step:
  assumes "env_ok s" "strs s p = None" "fresh_env q s"
  shows "\<exists>s' r. setenv var val ow p q g t s = Some (s', r) \<and> env_ok s' \<and> (env_abs s', Code r) = env_spec (Setenv var val ow p q g t) (env_abs s)"
proof (cases "\<exists>name. var = Some name \<and> valid_name name")
  case False
  then have "setenv var val ow p q g t s = Some (s\<lparr>env_errno := EINVAL\<rparr>, -1)"
    using eq_pos_invalid by (auto simp: setenv_def Let_def split: option.splits)
  moreover have "env_spec (Setenv var val ow p q g t) (env_abs s) = (env_abs s, Code (-1))"
    using False by (auto split: option.splits)
  ultimately show ?thesis using assms(1) by simp
next
  case True
  then obtain name where n: "var = Some name" "valid_name name" by blast
  from getenv_None_iff [OF assms(1) n(2)] obtain old where
    old: "getenv name s = Some old \<and> (old = None \<longleftrightarrow> env_abs s name = None)" ..
  have l: "eq_pos name = length name" "name \<noteq> []" using n(2) eq_pos_valid [of name] by (auto simp: valid_name_def)
  define s1 where "s1 = s\<lparr>strs := (strs s)(p \<mapsto> name @ ''='' @ val)\<rparr>"
  have call: "setenv var val ow p q g t s = (if \<not> ow \<and> env_abs s name \<noteq> None then Some (s, 0) else if p = 0 then Some (s, -1)
    else putenv0 p (length name) p q g t s1)"
    using n(1) old l by (auto simp: setenv_def s1_def)
  show ?thesis
  proof (cases "\<not> ow \<and> env_abs s name \<noteq> None \<or> p = 0")
    case True
    with call n assms(1) show ?thesis by auto
  next
    case False
    then have p: "p \<noteq> 0" by blast
    note f = fresh_string [OF assms(1,2) p, of "name @ ''='' @ val", folded s1_def]
    have "fresh_env q s1" "strs s1 p = Some (name @ ''='' @ val)" using assms(3) by (simp_all add: fresh_env_def s1_def)
    then have "\<exists>s' c. putenv0 p (length name) p q g t s1 = Some (s', c) \<and> env_ok s' \<and>
      (env_abs s', Code c) = env_put name (drop (length name + 1) (name @ ''='' @ val)) (q \<noteq> 0) (env_abs s1)"
      using f by (intro putenv0_step [OF _ n(2) _ has_name_self]) simp_all
    moreover have "env_spec (Setenv var val ow p q g t) (env_abs s) = env_put name val (q \<noteq> 0) (env_abs s)"
      using False n by auto
    moreover have "setenv var val ow p q g t s = putenv0 p (length name) p q g t s1" using False call by auto
    ultimately show ?thesis using f(2) by simp
  qed
qed

lemma putenv_step:
  assumes "env_ok s" "strs s p = Some x" "p \<notin> set (env_alloced s)" "fresh_env q s"
  shows "\<exists>s' r. putenv p q g t s = Some (s', r) \<and> env_ok s' \<and> (env_abs s', Code r) = env_spec (Putenv p x q g t) (env_abs s)"
proof -
  define name where "name = takeWhile (\<lambda>c. c \<noteq> CHR ''='') x"
  have l: "eq_pos x = length name" by (simp add: eq_pos_def name_def)
  have full: "length name = length x \<longleftrightarrow> name = x"
    by (metis (no_types, lifting) length_takeWhile_eq name_def takeWhile_eq_all_conv)
  show ?thesis
  proof (cases "name = [] \<or> name = x")
    case True
    then have "putenv p q g t s = unsetenv x s" using assms(2) l full by (auto simp: putenv_def)
    moreover have "env_spec (Putenv p x q g t) (env_abs s) = env_unset x (env_abs s)"
      using True by (simp add: name_def [symmetric] Let_def)
    moreover obtain s' r where "unsetenv x s = Some (s', r)" "env_ok s'" "(env_abs s', Code r) = env_unset x (env_abs s)"
      using unsetenv_step [OF assms(1), of x] by (auto simp: bind_eq_Some_conv)
    ultimately show ?thesis by simp
  next
    case False
    have valid: "valid_name name" using False by (auto simp: valid_name_def name_def dest: set_takeWhileD)
    obtain rest where "x = name @ rest" by (metis name_def takeWhile_dropWhile_id)
    moreover from this False have "rest \<noteq> [] \<and> hd rest = CHR ''=''"
      by (metis (mono_tags, lifting) append_Nil2 append_eq_append_conv hd_dropWhile name_def takeWhile_dropWhile_id)
    ultimately have hn: "has_name name x" by (cases rest) (auto simp: has_name_def)
    have "putenv p q g t s = putenv0 p (length name) 0 q g t s" using False assms(2) l full by (auto simp: putenv_def)
    moreover have "env_spec (Putenv p x q g t) (env_abs s) = env_put name (drop (length name + 1) x) (q \<noteq> 0) (env_abs s)"
      using False by (simp add: name_def [symmetric] Let_def)
    ultimately show ?thesis using putenv0_step [OF assms(1) valid assms(2) hn assms(3,4), of 0 g t] by simp
  qed
qed

lemma env_step:
  assumes "env_ok s" "env_pre c s"
  shows "\<exists>s'. env_call c s = Some (s', snd (env_spec c (env_abs s))) \<and> env_ok s' \<and> env_abs s' = fst (env_spec c (env_abs s))"
proof (cases c)
  case (Getenv secure name)
  with assms getenv_step [OF assms(1)] show ?thesis by simp
next
  case (Setenv var val ow p q g t)
  with setenv_step [OF assms(1), of p q var val ow g t] assms(2) obtain s' r where
    "setenv var val ow p q g t s = Some (s', r)" "env_ok s'" "(env_abs s', Code r) = env_spec c (env_abs s)" by auto
  moreover from this have "env_call c s = Some (s', Code r)" using Setenv by simp
  ultimately show ?thesis by (metis fst_conv snd_conv)
next
  case (Putenv p x q g t)
  with putenv_step [OF assms(1), of p x q g t] assms(2) obtain s' r where
    "putenv p q g t s = Some (s', r)" "env_ok s'" "(env_abs s', Code r) = env_spec c (env_abs s)" by auto
  moreover from this have "env_call c s = Some (s', Code r)" using Putenv by simp
  ultimately show ?thesis by (metis fst_conv snd_conv)
next
  case (Unsetenv name)
  with unsetenv_step [OF assms(1)] show ?thesis by simp
next
  case Clearenv
  with clearenv_step [OF assms(1)] show ?thesis by simp
qed

interpretation envm: simulation env_ok env_pre env_abs env_call env_spec
  by unfold_locales (rule env_step)

section \<open>Properties\<close>

text \<open>
  C29. The environment behaves as a map from names to values in every sequence of calls, from every well-formed
  environment (duplicate and malformed entries of the initial one included) and with all outcomes of the
  allocations: \<open>getenv\<close> gives the value last set, \<open>setenv\<close> without \<open>overwrite\<close> keeps a value,
  \<open>unsetenv\<close> removes a name, a failed allocation returns -1 and changes nothing, and no call reads a freed string, frees
  one twice or leaves its arrays; afterwards every string the library owns is still exactly one entry. Allocators
  owe fresh memory, and callers of \<open>putenv\<close> a string of their own.
\<close>

theorem env_refines_map:
  assumes "env_ok s" "run_pre env_pre env_call cs s"
  shows "\<exists>s'. run_impl env_call cs s = Some (s', snd (run_spec env_spec cs (env_abs s))) \<and>
    env_ok s' \<and> env_abs s' = fst (run_spec env_spec cs (env_abs s))"
  using envm.run_refines [OF assms] .

definition env_example :: env where
  "env_example = \<lparr>environ = 1, oldenv = 0, env_alloced = [], arrs = [1 \<mapsto> [10, 11, 12, 0]],
     strs = [10 \<mapsto> ''A=1'', 11 \<mapsto> ''B=2'', 12 \<mapsto> ''A=3''], env_errno = 0\<rparr>"

definition env_example_calls :: "env_cmd list" where
  "env_example_calls = [Setenv (Some ''A'') ''x'' True 20 2 (\<lambda>_. 0) True, Setenv (Some ''C'') ''y'' False 21 3 (\<lambda>_. 7) True,
     Getenv False ''A'', Unsetenv ''A'', Getenv False ''A'', Getenv False ''C'', Clearenv, Getenv False ''C'']"

lemma env_example_ok: "env_ok env_example"
  by (simp add: env_ok_def env_example_def env_ents_def entries_def ents_ok_def owned_def)

lemma env_example_pre: "run_pre env_pre env_call env_example_calls env_example"
  unfolding env_example_calls_def env_example_def by code_simp

theorem env_refines_map_witness:
  "\<exists>s'. run_impl env_call env_example_calls env_example = Some (s', snd (run_spec env_spec env_example_calls (env_abs env_example))) \<and>
    env_ok s' \<and> env_abs s' = fst (run_spec env_spec env_example_calls (env_abs env_example))"
  using env_refines_map [OF env_example_ok env_example_pre] .

end
