(* ===== verification/Smoothsort.thy ===== *)
theory Smoothsort
  imports Prelude "HOL-Library.Multiset"
begin

text \<open>
  Dijkstra's smoothsort on a list of elements, the algorithm behind \<open>src/musl-1.2.5/src/stdlib/qsort.c\<close>: Leonardo heaps
  in an array, forests of them, sifting and trinkling as operations that move one value through a path of positions.
  A position is an index; a tree of order \<open>k\<close> with root \<open>h\<close> takes the \<open>leo k\<close> positions up to \<open>h\<close>. A forest is the list of
  its orders from right to left with the end \<open>e\<close> of its last tree.

  Shown here: sifting makes a tree a heap, trinkling makes a forest a forest of heaps with ascending roots, and both
  only permute the elements of the range they work on.
\<close>

section \<open>Leonardo numbers\<close>

fun leo :: "nat \<Rightarrow> nat" where
  "leo 0 = 1"
| "leo (Suc 0) = 1"
| "leo (Suc (Suc n)) = leo n + leo (Suc n) + 1"

lemma leo_pos [simp]: "0 < leo k"
  by (induction k rule: leo.induct) simp_all

lemma leo_step: "1 < k \<Longrightarrow> leo k = leo (k - 2) + leo (k - 1) + 1"
  by (cases k rule: leo.cases) simp_all

lemma leo_mono: "i \<le> j \<Longrightarrow> leo i \<le> leo j"
proof -
  have "leo n \<le> leo (Suc n)" for n by (cases n) simp_all
  then show "i \<le> j \<Longrightarrow> leo i \<le> leo j" by (rule lift_Suc_mono_le)
qed

lemma leo_strict: "1 \<le> i \<Longrightarrow> i < j \<Longrightarrow> leo i < leo j"
proof (induction j)
  case (Suc j)
  have "leo i \<le> leo j" using Suc.prems by (intro leo_mono) simp
  moreover have "leo j < leo (Suc j)" using Suc.prems by (cases j rule: leo.cases) simp_all
  ultimately show ?case by simp
qed simp

section \<open>Heaps\<close>

text \<open>The comparison: a total preorder.\<close>

definition preorder :: "('a \<Rightarrow> 'a \<Rightarrow> bool) \<Rightarrow> bool" where
  "preorder le \<longleftrightarrow> (\<forall>x y. le x y \<or> le y x) \<and> (\<forall>x y z. le x y \<longrightarrow> le y z \<longrightarrow> le x z)"

lemma preorderD:
  assumes "preorder le"
  shows "le x x" "\<not> le x y \<Longrightarrow> le y x" "le x y \<Longrightarrow> le y z \<Longrightarrow> le x z"
  using assms unfolding preorder_def by blast+

text \<open>The roots of the two subtrees of a tree of order \<open>k\<close> with root \<open>h\<close>: of order \<open>k - 1\<close> on the left, of order \<open>k - 2\<close> on the right.\<close>

definition lson :: "nat \<Rightarrow> nat \<Rightarrow> nat" where
  "lson k h = h - 1 - leo (k - 2)"

lemma lson_le: "lson k h \<le> h"
  by (simp add: lson_def)

lemma tree_range:
  assumes "1 < k" "leo k \<le> Suc h"
  shows "Suc (lson k h) - leo (k - 1) = Suc h - leo k" "leo (k - 1) \<le> Suc (lson k h)"
    "Suc (h - 1) - leo (k - 2) = Suc (lson k h)" "leo (k - 2) \<le> Suc (h - 1)"
    "lson k h < h - 1" "h - 1 < h" "Suc h - leo k \<le> lson k h"
  using leo_step [OF assms(1)] assms(2) leo_pos [of "k - 1"] leo_pos [of "k - 2"] unfolding lson_def by linarith+

fun heap :: "('a \<Rightarrow> 'a \<Rightarrow> bool) \<Rightarrow> 'a list \<Rightarrow> nat \<Rightarrow> nat \<Rightarrow> bool" where
  "heap le xs k h = (1 < k \<longrightarrow>
     le (xs ! lson k h) (xs ! h) \<and> le (xs ! (h - 1)) (xs ! h) \<and> heap le xs (k - 1) (lson k h) \<and> heap le xs (k - 2) (h - 1))"

declare heap.simps [simp del]

definition subheaps :: "('a \<Rightarrow> 'a \<Rightarrow> bool) \<Rightarrow> 'a list \<Rightarrow> nat \<Rightarrow> nat \<Rightarrow> bool" where
  "subheaps le xs k h \<longleftrightarrow> (1 < k \<longrightarrow> heap le xs (k - 1) (lson k h) \<and> heap le xs (k - 2) (h - 1))"

lemma heap_subheaps: "heap le xs k h \<longleftrightarrow> subheaps le xs k h \<and> (1 < k \<longrightarrow> le (xs ! lson k h) (xs ! h) \<and> le (xs ! (h - 1)) (xs ! h))"
  unfolding subheaps_def by (subst heap.simps) blast

lemma heap_small: "\<not> 1 < k \<Longrightarrow> heap le xs k h"
  by (subst heap.simps) blast

lemma heap_sons:
  "1 < k \<Longrightarrow> heap le xs k h \<longleftrightarrow>
   le (xs ! lson k h) (xs ! h) \<and> le (xs ! (h - 1)) (xs ! h) \<and> heap le xs (k - 1) (lson k h) \<and> heap le xs (k - 2) (h - 1)"
  by (subst heap.simps) blast

lemma heap_cong:
  assumes "heap le xs k h" "leo k \<le> Suc h" "\<And>i. Suc h - leo k \<le> i \<Longrightarrow> i \<le> h \<Longrightarrow> ys ! i = xs ! i"
  shows "heap le ys k h"
  using assms
proof (induction k arbitrary: h rule: less_induct)
  case (less k)
  show ?case
  proof (cases "1 < k")
    case True
    note r = tree_range [OF True less.prems(2)]
    have h: "le (xs ! lson k h) (xs ! h)" "le (xs ! (h - 1)) (xs ! h)" "heap le xs (k - 1) (lson k h)" "heap le xs (k - 2) (h - 1)"
      using less.prems(1) heap_sons [OF True] by blast+
    have "heap le ys (k - 1) (lson k h)"
    proof (rule less.IH [OF _ h(3) r(2)])
      show "ys ! i = xs ! i" if "Suc (lson k h) - leo (k - 1) \<le> i" "i \<le> lson k h" for i
        using that r by (intro less.prems(3)) linarith+
    qed (use True in simp)
    moreover have "heap le ys (k - 2) (h - 1)"
    proof (rule less.IH [OF _ h(4) r(4)])
      show "ys ! i = xs ! i" if "Suc (h - 1) - leo (k - 2) \<le> i" "i \<le> h - 1" for i
        using that r by (intro less.prems(3)) linarith+
    qed (use True in simp)
    moreover have "ys ! h = xs ! h" "ys ! lson k h = xs ! lson k h" "ys ! (h - 1) = xs ! (h - 1)"
      using r by (intro less.prems(3); linarith)+
    ultimately show ?thesis using h heap_sons [OF True] by metis
  qed (rule heap_small)
qed

lemma leo_one: "\<not> 1 < k \<Longrightarrow> leo k = 1"
  by (cases k rule: leo.cases) simp_all

lemma heap_max:
  assumes "preorder le" "heap le xs k h" "leo k \<le> Suc h" "Suc h - leo k \<le> i" "i \<le> h"
  shows "le (xs ! i) (xs ! h)"
  using assms(2-)
proof (induction k arbitrary: h rule: less_induct)
  case (less k)
  show ?case
  proof (cases "i = h")
    case True
    then show ?thesis using preorderD(1) [OF assms(1)] by simp
  next
    case False
    have k: "1 < k"
      using leo_one [of k] less.prems(3,4) False by (cases "1 < k") simp_all
    note r = tree_range [OF k less.prems(2)]
    have h: "le (xs ! lson k h) (xs ! h)" "le (xs ! (h - 1)) (xs ! h)" "heap le xs (k - 1) (lson k h)" "heap le xs (k - 2) (h - 1)"
      using less.prems(1) heap_sons [OF k] by blast+
    have "le (xs ! i) (xs ! lson k h) \<or> le (xs ! i) (xs ! (h - 1))"
    proof (cases "i \<le> lson k h")
      case True
      have "Suc (lson k h) - leo (k - 1) \<le> i" using r less.prems(3) by linarith
      with less.IH [OF _ h(3) r(2) this True] k show ?thesis by simp
    next
      case l: False
      have "Suc (h - 1) - leo (k - 2) \<le> i" "i \<le> h - 1" using r l less.prems(4) False by linarith+
      with less.IH [OF _ h(4) r(4) this] k show ?thesis by simp
    qed
    then show ?thesis using h preorderD(3) [OF assms(1)] by blast
  qed
qed

section \<open>Moving a value along a path\<close>

text \<open>Each position of the path takes the element of the next one, the last one takes the value.\<close>

fun rot :: "'a list \<Rightarrow> nat list \<Rightarrow> 'a \<Rightarrow> 'a list" where
  "rot xs [] x = xs"
| "rot xs [h] x = xs[h := x]"
| "rot xs (h # h' # hs) x = rot (xs[h := xs ! h']) (h' # hs) x"

lemma length_rot [simp]: "length (rot xs hs x) = length xs"
  by (induction xs hs x rule: rot.induct) simp_all

lemma rot_other: "i \<notin> set hs \<Longrightarrow> rot xs hs x ! i = xs ! i"
  by (induction xs hs x rule: rot.induct) simp_all

lemma mset_swap_update:
  assumes "h < length xs" "h' < length xs" "h \<noteq> h'"
  shows "mset (xs[h := xs ! h', h' := x]) = mset (xs[h := x])"
proof -
  have "xs[h := xs ! h', h' := x] = (xs[h := x])[h := xs[h := x] ! h', h' := xs[h := x] ! h]"
    using assms by (simp add: list_update_swap)
  also have "mset \<dots> = mset (xs[h := x])" using assms by (subst mset_swap) simp_all
  finally show ?thesis .
qed

lemma mset_rot:
  "distinct (h # hs) \<Longrightarrow> set (h # hs) \<subseteq> {..<length xs} \<Longrightarrow> mset (rot xs (h # hs) x) = mset (xs[h := x])"
proof (induction hs arbitrary: h xs)
  case (Cons h' hs)
  have "mset (rot (xs[h := xs ! h']) (h' # hs) x) = mset (xs[h := xs ! h', h' := x])"
    by (rule Cons.IH) (use Cons.prems in auto)
  then show ?case using Cons.prems by (simp add: mset_swap_update)
qed simp

section \<open>Sifting\<close>

text \<open>The positions below the root \<open>h\<close> through which the value \<open>x\<close> sinks, and the array after it sank.\<close>

fun spath :: "('a \<Rightarrow> 'a \<Rightarrow> bool) \<Rightarrow> 'a list \<Rightarrow> 'a \<Rightarrow> nat \<Rightarrow> nat \<Rightarrow> nat list" where
  "spath le xs x k h =
     (if 1 < k then
        if le (xs ! lson k h) x \<and> le (xs ! (h - 1)) x then []
        else if le (xs ! (h - 1)) (xs ! lson k h) then lson k h # spath le xs x (k - 1) (lson k h)
        else (h - 1) # spath le xs x (k - 2) (h - 1)
      else [])"

fun sink :: "('a \<Rightarrow> 'a \<Rightarrow> bool) \<Rightarrow> 'a list \<Rightarrow> 'a \<Rightarrow> nat \<Rightarrow> nat \<Rightarrow> 'a list" where
  "sink le xs x k h =
     (if 1 < k then
        if le (xs ! lson k h) x \<and> le (xs ! (h - 1)) x then xs[h := x]
        else if le (xs ! (h - 1)) (xs ! lson k h) then sink le (xs[h := xs ! lson k h]) x (k - 1) (lson k h)
        else sink le (xs[h := xs ! (h - 1)]) x (k - 2) (h - 1)
      else xs[h := x])"

declare spath.simps [simp del] sink.simps [simp del]

lemma spath_small: "\<not> 1 < k \<Longrightarrow> spath le xs x k h = []"
  by (simp add: spath.simps)

lemma sink_small: "\<not> 1 < k \<Longrightarrow> sink le xs x k h = xs[h := x]"
  by (simp add: sink.simps)

lemma spath_cong:
  assumes "leo k \<le> Suc h" "\<And>i. i < h \<Longrightarrow> ys ! i = xs ! i"
  shows "spath le ys x k h = spath le xs x k h"
  using assms
proof (induction k arbitrary: h rule: less_induct)
  case (less k)
  show ?case
  proof (cases "1 < k")
    case True
    note r = tree_range [OF True less.prems(1)]
    have e: "ys ! lson k h = xs ! lson k h" "ys ! (h - 1) = xs ! (h - 1)" using r by (intro less.prems(2); linarith)+
    have "spath le ys x (k - 1) (lson k h) = spath le xs x (k - 1) (lson k h)"
      using r True by (intro less.IH less.prems(2)) linarith+
    moreover have "spath le ys x (k - 2) (h - 1) = spath le xs x (k - 2) (h - 1)"
      using r True by (intro less.IH less.prems(2)) linarith+
    ultimately show ?thesis unfolding spath.simps [of _ _ _ k] e by simp
  qed (simp add: spath_small)
qed

lemma path_Cons:
  "set p \<subseteq> {a..<r} \<and> distinct p \<and> length p \<le> n \<Longrightarrow> b \<le> a \<Longrightarrow> b \<le> r \<Longrightarrow> r < h \<Longrightarrow> n < k \<Longrightarrow>
   set (r # p) \<subseteq> {b..<h} \<and> distinct (r # p) \<and> length (r # p) \<le> k" for a :: nat
  by fastforce

lemma spath_range:
  assumes "leo k \<le> Suc h"
  shows "set (spath le xs x k h) \<subseteq> {Suc h - leo k..<h} \<and> distinct (spath le xs x k h) \<and> length (spath le xs x k h) \<le> k"
  using assms
proof (induction k arbitrary: h rule: less_induct)
  case (less k)
  show ?case
  proof (cases "1 < k")
    case True
    note r = tree_range [OF True less.prems]
    have l: "set (spath le xs x (k - 1) (lson k h)) \<subseteq> {Suc (lson k h) - leo (k - 1)..<lson k h} \<and>
      distinct (spath le xs x (k - 1) (lson k h)) \<and> length (spath le xs x (k - 1) (lson k h)) \<le> k - 1"
      using r True by (intro less.IH) linarith+
    have t: "set (spath le xs x (k - 2) (h - 1)) \<subseteq> {Suc (h - 1) - leo (k - 2)..<h - 1} \<and>
      distinct (spath le xs x (k - 2) (h - 1)) \<and> length (spath le xs x (k - 2) (h - 1)) \<le> k - 2"
      using r True by (intro less.IH) linarith+
    have i: "Suc h - leo k \<le> Suc (lson k h) - leo (k - 1)" "lson k h < h" "Suc h - leo k \<le> Suc (h - 1) - leo (k - 2)" "Suc h - leo k \<le> h - 1"
      using r by linarith+
    have "set (lson k h # spath le xs x (k - 1) (lson k h)) \<subseteq> {Suc h - leo k..<h} \<and> distinct (lson k h # spath le xs x (k - 1) (lson k h)) \<and>
      length (lson k h # spath le xs x (k - 1) (lson k h)) \<le> k"
      using l i(1) r(7) i(2) by (rule path_Cons) (use True in simp)
    moreover have "set ((h - 1) # spath le xs x (k - 2) (h - 1)) \<subseteq> {Suc h - leo k..<h} \<and> distinct ((h - 1) # spath le xs x (k - 2) (h - 1)) \<and>
      length ((h - 1) # spath le xs x (k - 2) (h - 1)) \<le> k"
      using t i(3,4) r(6) by (rule path_Cons) (use True in simp)
    ultimately show ?thesis unfolding spath.simps [of _ _ _ k] by (simp split del: if_split split: if_split)
  qed (simp add: spath_small)
qed

lemma rot_spath:
  "leo k \<le> Suc h \<Longrightarrow> rot xs (h # spath le xs x k h) x = sink le xs x k h"
proof (induction k arbitrary: h xs rule: less_induct)
  case (less k)
  show ?case
  proof (cases "1 < k")
    case True
    note r = tree_range [OF True less.prems]
    have c: "spath le (xs[h := v]) x (k - 1) (lson k h) = spath le xs x (k - 1) (lson k h)"
      "spath le (xs[h := v]) x (k - 2) (h - 1) = spath le xs x (k - 2) (h - 1)" for v
      using r by (intro spath_cong; simp)+
    have "rot (xs[h := v]) (lson k h # spath le xs x (k - 1) (lson k h)) x = sink le (xs[h := v]) x (k - 1) (lson k h)" for v
      using less.IH [of "k - 1" "lson k h" "xs[h := v]"] r(2) True unfolding c by simp
    moreover have "rot (xs[h := v]) ((h - 1) # spath le xs x (k - 2) (h - 1)) x = sink le (xs[h := v]) x (k - 2) (h - 1)" for v
      using less.IH [of "k - 2" "h - 1" "xs[h := v]"] r(4) True unfolding c by simp
    ultimately show ?thesis unfolding spath.simps [of _ _ _ k] sink.simps [of _ _ _ k] using True by simp
  qed (simp add: spath_small sink_small)
qed

lemma sink_mset:
  assumes "leo k \<le> Suc h" "h < length xs"
  shows "length (sink le xs x k h) = length xs" "mset (sink le xs x k h) = mset (xs[h := x])"
    "i < Suc h - leo k \<or> h < i \<Longrightarrow> sink le xs x k h ! i = xs ! i"
proof -
  note r = spath_range [OF assms(1), of le xs x]
  then have d: "distinct (h # spath le xs x k h)" "set (h # spath le xs x k h) \<subseteq> {..<length xs}" using assms(2) by auto
  show "length (sink le xs x k h) = length xs" "mset (sink le xs x k h) = mset (xs[h := x])"
    unfolding rot_spath [OF assms(1), symmetric] by (simp_all only: length_rot mset_rot [OF d])
  show "sink le xs x k h ! i = xs ! i" if "i < Suc h - leo k \<or> h < i"
  proof -
    have "Suc h - leo k \<le> h" using leo_pos [of k] by linarith
    then have "i \<noteq> h" using that by linarith
    then have "i \<notin> set (h # spath le xs x k h)" using that r by auto
    then show ?thesis unfolding rot_spath [OF assms(1), symmetric] by (rule rot_other)
  qed
qed

lemma sink_root:
  assumes "leo k \<le> Suc h" "h < length xs"
  shows "sink le xs x k h ! h = x \<or> 1 < k \<and> (sink le xs x k h ! h = xs ! lson k h \<or> sink le xs x k h ! h = xs ! (h - 1))"
proof (cases "1 < k")
  case True
  note r = tree_range [OF True assms(1)]
  have n: "h - 1 < length xs" "lson k h < length xs" "lson k h < h" using r assms(2) by linarith+
  have "sink le (xs[h := v]) x (k - 1) (lson k h) ! h = v" for v
    using sink_mset(3) [OF r(2), of "xs[h := v]" h] n assms(2) by simp
  moreover have "sink le (xs[h := v]) x (k - 2) (h - 1) ! h = v" for v
    using sink_mset(3) [OF r(4), of "xs[h := v]" h] n assms(2) r(6) by simp
  ultimately show ?thesis unfolding sink.simps [of _ _ _ k] using assms(2) by simp
qed (use assms(2) in \<open>simp add: sink_small\<close>)

lemma subheaps_cong:
  assumes "subheaps le xs k h" "leo k \<le> Suc h" "\<And>i. Suc h - leo k \<le> i \<Longrightarrow> i < h \<Longrightarrow> ys ! i = xs ! i"
  shows "subheaps le ys k h"
proof (cases "1 < k")
  case True
  note r = tree_range [OF True assms(2)]
  have h: "heap le xs (k - 1) (lson k h)" "heap le xs (k - 2) (h - 1)" using assms(1) True by (simp_all add: subheaps_def)
  have "heap le ys (k - 1) (lson k h)"
    by (rule heap_cong [OF h(1) r(2)]) (rule assms(3); use r in linarith)
  moreover have "heap le ys (k - 2) (h - 1)"
    by (rule heap_cong [OF h(2) r(4)]) (rule assms(3); use r in linarith)
  ultimately show ?thesis by (simp add: subheaps_def)
qed (simp add: subheaps_def)

lemma sink_heap:
  assumes "preorder le" "subheaps le xs k h" "leo k \<le> Suc h" "h < length xs"
  shows "heap le (sink le xs x k h) k h"
  using assms(2-)
proof (induction k arbitrary: h xs rule: less_induct)
  case (less k)
  note tot = preorderD(2) [OF assms(1)] and trans = preorderD(3) [OF assms(1)]
  show ?case
  proof (cases "1 < k")
    case True
    note r = tree_range [OF True less.prems(2)] and sons = heap_sons [OF True]
    let ?l = "lson k h" and ?L = "xs ! lson k h" and ?R = "xs ! (h - 1)"
    have n: "?l < h" "h - 1 \<noteq> h" "?l \<noteq> h" "h \<noteq> ?l" "h \<noteq> h - 1" using r by linarith+
    have hs: "heap le xs (k - 1) ?l" "heap le xs (k - 2) (h - 1)" using less.prems(1) True by (simp_all add: subheaps_def)
    consider "le ?L x" "le ?R x" | "\<not> (le ?L x \<and> le ?R x)" "le ?R ?L" | "\<not> (le ?L x \<and> le ?R x)" "\<not> le ?R ?L" by blast
    then show ?thesis
    proof cases
      case 1
      have "heap le (xs[h := x]) (k - 1) ?l" by (rule heap_cong [OF hs(1) r(2)]) (use r in simp)
      moreover have "heap le (xs[h := x]) (k - 2) (h - 1)" by (rule heap_cong [OF hs(2) r(4)]) (use r in simp)
      moreover have "sink le xs x k h = xs[h := x]" using 1 True by (simp add: sink.simps [of _ _ _ k])
      ultimately show ?thesis using 1 less.prems(3) unfolding sons by (simp only: nth_list_update_neq nth_list_update_eq n not_False_eq_True simp_thms)
    next
      case 2
      let ?ys = "sink le (xs[h := ?L]) x (k - 1) ?l"
      have l: "?l < length (xs[h := ?L])" using r less.prems(3) by simp
      have e: "sink le xs x k h = ?ys" unfolding sink.simps [of _ _ _ k] using 2 True by (simp only: if_True if_False)
      have "subheaps le (xs[h := ?L]) (k - 1) ?l"
        by (rule subheaps_cong [of _ xs]) (use hs(1) r heap_subheaps in auto)
      from less.IH [OF _ this r(2) l] have "heap le ?ys (k - 1) ?l" using True by simp
      moreover have "heap le ?ys (k - 2) (h - 1)"
        by (rule heap_cong [OF hs(2) r(4)]) (subst sink_mset(3) [OF r(2) l], use r in auto)
      moreover have "?ys ! h = ?L" "?ys ! (h - 1) = ?R"
        using sink_mset(3) [OF r(2) l disjI2 [OF n(1)]] sink_mset(3) [OF r(2) l disjI2 [OF r(5)]] less.prems(3)
        by (simp_all only: nth_list_update_eq nth_list_update_neq n not_False_eq_True)
      moreover have "le x ?L" using 2 tot trans by blast
      moreover have "le (?ys ! ?l) ?L"
      proof -
        have "h \<noteq> lson (k - 1) ?l" "h \<noteq> ?l - 1" using lson_le [of "k - 1" ?l] n(1) by linarith+
        then have "?ys ! ?l = x \<or> 1 < k - 1 \<and> (?ys ! ?l = xs ! lson (k - 1) ?l \<or> ?ys ! ?l = xs ! (?l - 1))"
          using sink_root [OF r(2) l, of le x] by (simp only: nth_list_update_neq not_False_eq_True)
        then show ?thesis using \<open>le x ?L\<close> heap_sons [of "k - 1" le xs ?l] hs(1) by metis
      qed
      ultimately show ?thesis unfolding e sons using 2(2) by simp
    next
      case 3
      let ?ys = "sink le (xs[h := ?R]) x (k - 2) (h - 1)"
      have l: "h - 1 < length (xs[h := ?R])" using r(6) less.prems(3) unfolding length_list_update by linarith
      have e: "sink le xs x k h = ?ys" unfolding sink.simps [of _ _ _ k] using 3 True by (simp only: if_True if_False)
      have "subheaps le (xs[h := ?R]) (k - 2) (h - 1)"
        by (rule subheaps_cong [of _ xs]) (use hs(2) r heap_subheaps in auto)
      from less.IH [OF _ this r(4) l] have "heap le ?ys (k - 2) (h - 1)" using True by simp
      moreover have "heap le ?ys (k - 1) ?l"
        by (rule heap_cong [OF hs(1) r(2)]) (subst sink_mset(3) [OF r(4) l], use r in auto)
      moreover have "?ys ! h = ?R" "?ys ! ?l = ?L"
        using sink_mset(3) [OF r(4) l disjI2 [OF r(6)]] sink_mset(3) [OF r(4) l disjI1, of ?l] less.prems(3) r(3)
        by (simp_all only: nth_list_update_eq nth_list_update_neq n lessI not_False_eq_True simp_thms)
      moreover have "le x ?R" "le ?L ?R" using 3 tot trans by blast+
      moreover have "le (?ys ! (h - 1)) ?R"
      proof -
        have "h \<noteq> lson (k - 2) (h - 1)" "h \<noteq> h - 1 - 1" using lson_le [of "k - 2" "h - 1"] r(6) by linarith+
        then have "?ys ! (h - 1) = x \<or> 1 < k - 2 \<and> (?ys ! (h - 1) = xs ! lson (k - 2) (h - 1) \<or> ?ys ! (h - 1) = xs ! (h - 1 - 1))"
          using sink_root [OF r(4) l, of le x] by (simp only: nth_list_update_neq not_False_eq_True)
        then show ?thesis using \<open>le x ?R\<close> heap_sons [of "k - 2" le xs "h - 1"] hs(2) by metis
      qed
      ultimately show ?thesis unfolding e sons by simp
    qed
  qed (rule heap_small)
qed

section \<open>Forests\<close>

definition tot :: "nat list \<Rightarrow> nat" where
  "tot os = sum_list (map leo os)"

lemma tot_simps [simp]: "tot [] = 0" "tot (k # os) = leo k + tot os"
  by (simp_all add: tot_def)

fun forest :: "('a \<Rightarrow> 'a \<Rightarrow> bool) \<Rightarrow> 'a list \<Rightarrow> nat list \<Rightarrow> bool" where
  "forest le xs [] = True"
| "forest le xs (k # os) = (heap le xs k (tot (k # os) - 1) \<and> forest le xs os)"

fun ordered :: "('a \<Rightarrow> 'a \<Rightarrow> bool) \<Rightarrow> 'a list \<Rightarrow> nat list \<Rightarrow> bool" where
  "ordered le xs (k # j # os) = (le (xs ! (tot (j # os) - 1)) (xs ! (tot (k # j # os) - 1)) \<and> ordered le xs (j # os))"
| "ordered le xs _ = True"

lemma ordered_tl: "ordered le xs (k # os) \<Longrightarrow> ordered le xs os"
  by (cases os) simp_all

lemma tree_in_forest: "leo k \<le> Suc (tot (k # os) - 1)" "Suc (tot (k # os) - 1) - leo k = tot os" "tot (k # os) - 1 < tot (k # os)"
  "tot os \<le> tot (k # os) - 1"
  using leo_pos [of k] unfolding tot_simps by linarith+

lemma tot_pos: "os \<noteq> [] \<Longrightarrow> 0 < tot os"
  by (cases os) simp_all

lemma forest_cong:
  "forest le xs os \<Longrightarrow> (\<And>i. i < tot os \<Longrightarrow> ys ! i = xs ! i) \<Longrightarrow> forest le ys os"
proof (induction os)
  case (Cons k os)
  note t = tree_in_forest [where k = k and os = os]
  have "heap le ys k (tot (k # os) - 1)"
    by (rule heap_cong [of _ xs, OF _ t(1)]) (use Cons.prems t in \<open>auto simp del: tot_simps\<close>)
  moreover have "forest le ys os" using Cons.prems by (intro Cons.IH) simp_all
  ultimately show ?case by simp
qed simp

lemma ordered_cong:
  "ordered le xs os \<Longrightarrow> (\<And>i. i < tot os \<Longrightarrow> ys ! i = xs ! i) \<Longrightarrow> ordered le ys os"
proof (induction os)
  case (Cons k os)
  show ?case
  proof (cases os)
    case os: (Cons j r)
    have "tot os - 1 < tot (k # os)" "tot (k # os) - 1 < tot (k # os)"
      using leo_pos [of k] unfolding tot_simps by linarith+
    moreover have "ordered le ys os" using Cons.IH ordered_tl [OF Cons.prems(1)] Cons.prems(2) by simp
    ultimately show ?thesis using Cons.prems unfolding os by (simp del: tot_simps)
  qed simp
qed simp

lemma forest_max:
  assumes "preorder le"
  shows "forest le xs os \<Longrightarrow> ordered le xs os \<Longrightarrow> i < tot os \<Longrightarrow> le (xs ! i) (xs ! (tot os - 1))"
proof (induction os)
  case (Cons k os)
  note t = tree_in_forest [where k = k and os = os]
  show ?case
  proof (cases "tot os \<le> i")
    case True
    with Cons.prems t show ?thesis
      by (intro heap_max [OF assms, of xs k]) (auto simp del: tot_simps)
  next
    case False
    then obtain j r where os: "os = j # r" by (cases os) auto
    have "le (xs ! i) (xs ! (tot os - 1))" using Cons.IH Cons.prems ordered_tl False by auto
    moreover have "le (xs ! (tot os - 1)) (xs ! (tot (k # os) - 1))" using Cons.prems(2) by (simp add: os)
    ultimately show ?thesis using preorderD(3) [OF assms] by blast
  qed
qed simp

lemma take_mset:
  assumes "length ys = length xs" "\<And>i. e \<le> i \<Longrightarrow> i < length xs \<Longrightarrow> ys ! i = xs ! i" "mset ys = mset xs"
  shows "mset (take e ys) = mset (take e xs)"
proof -
  have "drop e ys = drop e xs" using assms(1,2) by (intro nth_equalityI) simp_all
  then have "mset (take e ys) + mset (drop e xs) = mset (take e xs) + mset (drop e xs)"
    using assms(3) by (metis append_take_drop_id mset_append)
  then show ?thesis by simp
qed

text \<open>A bound on the elements of a range holds for a permutation of the range.\<close>

lemma range_bound:
  assumes "length ys = length xs" "\<And>i. e \<le> i \<Longrightarrow> i < length xs \<Longrightarrow> ys ! i = xs ! i" "mset ys = mset xs"
    and "\<And>i. i < e \<Longrightarrow> i < length xs \<Longrightarrow> P (xs ! i)" "i < e" "i < length ys"
  shows "P (ys ! i)"
proof -
  have "ys ! i \<in> set (take e ys)" using assms(5,6) by (auto simp: in_set_conv_nth intro!: exI [of _ i])
  also have "set (take e ys) = set (take e xs)" using take_mset [OF assms(1-3)] by (metis set_mset_mset)
  finally show ?thesis using assms(4) unfolding in_set_conv_nth by force
qed

section \<open>Trinkling\<close>

text \<open>
  The value \<open>x\<close> at the root of the last tree moves to the left over the roots that are larger. A tree that is
  \<open>trusty\<close> is a heap with \<open>x\<close> at its root. It stays when the next root is not larger, or when a son is at least as large as that root.
\<close>

fun stays :: "('a \<Rightarrow> 'a \<Rightarrow> bool) \<Rightarrow> 'a list \<Rightarrow> 'a \<Rightarrow> bool \<Rightarrow> nat list \<Rightarrow> bool" where
  "stays le xs x trusty (k # os) =
     (os = [] \<or> le (xs ! (tot os - 1)) x \<or>
      (\<not> trusty \<and> 1 < k \<and>
       (le (xs ! (tot os - 1)) (xs ! (tot (k # os) - 1 - 1)) \<or> le (xs ! (tot os - 1)) (xs ! lson k (tot (k # os) - 1)))))"
| "stays le xs x trusty [] = True"

fun tpath :: "('a \<Rightarrow> 'a \<Rightarrow> bool) \<Rightarrow> 'a list \<Rightarrow> 'a \<Rightarrow> bool \<Rightarrow> nat list \<Rightarrow> nat list \<times> nat list \<times> bool" where
  "tpath le xs x trusty [] = ([], [], trusty)"
| "tpath le xs x trusty (k # os) =
     (if stays le xs x trusty (k # os) then ([], k # os, trusty)
      else let (hs, os', t) = tpath le xs x False os in ((tot os - 1) # hs, os', t))"

definition trinkled :: "('a \<Rightarrow> 'a \<Rightarrow> bool) \<Rightarrow> 'a list \<Rightarrow> bool \<Rightarrow> nat list \<Rightarrow> 'a list" where
  "trinkled le xs trusty os =
     (let x = xs ! (tot os - 1); (hs, os', t) = tpath le xs x trusty os; ys = rot xs ((tot os - 1) # hs) x
      in if t then xs else sink le ys (ys ! (tot os' - 1)) (hd os') (tot os' - 1))"

fun climb :: "('a \<Rightarrow> 'a \<Rightarrow> bool) \<Rightarrow> 'a list \<Rightarrow> 'a \<Rightarrow> bool \<Rightarrow> nat list \<Rightarrow> 'a list" where
  "climb le xs x trusty [] = xs"
| "climb le xs x trusty (k # os) =
     (if stays le xs x trusty (k # os)
      then if trusty then xs[tot (k # os) - 1 := x] else sink le xs x k (tot (k # os) - 1)
      else climb le (xs[tot (k # os) - 1 := xs ! (tot os - 1)]) x False os)"

lemma sink_upd:
  assumes "leo k \<le> Suc h"
  shows "sink le (xs[h := v]) x k h = sink le xs x k h"
proof -
  have "rot (xs[h := v]) (h # p) x = rot xs (h # p) x" if "h \<notin> set p" for p
    using that by (cases p) (auto simp: nth_list_update)
  moreover have "spath le (xs[h := v]) x k h = spath le xs x k h" by (rule spath_cong [OF assms]) simp
  moreover have "h \<notin> set (spath le xs x k h)" using spath_range [OF assms] by fastforce
  ultimately show ?thesis unfolding rot_spath [OF assms, symmetric] by simp
qed

lemma stays_cong:
  assumes "\<And>i. i < tot os - 1 \<Longrightarrow> ys ! i = xs ! i"
  shows "stays le ys x trusty os = stays le xs x trusty os"
proof (cases os)
  case (Cons k r)
  note t = tree_in_forest [where k = k and os = r]
  have "ys ! (tot r - 1) = xs ! (tot r - 1)" if "r \<noteq> []"
    using that t(4) tot_pos [of r] by (intro assms, unfold Cons) linarith
  moreover have "1 < k \<Longrightarrow> ys ! (tot os - 1 - 1) = xs ! (tot os - 1 - 1) \<and> ys ! lson k (tot os - 1) = xs ! lson k (tot os - 1)"
    using tree_range [of k "tot os - 1"] t(1) Cons by (intro conjI assms) (auto simp del: tot_simps)
  ultimately show ?thesis unfolding Cons by (auto simp del: tot_simps)
qed simp

lemma tpath_cong:
  "(\<And>i. i < tot os - 1 \<Longrightarrow> ys ! i = xs ! i) \<Longrightarrow> tpath le ys x trusty os = tpath le xs x trusty os"
proof (induction os arbitrary: trusty)
  case (Cons k os)
  note t = tree_in_forest [where k = k and os = os]
  have "tpath le ys x False os = tpath le xs x False os" using t(4) by (intro Cons.IH Cons.prems) linarith
  then show ?case using stays_cong [of "k # os" ys xs le x trusty] Cons.prems by (simp del: stays.simps)
qed simp

lemma tpath_climb:
  assumes "tpath le xs x trusty os = (hs, os', t)" "os \<noteq> []"
  shows "climb le xs x trusty os =
    (if t then xs[tot os - 1 := x] else sink le (rot xs ((tot os - 1) # hs) x) x (hd os') (tot os' - 1))"
  using assms
proof (induction os arbitrary: xs trusty hs)
  case (Cons k os)
  note t = tree_in_forest [where k = k and os = os]
  let ?h = "tot (k # os) - 1"
  show ?case
  proof (cases "stays le xs x trusty (k # os)")
    case True
    then show ?thesis using Cons.prems(1) sink_upd [OF t(1), of le xs x x] by (auto simp del: stays.simps tot_simps)
  next
    case False
    then have os: "os \<noteq> []" by auto
    let ?ys = "xs[?h := xs ! (tot os - 1)]"
    obtain hs' where p: "tpath le xs x False os = (hs', os', t)" "hs = (tot os - 1) # hs'"
      using Cons.prems(1) False by (auto simp del: stays.simps tot_simps split: prod.splits)
    have "tpath le ?ys x False os = tpath le xs x False os"
      using t(4) by (intro tpath_cong) (simp del: tot_simps)
    note IH = Cons.IH [OF this [unfolded p(1)] os]
    have "\<not> t" using p(1) by (induction os arbitrary: hs') (auto simp del: stays.simps tot_simps split: if_splits prod.splits)
    then show ?thesis using False IH p(2) by (simp del: stays.simps tot_simps)
  qed
qed simp

lemma max3:
  assumes "preorder le" "m = (if le l x \<and> le r x then x else if le r l then l else r)"
  shows "le x m \<and> le l m \<and> le r m"
  using preorderD(1) [OF assms(1)] preorderD(2) [OF assms(1), of l x] preorderD(2) [OF assms(1), of r x] preorderD(2) [OF assms(1), of r l]
    preorderD(3) [OF assms(1), of x r l] preorderD(3) [OF assms(1), of x l r]
  by (simp add: assms(2)) blast

lemma sink_ge:
  assumes "preorder le" "leo k \<le> Suc h" "h < length xs"
  shows "le x (sink le xs x k h ! h)"
    and "1 < k \<Longrightarrow> le (xs ! lson k h) (sink le xs x k h ! h) \<and> le (xs ! (h - 1)) (sink le xs x k h ! h)"
proof -
  note ord = preorderD [OF assms(1)]
  have "le x (sink le xs x k h ! h) \<and> (1 < k \<longrightarrow> le (xs ! lson k h) (sink le xs x k h ! h) \<and> le (xs ! (h - 1)) (sink le xs x k h ! h))"
  proof (cases "1 < k")
    case True
    note r = tree_range [OF True assms(2)]
    have n: "h - 1 < length xs" "lson k h < length xs" "lson k h < h" using r assms(3) by linarith+
    have "sink le (xs[h := v]) x (k - 1) (lson k h) ! h = v" "sink le (xs[h := v]) x (k - 2) (h - 1) ! h = v" for v
      using sink_mset(3) [OF r(2), of "xs[h := v]" h] sink_mset(3) [OF r(4), of "xs[h := v]" h] n assms(3) r(6) by simp_all
    then have "sink le xs x k h ! h =
      (if le (xs ! lson k h) x \<and> le (xs ! (h - 1)) x then x else if le (xs ! (h - 1)) (xs ! lson k h) then xs ! lson k h else xs ! (h - 1))"
      unfolding sink.simps [of _ _ _ k] using assms(3) True by (simp only: if_True nth_list_update_eq if_distrib [of "\<lambda>ys. ys ! h"])
    from max3 [OF assms(1) this] show ?thesis by blast
  qed (use ord(1) assms(3) in \<open>simp add: sink_small\<close>)
  then show "le x (sink le xs x k h ! h)"
    "1 < k \<Longrightarrow> le (xs ! lson k h) (sink le xs x k h ! h) \<and> le (xs ! (h - 1)) (sink le xs x k h ! h)" by blast+
qed

text \<open>What an operation on a forest gives: a permutation of the elements of the forest, in a forest with ascending roots.\<close>

definition settled :: "('a \<Rightarrow> 'a \<Rightarrow> bool) \<Rightarrow> 'a list \<Rightarrow> nat list \<Rightarrow> 'a list \<Rightarrow> bool" where
  "settled le xs os ys \<longleftrightarrow> length ys = length xs \<and> mset ys = mset xs \<and> (\<forall>i. tot os \<le> i \<longrightarrow> ys ! i = xs ! i) \<and>
     forest le ys os \<and> ordered le ys os"

lemma climb_stays:
  assumes "preorder le" "stays le xs x trusty (k # os)" "tot (k # os) \<le> length xs"
    and "subheaps le xs k (tot (k # os) - 1)" "trusty \<Longrightarrow> heap le (xs[tot (k # os) - 1 := x]) k (tot (k # os) - 1)"
    and "forest le xs os" "ordered le xs os"
  shows "settled le (xs[tot (k # os) - 1 := x]) (k # os) (climb le xs x trusty (k # os))"
proof -
  let ?h = "tot (k # os) - 1" and ?ys = "climb le xs x trusty (k # os)"
  note t = tree_in_forest [where k = k and os = os] and ord = preorderD [OF assms(1)]
  have h: "?h < length xs" using t(3) assms(3) by linarith
  have e: "?ys = (if trusty then xs[?h := x] else sink le xs x k ?h)" using assms(2) by (simp del: stays.simps tot_simps)
  have "mset ?ys = mset (xs[?h := x]) \<and> length ?ys = length xs \<and> heap le ?ys k ?h"
    unfolding e using assms(4,5) sink_mset [OF t(1) h] sink_heap [OF assms(1,4) t(1) h] by simp
  moreover have o: "?ys ! i = xs ! i" if "i < tot os \<or> ?h < i" for i
    using that sink_mset(3) [OF t(1) h, of i] t(2,4) h unfolding e by (auto simp del: tot_simps)
  moreover have "forest le ?ys os" by (rule forest_cong [OF assms(6)]) (use o in simp)
  moreover have "ordered le ?ys os" by (rule ordered_cong [OF assms(7)]) (use o in simp)
  moreover have "le (?ys ! (tot os - 1)) (?ys ! ?h)" if "os \<noteq> []"
  proof -
    have "?ys ! (tot os - 1) = xs ! (tot os - 1)" using tot_pos [OF that] by (intro o) simp
    moreover have "le (xs ! (tot os - 1)) (?ys ! ?h)"
      using assms(2) that h sink_ge [OF assms(1) t(1) h, of x] ord(3) unfolding e
      by (cases trusty) (auto simp del: tot_simps simp: tot_simps(2) [of k])
    ultimately show ?thesis by simp
  qed
  moreover have "?ys ! i = xs[?h := x] ! i" if "tot (k # os) \<le> i" for i using that o [of i] t(3) by (auto simp del: tot_simps)
  ultimately show ?thesis unfolding settled_def by (cases os) (simp_all del: climb.simps tot_simps)
qed

lemma climb_settled:
  assumes "preorder le"
  shows "os \<noteq> [] \<Longrightarrow> tot os \<le> length xs \<Longrightarrow> subheaps le xs (hd os) (tot os - 1) \<Longrightarrow>
    (trusty \<Longrightarrow> heap le (xs[tot os - 1 := x]) (hd os) (tot os - 1)) \<Longrightarrow> forest le xs (tl os) \<Longrightarrow> ordered le xs (tl os) \<Longrightarrow>
    settled le (xs[tot os - 1 := x]) os (climb le xs x trusty os)"
proof (induction os arbitrary: xs trusty)
  case (Cons k os)
  let ?h = "tot (k # os) - 1"
  note t = tree_in_forest [where k = k and os = os] and ord = preorderD [OF assms(1)]
  show ?case
  proof (cases "stays le xs x trusty (k # os)")
    case True
    then show ?thesis using climb_stays [OF assms True] Cons.prems by simp
  next
    case False
    let ?s = "xs ! (tot os - 1)"
    let ?xs = "xs[?h := ?s]"
    let ?ys = "climb le ?xs x False os"
    have os: "os \<noteq> []" and s: "le x ?s" using False ord(2) by auto
    have r: "tot os - 1 < ?h" "?h < length xs" "tot os - 1 < tot os" using t Cons.prems(2) tot_pos [OF os] by linarith+
    have e: "climb le xs x trusty (k # os) = ?ys" using False by (simp del: stays.simps tot_simps)
    have f: "forest le ?xs os" by (rule forest_cong [of _ xs]) (use Cons.prems(5) t(4) in \<open>auto simp del: tot_simps\<close>)
    have o: "ordered le ?xs os" by (rule ordered_cong [of _ xs]) (use Cons.prems(6) t(4) in \<open>auto simp del: tot_simps\<close>)
    have "settled le (?xs[tot os - 1 := x]) os ?ys"
    proof (rule Cons.IH [OF os])
      show "subheaps le ?xs (hd os) (tot os - 1)" "forest le ?xs (tl os)" "ordered le ?xs (tl os)"
        using f o os heap_subheaps [of le ?xs] ordered_tl by (cases os; simp del: tot_simps; blast)+
    qed (use r t in \<open>auto simp del: tot_simps\<close>)
    then have ys: "length ?ys = length xs" "mset ?ys = mset (?xs[tot os - 1 := x])" "\<And>i. tot os \<le> i \<Longrightarrow> ?ys ! i = ?xs[tot os - 1 := x] ! i"
      "forest le ?ys os" "ordered le ?ys os" by (simp_all add: settled_def)
    have y: "?ys ! i = ?xs ! i" if "tot os \<le> i" for i using ys(3) [OF that] that r(3) by auto
    have hp: "heap le ?xs k ?h"
    proof -
      have "subheaps le ?xs k ?h" by (rule subheaps_cong [OF Cons.prems(3) [unfolded list.sel] t(1)]) simp
      moreover have "le (xs ! lson k ?h) ?s \<and> le (xs ! (?h - 1)) ?s" if k: "1 < k"
      proof (cases trusty)
        case True
        then have "le (xs[?h := x] ! lson k ?h) x \<and> le (xs[?h := x] ! (?h - 1)) x"
          using Cons.prems(4) unfolding list.sel heap_sons [OF k] nth_list_update_eq [OF r(2)] by blast
        then show ?thesis using tree_range(5,6) [OF k t(1)] s ord(3) by (auto simp del: tot_simps)
      next
        case nt: False
        then show ?thesis using False k ord(2) by (auto simp del: tot_simps)
      qed
      ultimately show ?thesis unfolding heap_subheaps using tree_range(5,6) [of k ?h] t(1) r(2) by (auto simp del: tot_simps)
    qed
    have "heap le ?ys k ?h" by (rule heap_cong [OF hp t(1)]) (use t(2) y in \<open>simp del: tot_simps\<close>)
    moreover have "le (?ys ! (tot os - 1)) ?s"
    proof (rule range_bound [of ?ys "?xs[tot os - 1 := x]" "tot os" "\<lambda>v. le v ?s"])
      show "le (?xs[tot os - 1 := x] ! i) ?s" if "i < tot os" "i < length (?xs[tot os - 1 := x])" for i
        using forest_max [OF assms Cons.prems(5,6) [unfolded list.sel] that(1)] that s r t(4)
        by (cases "i = tot os - 1") (auto simp del: tot_simps)
    qed (use ys r in \<open>auto simp del: tot_simps\<close>)
    moreover have "?ys ! ?h = ?s" using y [of ?h] t(4) r(2) by simp
    moreover have "mset ?ys = mset (xs[?h := x])" using ys(2) mset_swap_update [of ?h xs "tot os - 1" x] r by simp
    moreover have "?ys ! i = xs[?h := x] ! i" if "tot (k # os) \<le> i" for i
      using y [of i] that t(3,4) by (auto simp del: tot_simps)
    ultimately show ?thesis unfolding e settled_def using ys(1,4,5) os by (cases os) (simp_all del: climb.simps tot_simps)
  qed
qed simp

lemma tpath_facts:
  assumes "tpath le xs x trusty os = (hs, os', t)" "os \<noteq> []"
  shows "set hs \<subseteq> {..<tot os - 1} \<and> distinct hs \<and> length hs < length os \<and> last ((tot os - 1) # hs) = tot os' - 1 \<and>
    (\<exists>pre. os = pre @ os' \<and> (pre = [] \<longrightarrow> t = trusty) \<and> (pre \<noteq> [] \<longrightarrow> \<not> t)) \<and> os' \<noteq> []"
  using assms
proof (induction os arbitrary: trusty hs)
  case (Cons k os)
  note t = tree_in_forest [where k = k and os = os]
  show ?case
  proof (cases "stays le xs x trusty (k # os)")
    case True
    then show ?thesis using Cons.prems(1) by (auto simp del: stays.simps)
  next
    case False
    then have os: "os \<noteq> []" by auto
    obtain hs' where p: "tpath le xs x False os = (hs', os', t)" "hs = (tot os - 1) # hs'"
      using Cons.prems(1) False by (auto simp del: stays.simps tot_simps split: prod.splits)
    have i: "set hs' \<subseteq> {..<tot os - 1}" "distinct hs'" "length hs' < length os" "last ((tot os - 1) # hs') = tot os' - 1"
      "\<exists>pre. os = pre @ os'" "\<not> t" "os' \<noteq> []" using Cons.IH [OF p(1) os] by blast+
    have "tot os - 1 < tot (k # os) - 1" using t(4) tot_pos [OF os] by linarith
    then have "set hs \<subseteq> {..<tot (k # os) - 1}" "distinct hs" using i(1,2) unfolding p(2) by (auto simp del: tot_simps)
    moreover obtain pre where "os = pre @ os'" using i(5) ..
    ultimately show ?thesis using i(3,4,6,7) unfolding p(2) by (auto simp del: tot_simps intro!: exI [of _ "k # pre"])
  qed
qed simp

lemma rot_last:
  "distinct (h # hs) \<Longrightarrow> set (h # hs) \<subseteq> {..<length xs} \<Longrightarrow> rot xs (h # hs) x ! last (h # hs) = x"
  by (induction hs arbitrary: h xs) auto

lemma trinkled_climb:
  assumes "os \<noteq> []" "tot os \<le> length xs"
  shows "trinkled le xs trusty os = climb le xs (xs ! (tot os - 1)) trusty os"
proof -
  let ?x = "xs ! (tot os - 1)"
  obtain hs os' t where p: "tpath le xs ?x trusty os = (hs, os', t)" by (cases "tpath le xs ?x trusty os") auto
  note f = tpath_facts [OF p assms(1)] and c = tpath_climb [OF p assms(1)]
  have "distinct ((tot os - 1) # hs)" "set ((tot os - 1) # hs) \<subseteq> {..<length xs}"
    using f assms(2) tot_pos [OF assms(1)] by auto
  from rot_last [OF this, of ?x] f have "rot xs ((tot os - 1) # hs) ?x ! (tot os' - 1) = ?x" by simp
  then show ?thesis unfolding c trinkled_def Let_def p by simp
qed

lemma trinkled_settled:
  assumes "preorder le" "os \<noteq> []" "tot os \<le> length xs" "subheaps le xs (hd os) (tot os - 1)"
    and "trusty \<Longrightarrow> heap le xs (hd os) (tot os - 1)" "forest le xs (tl os)" "ordered le xs (tl os)"
  shows "settled le xs os (trinkled le xs trusty os)"
  using climb_settled [OF assms(1-4), of trusty "xs ! (tot os - 1)"] assms(5-7)
  unfolding trinkled_climb [OF assms(2,3)] by simp

lemma trusty_settled:
  assumes "preorder le" "tot (k # os) \<le> length xs" "forest le xs (k # os)" "ordered le xs os"
  shows "settled le xs (k # os) (trinkled le xs True (k # os))"
proof -
  have "heap le xs k (tot (k # os) - 1)" "subheaps le xs k (tot (k # os) - 1)"
    using assms(3) heap_subheaps unfolding forest.simps by blast+
  then show ?thesis using assms by (intro trinkled_settled) simp_all
qed

section \<open>Taking the forest apart\<close>

text \<open>The elements behind the forest are in their final places.\<close>

definition tail_sorted :: "('a \<Rightarrow> 'a \<Rightarrow> bool) \<Rightarrow> 'a list \<Rightarrow> nat \<Rightarrow> bool" where
  "tail_sorted le xs e \<longleftrightarrow> (\<forall>j i. i < j \<longrightarrow> e \<le> j \<longrightarrow> j < length xs \<longrightarrow> le (xs ! i) (xs ! j))"

definition split_last :: "('a \<Rightarrow> 'a \<Rightarrow> bool) \<Rightarrow> 'a list \<Rightarrow> nat list \<Rightarrow> 'a list" where
  "split_last le xs os = trinkled le (trinkled le xs True ((hd os - 1) # tl os)) True ((hd os - 2) # (hd os - 1) # tl os)"

lemma tail_sorted_settled:
  assumes "settled le xs os ys" "tail_sorted le xs (tot os)"
  shows "tail_sorted le ys (tot os)"
  unfolding tail_sorted_def
proof (intro allI impI)
  fix j i assume a: "i < j" "tot os \<le> j" "j < length ys"
  have y: "length ys = length xs" "mset ys = mset xs" "\<And>i. tot os \<le> i \<Longrightarrow> ys ! i = xs ! i" using assms(1) by (simp_all add: settled_def)
  have s: "le (xs ! i) (xs ! j)" if "i < j" for i using assms(2) a that y(1) by (simp add: tail_sorted_def)
  show "le (ys ! i) (ys ! j)"
  proof (cases "i < tot os")
    case True
    have "le (ys ! i) (xs ! j)"
      by (rule range_bound [of ys xs "tot os" "\<lambda>v. le v (xs ! j)"]) (use y a True s in auto)
    then show ?thesis using y(3) a by simp
  next
    case False
    then show ?thesis using y(3) a s by simp
  qed
qed

lemma tail_sorted_drop:
  assumes "preorder le" "forest le xs (k # os)" "ordered le xs (k # os)" "tot (k # os) \<le> length xs" "tail_sorted le xs (tot (k # os))"
  shows "tail_sorted le xs (tot (k # os) - 1)"
  unfolding tail_sorted_def
proof (intro allI impI)
  fix j i assume a: "i < j" "tot (k # os) - 1 \<le> j" "j < length xs"
  show "le (xs ! i) (xs ! j)"
  proof (cases "tot (k # os) \<le> j")
    case True
    then show ?thesis using assms(5) a by (simp add: tail_sorted_def)
  next
    case False
    then have j: "j = tot (k # os) - 1" using a(2) by linarith
    show ?thesis unfolding j by (rule forest_max [OF assms(1-3)]) (use a(1) False in linarith)
  qed
qed

lemma split_tot:
  assumes "1 < k"
  shows "tot ((k - 2) # (k - 1) # os) = tot (k # os) - 1" "tot ((k - 1) # os) - 1 = lson k (tot (k # os) - 1)"
    "tot ((k - 1) # os) \<le> tot (k # os) - 1" "tot (k # os) - 1 - 1 = tot ((k - 2) # (k - 1) # os) - 1"
  using leo_step [OF assms] unfolding tot_simps lson_def by linarith+

lemma split_last_settled:
  assumes "preorder le" "1 < k" "forest le xs (k # os)" "ordered le xs os" "tot (k # os) \<le> length xs"
  shows "settled le xs ((k - 2) # (k - 1) # os) (split_last le xs (k # os))"
proof -
  note s = split_tot [OF assms(2)]
  let ?l = "(k - 1) # os" and ?r = "(k - 2) # (k - 1) # os" and ?ys = "trinkled le xs True ((k - 1) # os)"
  have h: "heap le xs (k - 1) (tot ?l - 1)" "heap le xs (k - 2) (tot ?r - 1)" "forest le xs os"
    using assms(3) unfolding forest.simps heap_sons [OF assms(2)] s(2) s(4) by blast+
  have len: "tot ?l \<le> length xs" "tot ?r \<le> length xs" using s(1,3) [of os] assms(5) by linarith+
  have "settled le xs ?l ?ys"
    using h len(1) assms(4) by (intro trusty_settled [OF assms(1)]) simp_all
  then have y: "length ?ys = length xs" "mset ?ys = mset xs" "\<And>i. tot ?l \<le> i \<Longrightarrow> ?ys ! i = xs ! i" "forest le ?ys ?l" "ordered le ?ys ?l"
    by (simp_all add: settled_def del: tot_simps)
  have "heap le ?ys (k - 2) (tot ?r - 1)"
    by (rule heap_cong [OF h(2) tree_in_forest(1)]) (use tree_in_forest(2) y(3) in \<open>simp del: tot_simps\<close>)
  then have "settled le ?ys ?r (trinkled le ?ys True ?r)"
    using y len(2) by (intro trusty_settled [OF assms(1)]) (simp_all del: tot_simps)
  then show ?thesis
    using y(1-3) tree_in_forest(3,4) [where k = "k - 2" and os = ?l] unfolding settled_def split_last_def by (auto simp del: tot_simps)
qed

section \<open>Building the forest\<close>

text \<open>
  Of \<open>n\<close> elements, the forest takes the first \<open>tot os\<close>. A tree that will become part of a larger one (there is room for its
  sibling and the new root) is only sifted; the roots are ascending from the first tree on for which there is no room.
\<close>

fun pend :: "('a \<Rightarrow> 'a \<Rightarrow> bool) \<Rightarrow> nat \<Rightarrow> 'a list \<Rightarrow> nat list \<Rightarrow> bool" where
  "pend le n xs [] = True"
| "pend le n xs (j # os) = (if leo (j - 1) + tot (j # os) < n then pend le n xs os else ordered le xs (j # os))"

fun gaps :: "nat list \<Rightarrow> bool" where
  "gaps (a # b # os) = (a + 2 \<le> b \<and> gaps (b # os))"
| "gaps _ = True"

fun good :: "nat list \<Rightarrow> bool" where
  "good [] = False"
| "good (k # os) = (gaps os \<and> (os \<noteq> [] \<longrightarrow> k < hd os) \<and> (k = 0 \<longrightarrow> os \<noteq> [] \<and> hd os = 1))"

definition building :: "('a \<Rightarrow> 'a \<Rightarrow> bool) \<Rightarrow> 'a list \<Rightarrow> nat list \<Rightarrow> bool" where
  "building le xs os \<longleftrightarrow> good os \<and> tot os \<le> length xs \<and> subheaps le xs (hd os) (tot os - 1) \<and> forest le xs (tl os) \<and> pend le (length xs) xs (tl os)"

definition sifted :: "('a \<Rightarrow> 'a \<Rightarrow> bool) \<Rightarrow> 'a list \<Rightarrow> nat list \<Rightarrow> 'a list" where
  "sifted le xs os = sink le xs (xs ! (tot os - 1)) (hd os) (tot os - 1)"

text \<open>One step: settle the last tree, then take the next element as a new root over the last two trees or as a tree of its own.\<close>

definition merges :: "nat list \<Rightarrow> bool" where
  "merges os \<longleftrightarrow> tl os \<noteq> [] \<and> hd (tl os) = hd os + 1"

definition build_array :: "('a \<Rightarrow> 'a \<Rightarrow> bool) \<Rightarrow> 'a list \<Rightarrow> nat list \<Rightarrow> 'a list" where
  "build_array le xs os =
     (if \<not> merges os \<and> length xs - tot os \<le> leo (hd os - 1) then trinkled le xs False os else sifted le xs os)"

definition build_orders :: "nat list \<Rightarrow> nat list" where
  "build_orders os = (if merges os then (hd os + 2) # tl (tl os) else if hd os = 1 then 0 # os else 1 # os)"

lemma pend_cong: "pend le n xs os \<Longrightarrow> (\<And>i. i < tot os \<Longrightarrow> ys ! i = xs ! i) \<Longrightarrow> pend le n ys os"
proof (induction os)
  case (Cons j os)
  have "ordered le xs (j # os) \<Longrightarrow> ordered le ys (j # os)" by (rule ordered_cong) (use Cons.prems(2) in simp_all)
  then show ?case using Cons by (auto simp del: ordered.simps)
qed simp

lemma ordered_pend: "ordered le xs os \<Longrightarrow> pend le n xs os"
  by (induction os) (auto dest: ordered_tl simp del: ordered.simps)

lemma pend_tl: "pend le n xs (j # os) \<Longrightarrow> pend le n xs os"
  by (auto simp del: ordered.simps intro: ordered_pend dest: ordered_tl split: if_splits)

text \<open>When there is no room behind the last tree, there is none behind its neighbour.\<close>

lemma pend_ordered:
  assumes "pend le n xs os" "os \<noteq> [] \<Longrightarrow> n \<le> leo (hd os - 1) + tot os"
  shows "ordered le xs os"
  using assms by (cases os) auto

lemma sifted_facts:
  assumes "preorder le" "os \<noteq> []" "tot os \<le> length xs" "subheaps le xs (hd os) (tot os - 1)" "forest le xs (tl os)"
  shows "length (sifted le xs os) = length xs" "mset (sifted le xs os) = mset xs" "forest le (sifted le xs os) os"
    "\<And>i. i < tot (tl os) \<Longrightarrow> sifted le xs os ! i = xs ! i"
proof -
  obtain k r where os: "os = k # r" using assms(2) by (cases os) auto
  note t = tree_in_forest [where k = k and os = r]
  have h: "tot (k # r) - 1 < length xs" using t(3) assms(3) unfolding os by linarith
  note m = sink_mset [OF t(1) h, where le = le and x = "xs ! (tot (k # r) - 1)"]
  show "length (sifted le xs os) = length xs" "mset (sifted le xs os) = mset xs"
    using m(1,2) by (simp_all add: sifted_def os del: tot_simps)
  show i: "sifted le xs os ! i = xs ! i" if "i < tot (tl os)" for i
    using m(3) [of i] that t(2) by (simp add: sifted_def os del: tot_simps)
  have "heap le (sifted le xs os) k (tot (k # r) - 1)"
    using sink_heap [OF assms(1) _ t(1) h] assms(4) by (simp add: sifted_def os del: tot_simps)
  moreover have "forest le (sifted le xs os) r" by (rule forest_cong [of le xs]) (use assms(5) i in \<open>simp_all add: os\<close>)
  ultimately show "forest le (sifted le xs os) os" by (simp add: os)
qed

lemma good_gaps: "good os \<Longrightarrow> \<not> merges os \<Longrightarrow> gaps os \<and> 0 < hd os"
  by (cases os rule: gaps.cases) (auto simp: merges_def)

lemma good_build: "good os \<Longrightarrow> good (build_orders os)"
proof (cases "merges os")
  case True
  assume g: "good os"
  obtain k r where os: "os = k # (k + 1) # r" using True g by (cases os rule: gaps.cases) (auto simp: merges_def)
  show ?thesis using g by (cases r) (simp_all add: build_orders_def merges_def os)
next
  case False
  assume g: "good os"
  show ?thesis using good_gaps [OF g False] g False by (cases os) (auto simp: build_orders_def)
qed

lemma tot_build: "good os \<Longrightarrow> tot (build_orders os) = Suc (tot os)"
proof (cases "merges os")
  case True
  assume "good os"
  then obtain k r where os: "os = k # (k + 1) # r" using True by (cases os rule: gaps.cases) (auto simp: merges_def)
  show ?thesis using True unfolding build_orders_def os by simp
qed (cases os; simp add: build_orders_def)

lemma trinkle_pend:
  assumes "building le xs os" "\<not> merges os" "length xs - tot os \<le> leo (hd os - 1)"
  shows "ordered le xs (tl os)"
proof -
  have b: "good os" "tot os \<le> length xs" "pend le (length xs) xs (tl os)" using assms(1) by (simp_all add: building_def)
  show ?thesis
  proof (rule pend_ordered [OF b(3)])
    assume "tl os \<noteq> []"
    then obtain k j r where os: "os = k # j # r" by (cases os rule: gaps.cases) auto
    have k: "0 < k" "k + 2 \<le> j" using good_gaps [OF b(1) assms(2)] by (simp_all add: os)
    have "leo (k + 1) \<le> leo (j - 1)" by (rule leo_mono) (use k in simp)
    moreover have "leo (k + 1) = leo (k - 1) + leo k + 1" using leo_step [of "k + 1"] k(1) by simp
    ultimately show "length xs \<le> leo (hd (tl os) - 1) + tot (tl os)" using assms(3) b(2) by (simp add: os)
  qed
qed

lemma build_step:
  assumes "preorder le" "building le xs os" "tot os < length xs"
  shows "building le (build_array le xs os) (build_orders os)" "length (build_array le xs os) = length xs" "mset (build_array le xs os) = mset xs"
proof -
  let ?ys = "build_array le xs os"
  have b: "good os" "tot os \<le> length xs" "subheaps le xs (hd os) (tot os - 1)" "forest le xs (tl os)" "pend le (length xs) xs (tl os)"
    using assms(2) by (simp_all add: building_def)
  have os: "os \<noteq> []" using b(1) by auto
  note sf = sifted_facts [OF assms(1) os b(2-4)]
  have "length ?ys = length xs \<and> mset ?ys = mset xs \<and> forest le ?ys os \<and> pend le (length xs) ?ys (if merges os then tl (tl os) else os)"
  proof (cases "\<not> merges os \<and> length xs - tot os \<le> leo (hd os - 1)")
    case True
    then have e: "?ys = trinkled le xs False os" by (simp add: build_array_def)
    have o: "ordered le xs (tl os)" using trinkle_pend [OF assms(2)] True by blast
    have "settled le xs os ?ys" unfolding e by (rule trinkled_settled [OF assms(1) os b(2,3) _ b(4) o]) simp
    then have "ordered le ?ys os" "length ?ys = length xs" "mset ?ys = mset xs" "forest le ?ys os" by (simp_all add: settled_def)
    then show ?thesis using ordered_pend True by simp
  next
    case False
    then have e: "?ys = sifted le xs os" unfolding build_array_def by (simp only: if_False)
    have p: "pend le (length xs) ?ys (tl os)" by (rule pend_cong [OF b(5)]) (simp add: e sf(4))
    have "pend le (length xs) ?ys (if merges os then tl (tl os) else os)"
    proof (cases "merges os")
      case True
      then have "tl os = hd (tl os) # tl (tl os)" by (metis merges_def list.collapse)
      then show ?thesis using p pend_tl True by metis
    next
      case m: False
      have "os = hd os # tl os" using os by simp
      moreover have "leo (hd os - 1) + tot os < length xs" using False m by linarith
      ultimately have "pend le (length xs) ?ys os" using p by (metis pend.simps(2))
      then show ?thesis using m by simp
    qed
    then show ?thesis using sf by (simp add: e)
  qed
  then have y: "length ?ys = length xs" "mset ?ys = mset xs" "forest le ?ys os" "pend le (length xs) ?ys (if merges os then tl (tl os) else os)" by blast+
  show "length ?ys = length xs" "mset ?ys = mset xs" by fact+
  have "subheaps le ?ys (hd (build_orders os)) (tot (build_orders os) - 1) \<and> forest le ?ys (tl (build_orders os)) \<and> pend le (length xs) ?ys (tl (build_orders os))"
  proof (cases "merges os")
    case True
    then obtain k r where o: "os = k # (k + 1) # r" using b(1) by (cases os rule: gaps.cases) (auto simp: merges_def)
    have bo: "build_orders os = (k + 2) # r" using True by (simp add: build_orders_def o)
    have "lson (k + 2) (tot os) = tot ((k + 1) # r) - 1" unfolding o tot_simps lson_def by simp
    moreover have "tot ((k + 2) # r) - 1 = tot os" using tot_build [OF b(1)] by (simp only: bo)
    ultimately show ?thesis using y(3,4) True unfolding bo subheaps_def list.sel by (simp add: o del: tot_simps)
  next
    case False
    then show ?thesis using y(3,4) by (simp add: build_orders_def subheaps_def)
  qed
  then show "building le ?ys (build_orders os)"
    unfolding building_def using good_build [OF b(1)] tot_build [OF b(1)] assms(3) y(1) by simp
qed

lemma build_end:
  assumes "preorder le" "building le xs os" "tot os = length xs"
  shows "settled le xs os (trinkled le xs False os)"
proof -
  have b: "good os" "tot os \<le> length xs" "subheaps le xs (hd os) (tot os - 1)" "forest le xs (tl os)" "pend le (length xs) xs (tl os)"
    using assms(2) by (simp_all add: building_def)
  have os: "os \<noteq> []" using b(1) by auto
  have "ordered le xs (tl os)"
  proof (rule pend_ordered [OF b(5)])
    assume "tl os \<noteq> []"
    then obtain k j r where o: "os = k # j # r" by (cases os rule: gaps.cases) auto
    have "leo k \<le> leo (j - 1)" by (rule leo_mono) (use b(1) in \<open>auto simp: o\<close>)
    then show "length xs \<le> leo (hd (tl os) - 1) + tot (tl os)" using assms(3) by (simp add: o)
  qed
  from trinkled_settled [OF assms(1) os b(2,3) _ b(4) this] show ?thesis by simp
qed

section \<open>The whole sort\<close>

definition asc :: "nat list \<Rightarrow> bool" where
  "asc os \<longleftrightarrow> os \<noteq> [] \<and> sorted_wrt (<) os \<and> (hd os = 0 \<longrightarrow> tl os \<noteq> [] \<and> hd (tl os) = 1)"

lemma gaps_sorted: "gaps os \<Longrightarrow> sorted_wrt (<) os"
proof (induction os rule: gaps.induct)
  case (1 a b os)
  then show ?case unfolding sorted_wrt2 [OF transp_on_less] by simp
qed simp_all

lemma good_asc: "good os \<Longrightarrow> asc os"
proof (cases os)
  case (Cons k r)
  assume g: "good os"
  then have "sorted_wrt (<) r" using gaps_sorted by (simp add: Cons)
  then show ?thesis using g by (cases r) (auto simp: Cons asc_def)
qed simp

definition shrink_array :: "('a \<Rightarrow> 'a \<Rightarrow> bool) \<Rightarrow> 'a list \<Rightarrow> nat list \<Rightarrow> 'a list" where
  "shrink_array le xs os = (if hd os \<le> 1 then xs else split_last le xs os)"

definition shrink_orders :: "nat list \<Rightarrow> nat list" where
  "shrink_orders os = (if hd os \<le> 1 then tl os else (hd os - 2) # (hd os - 1) # tl os)"

definition shrinking :: "('a \<Rightarrow> 'a \<Rightarrow> bool) \<Rightarrow> 'a list \<Rightarrow> nat list \<Rightarrow> bool" where
  "shrinking le xs os \<longleftrightarrow> asc os \<and> tot os \<le> length xs \<and> forest le xs os \<and> ordered le xs os \<and> tail_sorted le xs (tot os)"

lemma asc_shrink: "asc os \<Longrightarrow> os \<noteq> [1] \<Longrightarrow> asc (shrink_orders os)"
  by (cases os rule: gaps.cases) (auto simp: asc_def shrink_orders_def)

lemma tot_shrink: "os \<noteq> [] \<Longrightarrow> tot (shrink_orders os) = tot os - 1"
  using split_tot(1) [of "hd os" "tl os"] leo_one [of "hd os"] by (cases os) (auto simp: shrink_orders_def)

lemma shrink_step:
  assumes "preorder le" "shrinking le xs os" "os \<noteq> [1]"
  shows "shrinking le (shrink_array le xs os) (shrink_orders os)" "length (shrink_array le xs os) = length xs" "mset (shrink_array le xs os) = mset xs"
proof -
  have a: "asc os" "tot os \<le> length xs" "forest le xs os" "ordered le xs os" "tail_sorted le xs (tot os)"
    using assms(2) by (simp_all add: shrinking_def)
  obtain k r where os: "os = k # r" using a(1) by (cases os) (simp_all add: asc_def)
  have ts: "tail_sorted le xs (tot (shrink_orders os))"
    using tail_sorted_drop [OF assms(1), of xs k r] a tot_shrink [of os] by (simp add: os del: tot_simps)
  have "settled le xs (shrink_orders os) (shrink_array le xs os)"
  proof (cases "1 < k")
    case True
    have "settled le xs ((k - 2) # (k - 1) # r) (split_last le xs (k # r))"
      by (rule split_last_settled [OF assms(1) True]) (use a ordered_tl in \<open>auto simp: os simp del: tot_simps\<close>)
    then show ?thesis using True by (simp add: shrink_orders_def shrink_array_def os)
  next
    case False
    then show ?thesis using a ordered_tl by (auto simp: shrink_orders_def shrink_array_def os settled_def simp del: tot_simps)
  qed
  then show "shrinking le (shrink_array le xs os) (shrink_orders os)" "length (shrink_array le xs os) = length xs" "mset (shrink_array le xs os) = mset xs"
    using tail_sorted_settled [OF _ ts] asc_shrink [OF a(1) assms(3)] tot_shrink [of os] a(2) unfolding shrinking_def by (auto simp: settled_def os simp del: tot_simps)
qed

lemma shrink_end: "tail_sorted le xs (tot [1]) \<Longrightarrow> sorted_wrt le xs"
  unfolding sorted_wrt_iff_nth_less tail_sorted_def by simp

end
