(* ===== verification/Qsort.thy ===== *)
theory Qsort
  imports Smoothsort
begin

text \<open>
  Sorting: \<open>qsort_r\<close> and \<open>qsort\<close> of \<open>src/musl-1.2.5/src/stdlib/qsort.c\<close> and \<open>qsort_nr.c\<close>, with the bit scan of
  \<open>src/musl-1.2.5/src/internal/atomic.h\<close>. The array is the list of its bytes and a pointer into it an offset; an access outside the
  array, outside the table \<open>lp\<close> of Leonardo numbers or outside the path array \<open>ar\<close>, a pointer before the array and a
  shift by the width of the word, which C leaves undefined, are \<open>None\<close>. The comparison function and its argument are the
  caller's: a function of the contents of two elements. The loops whose end is not evident are partial functions.

  Shown here: for every comparison that orders the elements and for arrays of fewer than \<open>leo 64\<close> elements, the sort ends, stays
  inside its arrays, and leaves a sorted permutation of the elements, byte by byte.
\<close>

section \<open>The bit vector\<close>

definition debruijn64 :: "nat list" where
  "debruijn64 = [
     0, 1, 2, 53, 3, 7, 54, 27, 4, 38, 41, 8, 34, 55, 48, 28,
     62, 5, 39, 46, 44, 42, 22, 9, 24, 35, 59, 56, 49, 18, 29, 11,
     63, 52, 6, 26, 37, 40, 33, 47, 61, 45, 43, 21, 23, 58, 17, 10,
     51, 25, 36, 32, 60, 20, 57, 16, 50, 31, 19, 15, 30, 14, 13, 12]"

definition a_ctz_64 :: "u64 \<Rightarrow> nat" where
  "a_ctz_64 x = debruijn64 ! unat (drop_bit 58 (and x (- x) * 0x022fdd63cc95386d))"

type_synonym pvec = "u64 \<times> u64"

definition pntz :: "pvec \<Rightarrow> nat" where
  "pntz p = (let r = a_ctz_64 (fst p - 1) in
     if r \<noteq> 0 then r else let r = 64 + a_ctz_64 (snd p) in if r \<noteq> 64 then r else 0)"

definition shl :: "pvec \<Rightarrow> nat \<Rightarrow> pvec option" where
  "shl p n =
     (let (p0, p1, n) = (if n \<ge> 64 then (0, fst p, n - 64) else (fst p, snd p, n))
      in if n = 0 \<or> n \<ge> 64 then None
         else Some (push_bit n p0, or (push_bit n p1) (drop_bit (64 - n) p0)))"

definition shr :: "pvec \<Rightarrow> nat \<Rightarrow> pvec option" where
  "shr p n =
     (let (p0, p1, n) = (if n \<ge> 64 then (snd p, 0, n - 64) else (fst p, snd p, n))
      in if n = 0 \<or> n \<ge> 64 then None
         else Some (or (drop_bit n p0) (push_bit (64 - n) p1), drop_bit n p1))"

section \<open>Memory\<close>

definition mem_ld :: "nat \<Rightarrow> bytes \<Rightarrow> nat \<Rightarrow> bytes option" where
  "mem_ld w m a = (if a + w \<le> length m then Some (take w (drop a m)) else None)"

definition mem_st :: "bytes \<Rightarrow> nat \<Rightarrow> bytes \<Rightarrow> bytes option" where
  "mem_st m a b = (if a + length b \<le> length m then Some (take a m @ b @ drop (a + length b) m) else None)"

definition cmp_at :: "(bytes \<Rightarrow> bytes \<Rightarrow> int) \<Rightarrow> nat \<Rightarrow> bytes \<Rightarrow> nat \<Rightarrow> nat \<Rightarrow> int option" where
  "cmp_at cmp w m a b = do { x \<leftarrow> mem_ld w m a; y \<leftarrow> mem_ld w m b; Some (cmp x y) }"

text \<open>A pointer moved back, and a read of \<open>lp\<close>.\<close>

definition pback :: "nat \<Rightarrow> nat \<Rightarrow> nat option" where
  "pback a d = (if d \<le> a then Some (a - d) else None)"

definition lp_at :: "nat list \<Rightarrow> nat \<Rightarrow> nat option" where
  "lp_at lp k = (if k < length lp then Some (lp ! k) else None)"

text \<open>The array \<open>ar\<close> has \<open>14 * sizeof(size_t) + 1\<close> entries.\<close>

definition AR_LEN :: nat where
  "AR_LEN = 14 * 8 + 1"

definition push_ar :: "nat list \<Rightarrow> nat \<Rightarrow> nat list option" where
  "push_ar ar a = (if length ar < AR_LEN then Some (ar @ [a]) else None)"

section \<open>\<open>cycle\<close>\<close>

text \<open>The inner loop: each element gets the next \<open>l\<close> bytes of the following one, the last one those saved in \<open>tmp\<close>.\<close>

fun cycle_copy :: "nat \<Rightarrow> bytes \<Rightarrow> bytes \<Rightarrow> nat list \<Rightarrow> bytes option" where
  "cycle_copy l tmp m [] = Some m"
| "cycle_copy l tmp m [a] = mem_st m a tmp"
| "cycle_copy l tmp m (a # b # ar) = do { x \<leftarrow> mem_ld l m b; m \<leftarrow> mem_st m a x; cycle_copy l tmp m (b # ar) }"

function cycle_loop :: "nat \<Rightarrow> bytes \<Rightarrow> nat list \<Rightarrow> bytes option" where
  "cycle_loop width m ar =
     (if width = 0 then Some m
      else let l = (if 256 < width then 256 else width) in do {
        tmp \<leftarrow> mem_ld l m (hd ar);
        m \<leftarrow> cycle_copy l tmp m ar;
        cycle_loop (width - l) m (map (\<lambda>a. a + l) ar) })"
  by pat_completeness auto
termination by (relation "measure (\<lambda>(width, _, _). width)") (auto split: if_splits)

declare cycle_loop.simps [simp del]

definition cycle :: "nat \<Rightarrow> bytes \<Rightarrow> nat list \<Rightarrow> bytes option" where
  "cycle width m ar =
     (if length ar < 2 then Some m else if length ar \<ge> AR_LEN then None else cycle_loop width m ar)"

section \<open>\<open>sift\<close> and \<open>trinkle\<close>\<close>

function sift_loop :: "(bytes \<Rightarrow> bytes \<Rightarrow> int) \<Rightarrow> nat \<Rightarrow> nat list \<Rightarrow> bytes \<Rightarrow> nat \<Rightarrow> nat \<Rightarrow> nat list \<Rightarrow> nat list option" where
  "sift_loop cmp width lp m head pshift ar =
     (if pshift > 1 then do {
        rt \<leftarrow> pback head width;
        l \<leftarrow> lp_at lp (pshift - 2);
        lf \<leftarrow> pback rt l;
        c \<leftarrow> cmp_at cmp width m (hd ar) lf;
        stop \<leftarrow> (if c \<ge> 0 then do { c \<leftarrow> cmp_at cmp width m (hd ar) rt; Some (c \<ge> 0) } else Some False);
        if stop then Some ar
        else do {
          c \<leftarrow> cmp_at cmp width m lf rt;
          if c \<ge> 0 then do { ar \<leftarrow> push_ar ar lf; sift_loop cmp width lp m lf (pshift - 1) ar }
          else do { ar \<leftarrow> push_ar ar rt; sift_loop cmp width lp m rt (pshift - 2) ar } } }
      else Some ar)"
  by pat_completeness auto
termination by (relation "measure (\<lambda>(_, _, _, _, _, pshift, _). pshift)") auto

declare sift_loop.simps [simp del]

definition sift :: "(bytes \<Rightarrow> bytes \<Rightarrow> int) \<Rightarrow> nat \<Rightarrow> nat list \<Rightarrow> bytes \<Rightarrow> nat \<Rightarrow> nat \<Rightarrow> bytes option" where
  "sift cmp width lp m head pshift = do { ar \<leftarrow> sift_loop cmp width lp m head pshift [head]; cycle width m ar }"

text \<open>The second test of \<open>trinkle\<close>.\<close>

definition sons_larger :: "(bytes \<Rightarrow> bytes \<Rightarrow> int) \<Rightarrow> nat \<Rightarrow> nat list \<Rightarrow> bytes \<Rightarrow> nat \<Rightarrow> nat \<Rightarrow> nat \<Rightarrow> bool \<Rightarrow> bool option" where
  "sons_larger cmp width lp m head stepson pshift trusty =
     (if \<not> trusty \<and> pshift > 1 then do {
        rt \<leftarrow> pback head width;
        l \<leftarrow> lp_at lp (pshift - 2);
        lf \<leftarrow> pback rt l;
        c \<leftarrow> cmp_at cmp width m rt stepson;
        if c \<ge> 0 then Some True else do { c \<leftarrow> cmp_at cmp width m lf stepson; Some (c \<ge> 0) } }
      else Some False)"

partial_function (option) trinkle_loop :: "(bytes \<Rightarrow> bytes \<Rightarrow> int) \<Rightarrow> nat \<Rightarrow> nat list \<Rightarrow> bytes \<Rightarrow> nat \<Rightarrow> pvec \<Rightarrow> nat \<Rightarrow> bool \<Rightarrow> nat list \<Rightarrow> (nat \<times> nat \<times> bool \<times> nat list) option" where
  "trinkle_loop cmp width lp m head p pshift trusty ar =
     (if p \<noteq> (1, 0) then do {
        l \<leftarrow> lp_at lp pshift;
        stepson \<leftarrow> pback head l;
        c \<leftarrow> cmp_at cmp width m stepson (hd ar);
        if c \<le> 0 then Some (head, pshift, trusty, ar)
        else do {
          stop \<leftarrow> sons_larger cmp width lp m head stepson pshift trusty;
          if stop then Some (head, pshift, trusty, ar)
          else do {
            ar \<leftarrow> push_ar ar stepson;
            q \<leftarrow> shr p (pntz p);
            trinkle_loop cmp width lp m stepson q (pshift + pntz p) False ar } } }
      else Some (head, pshift, trusty, ar))"

definition trinkle :: "(bytes \<Rightarrow> bytes \<Rightarrow> int) \<Rightarrow> nat \<Rightarrow> nat list \<Rightarrow> bytes \<Rightarrow> nat \<Rightarrow> pvec \<Rightarrow> nat \<Rightarrow> bool \<Rightarrow> bytes option" where
  "trinkle cmp width lp m head p pshift trusty = do {
     (head, pshift, trusty, ar) \<leftarrow> trinkle_loop cmp width lp m head p pshift trusty [head];
     if trusty then Some m else do { m \<leftarrow> cycle width m ar; sift cmp width lp m head pshift } }"

section \<open>\<open>qsort_r\<close>\<close>

text \<open>The table of Leonardo numbers: \<open>12 * sizeof(size_t)\<close> entries of type \<open>size_t\<close>.\<close>

function lp_loop :: "nat \<Rightarrow> nat \<Rightarrow> nat list \<Rightarrow> nat list option" where
  "lp_loop width sz lp =
     (let i = length lp; x = (lp ! (i - 2) + lp ! (i - 1) + width) mod 2 ^ 64
      in if i \<ge> 12 * 8 then None
         else if x < sz then lp_loop width sz (lp @ [x]) else Some (lp @ [x]))"
  by pat_completeness auto
termination by (relation "measure (\<lambda>(_, _, lp). 96 - length lp)") auto

declare lp_loop.simps [simp del]

text \<open>The bit vector and the order of the last tree after an element was added.\<close>

definition next_p :: "pvec \<Rightarrow> nat \<Rightarrow> (pvec \<times> nat) option" where
  "next_p p pshift = do {
     (p, pshift) \<leftarrow>
       (if and (fst p) 3 = 3 then do { p \<leftarrow> shr p 2; Some (p, pshift + 2) }
        else if pshift = 1 then do { p \<leftarrow> shl p 1; Some (p, 0) }
        else if pshift = 0 then None
        else do { p \<leftarrow> shl p (pshift - 1); Some (p, 1) });
     Some ((or (fst p) 1, snd p), pshift) }"

definition build_step_c :: "(bytes \<Rightarrow> bytes \<Rightarrow> int) \<Rightarrow> nat \<Rightarrow> nat list \<Rightarrow> nat \<Rightarrow> bytes \<Rightarrow> nat \<Rightarrow> pvec \<Rightarrow> nat \<Rightarrow> bytes option" where
  "build_step_c cmp width lp high m head p pshift =
     (if and (fst p) 3 = 3 then sift cmp width lp m head pshift
      else if pshift = 0 then None
      else do {
        l \<leftarrow> lp_at lp (pshift - 1);
        if l \<ge> high - head then trinkle cmp width lp m head p pshift False
        else sift cmp width lp m head pshift })"

partial_function (option) build_loop :: "(bytes \<Rightarrow> bytes \<Rightarrow> int) \<Rightarrow> nat \<Rightarrow> nat list \<Rightarrow> nat \<Rightarrow> bytes \<Rightarrow> nat \<Rightarrow> pvec \<Rightarrow> nat \<Rightarrow> (bytes \<times> nat \<times> pvec \<times> nat) option" where
  "build_loop cmp width lp high m head p pshift =
     (if head < high then do {
        m \<leftarrow> build_step_c cmp width lp high m head p pshift;
        pq \<leftarrow> next_p p pshift;
        build_loop cmp width lp high m (head + width) (fst pq) (snd pq) }
      else Some (m, head, p, pshift))"

text \<open>One pass of the last loop.\<close>

definition shrink_step_c :: "(bytes \<Rightarrow> bytes \<Rightarrow> int) \<Rightarrow> nat \<Rightarrow> nat list \<Rightarrow> bytes \<Rightarrow> nat \<Rightarrow> pvec \<Rightarrow> nat \<Rightarrow> (bytes \<times> pvec \<times> nat) option" where
  "shrink_step_c cmp width lp m head p pshift =
     (if pshift \<le> 1 then do {
        q \<leftarrow> shr p (pntz p);
        Some (m, q, pshift + pntz p) }
      else do {
        p \<leftarrow> shl p 2;
        p \<leftarrow> shr (xor (fst p) 7, snd p) 1;
        l \<leftarrow> lp_at lp (pshift - 2);
        a \<leftarrow> pback head l;
        a \<leftarrow> pback a width;
        m \<leftarrow> trinkle cmp width lp m a p (pshift - 2 + 1) True;
        p \<leftarrow> shl p 1;
        b \<leftarrow> pback head width;
        m \<leftarrow> trinkle cmp width lp m b (or (fst p) 1, snd p) (pshift - 2) True;
        Some (m, (or (fst p) 1, snd p), pshift - 2) })"

partial_function (option) shrink_loop :: "(bytes \<Rightarrow> bytes \<Rightarrow> int) \<Rightarrow> nat \<Rightarrow> nat list \<Rightarrow> bytes \<Rightarrow> nat \<Rightarrow> pvec \<Rightarrow> nat \<Rightarrow> bytes option" where
  "shrink_loop cmp width lp m head p pshift =
     (if pshift \<noteq> 1 \<or> p \<noteq> (1, 0) then do {
        r \<leftarrow> shrink_step_c cmp width lp m head p pshift;
        h \<leftarrow> pback head width;
        shrink_loop cmp width lp (fst r) h (fst (snd r)) (snd (snd r)) }
      else Some m)"

declare trinkle_loop.simps [code] build_loop.simps [code] shrink_loop.simps [code]

definition qsort_r :: "(bytes \<Rightarrow> bytes \<Rightarrow> int) \<Rightarrow> nat \<Rightarrow> nat \<Rightarrow> bytes \<Rightarrow> bytes option" where
  "qsort_r cmp nel width m =
     (let sz = width * nel mod 2 ^ 64
      in if sz = 0 then Some m
         else do {
           let high = sz - width;
           lp \<leftarrow> lp_loop width sz [width, width];
           (m, head, p, pshift) \<leftarrow> build_loop cmp width lp high m 0 (1, 0) 1;
           m \<leftarrow> trinkle cmp width lp m head p pshift False;
           shrink_loop cmp width lp m head p pshift })"

text \<open>\<open>qsort\<close>: the comparison function is the argument that the wrapper calls.\<close>

definition wrapper_cmp :: "bytes \<Rightarrow> bytes \<Rightarrow> (bytes \<Rightarrow> bytes \<Rightarrow> int) \<Rightarrow> int" where
  "wrapper_cmp v1 v2 cmp = cmp v1 v2"

definition qsort :: "nat \<Rightarrow> nat \<Rightarrow> (bytes \<Rightarrow> bytes \<Rightarrow> int) \<Rightarrow> bytes \<Rightarrow> bytes option" where
  "qsort nel width cmp m = qsort_r (\<lambda>v1 v2. wrapper_cmp v1 v2 cmp) nel width m"

section \<open>The bit vector represents the orders\<close>

lemma bit_decr_odd:
  fixes x :: u64
  assumes "bit x 0"
  shows "bit (x - 1) j \<longleftrightarrow> bit x j \<and> j \<noteq> 0"
proof -
  obtain z where z: "x = 2 * z + 1" using assms by (auto simp: bit_0 elim: oddE)
  have "bit (1 + 2 * z) j \<longleftrightarrow> bit (2 * z) j \<or> j = 0" by (rule even_bit_succ_iff) simp
  moreover have "\<not> bit (2 * z) 0" by (simp add: bit_0)
  ultimately show ?thesis by (cases j) (auto simp: z add.commute)
qed

lemma lowest_bit_odd:
  fixes y :: u64
  assumes "bit y 0"
  shows "and y (- y) = 1"
proof (rule bit_word_eqI)
  fix j assume "j < LENGTH(64)"
  then show "bit (and y (- y)) j \<longleftrightarrow> bit (1 :: u64) j"
    using assms by (auto simp: bit_and_iff minus_eq_not_minus_1 [of y] bit_not_iff bit_decr_odd [OF assms] bit_1_iff)
qed

lemma lowest_bit:
  fixes x :: u64
  assumes "bit x i" "\<And>j. j < i \<Longrightarrow> \<not> bit x j"
  shows "and x (- x) = push_bit i 1"
proof -
  let ?y = "drop_bit i x"
  have x: "x = push_bit i ?y"
  proof (rule bit_word_eqI)
    fix n assume "n < LENGTH(64)"
    then show "bit x n \<longleftrightarrow> bit (push_bit i (drop_bit i x)) n"
      using assms(2) [of n] by (cases "n < i") (simp_all add: bit_push_bit_iff bit_drop_bit_eq o_def)
  qed
  have "bit ?y 0" using assms(1) by (simp add: bit_drop_bit_eq)
  have "- x = push_bit i (- ?y)" by (subst x) (simp add: push_bit_eq_mult)
  then have "and x (- x) = and (push_bit i ?y) (push_bit i (- ?y))" using x by simp
  also have "\<dots> = push_bit i (and ?y (- ?y))" by (simp only: push_bit_and)
  also have "\<dots> = push_bit i 1" using lowest_bit_odd [OF \<open>bit ?y 0\<close>] by simp
  finally show ?thesis .
qed

lemma debruijn_ok: "\<forall>i \<in> set [0..<64]. debruijn64 ! unat (drop_bit 58 (push_bit i 1 * (0x022fdd63cc95386d :: u64))) = i"
  unfolding debruijn64_def by code_simp

lemma a_ctz_64_eq:
  assumes "bit x i" "\<And>j. j < i \<Longrightarrow> \<not> bit x j"
  shows "a_ctz_64 x = i"
proof -
  have "i < 64" using bit_imp_le_length [OF assms(1)] by simp
  moreover have "and x (- x) = push_bit i 1" using assms by (rule lowest_bit)
  ultimately show ?thesis using debruijn_ok unfolding a_ctz_64_def by simp
qed

text \<open>Bit \<open>i\<close> of the vector is set when the order \<open>k + i\<close> is in the forest.\<close>

definition pv :: "nat set \<Rightarrow> nat \<Rightarrow> pvec \<Rightarrow> bool" where
  "pv S k p \<longleftrightarrow> snd p = 0 \<and> (\<forall>i. bit (fst p) i \<longleftrightarrow> k + i \<in> S)"

lemma pv_cong: "pv S k p \<Longrightarrow> (\<And>s. k \<le> s \<Longrightarrow> s \<in> S \<longleftrightarrow> s \<in> T) \<Longrightarrow> pv T k p"
  by (simp add: pv_def)

lemma pv_pntz:
  assumes "pv S k p" "k \<in> S" "j \<in> S" "k < j" "\<And>s. s \<in> S \<Longrightarrow> k < s \<Longrightarrow> j \<le> s"
  shows "pntz p = j - k"
proof -
  have b: "bit (fst p) i \<longleftrightarrow> k + i \<in> S" for i using assms(1) by (simp add: pv_def)
  have "bit (fst p - 1) i \<longleftrightarrow> k + i \<in> S \<and> i \<noteq> 0" for i using bit_decr_odd [of "fst p" i] b [of 0] b [of i] assms(2) by simp
  then have "a_ctz_64 (fst p - 1) = j - k" using assms(3-5) by (intro a_ctz_64_eq) fastforce+
  then show ?thesis using assms(4) by (simp add: pntz_def)
qed

lemma pv_shr:
  assumes "pv S k p" "0 < n" "n < 64"
  shows "\<exists>q. shr p n = Some q \<and> pv S (k + n) q"
  using assms by (auto simp: shr_def pv_def bit_drop_bit_eq o_def ac_simps)

lemma pv_shl:
  assumes "pv S k p" "0 < n" "n \<le> k" "n < 64" "\<And>s. s \<in> S \<Longrightarrow> k \<le> s \<and> s < 64"
  shows "\<exists>q. shl p n = Some q \<and> pv S (k - n) q"
proof -
  have b: "bit (fst p) i \<longleftrightarrow> k + i \<in> S" for i using assms(1) by (simp add: pv_def)
  have "drop_bit (64 - n) (fst p) = 0"
  proof (rule bit_word_eqI)
    fix i assume "i < LENGTH(64)"
    have "k + (64 - n + i) \<notin> S" using assms(3,5) by fastforce
    then show "bit (drop_bit (64 - n) (fst p)) i \<longleftrightarrow> bit (0 :: u64) i" using b [of "64 - n + i"] by (simp add: bit_drop_bit_eq o_def)
  qed
  moreover have "bit (push_bit n (fst p)) i \<longleftrightarrow> k - n + i \<in> S" for i
  proof (cases "n \<le> i \<and> i < 64")
    case True
    then show ?thesis using b [of "i - n"] assms(3) by (simp add: bit_push_bit_iff)
  next
    case False
    then have "k - n + i \<notin> S" using assms(3,5) by fastforce
    then show ?thesis using False by (auto simp: bit_push_bit_iff dest: bit_imp_le_length)
  qed
  ultimately show ?thesis using assms(1,2,4) by (simp add: shl_def pv_def)
qed

lemma pv_or_1: "pv S k p \<Longrightarrow> pv (insert k S) k (or (fst p) 1, snd p)"
  by (auto simp: pv_def bit_or_iff bit_1_iff)

lemma bit_mask7: "bit (7 :: u64) i \<longleftrightarrow> i < 3"
proof -
  have "(7 :: u64) = mask 3" by (simp add: mask_eq_exp_minus_1)
  then show ?thesis unfolding bit_mask_iff by (simp only: bit_mask_iff possible_bit_word) auto
qed

lemma pv_xor_7:
  assumes "pv S k p" "k \<notin> S" "k + 1 \<notin> S" "k + 2 \<in> S"
  shows "pv (insert k (insert (k + 1) (S - {k + 2}))) k (xor (fst p) 7, snd p)"
proof -
  have "bit (xor (fst p) 7) i \<longleftrightarrow> k + i \<in> insert k (insert (k + 1) (S - {k + 2}))" for i
  proof (cases "i < 3")
    case True
    then consider "i = 0" | "i = 1" | "i = 2" by linarith
    then show ?thesis using assms by cases (auto simp: pv_def bit_xor_iff)
  next
    case False
    then have "\<not> bit (7 :: u64) i" unfolding bit_mask7 .
    then show ?thesis using False assms(1) by (auto simp: pv_def bit_xor_iff)
  qed
  then show ?thesis using assms(1) by (simp add: pv_def)
qed

lemma pv_one:
  assumes "pv S k p" "k \<in> S"
  shows "p = (1, 0) \<longleftrightarrow> (\<forall>s \<in> S. s \<le> k)"
proof -
  have b: "bit (fst p) i \<longleftrightarrow> k + i \<in> S" for i using assms(1) by (simp add: pv_def)
  have "fst p = 1 \<longleftrightarrow> (\<forall>s \<in> S. s \<le> k)"
  proof
    assume f: "fst p = 1"
    show "\<forall>s \<in> S. s \<le> k"
    proof
      fix s assume "s \<in> S"
      then show "s \<le> k" using b [of "s - k"] f by (cases "s \<le> k") (simp_all add: bit_1_iff)
    qed
  next
    assume "\<forall>s \<in> S. s \<le> k"
    then have "bit (fst p) i \<longleftrightarrow> i = 0" for i using b [of i] assms(2) by force
    then show "fst p = 1" by (intro bit_word_eqI) (simp add: bit_1_iff)
  qed
  then show ?thesis using assms(1) by (cases p) (auto simp: pv_def)
qed

lemma pv_and_3:
  assumes "pv S k p" "k \<in> S"
  shows "and (fst p) 3 = 3 \<longleftrightarrow> k + 1 \<in> S"
proof -
  have b: "bit (fst p) i \<longleftrightarrow> k + i \<in> S" for i using assms(1) by (simp add: pv_def)
  have m: "(3 :: u64) = mask 2" by (simp add: mask_eq_exp_minus_1)
  have "bit (fst p) 1" if "and (fst p) 3 = 3"
    using arg_cong [OF that, of "\<lambda>x. bit x 1"] by (simp add: bit_and_iff)
  moreover have "and (fst p) 3 = 3" if "bit (fst p) 0" "bit (fst p) 1"
    by (rule bit_word_eqI) (use that in \<open>auto simp only: m bit_and_iff bit_mask_iff less_2_cases_iff One_nat_def\<close>)
  ultimately show ?thesis using assms(2) b [of 0] b [of 1] by auto
qed

section \<open>The array as a list of elements\<close>

definition elems :: "nat \<Rightarrow> bytes list \<Rightarrow> bool" where
  "elems w xs \<longleftrightarrow> 0 < w \<and> (\<forall>x \<in> set xs. length x = w)"

lemma elems_nth: "elems w xs \<Longrightarrow> i < length xs \<Longrightarrow> length (xs ! i) = w"
  by (simp add: elems_def)

lemma elems_update: "elems w xs \<Longrightarrow> length x = w \<Longrightarrow> elems w (xs[i := x])"
  using set_update_subset_insert [of xs i x] by (auto simp: elems_def)

lemma length_elems: "elems w xs \<Longrightarrow> length (concat xs) = length xs * w"
proof -
  assume "elems w xs"
  then have "map length xs = map (\<lambda>_. w) xs" by (simp add: elems_def)
  then show ?thesis by (simp add: length_concat sum_list_triv del: map_eq_conv)
qed

lemma concat_split:
  assumes "elems w xs" "i < length xs"
  shows "concat xs = concat (take i xs) @ xs ! i @ concat (drop (Suc i) xs)" "length (concat (take i xs)) = i * w"
proof -
  show "concat xs = concat (take i xs) @ xs ! i @ concat (drop (Suc i) xs)"
    using arg_cong [OF id_take_nth_drop [OF assms(2)], of concat] by simp
  have "elems w (take i xs)" using assms(1) by (auto simp: elems_def dest: in_set_takeD)
  then show "length (concat (take i xs)) = i * w" using length_elems assms(2) by fastforce
qed

lemma ld_part:
  assumes "elems w xs" "i < length xs" "d + l \<le> w"
  shows "mem_ld l (concat xs) (i * w + d) = Some (take l (drop d (xs ! i)))"
proof -
  note c = concat_split [OF assms(1,2)]
  have "i * w + w \<le> length xs * w" using mult_le_mono1 [of "Suc i" "length xs" w] assms(2) by simp
  then have "i * w + d + l \<le> length (concat xs)" using assms(3) length_elems [OF assms(1)] by linarith
  then show ?thesis using elems_nth [OF assms(1,2)] assms(3) unfolding mem_ld_def by (subst (2) c(1)) (simp add: c(2))
qed

lemma ld_elem: "elems w xs \<Longrightarrow> i < length xs \<Longrightarrow> mem_ld w (concat xs) (i * w) = Some (xs ! i)"
  using ld_part [of w xs i 0 w] by (simp add: elems_nth)

lemma st_part:
  assumes "elems w xs" "i < length xs" "d + length b \<le> w"
  shows "mem_st (concat xs) (i * w + d) b = Some (concat (xs[i := take d (xs ! i) @ b @ drop (d + length b) (xs ! i)]))"
proof -
  note c = concat_split [OF assms(1,2)]
  let ?y = "take d (xs ! i) @ b @ drop (d + length b) (xs ! i)"
  have "i * w + w \<le> length xs * w" using mult_le_mono1 [of "Suc i" "length xs" w] assms(2) by simp
  then have "i * w + d + length b \<le> length (concat xs)" using assms(3) length_elems [OF assms(1)] by linarith
  moreover have "concat (xs[i := ?y]) = concat (take i xs) @ ?y @ concat (drop (Suc i) xs)"
    by (simp add: upd_conv_take_nth_drop [OF assms(2)])
  ultimately show ?thesis
    using elems_nth [OF assms(1,2)] assms(3) unfolding mem_st_def by (subst (2 3) c(1)) (simp add: c(2))
qed

section \<open>\<open>cycle\<close> moves the elements along the path\<close>

text \<open>One pass of the copying loop moves bytes \<open>d\<close> to \<open>d + l\<close> of the elements.\<close>

fun part_rot :: "nat \<Rightarrow> nat \<Rightarrow> bytes list \<Rightarrow> nat list \<Rightarrow> bytes \<Rightarrow> bytes list" where
  "part_rot d l xs [] t = xs"
| "part_rot d l xs [a] t = xs[a := take d (xs ! a) @ t @ drop (d + l) (xs ! a)]"
| "part_rot d l xs (a # b # ar) t = part_rot d l (xs[a := take d (xs ! a) @ take l (drop d (xs ! b)) @ drop (d + l) (xs ! a)]) (b # ar) t"

lemma length_part_rot [simp]: "length (part_rot d l xs ar t) = length xs"
  by (induction d l xs ar t rule: part_rot.induct) simp_all

lemma cycle_copy_elems:
  "elems w xs \<Longrightarrow> set ar \<subseteq> {..<length xs} \<Longrightarrow> d + l \<le> w \<Longrightarrow> length t = l \<Longrightarrow>
   cycle_copy l t (concat xs) (map (\<lambda>i. i * w + d) ar) = Some (concat (part_rot d l xs ar t))"
proof (induction d l xs ar t rule: part_rot.induct)
  case (2 d l xs a t)
  then show ?case using st_part [of w xs a d t] by simp
next
  case (3 d l xs a b ar t)
  let ?x = "take l (drop d (xs ! b))"
  have r: "mem_ld l (concat xs) (b * w + d) = Some ?x" using 3 by (intro ld_part) auto
  have l: "length ?x = l" "length (xs ! a) = w" using 3 by (simp_all add: elems_nth)
  then have "mem_st (concat xs) (a * w + d) ?x = Some (concat (xs[a := take d (xs ! a) @ ?x @ drop (d + l) (xs ! a)]))"
    using st_part [of w xs a d ?x] 3 by simp
  moreover have "elems w (xs[a := take d (xs ! a) @ ?x @ drop (d + l) (xs ! a)])" using 3 l by (intro elems_update) simp_all
  ultimately show ?case using 3 r by simp
qed simp

lemma rot_nth:
  "distinct ar \<Longrightarrow> set ar \<subseteq> {..<length xs} \<Longrightarrow> j < length ar \<Longrightarrow>
   rot xs ar x ! (ar ! j) = (if Suc j < length ar then xs ! (ar ! Suc j) else x)"
proof (induction xs ar x arbitrary: j rule: rot.induct)
  case (3 xs h h' hs x)
  show ?case
  proof (cases j)
    case 0
    then show ?thesis using 3 by (simp add: rot_other)
  next
    case (Suc i)
    then have "(h # h' # hs) ! Suc j \<noteq> h" if "Suc j < length (h # h' # hs)" using 3(2) that by (auto simp: nth_eq_iff_index_eq)
    then show ?thesis using 3 Suc by auto
  qed
qed simp_all

lemma part_rot_other: "i \<notin> set ar \<Longrightarrow> part_rot d l xs ar t ! i = xs ! i"
  by (induction d l xs ar t rule: part_rot.induct) simp_all

lemma part_rot_nth:
  "distinct ar \<Longrightarrow> set ar \<subseteq> {..<length xs} \<Longrightarrow> j < length ar \<Longrightarrow>
   part_rot d l xs ar t ! (ar ! j) =
     take d (xs ! (ar ! j)) @ (if Suc j < length ar then take l (drop d (xs ! (ar ! Suc j))) else t) @ drop (d + l) (xs ! (ar ! j))"
proof (induction d l xs ar t arbitrary: j rule: part_rot.induct)
  case (3 d l xs a b ar t)
  show ?case
  proof (cases j)
    case 0
    then show ?thesis using 3 by (simp add: part_rot_other)
  next
    case (Suc i)
    then have "(a # b # ar) ! Suc j \<noteq> a" if "Suc j < length (a # b # ar)" using 3(2) that by (auto simp: nth_eq_iff_index_eq)
    moreover have "(a # b # ar) ! j \<noteq> a" using 3(2,4) Suc nth_mem [of i "b # ar"] by auto
    ultimately show ?thesis using 3 Suc by auto
  qed
qed simp_all

text \<open>The elements after the first \<open>d\<close> bytes were moved.\<close>

definition half :: "nat \<Rightarrow> bytes list \<Rightarrow> bytes list \<Rightarrow> bytes list" where
  "half d xs ys = map (\<lambda>i. take d (ys ! i) @ drop d (xs ! i)) [0..<length xs]"

lemma length_half [simp]: "length (half d xs ys) = length xs"
  by (simp add: half_def)

lemma half_nth:
  assumes "elems w xs" "elems w ys" "length ys = length xs" "i < length xs" "d \<le> w"
  shows "half d xs ys ! i = take d (ys ! i) @ drop d (xs ! i)" "take d (half d xs ys ! i) = take d (ys ! i)"
    "drop d (half d xs ys ! i) = drop d (xs ! i)" "drop (d + l) (half d xs ys ! i) = drop (d + l) (xs ! i)"
proof -
  show e: "half d xs ys ! i = take d (ys ! i) @ drop d (xs ! i)" using assms(4) by (simp add: half_def)
  have "length (take d (ys ! i)) = d" using elems_nth [OF assms(2)] assms(3-5) by simp
  then show "take d (half d xs ys ! i) = take d (ys ! i)" "drop d (half d xs ys ! i) = drop d (xs ! i)"
    "drop (d + l) (half d xs ys ! i) = drop (d + l) (xs ! i)" unfolding e by (simp_all add: add.commute)
qed

lemma elems_half:
  assumes "elems w xs" "elems w ys" "length ys = length xs" "d \<le> w"
  shows "elems w (half d xs ys)"
proof -
  have "length (half d xs ys ! i) = w" if "i < length xs" for i
    using half_nth(1) [OF assms(1-3) that assms(4)] elems_nth [OF assms(1) that] elems_nth [OF assms(2), of i] that assms(3,4) by simp
  then show ?thesis using assms(1) by (auto simp: elems_def in_set_conv_nth)
qed

lemma elems_rot:
  "elems w xs \<Longrightarrow> set ar \<subseteq> {..<length xs} \<Longrightarrow> length x = w \<Longrightarrow> elems w (rot xs ar x)"
  by (induction xs ar x rule: rot.induct) (simp_all add: elems_update elems_nth)

lemma part_rot_half:
  assumes "elems w xs" "distinct ar" "ar \<noteq> []" "set ar \<subseteq> {..<length xs}" "d + l \<le> w"
    and ys: "ys = rot xs ar (xs ! hd ar)"
  shows "part_rot d l (half d xs ys) ar (take l (drop d (xs ! hd ar))) = half (d + l) xs ys"
proof (rule nth_equalityI)
  have h: "hd ar < length xs" using assms(3,4) by (cases ar) auto
  have e: "elems w ys" "length ys = length xs"
    using elems_rot [OF assms(1,4) elems_nth [OF assms(1) h]] by (simp_all add: ys)
  have dw: "d \<le> w" using assms(5) by simp
  note n = half_nth [OF assms(1) e _ dw] and n' = half_nth(1) [OF assms(1) e _ assms(5)]
  fix i assume "i < length (part_rot d l (half d xs ys) ar (take l (drop d (xs ! hd ar))))"
  then have i: "i < length xs" by simp
  show "part_rot d l (half d xs ys) ar (take l (drop d (xs ! hd ar))) ! i = half (d + l) xs ys ! i"
  proof (cases "i \<in> set ar")
    case False
    then have "ys ! i = xs ! i" unfolding ys by (rule rot_other)
    then show ?thesis using False n(1) [OF i] n' [OF i] by (simp add: part_rot_other)
  next
    case True
    then obtain j where j: "j < length ar" "ar ! j = i" by (auto simp: in_set_conv_nth)
    have y: "ys ! i = (if Suc j < length ar then xs ! (ar ! Suc j) else xs ! hd ar)"
      using rot_nth [OF assms(2,4) j(1)] by (simp add: ys j(2))
    have "(if Suc j < length ar then take l (drop d (half d xs ys ! (ar ! Suc j))) else take l (drop d (xs ! hd ar))) = take l (drop d (ys ! i))"
    proof (cases "Suc j < length ar")
      case True
      then have "ar ! Suc j < length xs" using subsetD [OF assms(4) nth_mem [of "Suc j" ar]] by simp
      then show ?thesis using True n(3) y by simp
    qed (simp add: y)
    then have "part_rot d l (half d xs ys) ar (take l (drop d (xs ! hd ar))) ! i = take d (ys ! i) @ take l (drop d (ys ! i)) @ drop (d + l) (xs ! i)"
      using part_rot_nth [of ar "half d xs ys" j d l] assms(2,4) j n(2) [OF i] n(4) [OF i] by simp
    then show ?thesis using n' [OF i] by (simp add: take_add)
  qed
qed simp

lemma cycle_loop_elems:
  assumes "elems w xs" "distinct ar" "ar \<noteq> []" "set ar \<subseteq> {..<length xs}"
    and ys: "ys = rot xs ar (xs ! hd ar)"
  shows "d \<le> w \<Longrightarrow> cycle_loop (w - d) (concat (half d xs ys)) (map (\<lambda>i. i * w + d) ar) = Some (concat ys)"
proof (induction "w - d" arbitrary: d rule: less_induct)
  case less
  have h: "hd ar < length xs" using assms(3,4) by (cases ar) auto
  have e: "elems w ys" "length ys = length xs"
    using elems_rot [OF assms(1,4) elems_nth [OF assms(1) h]] by (simp_all add: ys)
  show ?case
  proof (cases "d = w")
    case True
    have "half w xs ys = ys"
      using half_nth(1) [OF assms(1) e _ order_refl] e(2) elems_nth [OF assms(1)] elems_nth [OF e(1)] by (intro nth_equalityI) simp_all
    then show ?thesis using True by (simp add: cycle_loop.simps)
  next
    case False
    define l where "l = (if 256 < w - d then 256 else w - d)"
    have l: "0 < l" "d + l \<le> w" using False less.prems by (auto simp: l_def)
    note eh = elems_half [OF assms(1) e less.prems]
    have r: "mem_ld l (concat (half d xs ys)) (hd (map (\<lambda>i. i * w + d) ar)) = Some (take l (drop d (xs ! hd ar)))"
      using ld_part [OF eh _ l(2), of "hd ar"] h half_nth(3) [OF assms(1) e h less.prems] assms(3) by (simp add: hd_map)
    have "length (take l (drop d (xs ! hd ar))) = l" using elems_nth [OF assms(1) h] l(2) by simp
    with cycle_copy_elems [OF eh _ l(2), of ar] assms(4) part_rot_half [OF assms(1-4) l(2) ys]
    have c: "cycle_copy l (take l (drop d (xs ! hd ar))) (concat (half d xs ys)) (map (\<lambda>i. i * w + d) ar) = Some (concat (half (d + l) xs ys))"
      by simp
    have "cycle_loop (w - (d + l)) (concat (half (d + l) xs ys)) (map (\<lambda>i. i * w + (d + l)) ar) = Some (concat ys)"
      using l by (intro less.hyps) simp_all
    then show ?thesis
      using r c False less.prems unfolding cycle_loop.simps [of "w - d"] l_def [symmetric] by (simp add: Let_def o_def add.assoc)
  qed
qed

lemma cycle_elems:
  assumes "elems w xs" "distinct (h # hs)" "set (h # hs) \<subseteq> {..<length xs}" "length (h # hs) < AR_LEN"
  shows "cycle w (concat xs) (map (\<lambda>i. i * w) (h # hs)) = Some (concat (rot xs (h # hs) (xs ! h)))"
proof (cases hs)
  case Nil
  then show ?thesis using assms(3) by (simp add: cycle_def)
next
  case (Cons b r)
  let ?ys = "rot xs (h # hs) (xs ! h)"
  have "half 0 xs ?ys = xs" by (simp add: half_def map_nth)
  then show ?thesis
    using cycle_loop_elems [OF assms(1,2) _ assms(3), of ?ys 0] assms(4) by (simp add: cycle_def Cons)
qed

section \<open>\<open>sift\<close> and \<open>trinkle\<close> on elements\<close>

text \<open>The comparison function orders the elements: swapping its arguments negates the order, and it is transitive.\<close>

definition cmp_orders :: "('a \<Rightarrow> 'a \<Rightarrow> int) \<Rightarrow> bool" where
  "cmp_orders cmp \<longleftrightarrow> (\<forall>x y. cmp x y \<le> 0 \<longleftrightarrow> 0 \<le> cmp y x) \<and> (\<forall>x y z. cmp x y \<le> 0 \<longrightarrow> cmp y z \<le> 0 \<longrightarrow> cmp x z \<le> 0)"

abbreviation cle :: "('a \<Rightarrow> 'a \<Rightarrow> int) \<Rightarrow> 'a \<Rightarrow> 'a \<Rightarrow> bool" where
  "cle cmp x y \<equiv> cmp x y \<le> 0"

lemma cmp_orders_ge: "cmp_orders cmp \<Longrightarrow> 0 \<le> cmp y x \<longleftrightarrow> cle cmp x y"
  by (simp add: cmp_orders_def)

lemma cmp_orders_preorder:
  assumes "cmp_orders cmp"
  shows "preorder (cle cmp)"
  unfolding preorder_def
proof (intro conjI allI impI)
  show "cle cmp x y \<or> cle cmp y x" for x y using cmp_orders_ge [OF assms, of y x] by linarith
  show "cle cmp x z" if "cle cmp x y" "cle cmp y z" for x y z using assms that unfolding cmp_orders_def by blast
qed

text \<open>The table has the Leonardo numbers up to the size of the array.\<close>

definition leo_table :: "nat \<Rightarrow> nat list \<Rightarrow> nat \<Rightarrow> bool" where
  "leo_table w lp n \<longleftrightarrow> lp = map (\<lambda>i. leo i * w) [0..<length lp] \<and> (\<forall>k. leo k \<le> n \<longrightarrow> k < length lp)"

lemma lp_at_leo: "leo_table w lp n \<Longrightarrow> leo k \<le> n \<Longrightarrow> lp_at lp k = Some (leo k * w)"
  unfolding leo_table_def lp_at_def by (metis (no_types, lifting) add_0 length_map length_upt minus_nat.diff_0 nth_map nth_upt)

lemma pback_elems: "d \<le> h \<Longrightarrow> pback (h * w) (d * w) = Some ((h - d) * w)"
  by (simp add: pback_def diff_mult_distrib)

lemma pback_one: "0 < h \<Longrightarrow> pback (h * w) w = Some ((h - 1) * w)"
  using pback_elems [of 1 h w] by simp

lemma cmp_at_elems:
  "elems w xs \<Longrightarrow> a < length xs \<Longrightarrow> b < length xs \<Longrightarrow> cmp_at cmp w (concat xs) (a * w) (b * w) = Some (cmp (xs ! a) (xs ! b))"
  by (simp add: cmp_at_def ld_elem)

text \<open>The two sons of the code.\<close>

lemma pback_sons:
  assumes "1 < k" "leo k \<le> Suc h" "h < n" "leo_table w lp n"
  shows "pback (h * w) w = Some ((h - 1) * w)" "lp_at lp (k - 2) = Some (leo (k - 2) * w)"
    "pback ((h - 1) * w) (leo (k - 2) * w) = Some (lson k h * w)"
proof -
  note r = tree_range [OF assms(1,2)]
  show "pback (h * w) w = Some ((h - 1) * w)" using r by (intro pback_one) linarith
  show "lp_at lp (k - 2) = Some (leo (k - 2) * w)" using r assms(3) by (intro lp_at_leo [OF assms(4)]) linarith
  have "leo (k - 2) \<le> h - 1" using leo_step [OF assms(1)] assms(2) leo_pos [of "k - 1"] by linarith
  then show "pback ((h - 1) * w) (leo (k - 2) * w) = Some (lson k h * w)" unfolding lson_def by (rule pback_elems)
qed

lemma sift_loop_elems:
  assumes "elems w xs" "cmp_orders cmp" "leo_table w lp (length xs)" "a < length xs"
  shows "leo k \<le> Suc h \<Longrightarrow> h < length xs \<Longrightarrow> ar \<noteq> [] \<Longrightarrow> hd ar = a * w \<Longrightarrow> length ar + k \<le> AR_LEN \<Longrightarrow>
    sift_loop cmp w lp (concat xs) (h * w) k ar = Some (ar @ map (\<lambda>i. i * w) (spath (cle cmp) xs (xs ! a) k h))"
proof (induction k arbitrary: h ar rule: less_induct)
  case (less k)
  show ?case
  proof (cases "1 < k")
    case True
    note r = tree_range [OF True less.prems(1)] and b = pback_sons [OF True less.prems(1,2) assms(3)]
    have n: "lson k h < length xs" "h - 1 < length xs" using r less.prems(2) by linarith+
    note c = cmp_at_elems [OF assms(1), of _ _ cmp]
    note ge = cmp_orders_ge [OF assms(2)]
    have p: "push_ar ar z = Some (ar @ [z])" for z using less.prems(5) True by (simp add: push_ar_def)
    have l: "sift_loop cmp w lp (concat xs) (lson k h * w) (k - 1) (ar @ [lson k h * w]) =
        Some ((ar @ [lson k h * w]) @ map (\<lambda>i. i * w) (spath (cle cmp) xs (xs ! a) (k - 1) (lson k h)))"
      using r(2) n(1) less.prems(3-5) True by (intro less.IH) simp_all
    have t: "sift_loop cmp w lp (concat xs) ((h - 1) * w) (k - 2) (ar @ [(h - 1) * w]) =
        Some ((ar @ [(h - 1) * w]) @ map (\<lambda>i. i * w) (spath (cle cmp) xs (xs ! a) (k - 2) (h - 1)))"
      using r(4) n(2) less.prems(3-5) True by (intro less.IH) simp_all
    show ?thesis
      unfolding sift_loop.simps [of _ _ _ _ _ k] spath.simps [of _ _ _ k] b less.prems(4) bind.bind_lunit
        c [OF assms(4) n(1)] c [OF assms(4) n(2)] c [OF n] ge p l t
      using True by simp
  qed (simp add: sift_loop.simps spath_small)
qed

lemma sift_elems:
  assumes "elems w xs" "cmp_orders cmp" "leo_table w lp (length xs)" "leo k \<le> Suc h" "h < length xs" "k < 100"
  shows "sift cmp w lp (concat xs) (h * w) k = Some (concat (sink (cle cmp) xs (xs ! h) k h))"
proof -
  let ?p = "spath (cle cmp) xs (xs ! h) k h"
  have "sift_loop cmp w lp (concat xs) (h * w) k [h * w] = Some (map (\<lambda>i. i * w) (h # ?p))"
    using sift_loop_elems [OF assms(1-3,5,4,5), of "[h * w]"] assms(6) by (simp add: AR_LEN_def)
  moreover have "cycle w (concat xs) (map (\<lambda>i. i * w) (h # ?p)) = Some (concat (rot xs (h # ?p) (xs ! h)))"
    using spath_range [OF assms(4), of "cle cmp" xs "xs ! h"] assms(5,6) by (intro cycle_elems [OF assms(1)]) (auto simp: AR_LEN_def)
  ultimately show ?thesis unfolding sift_def rot_spath [OF assms(4)] by simp
qed

lemma leo_tot: "k \<in> set os \<Longrightarrow> leo k \<le> tot os"
  by (induction os) auto

lemma order_bound: "k \<in> set os \<Longrightarrow> tot os \<le> n \<Longrightarrow> n < leo 64 \<Longrightarrow> k < 64"
  using leo_tot [of k os] leo_mono [of 64 k] by (cases "k < 64") auto

lemma orders_length: "sorted_wrt (<) os \<Longrightarrow> (\<And>k. k \<in> set os \<Longrightarrow> k < n) \<Longrightarrow> length os \<le> n" for os :: "nat list"
proof -
  assume s: "sorted_wrt (<) os" and b: "\<And>k. k \<in> set os \<Longrightarrow> k < n"
  have "length os = card (set os)" using strict_sorted_iff [of os] s distinct_card by fastforce
  also have "\<dots> \<le> card {..<n}" using b by (intro card_mono) auto
  finally show ?thesis by simp
qed

text \<open>Dropping the last tree is a shift by the distance to the next order.\<close>

lemma pv_next:
  assumes "pv (set (k # j # r)) k p" "sorted_wrt (<) (k # j # r)" "j < 64"
  shows "pntz p = j - k" "\<exists>q. shr p (j - k) = Some q \<and> pv (set (j # r)) j q"
proof -
  have s: "k < j" "\<And>s. s \<in> set r \<Longrightarrow> j < s" using assms(2) by auto
  show "pntz p = j - k" by (rule pv_pntz [OF assms(1)]) (use s in \<open>auto dest: less_imp_le\<close>)
  obtain q where q: "shr p (j - k) = Some q" "pv (set (k # j # r)) (k + (j - k)) q"
    using pv_shr [OF assms(1), of "j - k"] s(1) less_imp_diff_less [OF assms(3), of k] by auto
  have "pv (set (j # r)) j q" by (rule pv_cong [of "set (k # j # r)"]) (use q(2) s(1) in auto)
  with q(1) show "\<exists>q. shr p (j - k) = Some q \<and> pv (set (j # r)) j q" by blast
qed

lemma sons_larger_elems:
  assumes "elems w xs" "cmp_orders cmp" "leo_table w lp (length xs)" "leo k \<le> Suc h" "h < length xs" "s < length xs"
  shows "sons_larger cmp w lp (concat xs) (h * w) (s * w) k trusty =
    Some (\<not> trusty \<and> 1 < k \<and> (cle cmp (xs ! s) (xs ! (h - 1)) \<or> cle cmp (xs ! s) (xs ! lson k h)))"
proof (cases "1 < k")
  case True
  note r = tree_range [OF True assms(4)] and b = pback_sons [OF True assms(4,5,3)]
  have n: "lson k h < length xs" "h - 1 < length xs" using r assms(5) by linarith+
  show ?thesis
    unfolding sons_larger_def b bind.bind_lunit cmp_at_elems [OF assms(1) n(2) assms(6)] cmp_at_elems [OF assms(1) n(1) assms(6)]
      cmp_orders_ge [OF assms(2)]
    using True by simp
qed (simp add: sons_larger_def)

lemma trinkle_loop_elems:
  assumes "elems w xs" "cmp_orders cmp" "leo_table w lp (length xs)" "a < length xs" "length xs < leo 64"
  shows "os \<noteq> [] \<Longrightarrow> sorted_wrt (<) os \<Longrightarrow> tot os \<le> length xs \<Longrightarrow> pv (set os) (hd os) p \<Longrightarrow> ar \<noteq> [] \<Longrightarrow> hd ar = a * w \<Longrightarrow>
    length ar + length os \<le> AR_LEN \<Longrightarrow> tpath (cle cmp) xs (xs ! a) trusty os = (hs, os', t) \<Longrightarrow>
    trinkle_loop cmp w lp (concat xs) ((tot os - 1) * w) p (hd os) trusty ar = Some ((tot os' - 1) * w, hd os', t, ar @ map (\<lambda>i. i * w) hs)"
proof (induction os arbitrary: p trusty ar hs)
  case (Cons k os)
  note t = tree_in_forest [where k = k and os = os]
  let ?h = "tot (k # os) - 1"
  show ?case
  proof (cases os)
    case Nil
    have "p = (1, 0)" using pv_one [OF Cons.prems(4)] by (simp add: Nil)
    then show ?thesis using Cons.prems(8) by (simp add: trinkle_loop.simps Nil)
  next
    case (Cons j r)
    then have os: "os \<noteq> []" and hd: "hd os = j" by simp_all
    have kj: "k < j" using Cons.prems(2) by (simp add: Cons)
    have j: "j < 64" using order_bound [of j "k # os"] Cons.prems(3) assms(5) by (simp add: Cons del: tot_simps)
    have "p \<noteq> (1, 0)" using pv_one [OF Cons.prems(4)] kj by (auto simp: Cons)
    have h: "?h < length xs" "tot os - 1 < length xs" "leo k \<le> ?h" "?h - leo k = tot os - 1" "leo k \<le> length xs"
      using t Cons.prems(3) tot_pos [OF os] unfolding tot_simps by linarith+
    note b = lp_at_leo [OF assms(3) h(5)] pback_elems [OF h(3), of w, unfolded h(4)]
    note c = cmp_at_elems [OF assms(1) h(2) assms(4), of cmp]
    note sl = sons_larger_elems [OF assms(1-3) t(1) h(1,2), where trusty = trusty]
    obtain q where q: "pntz p = j - k" "shr p (j - k) = Some q" "pv (set os) j q"
      using pv_next [of k j r p] Cons.prems(2,4) j unfolding Cons by auto
    have push: "push_ar ar z = Some (ar @ [z])" for z using Cons.prems(7) by (simp add: push_ar_def)
    let ?go = "trinkle_loop cmp w lp (concat xs) ((tot os - 1) * w) q j False (ar @ [(tot os - 1) * w])"
    have e: "trinkle_loop cmp w lp (concat xs) (?h * w) p k trusty ar =
      (if stays (cle cmp) xs (xs ! a) trusty (k # os) then Some (?h * w, k, trusty, ar) else ?go)"
      unfolding trinkle_loop.simps [of _ _ _ _ _ p] stays.simps b bind.bind_lunit Cons.prems(6) c sl push q(1,2)
      using \<open>p \<noteq> (1, 0)\<close> os kj by (simp del: tot_simps) blast
    show ?thesis
    proof (cases "stays (cle cmp) xs (xs ! a) trusty (k # os)")
      case True
      then show ?thesis using e Cons.prems(8) by (auto simp del: stays.simps tot_simps)
    next
      case False
      obtain hs' where p: "tpath (cle cmp) xs (xs ! a) False os = (hs', os', t)" "hs = (tot os - 1) # hs'"
        using Cons.prems(8) False by (auto simp del: stays.simps tot_simps split: prod.splits)
      have "trinkle_loop cmp w lp (concat xs) ((tot os - 1) * w) q (hd os) False (ar @ [(tot os - 1) * w]) =
        Some ((tot os' - 1) * w, hd os', t, (ar @ [(tot os - 1) * w]) @ map (\<lambda>i. i * w) hs')"
        by (rule Cons.IH [OF os _ _ _ _ _ _ p(1)]) (use Cons.prems q(3) hd in auto)
      then show ?thesis using e False p(2) hd by (simp del: stays.simps tot_simps)
    qed
  qed
qed simp

lemma elems_mset: "elems w xs \<Longrightarrow> mset ys = mset xs \<Longrightarrow> elems w ys"
  using mset_eq_setD [of ys xs] by (simp add: elems_def)

lemma trinkle_elems:
  assumes "elems w xs" "cmp_orders cmp" "leo_table w lp (length xs)" "length xs < leo 64"
    and "os \<noteq> []" "sorted_wrt (<) os" "tot os \<le> length xs" "pv (set os) (hd os) p"
  shows "trinkle cmp w lp (concat xs) ((tot os - 1) * w) p (hd os) trusty = Some (concat (trinkled (cle cmp) xs trusty os))"
proof -
  let ?h = "tot os - 1" and ?x = "xs ! (tot os - 1)"
  obtain hs os' t where p: "tpath (cle cmp) xs ?x trusty os = (hs, os', t)" by (cases "tpath (cle cmp) xs ?x trusty os") auto
  have h: "?h < length xs" using assms(7) tot_pos [OF assms(5)] by linarith
  note f = tpath_facts [OF p assms(5)]
  have len: "length os \<le> 64" using orders_length [OF assms(6), of 64] order_bound [OF _ assms(7,4)] by blast
  have l: "trinkle_loop cmp w lp (concat xs) (?h * w) p (hd os) trusty [?h * w] = Some ((tot os' - 1) * w, hd os', t, map (\<lambda>i. i * w) (?h # hs))"
    using trinkle_loop_elems [OF assms(1-3) h assms(4-8) _ _ _ p, of "[?h * w]"] len by (simp add: AR_LEN_def)
  let ?ys = "rot xs (?h # hs) ?x"
  have path: "distinct (?h # hs)" "set (?h # hs) \<subseteq> {..<length xs}" "length (?h # hs) < AR_LEN"
    using f h len by (auto simp: AR_LEN_def)
  note c = cycle_elems [OF assms(1) path]
  obtain k r where k: "os' = k # r" using f by (cases os') auto
  obtain pre where "os = pre @ os'" using f by blast
  then have os': "k \<in> set os" "tot os' \<le> length xs" using assms(7) by (auto simp: k tot_def)
  note t = tree_in_forest [where k = k and os = r]
  have "sift cmp w lp (concat ?ys) ((tot os' - 1) * w) (hd os') = Some (concat (sink (cle cmp) ?ys (?ys ! (tot os' - 1)) (hd os') (tot os' - 1)))"
    unfolding k list.sel
  proof (rule sift_elems [OF _ assms(2)])
    show "elems w ?ys" using elems_rot [OF assms(1) path(2) elems_nth [OF assms(1) h]] .
    show "tot (k # r) - 1 < length ?ys" using os'(2) t(3) unfolding k length_rot by linarith
    show "k < 100" using order_bound [OF os'(1) assms(7,4)] by simp
  qed (use t(1) assms(3) in simp_all)
  then show ?thesis unfolding trinkle_def l bind.bind_lunit trinkled_def Let_def p using c by simp
qed

section \<open>The table\<close>

lemma lp_loop_leo:
  assumes "0 < w" "0 < n" "n < leo 64" "3 * (n * w) < 2 ^ 64"
  shows "lp = map (\<lambda>i. leo i * w) [0..<length lp] \<Longrightarrow> 2 \<le> length lp \<Longrightarrow> length lp \<le> 64 \<Longrightarrow> (2 < length lp \<longrightarrow> leo (length lp - 1) < n) \<Longrightarrow>
    \<exists>lp'. lp_loop w (n * w) lp = Some lp' \<and> leo_table w lp' n"
proof (induction "64 - length lp" arbitrary: lp rule: less_induct)
  case less
  let ?i = "length lp"
  have s: "leo ?i = leo (?i - 2) + leo (?i - 1) + 1" using less.prems(2) by (intro leo_step) simp
  have "leo ?i \<le> 3 * n"
  proof (cases "2 < ?i")
    case True
    have "leo (?i - 2) \<le> leo (?i - 1)" by (rule leo_mono) simp
    then show ?thesis using s less.prems(4) True by linarith
  next
    case False
    then have "?i = 2" using less.prems(2) by simp
    then show ?thesis using assms(2) by (simp add: numeral_2_eq_2)
  qed
  then have "leo ?i * w \<le> 3 * (n * w)" by simp
  then have nw: "leo ?i * w < 2 ^ 64" using assms(4) by linarith
  have n: "lp ! j = leo j * w" if "j < ?i" for j using that less.prems(1) by (metis (no_types, lifting) add_0 diff_zero length_upt nth_map nth_upt)
  have "lp ! (?i - 2) + lp ! (?i - 1) + w = leo ?i * w" using n less.prems(2) by (simp add: s algebra_simps)
  then have x: "(lp ! (?i - 2) + lp ! (?i - 1) + w) mod 2 ^ 64 = leo ?i * w" using nw by simp
  have u: "lp @ [leo ?i * w] = map (\<lambda>i. leo i * w) [0..<length (lp @ [leo ?i * w])]"
    using less.prems(1) by simp
  have e: "lp_loop w (n * w) lp = (if leo ?i < n then lp_loop w (n * w) (lp @ [leo ?i * w]) else Some (lp @ [leo ?i * w]))"
    unfolding lp_loop.simps [of w _ lp] Let_def x using less.prems(3) assms(1) by simp
  show ?case
  proof (cases "leo ?i < n")
    case True
    have "?i < 64" using True assms(3) leo_mono [of 64 ?i] by (cases "?i < 64") auto
    then have "\<exists>lp'. lp_loop w (n * w) (lp @ [leo ?i * w]) = Some lp' \<and> leo_table w lp' n"
      using u less.prems(2) True by (intro less.hyps) simp_all
    then show ?thesis using e True by simp
  next
    case False
    have "k < Suc ?i" if "leo k \<le> n" for k
      using leo_strict [of ?i k] that False less.prems(2) by (cases "k < Suc ?i") auto
    then have "leo_table w (lp @ [leo ?i * w]) n" using u by (simp add: leo_table_def)
    then show ?thesis using e False by simp
  qed
qed

section \<open>The loops\<close>

text \<open>What stays the same during a sort.\<close>

definition sorting :: "(bytes \<Rightarrow> bytes \<Rightarrow> int) \<Rightarrow> nat \<Rightarrow> nat list \<Rightarrow> bytes list \<Rightarrow> bool" where
  "sorting cmp w lp xs \<longleftrightarrow> elems w xs \<and> cmp_orders cmp \<and> leo_table w lp (length xs) \<and> length xs < leo 64"

lemma sorting_mset: "sorting cmp w lp xs \<Longrightarrow> mset ys = mset xs \<Longrightarrow> sorting cmp w lp ys"
  using elems_mset [of w xs ys] mset_eq_length [of ys xs] by (auto simp: sorting_def)

lemma good_sorted: "good os \<Longrightarrow> sorted_wrt (<) os" "good os \<Longrightarrow> os \<noteq> []"
  using good_asc [of os] by (auto simp: asc_def)

lemma hd_least: "sorted_wrt (<) os \<Longrightarrow> s \<in> set os \<Longrightarrow> hd os \<le> s" for os :: "nat list"
  by (cases os) (auto dest: less_imp_le)

lemma merges_bit:
  assumes "good os" "pv (set os) (hd os) p"
  shows "and (fst p) 3 = 3 \<longleftrightarrow> merges os"
proof -
  obtain k r where os: "os = k # r" using good_sorted(2) [OF assms(1)] by (cases os) auto
  have "k + 1 \<in> set os \<longleftrightarrow> merges os"
    using assms(1) hd_least [of r "k + 1"] gaps_sorted [of r] by (cases r) (auto simp: os merges_def)
  then show ?thesis using pv_and_3 [OF assms(2)] by (simp add: os)
qed

lemma next_p_orders:
  assumes "good os" "pv (set os) (hd os) p" "\<And>s. s \<in> set os \<Longrightarrow> s < 64"
  shows "\<exists>q. next_p p (hd os) = Some (q, hd (build_orders os)) \<and> pv (set (build_orders os)) (hd (build_orders os)) q"
proof -
  note srt = good_sorted(1) [OF assms(1)] and mb = merges_bit [OF assms(1,2)]
  have ge: "s \<in> set os \<Longrightarrow> hd os \<le> s \<and> s < 64" for s using hd_least [OF srt] assms(3) by blast
  obtain k r where os: "os = k # r" using good_sorted(2) [OF assms(1)] by (cases os) auto
  show ?thesis
  proof (cases "merges os")
    case True
    then obtain r' where r: "r = (k + 1) # r'" by (cases r) (auto simp: merges_def os)
    obtain q where q: "shr p 2 = Some q" "pv (set os) (k + 2) q" using pv_shr [OF assms(2), of 2] by (auto simp: os)
    have "pv (set ((k + 2) # r')) (k + 2) (or (fst q) 1, snd q)"
      by (rule pv_cong [OF pv_or_1 [OF q(2)]]) (auto simp: os r)
    then show ?thesis using q(1) True mb by (simp add: next_p_def build_orders_def os r)
  next
    case False
    have k: "0 < k" using good_gaps [OF assms(1) False] by (simp add: os)
    let ?n = "if k = 1 then 1 else k - 1"
    have "0 < ?n" "?n \<le> hd os" "?n < 64" using k ge [of k] by (auto simp: os)
    from pv_shl [OF assms(2) this ge] obtain q where q: "shl p ?n = Some q" "pv (set os) (k - ?n) q" by (auto simp: os)
    have "pv (set ((k - ?n) # os)) (k - ?n) (or (fst q) 1, snd q)" using pv_or_1 [OF q(2)] by simp
    then show ?thesis using q(1) False mb k by (auto simp: next_p_def build_orders_def os split: if_splits)
  qed
qed

lemma build_step_elems:
  assumes "sorting cmp w lp xs" "building (cle cmp) xs os" "pv (set os) (hd os) p" "tot os < length xs"
  shows "build_step_c cmp w lp ((length xs - 1) * w) (concat xs) ((tot os - 1) * w) p (hd os) = Some (concat (build_array (cle cmp) xs os))"
proof -
  have s: "elems w xs" "cmp_orders cmp" "leo_table w lp (length xs)" "length xs < leo 64" "0 < w"
    using assms(1) by (auto simp: sorting_def elems_def)
  have g: "good os" "tot os \<le> length xs" using assms(2) by (simp_all add: building_def)
  note srt = good_sorted [OF g(1)]
  obtain k r where os: "os = k # r" using srt(2) by (cases os) auto
  note t = tree_in_forest [where k = k and os = r]
  have h: "tot os - 1 < length xs" "leo k \<le> Suc (tot os - 1)" using t assms(4) unfolding os by linarith+
  have "k < 100" using order_bound [of k os "length xs"] g(2) s(4) by (simp add: os del: tot_simps)
  from sift_elems [OF s(1-3) h(2,1) this]
  have sift: "sift cmp w lp (concat xs) ((tot os - 1) * w) (hd os) = Some (concat (sifted (cle cmp) xs os))" by (simp add: sifted_def os)
  show ?thesis
  proof (cases "merges os")
    case True
    then show ?thesis using sift merges_bit [OF g(1) assms(3)] by (simp add: build_step_c_def build_array_def)
  next
    case False
    have k: "0 < k" using good_gaps [OF g(1) False] by (simp add: os)
    have "leo (k - 1) \<le> leo k" by (rule leo_mono) simp
    then have "leo (k - 1) \<le> length xs" using leo_tot [of k os] g(2) by (simp add: os del: tot_simps)
    note l = lp_at_leo [OF s(3) this]
    have "(length xs - 1) * w - (tot os - 1) * w = (length xs - tot os) * w"
      using tot_pos [OF srt(2)] assms(4) by (simp flip: diff_mult_distrib)
    then have c: "(length xs - 1) * w - (tot os - 1) * w \<le> leo (k - 1) * w \<longleftrightarrow> length xs - tot os \<le> leo (k - 1)" using s(5) by simp
    show ?thesis
      using sift trinkle_elems [OF s(1-4) srt(2,1) g(2) assms(3), of False] merges_bit [OF g(1) assms(3)] False k l c
      by (simp add: build_step_c_def build_array_def os del: tot_simps)
  qed
qed

lemma build_loop_elems:
  "sorting cmp w lp xs \<Longrightarrow> building (cle cmp) xs os \<Longrightarrow> pv (set os) (hd os) p \<Longrightarrow>
   \<exists>ys os' p'. build_loop cmp w lp ((length xs - 1) * w) (concat xs) ((tot os - 1) * w) p (hd os) = Some (concat ys, (tot os' - 1) * w, p', hd os') \<and>
     building (cle cmp) ys os' \<and> tot os' = length xs \<and> mset ys = mset xs \<and> pv (set os') (hd os') p'"
proof (induction "length xs - tot os" arbitrary: xs os p rule: less_induct)
  case less
  have s: "preorder (cle cmp)" "length xs < leo 64" "0 < w"
    using less.prems(1) cmp_orders_preorder by (auto simp: sorting_def elems_def)
  have g: "good os" "tot os \<le> length xs" using less.prems(2) by (simp_all add: building_def)
  have p: "0 < tot os" using tot_pos good_sorted(2) [OF g(1)] by blast
  have cond: "(tot os - 1) * w < (length xs - 1) * w \<longleftrightarrow> tot os < length xs" using s(3) p by auto
  show ?case
  proof (cases "tot os < length xs")
    case False
    then have "tot os = length xs" using g(2) by simp
    moreover have "build_loop cmp w lp ((length xs - 1) * w) (concat xs) ((tot os - 1) * w) p (hd os) = Some (concat xs, (tot os - 1) * w, p, hd os)"
      unfolding build_loop.simps [of _ _ _ _ _ _ p] cond using False by simp
    ultimately show ?thesis using less.prems by blast
  next
    case True
    let ?ys = "build_array (cle cmp) xs os" and ?os = "build_orders os"
    note b = build_step [OF s(1) less.prems(2) True] and tb = tot_build [OF g(1)]
    obtain q where q: "next_p p (hd os) = Some (q, hd ?os)" "pv (set ?os) (hd ?os) q"
      using next_p_orders [OF g(1) less.prems(3)] order_bound [OF _ g(2) s(2)] by blast
    have "(tot os - 1) * w + w = (tot ?os - 1) * w" using p by (cases "tot os") (simp_all add: tb)
    then have e: "build_loop cmp w lp ((length xs - 1) * w) (concat xs) ((tot os - 1) * w) p (hd os) =
      build_loop cmp w lp ((length ?ys - 1) * w) (concat ?ys) ((tot ?os - 1) * w) q (hd ?os)"
      unfolding build_loop.simps [of _ _ _ _ _ _ p] build_step_elems [OF less.prems True] cond q(1) bind.bind_lunit b(2) using True by simp
    have "\<exists>ys os' p'. build_loop cmp w lp ((length ?ys - 1) * w) (concat ?ys) ((tot ?os - 1) * w) q (hd ?os) = Some (concat ys, (tot os' - 1) * w, p', hd os') \<and>
      building (cle cmp) ys os' \<and> tot os' = length ?ys \<and> mset ys = mset ?ys \<and> pv (set os') (hd os') p'"
      using True by (intro less.hyps sorting_mset [OF less.prems(1) b(3)] b(1) q(2)) (simp add: b(2) tb)
    then show ?thesis unfolding e b(2,3) .
  qed
qed

lemma trinkled_mset:
  assumes "os \<noteq> []" "tot os \<le> length xs"
  shows "mset (trinkled le xs trusty os) = mset xs"
proof -
  let ?x = "xs ! (tot os - 1)"
  obtain hs os' t where p: "tpath le xs ?x trusty os = (hs, os', t)" by (cases "tpath le xs ?x trusty os") auto
  note f = tpath_facts [OF p assms(1)]
  let ?ys = "rot xs ((tot os - 1) # hs) ?x"
  have "mset ?ys = mset (xs[tot os - 1 := ?x])" using f assms(2) tot_pos [OF assms(1)] by (intro mset_rot) auto
  moreover obtain k r pre where k: "os' = k # r" "os = pre @ os'" using f by (cases os') auto
  moreover have "tot (k # r) - 1 < length ?ys"
  proof -
    have "tot (k # r) \<le> length xs" using assms(2) unfolding k(2) k(1) tot_def by simp
    then show ?thesis using tree_in_forest(3) [where k = k and os = r] unfolding length_rot by linarith
  qed
  ultimately show ?thesis
    using sink_mset(2) [OF tree_in_forest(1) [where k = k and os = r], of ?ys le] unfolding trinkled_def Let_def p by (simp del: tot_simps)
qed

lemma shrink_split:
  assumes "sorting cmp w lp xs" "sorted_wrt (<) (k # r)" "tot (k # r) \<le> length xs" "pv (set (k # r)) k p" "1 < k"
  shows "\<exists>q. shrink_step_c cmp w lp (concat xs) ((tot (k # r) - 1) * w) p k = Some (concat (split_last (cle cmp) xs (k # r)), q, k - 2) \<and>
    pv (set ((k - 2) # (k - 1) # r)) (k - 2) q"
proof -
  have s: "elems w xs" "cmp_orders cmp" "leo_table w lp (length xs)" "length xs < leo 64" using assms(1) by (simp_all add: sorting_def)
  let ?h = "tot (k # r) - 1" and ?l = "(k - 1) # r" and ?r = "(k - 2) # (k - 1) # r"
  note sp = split_tot [OF assms(5), of r] and t = tree_in_forest [where k = k and os = r]
  have ge: "s \<in> set (k # r) \<Longrightarrow> k \<le> s \<and> s < 64" for s
    using hd_least [OF assms(2), of s] order_bound [OF _ assms(3) s(4), of s] by simp
  have nr: "k \<notin> set r" using assms(2) by auto
  obtain p1 where p1: "shl p 2 = Some p1" "pv (set (k # r)) (k - 2) p1" using pv_shl [OF assms(4), of 2] assms(5) ge by auto
  have k: "k - 2 + 1 = k - 1" "k - 2 + 2 = k" using assms(5) by simp_all
  have "k - 2 \<notin> set (k # r)" "k - 1 \<notin> set (k # r)" using ge [of "k - 2"] ge [of "k - 1"] assms(5) by auto
  then have x: "k - 2 \<notin> set (k # r)" "k - 2 + 1 \<notin> set (k # r)" "k - 2 + 2 \<in> set (k # r)" unfolding k by simp_all
  have "pv (set ?r) (k - 2) (xor (fst p1) 7, snd p1)"
    by (rule pv_cong [OF pv_xor_7 [OF p1(2) x]]) (use nr in \<open>auto simp only: k list.set\<close>)
  from pv_shr [OF this, of 1] obtain p2 where p2: "shr (xor (fst p1) 7, snd p1) 1 = Some p2" "pv (set ?r) (k - 2 + 1) p2" by auto
  have p2': "pv (set ?l) (hd ?l) p2" unfolding list.sel by (rule pv_cong [of "set ?r"]) (use p2(2) k assms(5) in auto)
  have "s \<in> set ?l \<Longrightarrow> hd ?l \<le> s \<and> s < 64" for s using ge [of s] ge [of k] by auto
  from pv_shl [OF p2' _ _ _ this, of 1] obtain p3 where p3: "shl p2 1 = Some p3" "pv (set ?l) (k - 2) p3"
    using assms(5) Suc_leI [of 1 k] by (auto simp: numeral_2_eq_2 le_diff_conv2)
  have p4: "pv (set ?r) (k - 2) (or (fst p3) 1, snd p3)" using pv_or_1 [OF p3(2)] by simp
  have b: "lp_at lp (k - 2) = Some (leo (k - 2) * w)" "pback (?h * w) (leo (k - 2) * w) = Some ((?h - leo (k - 2)) * w)"
    "pback ((?h - leo (k - 2)) * w) w = Some ((tot ?l - 1) * w)" "pback (?h * w) w = Some ((tot ?r - 1) * w)"
  proof -
    have st: "leo (k - 2) < ?h" "?h - leo (k - 2) - 1 = tot ?l - 1" "0 < ?h"
      using leo_step [OF assms(5)] leo_pos [of "k - 1"] unfolding tot_simps by linarith+
    show "lp_at lp (k - 2) = Some (leo (k - 2) * w)" using st(1) assms(3) by (intro lp_at_leo [OF s(3)]) linarith
    show "pback (?h * w) (leo (k - 2) * w) = Some ((?h - leo (k - 2)) * w)" using st(1) by (intro pback_elems) simp
    show "pback ((?h - leo (k - 2)) * w) w = Some ((tot ?l - 1) * w)" using pback_one [of "?h - leo (k - 2)" w] st(1,2) by (simp del: tot_simps)
    show "pback (?h * w) w = Some ((tot ?r - 1) * w)" using pback_one [OF st(3), of w] sp(4) by simp
  qed
  have len: "tot ?l \<le> length xs" "tot ?r \<le> length xs" using sp(1,3) assms(3) by linarith+
  have srt: "sorted_wrt (<) ?l" "sorted_wrt (<) ?r" using assms(2,5) by auto
  let ?ys = "trinkled (cle cmp) xs True ?l"
  have t1: "trinkle cmp w lp (concat xs) ((tot ?l - 1) * w) p2 (k - 1) True = Some (concat ?ys)"
    using trinkle_elems [OF s _ srt(1) len(1) p2', of True] by simp
  have "mset ?ys = mset xs" using len(1) by (intro trinkled_mset) simp_all
  from sorting_mset [OF assms(1) this] have y: "elems w ?ys" "leo_table w lp (length ?ys)" "length ?ys < leo 64" "length ?ys = length xs"
    using mset_eq_length [OF \<open>mset ?ys = mset xs\<close>] by (simp_all add: sorting_def)
  have t2: "trinkle cmp w lp (concat ?ys) ((tot ?r - 1) * w) (or (fst p3) 1, snd p3) (k - 2) True = Some (concat (split_last (cle cmp) xs (k # r)))"
    using trinkle_elems [OF y(1) s(2) y(2,3) _ srt(2), of "(or (fst p3) 1, snd p3)" True] len(2) p4 y(4) by (simp add: split_last_def del: tot_simps)
  have "shrink_step_c cmp w lp (concat xs) (?h * w) p k = Some (concat (split_last (cle cmp) xs (k # r)), (or (fst p3) 1, snd p3), k - 2)"
    unfolding shrink_step_c_def p1(1) bind.bind_lunit p2(1) b k(1) t1 p3(1) t2 using assms(5) by simp
  with p4 show ?thesis by blast
qed

lemma shrink_step_elems:
  assumes "sorting cmp w lp xs" "asc os" "tot os \<le> length xs" "pv (set os) (hd os) p" "os \<noteq> [1]"
  shows "\<exists>q. shrink_step_c cmp w lp (concat xs) ((tot os - 1) * w) p (hd os) = Some (concat (shrink_array (cle cmp) xs os), q, hd (shrink_orders os)) \<and>
    pv (set (shrink_orders os)) (hd (shrink_orders os)) q"
proof -
  obtain k r where os: "os = k # r" using assms(2) by (cases os) (simp_all add: asc_def)
  have srt: "sorted_wrt (<) (k # r)" using assms(2) by (simp add: asc_def os)
  show ?thesis
  proof (cases "1 < k")
    case True
    obtain q where
      "shrink_step_c cmp w lp (concat xs) ((tot (k # r) - 1) * w) p k = Some (concat (split_last (cle cmp) xs (k # r)), q, k - 2)"
      "pv (set ((k - 2) # (k - 1) # r)) (k - 2) q"
      using shrink_split [OF assms(1) srt assms(3) [unfolded os] assms(4) [unfolded os list.sel] True] by blast
    then show ?thesis using True by (auto simp: os shrink_array_def shrink_orders_def simp del: tot_simps)
  next
    case False
    obtain j r' where r: "r = j # r'" using assms(2,5) False by (cases r) (auto simp: os asc_def le_Suc_eq not_less)
    have "j < 64" using order_bound [of j os "length xs"] assms(1,3) by (simp add: os r sorting_def del: tot_simps)
    from pv_next [of k j r' p] assms(4) srt this obtain q where q: "pntz p = j - k" "shr p (j - k) = Some q" "pv (set (j # r')) j q"
      by (auto simp: os r)
    have "k + (j - k) = j" using srt by (simp add: r)
    then show ?thesis using False q by (simp add: shrink_step_c_def os r shrink_array_def shrink_orders_def)
  qed
qed

lemma shrink_loop_elems:
  "sorting cmp w lp xs \<Longrightarrow> shrinking (cle cmp) xs os \<Longrightarrow> pv (set os) (hd os) p \<Longrightarrow>
   \<exists>ys. shrink_loop cmp w lp (concat xs) ((tot os - 1) * w) p (hd os) = Some (concat ys) \<and> mset ys = mset xs \<and> sorted_wrt (cle cmp) ys"
proof (induction "tot os" arbitrary: xs os p rule: less_induct)
  case less
  have s: "preorder (cle cmp)" using less.prems(1) cmp_orders_preorder by (auto simp: sorting_def)
  have a: "asc os" "tot os \<le> length xs" "tail_sorted (cle cmp) xs (tot os)" using less.prems(2) by (simp_all add: shrinking_def)
  then have os: "os \<noteq> []" by (simp add: asc_def)
  have cond: "hd os \<noteq> 1 \<or> p \<noteq> (1, 0) \<longleftrightarrow> os \<noteq> [1]"
  proof -
    obtain k r where o: "os = k # r" using os by (cases os) auto
    have "p = (1, 0) \<longleftrightarrow> (\<forall>s \<in> set os. s \<le> k)" using pv_one [OF less.prems(3)] by (simp add: o)
    also have "\<dots> \<longleftrightarrow> r = []" using a(1) by (cases r) (auto simp: o asc_def)
    finally show ?thesis by (auto simp: o)
  qed
  show ?case
  proof (cases "os = [1]")
    case True
    have "shrink_loop cmp w lp (concat xs) ((tot os - 1) * w) p (hd os) = Some (concat xs)"
      unfolding shrink_loop.simps [of _ _ _ _ _ p] cond using True by simp
    moreover have "sorted_wrt (cle cmp) xs" using a(3) unfolding True by (rule shrink_end)
    ultimately show ?thesis by blast
  next
    case False
    let ?ys = "shrink_array (cle cmp) xs os" and ?os = "shrink_orders os"
    note st = shrink_step [OF s less.prems(2) False] and ts = tot_shrink [OF os]
    obtain q where q: "shrink_step_c cmp w lp (concat xs) ((tot os - 1) * w) p (hd os) = Some (concat ?ys, q, hd ?os)" "pv (set ?os) (hd ?os) q"
      using shrink_step_elems [OF less.prems(1) a(1,2) less.prems(3) False] by blast
    have "?os \<noteq> []" using asc_shrink [OF a(1) False] by (simp add: asc_def)
    then have "0 < tot ?os" by (rule tot_pos)
    then have "pback ((tot os - 1) * w) w = Some ((tot ?os - 1) * w)" unfolding ts by (rule pback_one)
    then have e: "shrink_loop cmp w lp (concat xs) ((tot os - 1) * w) p (hd os) = shrink_loop cmp w lp (concat ?ys) ((tot ?os - 1) * w) q (hd ?os)"
      unfolding shrink_loop.simps [of _ _ _ _ _ p] q(1) bind.bind_lunit cond using False by simp
    have "\<exists>ys. shrink_loop cmp w lp (concat ?ys) ((tot ?os - 1) * w) q (hd ?os) = Some (concat ys) \<and> mset ys = mset ?ys \<and> sorted_wrt (cle cmp) ys"
      by (rule less.hyps [OF _ sorting_mset [OF less.prems(1) st(3)] st(1) q(2)]) (use ts tot_pos [OF os] in simp)
    then show ?thesis unfolding e st(3) .
  qed
qed

lemma qsort_elems:
  assumes "cmp_orders cmp" "elems w xs" "length xs < leo 64" "3 * (length xs * w) < 2 ^ 64"
  shows "\<exists>ys. qsort_r cmp (length xs) w (concat xs) = Some (concat ys) \<and> mset ys = mset xs \<and> sorted_wrt (cle cmp) ys"
proof (cases "xs = []")
  case True
  then show ?thesis by (simp add: qsort_r_def)
next
  case False
  let ?n = "length xs"
  have w: "0 < w" "0 < ?n" using assms(2) False by (simp_all add: elems_def)
  have "w * ?n < 2 ^ 64" using assms(4) by (simp add: mult.commute)
  then have size: "w * ?n mod 2 ^ 64 = ?n * w" by (simp add: mult.commute)
  have "[w, w] = map (\<lambda>i. leo i * w) [0..<length [w, w]]" by (simp add: upt_rec)
  from lp_loop_leo [OF w assms(3,4) this] obtain lp where lp: "lp_loop w (?n * w) [w, w] = Some lp" "leo_table w lp ?n" by auto
  have s: "sorting cmp w lp xs" using assms lp(2) by (simp add: sorting_def)
  have "building (cle cmp) xs [1]" using Suc_leI [OF w(2)] by (simp add: building_def subheaps_def)
  moreover have pv: "pv (set [1]) (hd [1]) (1, 0)" by (auto simp: pv_def bit_1_iff)
  ultimately obtain ys os p where b: "build_loop cmp w lp ((?n - 1) * w) (concat xs) 0 (1, 0) 1 = Some (concat ys, (tot os - 1) * w, p, hd os)"
    "building (cle cmp) ys os" "tot os = ?n" "mset ys = mset xs" "pv (set os) (hd os) p"
    using build_loop_elems [OF s] by (fastforce simp: numeral_2_eq_2)
  have high: "?n * w - w = (?n - 1) * w" by (simp add: diff_mult_distrib)
  have sy: "sorting cmp w lp ys" using sorting_mset [OF s b(4)] .
  have len: "length ys = ?n" using mset_eq_length [OF b(4)] .
  have g: "asc os" "sorted_wrt (<) os" "os \<noteq> []" using b(2) good_asc good_sorted by (simp_all add: building_def)
  let ?zs = "trinkled (cle cmp) ys False os"
  have t: "trinkle cmp w lp (concat ys) ((tot os - 1) * w) p (hd os) False = Some (concat ?zs)"
    using trinkle_elems [OF _ _ _ _ g(3,2) _ b(5)] sy b(3) len by (simp add: sorting_def)
  have z: "settled (cle cmp) ys os ?zs" using build_end [OF cmp_orders_preorder [OF assms(1)] b(2)] b(3) len by simp
  then have "shrinking (cle cmp) ?zs os" using g(1) b(3) len by (simp add: settled_def shrinking_def tail_sorted_def)
  from shrink_loop_elems [OF sorting_mset [OF sy] this b(5)] z obtain vs where v:
    "shrink_loop cmp w lp (concat ?zs) ((tot os - 1) * w) p (hd os) = Some (concat vs)" "mset vs = mset ?zs" "sorted_wrt (cle cmp) vs"
    by (auto simp: settled_def)
  have "qsort_r cmp ?n w (concat xs) = Some (concat vs)"
    unfolding qsort_r_def size Let_def high lp(1) bind.bind_lunit b(1) prod.case t v(1) using w by simp
  then show ?thesis using v(2,3) z b(4) by (auto simp: settled_def)
qed

section \<open>Properties\<close>

text \<open>The elements of an array of bytes.\<close>

definition elements :: "nat \<Rightarrow> bytes \<Rightarrow> bytes list" where
  "elements w m = map (\<lambda>i. take w (drop (i * w) m)) [0..<length m div w]"

lemma elements_concat:
  assumes "elems w xs"
  shows "elements w (concat xs) = xs"
proof -
  have "length (concat xs) div w = length xs" using length_elems [OF assms] assms by (simp add: elems_def)
  moreover have "take w (drop (i * w) (concat xs)) = xs ! i" if "i < length xs" for i
    using ld_elem [OF assms that] by (simp add: mem_ld_def split: if_splits)
  ultimately show ?thesis by (intro nth_equalityI) (simp_all add: elements_def)
qed

lemma concat_elements:
  assumes "length m = n * w" "0 < w"
  shows "concat (elements w m) = m" "elems w (elements w m)" "length (elements w m) = n"
proof -
  have "concat (map (\<lambda>i. take w (drop (i * w) m)) [0..<j]) = take (j * w) m" if "j \<le> n" for j
    using that
  proof (induction j)
    case (Suc j)
    have "j * w + w \<le> n * w" using Suc.prems mult_le_mono1 [of "Suc j" n w] by simp
    then show ?case using Suc by (simp add: take_add add.commute [of w])
  qed simp
  from this [of n] show "concat (elements w m) = m" using assms by (simp add: elements_def)
  have "w \<le> length m - i * w" if "i < n" for i
    using mult_le_mono1 [of "Suc i" n w] that assms(1) by (simp add: le_diff_conv2)
  then show "elems w (elements w m)" using assms by (auto simp: elems_def elements_def)
  show "length (elements w m) = n" using assms by (simp add: elements_def)
qed

text \<open>
  C16. \<open>qsort_r\<close> (and \<open>qsort\<close>, which passes its comparison function on) sorts: for a comparison function that orders the elements and an array of fewer than
  \<open>leo 64\<close> elements (about 3.4 times 10 to the 13) whose size is below a third of the address space, smoothsort ends, accesses
  nothing outside the array, the table of Leonardo numbers and the path arrays, shifts by no undefined amount, and
  leaves the same elements in ascending order.
\<close>

theorem qsort_sorts:
  assumes "cmp_orders cmp" "length m = nel * width" "nel < leo 64" "3 * (nel * width) < 2 ^ 64"
  shows "\<exists>m'. qsort_r cmp nel width m = Some m' \<and> qsort nel width cmp m = Some m' \<and> length m' = length m \<and>
    mset (elements width m') = mset (elements width m) \<and> sorted_wrt (\<lambda>x y. cmp x y \<le> 0) (elements width m')"
proof -
  have q: "qsort nel width cmp m = qsort_r cmp nel width m" by (simp add: qsort_def wrapper_cmp_def)
  show ?thesis
  proof (cases "width = 0")
    case True
    then show ?thesis using q by (simp add: qsort_r_def elements_def)
  next
    case False
    then have c: "concat (elements width m) = m" "elems width (elements width m)" "length (elements width m) = nel"
      using concat_elements [OF assms(2)] by simp_all
    obtain ys where y: "qsort_r cmp nel width m = Some (concat ys)" "mset ys = mset (elements width m)" "sorted_wrt (cle cmp) ys"
      using qsort_elems [OF assms(1) c(2)] assms(3,4) unfolding c by blast
    have "elems width ys" using elems_mset [OF c(2) y(2)] .
    then have "elements width (concat ys) = ys" "length (concat ys) = length m"
      using elements_concat length_elems mset_eq_length [OF y(2)] c(3) assms(2) by simp_all
    then show ?thesis using y q by auto
  qed
qed

definition byte_cmp :: "bytes \<Rightarrow> bytes \<Rightarrow> int" where
  "byte_cmp x y = int (unat (x ! 0)) - int (unat (y ! 0))"

theorem qsort_sorts_witness:
  "\<exists>m'. qsort_r byte_cmp 3 2 [3, 1, 1, 0, 2, 9] = Some m' \<and> mset (elements 2 m') = {#[1, 0], [2, 9], [3, 1]#} \<and>
    sorted_wrt (\<lambda>x y. byte_cmp x y \<le> 0) (elements 2 m')"
proof -
  have "cmp_orders byte_cmp" by (auto simp: cmp_orders_def byte_cmp_def)
  moreover have "(3 :: nat) < leo 64"
  proof -
    have "leo 3 = 5" by (simp add: numeral_3_eq_3)
    moreover have "leo 3 \<le> leo 64" by (rule leo_mono) simp
    ultimately show ?thesis by linarith
  qed
  ultimately obtain m' where m: "qsort_r byte_cmp 3 2 [3, 1, 1, 0, 2, 9] = Some m'"
    "mset (elements 2 m') = mset (elements 2 [3, 1, 1, 0, 2, 9])" "sorted_wrt (\<lambda>x y. byte_cmp x y \<le> 0) (elements 2 m')"
    using qsort_sorts [of byte_cmp "[3, 1, 1, 0, 2, 9]" 3 2] by auto
  have "elements 2 [3, 1, 1, 0, 2, 9 :: u8] = [[3, 1], [1, 0], [2, 9]]" by code_simp
  then show ?thesis using m by (auto simp: add_mset_commute)
qed

text \<open>
  Beyond that size the bit vector needs its second word, and the code fails there: for two trees whose orders differ by 64,
  \<open>pntz\<close> answers 0 instead of 64, and a shift by 64 in \<open>shl\<close> and \<open>shr\<close> shifts by the whole width of a word.
\<close>

theorem wide_vector_fails: "pntz (1, 1) = 0 \<and> shr p 64 = None \<and> shl p 64 = None"
proof -
  have "a_ctz_64 0 = 0" "a_ctz_64 1 = 0" by code_simp+
  then show ?thesis by (simp add: pntz_def shr_def shl_def)
qed

end
