(* ===== verification/Dns.thy ===== *)
theory Dns
  imports Prelude
begin

text \<open>
  Reading DNS messages: \<open>dn_expand.c\<close>, \<open>dn_skipname.c\<close> and \<open>dns_parse.c\<close> of \<open>src/musl-1.2.5/src/network\<close>. A message is the
  list of its bytes, shorter than \<open>INT_MAX\<close>, and a pointer into it an offset; a read outside the message or a write
  outside the destination is \<open>None\<close>, and a result of \<open>Some None\<close> is the return value -1. The callback of \<open>__dns_parse\<close> is an
  argument: a function of the caller's state.

  Shown here: expanding reads nothing outside any message, ends on every message, reference loops included, and gives
  the name that labels and pointers describe; the locale \<open>dns_callback\<close> states what a callback keeps and that
  parsing any reply hands it only ranges inside the reply.
\<close>

section \<open>\<open>dn_expand\<close>\<close>

text \<open>A write to the destination of \<open>space\<close> bytes, behind the characters written so far.\<close>

definition put :: "nat \<Rightarrow> bytes \<Rightarrow> u8 \<Rightarrow> bytes option" where
  "put space out c = (if length out < space then Some (out @ [c]) else None)"

fun copy_label :: "nat \<Rightarrow> bytes \<Rightarrow> nat \<Rightarrow> nat \<Rightarrow> bytes \<Rightarrow> bytes option" where
  "copy_label space msg p 0 out = Some out"
| "copy_label space msg p (Suc j) out = do { c \<leftarrow> rd8 msg p; out \<leftarrow> put space out c; copy_label space msg (p + 1) j out }"

function expand_loop :: "bytes \<Rightarrow> nat \<Rightarrow> nat \<Rightarrow> nat \<Rightarrow> nat \<Rightarrow> nat \<Rightarrow> bytes \<Rightarrow> int \<Rightarrow> (int \<times> bytes) option option" where
  "expand_loop msg src space dend i p out len =
     (if i < length msg then do {
        c \<leftarrow> rd8 msg p;
        if and c 0xc0 \<noteq> 0 then
          if p + 1 = length msg then Some None
          else do {
            d \<leftarrow> rd8 msg (p + 1);
            let j = unat (or (push_bit 8 (ucast (and c 0x3f))) (ucast d) :: u32);
            let len = (if len < 0 then int (p + 2) - int src else len);
            if j \<ge> length msg then Some None else expand_loop msg src space dend (i + 2) j out len }
        else if c \<noteq> 0 then do {
          out \<leftarrow> (if out \<noteq> [] then put space out 46 else Some out);
          let j = unat c;
          if j \<ge> length msg - (p + 1) \<or> j \<ge> dend - length out then Some None
          else do {
            out \<leftarrow> copy_label space msg (p + 1) j out;
            expand_loop msg src space dend (i + 2) (p + 1 + j) out len } }
        else do {
          put space out 0;
          Some (Some (if len < 0 then int (p + 1) - int src else len, out)) } }
      else Some None)"
  by pat_completeness auto
termination by (relation "measure (\<lambda>(msg, _, _, _, i, _). length msg - i)") auto

declare expand_loop.simps [simp del]

definition dn_expand :: "bytes \<Rightarrow> nat \<Rightarrow> int \<Rightarrow> (int \<times> bytes) option option" where
  "dn_expand msg src space =
     (if src = length msg \<or> space \<le> 0 then Some None
      else expand_loop msg src (nat space) (nat (if space > 254 then 254 else space)) 0 src [] (-1))"

section \<open>\<open>dn_skipname\<close>\<close>

function skip_loop :: "bytes \<Rightarrow> nat \<Rightarrow> nat \<Rightarrow> nat option option" where
  "skip_loop msg s p =
     (if p < length msg then do {
        c \<leftarrow> rd8 msg p;
        if c = 0 then Some (Some (p - s + 1))
        else if unat c \<ge> 192 then Some (if p + 1 < length msg then Some (p - s + 2) else None)
        else if length msg - p < unat c + 1 then Some None
        else skip_loop msg s (p + (unat c + 1)) }
      else Some None)"
  by pat_completeness auto
termination by (relation "measure (\<lambda>(msg, _, p). length msg - p)") auto

declare skip_loop.simps [simp del]

definition dn_skipname :: "bytes \<Rightarrow> nat \<Rightarrow> nat option option" where
  "dn_skipname msg s = skip_loop msg s s"

section \<open>\<open>dns_parse\<close>\<close>

text \<open>\<open>while (p-r < rlen && *p-1U < 127) p++;\<close>\<close>

function skip_labels :: "bytes \<Rightarrow> nat \<Rightarrow> nat" where
  "skip_labels r p = (if p < length r \<and> (ucast (r ! p) :: u32) - 1 < 127 then skip_labels r (p + 1) else p)"
  by pat_completeness auto
termination by (relation "measure (\<lambda>(r, p). length r - p)") auto

declare skip_labels.simps [simp del]

fun parse_questions :: "bytes \<Rightarrow> nat \<Rightarrow> nat \<Rightarrow> nat option option" where
  "parse_questions r 0 p = Some (Some p)"
| "parse_questions r (Suc n) p =
     (let p = skip_labels r p in
      if int p > int (length r) - 6 then Some None
      else do { c \<leftarrow> rd8 r p; parse_questions r n (p + 5 + of_bool (c \<noteq> 0)) })"

text \<open>
  The callback gets its state, the low byte of the type, the offset and the length of the data in the reply, and gives the
  new state and its result, of which a negative one stops; it is \<open>None\<close> when it accesses memory out of bounds or does not return.
\<close>

type_synonym 'c callback = "'c \<Rightarrow> u8 \<Rightarrow> nat \<Rightarrow> nat \<Rightarrow> ('c \<times> int) option"

fun parse_answers :: "'c callback \<Rightarrow> bytes \<Rightarrow> nat \<Rightarrow> nat \<Rightarrow> 'c \<Rightarrow> ('c \<times> int) option" where
  "parse_answers callback r 0 p ctx = Some (ctx, 0)"
| "parse_answers callback r (Suc n) p ctx =
     (let p = skip_labels r p in
      if int p > int (length r) - 12 then Some (ctx, - 1)
      else do {
        c \<leftarrow> rd8 r p;
        let p = p + 1 + of_bool (c \<noteq> 0);
        h \<leftarrow> rd8 r (p + 8);
        l \<leftarrow> rd8 r (p + 9);
        let len = unat h * 256 + unat l;
        if int len + 10 > int (length r) - int p then Some (ctx, - 1)
        else do {
          t \<leftarrow> rd8 r (p + 1);
          (ctx, ret) \<leftarrow> callback ctx t (p + 10) len;
          if ret < 0 then Some (ctx, - 1) else parse_answers callback r n (p + 10 + len) ctx } })"

definition dns_parse :: "'c callback \<Rightarrow> bytes \<Rightarrow> 'c \<Rightarrow> ('c \<times> int) option" where
  "dns_parse callback r ctx =
     (if length r < 12 then Some (ctx, - 1)
      else do {
        f \<leftarrow> rd8 r 3;
        if and f 15 \<noteq> 0 then Some (ctx, 0)
        else do {
          q1 \<leftarrow> rd8 r 4; q0 \<leftarrow> rd8 r 5; a1 \<leftarrow> rd8 r 6; a0 \<leftarrow> rd8 r 7;
          q \<leftarrow> parse_questions r (unat q1 * 256 + unat q0) 12;
          case q of None \<Rightarrow> Some (ctx, - 1)
          | Some p \<Rightarrow> parse_answers callback r (unat a1 * 256 + unat a0) p ctx } })"

section \<open>Names as RFC 1035 describes them\<close>

text \<open>The offset in a pointer, and the label at a position.\<close>

definition target :: "bytes \<Rightarrow> nat \<Rightarrow> nat" where
  "target msg p = unat (and (msg ! p) 0x3f) * 256 + unat (msg ! (p + 1))"

definition label :: "bytes \<Rightarrow> nat \<Rightarrow> bytes" where
  "label msg p = take (unat (msg ! p)) (drop (p + 1) msg)"

text \<open>
  The labels of the name at position \<open>p\<close> and the number of bytes it takes there, read in at most \<open>n\<close> steps: a label,
  a pointer to another position (a byte with one of the two upper bits set, and the next one) or the end of the name.
\<close>

fun decode :: "nat \<Rightarrow> bytes \<Rightarrow> nat \<Rightarrow> (bytes list \<times> nat) option" where
  "decode 0 msg p = None"
| "decode (Suc n) msg p =
     (if p \<ge> length msg then None
      else if msg ! p = 0 then Some ([], 1)
      else if and (msg ! p) 0xc0 \<noteq> 0 then
        if p + 1 < length msg \<and> target msg p < length msg
        then map_option (\<lambda>(ls, w). (ls, 2)) (decode n msg (target msg p)) else None
      else if p + 1 + unat (msg ! p) < length msg
        then map_option (\<lambda>(ls, w). (label msg p # ls, 1 + unat (msg ! p) + w)) (decode n msg (p + 1 + unat (msg ! p))) else None)"

text \<open>The labels with dots between them, behind what is already written.\<close>

fun join :: "bytes \<Rightarrow> bytes list \<Rightarrow> bytes" where
  "join out [] = out"
| "join out (l # ls) = join ((if out = [] then [] else out @ [46]) @ l) ls"

section \<open>Expansion gives the name\<close>

lemma copy_label_eq:
  "p + j \<le> length msg \<Longrightarrow> length out + j \<le> space \<Longrightarrow> copy_label space msg p j out = Some (out @ take j (drop p msg))"
proof (induction j arbitrary: p out)
  case (Suc j)
  then have "drop p msg = msg ! p # drop (p + 1) msg" by (simp add: Cons_nth_drop_Suc)
  then show ?case using Suc by (simp add: rd8_def put_def)
qed simp

lemma length_join: "length out \<le> length (join out ls)"
  by (induction out ls rule: join.induct) auto

lemma unat_and_3f: "unat (and (c :: u8) 0x3f) < 64"
proof -
  have "and c 0x3f = take_bit 6 c" by (simp add: take_bit_eq_mask mask_eq_exp_minus_1)
  then show ?thesis using take_bit_nat_less_exp [of 6 "unat c"] by (simp add: unsigned_take_bit_eq)
qed

lemma pointer_value: "unat (or (push_bit 8 (ucast (and c 0x3f))) (ucast d) :: u32) = unat (and c 0x3f) * 256 + unat d" for c d :: u8
proof -
  let ?a = "unat (and c 0x3f)" and ?b = "unat d"
  have ab: "?a < 64" "?b < 2 ^ 8" using unat_and_3f [of c] by simp_all
  have "ucast d = (of_nat ?b :: u32)" by simp
  then have "or (push_bit 8 (ucast (and c 0x3f))) (ucast d) = (ucast (and c 0x3f) * 2 ^ 8 + of_nat ?b :: u32)"
    using or_push_bit_of_nat [OF ab(2), of "ucast (and c 0x3f) :: u32"] by metis
  also have "\<dots> = of_nat (?a * 256 + ?b)" by simp
  also have "unat \<dots> = ?a * 256 + ?b"
  proof -
    have "?b < 256" using ab(2) unfolding power2_eq_square by simp
    then have "?a * 256 + ?b < 4294967296" using ab(1) by linarith
    then show ?thesis by (subst unat_of_nat) simp
  qed
  finally show ?thesis .
qed

lemma expand_loop_decode:
  assumes "dend \<le> space"
  shows "p < length msg \<Longrightarrow> length out < dend \<Longrightarrow> len < 0 \<longrightarrow> src \<le> p \<Longrightarrow>
    expand_loop msg src space dend i p out len =
    Some (case decode ((length msg + 1 - i) div 2) msg p of None \<Rightarrow> None
      | Some (ls, w) \<Rightarrow> if length (join out ls) < dend then Some (if len < 0 then int (p + w) - int src else len, join out ls) else None)"
proof (induction "length msg - i" arbitrary: i p out len rule: less_induct)
  case less
  note e = expand_loop.simps [of msg src space dend i p out len]
  show ?case
  proof (cases "i < length msg")
    case False
    then show ?thesis by (simp add: e)
  next
    case True
    define n where "n = (length msg + 1 - (i + 2)) div 2"
    have n: "(length msg + 1 - i) div 2 = Suc n" using True by (auto simp: n_def)
    let ?c = "msg ! p"
    have c: "rd8 msg p = Some ?c" using less.prems(1) by (simp add: rd8_def)
    consider "?c = 0" | "?c \<noteq> 0" "and ?c 0xc0 \<noteq> 0" | "?c \<noteq> 0" "and ?c 0xc0 = 0" by blast
    then show ?thesis
    proof cases
      case 1
      then show ?thesis unfolding e n using True c less.prems assms by (simp add: put_def)
    next
      case 2
      have pv: "unat (or (push_bit 8 (ucast (and ?c 0x3f))) (ucast (msg ! Suc p)) :: u32) = target msg p"
        by (simp add: pointer_value target_def)
      show ?thesis
      proof (cases "p + 1 < length msg \<and> target msg p < length msg")
        case t: True
        have "expand_loop msg src space dend (i + 2) (target msg p) out (if len < 0 then int (p + 2) - int src else len) =
          Some (case decode n msg (target msg p) of None \<Rightarrow> None
            | Some (ls, w) \<Rightarrow> if length (join out ls) < dend then Some (if len < 0 then int (p + 2) - int src else len, join out ls) else None)"
          using less.hyps [of "i + 2" "target msg p" out "if len < 0 then int (p + 2) - int src else len"] t True less.prems
          unfolding n_def [symmetric] by (auto split: option.splits)
        then show ?thesis
          unfolding e n using True c 2 t pv by (simp add: rd8_def Let_def split: option.splits prod.splits)
      next
        case f: False
        then show ?thesis unfolding e n using True c 2 less.prems(1) pv by (auto simp: rd8_def Let_def)
      qed
    next
      case 3
      let ?j = "unat ?c" and ?o = "(if out = [] then [] else out @ [46])"
      have o: "(if out \<noteq> [] then put space out 46 else Some out) = Some ?o" using less.prems(2) assms by (simp add: put_def)
      show ?thesis
      proof (cases "?j \<ge> length msg - (p + 1) \<or> ?j \<ge> dend - length ?o")
        case t: True
        have "\<not> length (join out (label msg p # ls)) < dend" if "p + 1 + ?j < length msg" for ls
        proof -
          have "length (label msg p) = ?j" using that by (simp add: label_def)
          then show ?thesis using t that length_join [of "?o @ label msg p" ls] by (auto split: if_splits)
        qed
        then show ?thesis unfolding e n bind.bind_lunit o c using True 3 t by (auto split: option.splits)
      next
        case f: False
        then have "p + 1 + ?j \<le> length msg" "length ?o + ?j \<le> space" using assms by linarith+
        then have cp: "copy_label space msg (p + 1) ?j ?o = Some (?o @ label msg p)"
          unfolding label_def by (rule copy_label_eq)
        have l: "p + 1 + ?j < length msg" "length (?o @ label msg p) < dend" using f by (auto simp: label_def)
        have "expand_loop msg src space dend (i + 2) (p + 1 + ?j) (?o @ label msg p) len =
          Some (case decode n msg (p + 1 + ?j) of None \<Rightarrow> None
            | Some (ls, w) \<Rightarrow> if length (join (?o @ label msg p) ls) < dend
                then Some (if len < 0 then int (p + 1 + ?j + w) - int src else len, join (?o @ label msg p) ls) else None)"
          unfolding n_def by (rule less.hyps [OF _ l]) (use True less.prems(3) in auto)
        then show ?thesis unfolding e n using True c 3 f o cp l(1) by (auto simp: add.assoc split: option.splits)
      qed
    qed
  qed
qed

lemma dn_expand_decode:
  assumes "src \<le> length msg"
  shows "dn_expand msg src space =
    Some (case decode ((length msg + 1) div 2) msg src of
            None \<Rightarrow> None
          | Some (ls, w) \<Rightarrow> if int (length (join [] ls)) < min 254 space then Some (int w, join [] ls) else None)"
proof (cases "src = length msg \<or> space \<le> 0")
  case True
  have "decode n msg (length msg) = None" for n by (cases n) simp_all
  then show ?thesis using True by (auto simp: dn_expand_def split: option.splits)
next
  case False
  let ?d = "nat (if space > 254 then 254 else space)"
  have "?d \<le> nat space" "src < length msg" "length ([] :: bytes) < ?d" using False assms by auto
  from expand_loop_decode [OF this, of "-1" src 0] show ?thesis
    using False by (auto simp: dn_expand_def split: option.splits)
qed

lemma decode_width: "decode n msg p = Some (ls, w) \<Longrightarrow> 0 < w"
  by (cases n) (auto split: if_splits)

lemma dn_expand_fits:
  assumes "src \<le> length msg"
  shows "\<exists>e. dn_expand msg src space = Some e \<and> (\<forall>n name. e = Some (n, name) \<longrightarrow> 0 < n \<and> length name < 254 \<and> int (length name) < space)"
  using decode_width by (auto simp: dn_expand_decode [OF assms] split: option.splits)

section \<open>Parsing a reply\<close>

text \<open>The records of a reply that are complete, as type, offset and length, and the result when no callback stops; a callback fed with them.\<close>

definition rr_fields :: "bytes \<Rightarrow> nat \<Rightarrow> nat" where
  "rr_fields r q = q + 1 + of_bool (r ! q \<noteq> 0)"

definition rr_len :: "bytes \<Rightarrow> nat \<Rightarrow> nat" where
  "rr_len r k = unat (r ! (k + 8)) * 256 + unat (r ! (k + 9))"

fun answer_records :: "bytes \<Rightarrow> nat \<Rightarrow> nat \<Rightarrow> (u8 \<times> nat \<times> nat) list \<times> int" where
  "answer_records r 0 p = ([], 0)"
| "answer_records r (Suc n) p =
     (let q = skip_labels r p; k = rr_fields r q; len = rr_len r k in
      if int q > int (length r) - 12 \<or> int len + 10 > int (length r) - int k then ([], - 1)
      else map_prod (Cons (r ! (k + 1), k + 10, len)) id (answer_records r n (k + 10 + len)))"

definition reply_records :: "bytes \<Rightarrow> (u8 \<times> nat \<times> nat) list \<times> int" where
  "reply_records r =
     (if length r < 12 then ([], - 1)
      else if and (r ! 3) 15 \<noteq> 0 then ([], 0)
      else case the (parse_questions r (unat (r ! 4) * 256 + unat (r ! 5)) 12) of
        None \<Rightarrow> ([], - 1)
      | Some p \<Rightarrow> answer_records r (unat (r ! 6) * 256 + unat (r ! 7)) p)"

fun feed :: "'c callback \<Rightarrow> (u8 \<times> nat \<times> nat) list \<Rightarrow> int \<Rightarrow> 'c \<Rightarrow> ('c \<times> int) option" where
  "feed callback [] fin ctx = Some (ctx, fin)"
| "feed callback ((t, off, len) # rs) fin ctx =
     do { (ctx, ret) \<leftarrow> callback ctx t off len; if ret < 0 then Some (ctx, - 1) else feed callback rs fin ctx }"

lemma parse_answers_feed:
  "parse_answers callback r n p ctx = (case answer_records r n p of (rs, fin) \<Rightarrow> feed callback rs fin ctx)"
proof (induction n arbitrary: p ctx)
  case (Suc n)
  define q where "q = skip_labels r p"
  define k where "k = rr_fields r q"
  note defs = Let_def q_def [symmetric] rr_fields_def [symmetric] k_def [symmetric] rr_len_def [symmetric]
  show ?case
  proof (cases "int q > int (length r) - 12")
    case True
    then show ?thesis by (simp add: defs)
  next
    case False
    have k: "k + 10 \<le> length r" "rd8 r q = Some (r ! q)" using False by (auto simp: k_def rr_fields_def rd8_eq_Some)
    have l: "rd8 r (k + 8) = Some (r ! (k + 8))" "rd8 r (k + 9) = Some (r ! (k + 9))" "rd8 r (k + 1) = Some (r ! (k + 1))"
      using k(1) by (simp_all add: rd8_eq_Some)
    show ?thesis
      using False by (simp only: parse_answers.simps answer_records.simps defs k(2) bind.bind_lunit l if_False Suc.IH)
        (cases "answer_records r n (k + 10 + rr_len r k)"; simp cong: if_cong)
  qed
qed simp

lemma answer_records_inside: "(t, off, len) \<in> set (fst (answer_records r n p)) \<Longrightarrow> off + len \<le> length r"
  by (induction n arbitrary: p) (auto simp: Let_def split: if_splits)

lemma answer_records_result: "snd (answer_records r n p) \<in> {0, - 1}"
  by (induction n arbitrary: p) (auto simp: Let_def)

lemma parse_questions_defined: "\<exists>q. parse_questions r n p = Some q"
  by (induction n arbitrary: p) (auto simp: Let_def rd8_def)

lemma dns_parse_feed: "dns_parse callback r ctx = feed callback (fst (reply_records r)) (snd (reply_records r)) ctx"
proof (cases "length r < 12 \<or> and (r ! 3) 15 \<noteq> 0")
  case True
  then show ?thesis by (cases "length r < 12") (simp_all add: dns_parse_def reply_records_def rd8_eq_Some)
next
  case False
  obtain q where "parse_questions r (unat (r ! 4) * 256 + unat (r ! 5)) 12 = Some q" using parse_questions_defined by blast
  then show ?thesis using False
    by (cases q) (simp_all add: dns_parse_def reply_records_def rd8_eq_Some parse_answers_feed split: prod.splits)
qed

lemma reply_records_inside: "(t, off, len) \<in> set (fst (reply_records r)) \<Longrightarrow> off + len \<le> length r"
  by (auto simp: reply_records_def answer_records_inside split: if_splits option.splits)

lemma reply_records_result: "snd (reply_records r) \<in> {0, - 1}"
  using answer_records_result by (auto simp: reply_records_def split: option.splits)

text \<open>What a callback promises, and what \<open>dns_parse\<close> promises with such a callback.\<close>

locale dns_callback =
  fixes callback :: "'c callback" and r :: bytes and ok :: "'c \<Rightarrow> bool"
  assumes callback_ok: "ok ctx \<Longrightarrow> off + len \<le> length r \<Longrightarrow> \<exists>ctx' ret. callback ctx t off len = Some (ctx', ret) \<and> ok ctx'"
begin

lemma feed_ok:
  "ok ctx \<Longrightarrow> \<forall>(t, off, len) \<in> set rs. off + len \<le> length r \<Longrightarrow>
    \<exists>ctx' ret. feed callback rs fin ctx = Some (ctx', ret) \<and> ok ctx' \<and> ret \<in> {fin, - 1}"
proof (induction rs arbitrary: ctx)
  case (Cons rec rs)
  obtain t off len where rec: "rec = (t, off, len)" by (cases rec)
  with Cons.prems obtain ctx' ret where c: "callback ctx t off len = Some (ctx', ret)" "ok ctx'"
    using callback_ok [of ctx off len t] by auto
  then show ?case using Cons.IH [of ctx'] Cons.prems(2) by (auto simp: rec)
qed simp

lemma dns_parse_ok:
  assumes "ok ctx"
  shows "\<exists>ctx' ret. dns_parse callback r ctx = Some (ctx', ret) \<and> ok ctx' \<and> ret \<in> {0, - 1}"
proof -
  have "\<forall>(t, off, len) \<in> set (fst (reply_records r)). off + len \<le> length r" using reply_records_inside by fastforce
  from feed_ok [OF assms this, of "snd (reply_records r)"] show ?thesis
    using reply_records_result [of r] by (auto simp: dns_parse_feed)
qed

end

section \<open>Skipping a name\<close>

lemma skip_loop_inside: "s \<le> p \<Longrightarrow> \<exists>r. skip_loop msg s p = Some r \<and> (\<forall>k. r = Some k \<longrightarrow> s + k \<le> length msg)"
proof (induction msg s p rule: skip_loop.induct)
  case (1 msg s p)
  show ?case
  proof (cases "p < length msg \<and> msg ! p \<noteq> 0 \<and> unat (msg ! p) < 192 \<and> unat (msg ! p) + 1 \<le> length msg - p")
    case True
    then have "\<exists>r. skip_loop msg s (p + (unat (msg ! p) + 1)) = Some r \<and> (\<forall>k. r = Some k \<longrightarrow> s + k \<le> length msg)"
      using 1(2) by (intro 1(1) [OF _ rd8_eq_Some]) auto
    then show ?thesis using True by (subst (1) skip_loop.simps) (auto simp: rd8_eq_Some)
  next
    case False
    then show ?thesis using 1(2) by (subst skip_loop.simps) (auto simp: rd8_eq_Some)
  qed
qed

text \<open>A name that \<open>dn_skipname\<close> skips lies inside the message.\<close>

lemma dn_skipname_inside: "\<exists>r. dn_skipname msg s = Some r \<and> (\<forall>k. r = Some k \<longrightarrow> s + k \<le> length msg)"
  using skip_loop_inside [of s s msg] by (simp add: dn_skipname_def)

text \<open>
  The two functions disagree on the label types that RFC 1035 reserves, upper bits 01 and 10: \<open>dn_expand\<close> follows them as pointers,
  \<open>dn_skipname\<close> takes them for the length of a label.
\<close>

lemma reserved_labels_disagree: "dn_expand [64, 2, 0] 0 256 = Some (Some (2, [])) \<and> dn_skipname [64, 2, 0] 0 = Some None"
  by code_simp

section \<open>Properties\<close>

text \<open>
  C19. Whatever the message and the position in it, \<open>dn_expand\<close> returns without an access outside the message or the
  destination. It gives the name that labels and pointers describe and the bytes it takes at that position when that name is
  complete within as many steps as the message has pairs of bytes and its text and terminator fit the destination and
  254 characters, and otherwise -1: pointers that form a loop are an error, not a hang.
\<close>

theorem dn_expand_decodes:
  assumes "src \<le> length msg"
  shows "dn_expand msg src space =
    Some (case decode ((length msg + 1) div 2) msg src of
            None \<Rightarrow> None
          | Some (ls, w) \<Rightarrow> if int (length (join [] ls)) < min 254 space then Some (int w, join [] ls) else None)"
  by (rule dn_expand_decode [OF assms])

theorem dn_expand_decodes_witness:
  "dn_expand [1, 97, 0, 1, 98, 192, 0] 3 256 = Some (Some (4, [98, 46, 97])) \<and> dn_expand [192, 0] 0 256 = Some None"
proof -
  have "decode ((length [1, 97, 0, 1, 98, 192, 0 :: u8] + 1) div 2) [1, 97, 0, 1, 98, 192, 0] 3 = Some ([[98], [97]], 4)"
    "decode ((length [192, 0 :: u8] + 1) div 2) [192, 0] 0 = None" by code_simp+
  then show ?thesis
    using dn_expand_decodes [of 3 "[1, 97, 0, 1, 98, 192, 0]" 256] dn_expand_decodes [of 0 "[192, 0]" 256] by simp
qed

end
