(* ===== verification/Dns_Comp.thy ===== *)
theory Dns_Comp
  imports Dns
begin

text \<open>
  Writing names into DNS messages: \<open>dn_comp.c\<close> and \<open>res_mkquery.c\<close> of \<open>src/musl-1.2.5/src/network\<close>. A name is the list of its
  characters, without the terminator. \<open>None\<close> is a read outside the message or a write outside one of the buffers, or a run that does not end; \<open>Some None\<close> is the return
  value -1.

  Shown here: \<open>dn_comp\<close> writes inside the room it is given a name that \<open>dn_expand\<close> reads back as itself, compressed against the earlier names, and keeps its array of earlier
  names usable; a query of \<open>res_mkquery\<close> asks for the name, type and class it is given.
\<close>

section \<open>Model\<close>

definition wr :: "bytes \<Rightarrow> nat \<Rightarrow> bytes \<Rightarrow> bytes option" where
  "wr buf i bs = (if i + length bs \<le> length buf then Some (take i buf @ bs @ drop (i + length bs) buf) else None)"

text \<open>\<open>getoffs\<close>: the offsets of the labels; the empty list stands for the result 0. The array \<open>offs\<close> has 128 slots.\<close>

partial_function (option) getoffs :: "bytes \<Rightarrow> nat \<Rightarrow> nat list \<Rightarrow> nat list option" where
  "getoffs base s offs = do {
     c \<leftarrow> rd8 base s;
     if and c 0xc0 \<noteq> 0 then
       if and c 0xc0 \<noteq> 0xc0 then Some []
       else do { d \<leftarrow> rd8 base (s + 1); getoffs base (unat (or (push_bit 8 (ucast (and c 0x3f))) (ucast d) :: u32)) offs }
     else if c = 0 then Some offs
     else if s \<ge> 0x4000 then Some []
     else if length offs < 128 then getoffs base (s + (unat c + 1)) (offs @ [s])
     else None }"

text \<open>\<open>getlens\<close>: the lengths of the labels of the first \<open>l\<close> characters of \<open>s\<close>, in an array of 127 slots; the empty list stands for the result 0.\<close>

function dot_at :: "bytes \<Rightarrow> nat \<Rightarrow> nat \<Rightarrow> nat" where
  "dot_at s l j = (if j < l \<and> s ! j \<noteq> 46 then dot_at s l (j + 1) else j)"
  by pat_completeness auto
termination by (relation "measure (\<lambda>(s, l, j). l - j)") auto

declare dot_at.simps [simp del]

lemma dot_at_range: "dot_at s l k \<le> max k l"
  by (induction s l k rule: dot_at.induct) (subst dot_at.simps, auto)

function getlens :: "bytes \<Rightarrow> nat \<Rightarrow> nat \<Rightarrow> nat list \<Rightarrow> nat list option" where
  "getlens s l k lens =
     (let j = dot_at s l k in
      if of_nat (j - k) - 1 > (62 :: u32) then Some []
      else if length lens < 127 then if j = l then Some (lens @ [j - k]) else getlens s l (j + 1) (lens @ [j - k])
      else None)"
  by pat_completeness auto
termination
proof (relation "measure (\<lambda>(s, l, k, lens). l + 1 - k)")
  fix s l k lens j
  assume j: "j = dot_at s l k" "\<not> of_nat (j - k) - 1 > (62 :: u32)" "j \<noteq> l"
  have "j - k \<noteq> 0"
  proof
    assume "j - k = 0"
    then show False using j(2) by simp
  qed
  then have "k < j" by simp
  moreover have "j \<le> l" using dot_at_range [of s l k] \<open>k < j\<close> j(1) by simp
  ultimately show "((s, l, j + 1, lens @ [j - k]), s, l, k, lens) \<in> measure (\<lambda>(s, l, k, lens). l + 1 - k)"
    using j(3) by simp
qed simp

declare getlens.simps [simp del]

text \<open>
  \<open>match\<close>: the length of the longest common suffix, a dot before it included, and the offset where it starts in the
  message (of no meaning when the length is 0). \<open>src\<close> are the characters before the first \<open>end\<close>.
\<close>

fun match_loop :: "bytes \<Rightarrow> bytes \<Rightarrow> nat list \<Rightarrow> nat list \<Rightarrow> nat \<Rightarrow> nat \<Rightarrow> nat \<Rightarrow> nat \<Rightarrow> nat \<Rightarrow> (nat \<times> nat) option" where
  "match_loop base src lens offs (Suc nlen) (Suc noff) e m off =
     (let l = lens ! nlen; o' = offs ! noff; e = e - l in do {
        b \<leftarrow> rd8 base o';
        eq \<leftarrow> (if l \<noteq> unat b then Some False
               else do { x \<leftarrow> rd base (o' + 1) l; y \<leftarrow> rd src e l; Some (x = y) });
        if \<not> eq then Some (m, off)
        else let m = m + l; m = (if nlen \<noteq> 0 then m + 1 else m) in
          if nlen = 0 \<or> noff = 0 then Some (m, o') else match_loop base src lens offs nlen noff (e - 1) m o' })"
| "match_loop base src lens offs _ _ e m off = None"

definition match :: "bytes \<Rightarrow> nat \<Rightarrow> bytes \<Rightarrow> nat \<Rightarrow> nat list \<Rightarrow> nat \<Rightarrow> (nat \<times> nat) option" where
  "match base dn src l lens off = do {
     offs \<leftarrow> getoffs base dn [];
     if offs = [] then Some (0, off) else match_loop base src lens offs (length lens) (length offs) l 0 off }"

text \<open>The loop over the earlier names, \<open>for (p++; *p; p++)\<close>.\<close>

fun best_match :: "bytes \<Rightarrow> nat list \<Rightarrow> bytes \<Rightarrow> nat \<Rightarrow> nat list \<Rightarrow> nat \<Rightarrow> nat \<Rightarrow> nat \<Rightarrow> (nat \<times> nat) option" where
  "best_match base [] src l lens off bestlen bestoff = Some (bestlen, bestoff)"
| "best_match base (p # ps) src l lens off bestlen bestoff = do {
     (m, off) \<leftarrow> match base p src l lens off;
     if m > bestlen then if m = l then Some (m, off) else best_match base ps src l lens off m off
     else best_match base ps src l lens off bestlen bestoff }"

text \<open>\<open>for (i=j=0; i<l-bestlen; i+=lens[j++]+1) dst[i] = lens[j];\<close>\<close>

fun put_lens :: "nat \<Rightarrow> nat list \<Rightarrow> nat \<Rightarrow> bytes \<Rightarrow> (nat \<times> bytes) option" where
  "put_lens n lens i dst =
     (if i < n then case lens of [] \<Rightarrow> None | x # xs \<Rightarrow> do { dst \<leftarrow> wr dst i [of_nat x]; put_lens n xs (i + x + 1) dst }
      else Some (i, dst))"

text \<open>The block \<open>save dst pointer\<close>, after a name of \<open>i\<close> bytes at the end of the message.\<close>

definition save_dnptr :: "bytes \<Rightarrow> nat option \<Rightarrow> nat \<Rightarrow> nat list option \<Rightarrow> nat list option" where
  "save_dnptr base lastdnptr i dnptrs = (case (dnptrs, lastdnptr) of
     (Some (b # ps), Some n) \<Rightarrow> if i > 2 \<and> length (b # ps) + 1 < n then Some (b # ps @ [length base]) else dnptrs
   | _ \<Rightarrow> dnptrs)"

text \<open>
  \<open>dn_comp(src, dst, space, dnptrs, lastdnptr)\<close>. The buffer \<open>dst\<close> is its \<open>space\<close> bytes; \<open>base\<close> is the message up to where it is
  written, to which \<open>dnptrs[0]\<close> points; \<open>dnptrs\<close> is \<open>None\<close> for a null pointer and otherwise the pointers before the terminating null, as offsets;
  \<open>lastdnptr\<close> is \<open>None\<close> for a null pointer and otherwise the number of slots. The result has the bytes written, the buffer and the new \<open>dnptrs\<close>.
\<close>

definition dn_comp :: "bytes \<Rightarrow> bytes \<Rightarrow> bytes \<Rightarrow> nat list option \<Rightarrow> nat option \<Rightarrow> (nat \<times> bytes \<times> nat list option) option option" where
  "dn_comp src dst base dnptrs lastdnptr =
     (let l = min 255 (length src);
          l = (if l \<noteq> 0 \<and> src ! (l - 1) = 46 then l - 1 else l) in
      if l > 253 \<or> length dst = 0 then Some None
      else if l = 0 then do { dst \<leftarrow> wr dst 0 [0]; Some (Some (1, dst, dnptrs)) }
      else do {
        lens \<leftarrow> getlens src l 0 [];
        if lens = [] then Some None
        else do {
          (bestlen, bestoff) \<leftarrow> (case dnptrs of Some (_ # ps) \<Rightarrow> best_match base ps src l lens 0 0 0 | _ \<Rightarrow> Some (0, 0));
          if length dst < l - bestlen + 2 + of_bool (of_nat bestlen - 1 < (of_nat l - 1 :: u64)) then Some None
          else do {
            text \<leftarrow> rd src 0 (l - bestlen);
            dst \<leftarrow> wr dst 1 text;
            (i, dst) \<leftarrow> put_lens (l - bestlen) lens 0 dst;
            (i, dst) \<leftarrow>
              (if bestlen \<noteq> 0 then do {
                 dst \<leftarrow> wr dst i [or 0xc0 (of_nat (bestoff div 256))];
                 dst \<leftarrow> wr dst (i + 1) [of_nat bestoff];
                 Some (i + 2, dst) }
               else do { dst \<leftarrow> wr dst i [0]; Some (i + 1, dst) });
            Some (Some (i, dst, save_dnptr base lastdnptr i dnptrs)) } } })"

text \<open>
  The loop of \<open>__res_mkquery\<close> that turns the dots of the name in \<open>q\<close> into lengths; the array is the part of it that is sent.
\<close>

function query_scan :: "bytes \<Rightarrow> nat \<Rightarrow> nat option" where
  "query_scan q j = do { c \<leftarrow> rd8 q j; if c \<noteq> 0 \<and> c \<noteq> 46 then query_scan q (j + 1) else Some j }"
  by pat_completeness auto
termination by (relation "measure (\<lambda>(q, j). length q - j)") (auto simp: rd8_def split: if_splits)

declare query_scan.simps [simp del]

lemma query_scan_range: "query_scan q j = Some k \<Longrightarrow> j \<le> k \<and> k < length q"
proof (induction q j rule: query_scan.induct)
  case (1 q j)
  then show ?case using query_scan.simps [of q j] by (fastforce simp: rd8_def split: if_splits)
qed

lemma length_wr: "wr buf i bs = Some buf' \<Longrightarrow> length buf' = length buf"
  by (auto simp: wr_def split: if_splits)

function query_labels :: "bytes \<Rightarrow> nat \<Rightarrow> (nat \<times> bytes) option option" where
  "query_labels q i = do {
     c \<leftarrow> rd8 q i;
     if c = 0 then Some (Some (i, q))
     else do {
       j \<leftarrow> query_scan q i;
       if of_nat (j - i) - 1 > (62 :: u32) then Some None
       else do { q' \<leftarrow> wr q (i - 1) [of_nat (j - i)]; query_labels q' (j + 1) } } }"
  by pat_completeness auto
termination
  by (relation "measure (\<lambda>(q, i). length q - i)") (auto dest!: length_wr query_scan_range)

declare query_labels.simps [simp del]

text \<open>
  \<open>__res_mkquery\<close>, with the length of the buffer and the nanoseconds of the clock as arguments; the first \<open>n\<close> bytes of \<open>q\<close> are all that
  is used of it.
\<close>

definition res_mkquery :: "int \<Rightarrow> bytes \<Rightarrow> int \<Rightarrow> int \<Rightarrow> u64 \<Rightarrow> int \<Rightarrow> bytes option option" where
  "res_mkquery op dname class type tv_nsec buflen =
     (let l = min 255 (length dname);
          l = (if l \<noteq> 0 \<and> dname ! (l - 1) = 46 then l - 1 else l) in
      if l \<noteq> 0 \<and> dname ! (l - 1) = 46 then Some None
      else let n = 17 + l + of_bool (l \<noteq> 0) in
        if l > 253 \<or> buflen < int n \<or> \<not> (0 \<le> op \<and> op \<le> 15) \<or> \<not> (0 \<le> class \<and> class \<le> 255) \<or> \<not> (0 \<le> type \<and> type \<le> 255)
        then Some None
        else do {
          q \<leftarrow> wr (replicate n 0) 2 [of_int (op * 8 + 1)];
          q \<leftarrow> wr q 3 [32];
          q \<leftarrow> wr q 5 [1];
          text \<leftarrow> rd dname 0 l;
          q \<leftarrow> wr q 13 text;
          r \<leftarrow> query_labels q 13;
          case r of None \<Rightarrow> Some None
          | Some (i, q) \<Rightarrow> do {
              q \<leftarrow> wr q (i + 1) [of_int type];
              q \<leftarrow> wr q (i + 3) [of_int class];
              let id' = unat (and (tv_nsec + tv_nsec div 65536) 0xffff);
              q \<leftarrow> wr q 0 [of_nat (id' div 256)];
              q \<leftarrow> wr q 1 [of_nat id'];
              Some (Some q) } })"

section \<open>Labels of a text\<close>

fun labels :: "bytes \<Rightarrow> bytes list" where
  "labels [] = [[]]"
| "labels (c # cs) = (if c = 46 then [] # labels cs else (c # hd (labels cs)) # tl (labels cs))"

fun dotted :: "bytes list \<Rightarrow> bytes" where
  "dotted [] = []"
| "dotted [x] = x"
| "dotted (x # y # ys) = x @ 46 # dotted (y # ys)"

definition wf_labels :: "bytes list \<Rightarrow> bool" where
  "wf_labels ls \<longleftrightarrow> (\<forall>x \<in> set ls. 0 < length x \<and> length x \<le> 63)"

lemma labels_not_Nil [simp]: "labels t \<noteq> []"
  by (cases t) auto

lemma labels_unfold:
  "labels t = takeWhile (\<lambda>c. c \<noteq> 46) t # (case dropWhile (\<lambda>c. c \<noteq> 46) t of [] \<Rightarrow> [] | _ # r \<Rightarrow> labels r)"
  by (induction t) (auto split: list.splits)

lemma dotted_Cons: "dotted (x # xs) = x @ (if xs = [] then [] else 46 # dotted xs)"
  by (cases xs) auto

lemma dotted_labels [simp]: "dotted (labels t) = t"
proof (induction t)
  case (Cons c cs)
  obtain x xs where x: "labels cs = x # xs" by (cases "labels cs") auto
  then have "x @ (if xs = [] then [] else 46 # dotted xs) = cs" using Cons by (simp add: dotted_Cons)
  then show ?case using x by (auto simp: dotted_Cons)
qed simp

lemma join_dotted: "wf_labels ls \<Longrightarrow> join out ls = (if out = [] then dotted ls else if ls = [] then out else out @ 46 # dotted ls)"
  by (induction out ls rule: join.induct) (auto simp: wf_labels_def dotted_Cons)

lemma length_dotted: "wf_labels ls \<Longrightarrow> 2 * length ls \<le> length (dotted ls) + 1"
proof (induction ls rule: dotted.induct)
  case (3 x y ys)
  then have "0 < length x" "2 * length (y # ys) \<le> length (dotted (y # ys)) + 1" by (auto simp: wf_labels_def)
  moreover have "length (dotted (x # y # ys)) = length x + 1 + length (dotted (y # ys))" by simp
  ultimately show ?case by (simp only: length_Cons) presburger
qed (auto simp: wf_labels_def Suc_le_eq)

lemma dotted_append: "us \<noteq> [] \<Longrightarrow> vs \<noteq> [] \<Longrightarrow> dotted (us @ vs) = dotted us @ 46 # dotted vs"
  by (induction us rule: dotted.induct) (auto simp: dotted_Cons)

lemma dot_at_eq: "k \<le> l \<Longrightarrow> l \<le> length s \<Longrightarrow> dot_at s l k = k + length (takeWhile (\<lambda>c. c \<noteq> 46) (drop k (take l s)))"
proof (induction s l k rule: dot_at.induct)
  case (1 s l j)
  show ?case
  proof (cases "j < l")
    case True
    then have "drop j (take l s) = s ! j # drop (j + 1) (take l s)" using 1(3) by (simp flip: Cons_nth_drop_Suc)
    then show ?thesis using 1 True by (subst dot_at.simps) auto
  qed (use 1 in \<open>subst dot_at.simps, auto\<close>)
qed

lemma label_test: "n \<le> 253 \<Longrightarrow> of_nat n - 1 > (62 :: u32) \<longleftrightarrow> n = 0 \<or> n > 63"
proof (cases n)
  case (Suc m)
  assume "n \<le> 253"
  then have "unat (of_nat m :: u32) = m" using Suc by (subst unat_of_nat) simp
  then show ?thesis using Suc by (auto simp: word_less_nat_alt)
qed simp

lemma getlens_labels:
  assumes "l \<le> length s" "l \<le> 253" "k \<le> l" "2 * length lens \<le> k"
  shows "getlens s l k lens =
    Some (if wf_labels (labels (drop k (take l s))) then lens @ map length (labels (drop k (take l s))) else [])"
  using assms
proof (induction s l k lens rule: getlens.induct)
  case (1 s l k lens)
  let ?t = "drop k (take l s)" and ?j = "dot_at s l k"
  define w where "w = takeWhile (\<lambda>c. c \<noteq> 46) ?t"
  have j: "?j = k + length w" using dot_at_eq [OF 1(4,2)] by (simp add: w_def)
  have len: "length ?t = l - k" "length w \<le> length ?t" using 1(2) length_takeWhile_le [of "\<lambda>c. c \<noteq> 46" ?t] by (simp_all add: w_def)
  have test: "of_nat (?j - k) - 1 > (62 :: u32) \<longleftrightarrow> length w = 0 \<or> length w > 63" using label_test [of "length w"] len 1(3) by (simp add: j)
  have d: "dropWhile (\<lambda>c. c \<noteq> 46) ?t = drop (length w) ?t" by (simp add: w_def dropWhile_eq_drop)
  have lab: "labels ?t = w # (case drop (length w) ?t of [] \<Rightarrow> [] | _ # r \<Rightarrow> labels r)"
    using labels_unfold [of ?t] by (simp add: d w_def)
  show ?case
  proof (cases "length w = 0 \<or> length w > 63")
    case True
    then show ?thesis using test lab by (subst getlens.simps) (auto simp: Let_def wf_labels_def)
  next
    case f: False
    have room: "length lens < 127" using 1(3-5) by linarith
    show ?thesis
    proof (cases "?j = l")
      case True
      then show ?thesis using test f lab room j len by (subst getlens.simps) (simp add: Let_def wf_labels_def)
    next
      case False
      then have "length w < length ?t" using j len 1(4) by linarith
      then have c: "drop (length w) ?t = ?t ! length w # drop (?j + 1) (take l s)"
        using Cons_nth_drop_Suc [of "length w" ?t] by (simp add: j add.commute)
      have "getlens s l (?j + 1) (lens @ [?j - k]) =
        Some (if wf_labels (labels (drop (?j + 1) (take l s))) then (lens @ [?j - k]) @ map length (labels (drop (?j + 1) (take l s))) else [])"
      proof (rule 1(1) [OF refl])
        show "\<not> of_nat (?j - k) - 1 > (62 :: u32)" using test f by simp
        show "2 * length (lens @ [?j - k]) \<le> ?j + 1" using f 1(5) j by (cases w) auto
      qed (use room False 1(2-4) j len \<open>length w < length ?t\<close> in auto)
      moreover have "labels ?t = w # labels (drop (?j + 1) (take l s))" unfolding lab c by simp
      ultimately show ?thesis using test f room False j by (subst getlens.simps) (simp add: Let_def wf_labels_def)
    qed
  qed
qed

section \<open>Names in a message\<close>

lemma decode_mono: "decode n msg p = Some r \<Longrightarrow> n \<le> m \<Longrightarrow> decode m msg p = Some r"
proof (induction n arbitrary: m p r)
  case (Suc n)
  then obtain m' where "m = Suc m'" "n \<le> m'" by (cases m) auto
  then show ?case using Suc.prems(1) by (auto split: if_splits dest!: Suc.IH [OF _ \<open>n \<le> m'\<close>])
qed simp

lemma decode_append: "decode n msg p = Some r \<Longrightarrow> decode n (msg @ xs) p = Some r"
proof (induction n arbitrary: p r)
  case (Suc n)
  have "target (msg @ xs) p = target msg p" if "p + 1 < length msg" using that by (simp add: target_def nth_append)
  moreover have "label (msg @ xs) p = label msg p" if "p + 1 + unat (msg ! p) < length msg" using that by (simp add: label_def nth_append)
  ultimately show ?case using Suc by (auto simp: nth_append split: if_splits)
qed simp

lemma and_3f: "unat c \<le> 63 \<Longrightarrow> and c 0x3f = c" for c :: u8
proof -
  assume "unat c \<le> 63"
  then have "take_bit 6 (unat c) = unat c" by (simp add: take_bit_nat_eq_self)
  moreover have "and c 0x3f = take_bit 6 c" by (simp add: take_bit_eq_mask mask_eq_exp_minus_1)
  ultimately show ?thesis by (simp add: unsigned_take_bit_eq word_unat_eq_iff)
qed

lemma plain_label: "and c 0xc0 = 0 \<longleftrightarrow> unat c \<le> 63" for c :: u8
proof -
  have "or 0xc0 0x3f = (- 1 :: u8)" by simp
  then have c: "c = or (and c 0xc0) (and c 0x3f)" by (metis and.right_neutral bit.conj_disj_distrib)
  show ?thesis
  proof
    assume "and c 0xc0 = 0"
    then show "unat c \<le> 63" using c unat_and_3f [of c] by simp
  next
    assume "unat c \<le> 63"
    then have "and c 0xc0 = and (and c 0x3f) 0xc0" by (simp only: and_3f)
    also have "\<dots> = and c (and 0x3f 0xc0)" by (rule and.assoc)
    finally show "and c 0xc0 = 0" by simp
  qed
qed

lemma decode_good: "decode n msg p = Some (ls, w) \<Longrightarrow> wf_labels ls"
proof (induction n arbitrary: p ls w)
  case (Suc n)
  then show ?case by (fastforce simp: wf_labels_def label_def plain_label unat_eq_zero split: if_splits)
qed simp

definition encode :: "bytes list \<Rightarrow> bytes" where
  "encode ls = concat (map (\<lambda>x. of_nat (length x) # x) ls)"

lemma encode_simps [simp]: "encode [] = []" "encode (x # xs) = of_nat (length x) # x @ encode xs"
  by (simp_all add: encode_def)

lemma length_encode_labels: "ls \<noteq> [] \<Longrightarrow> length (encode ls) = length (dotted ls) + 1"
  by (induction ls rule: dotted.induct) auto

lemma label_byte:
  assumes "n \<le> 63"
  shows "unat (of_nat n :: u8) = n"
  using assms by (subst unat_of_nat) simp

lemma decode_encode:
  assumes "wf_labels us" "drop p msg = encode us @ rest" "decode n msg (p + length (encode us)) = Some (vs, w)" "rest \<noteq> []"
  shows "decode (length us + n) msg p = Some (us @ vs, length (encode us) + w)"
  using assms
proof (induction us arbitrary: p)
  case (Cons x us)
  have x: "x \<noteq> []" "length x \<le> 63" and us: "wf_labels us" using Cons.prems(1) by (simp_all add: wf_labels_def)
  have d: "drop p msg = of_nat (length x) # x @ encode us @ rest" using Cons.prems(2) by simp
  then have p: "p < length msg" by (metis drop_all list.distinct(1) not_le)
  have len: "length msg - p = 1 + length x + length (encode us) + length rest" using arg_cong [OF d, of length] by simp
  have c: "msg ! p = of_nat (length x)" using d p by (metis Cons_nth_drop_Suc list.inject)
  have u: "unat (msg ! p) = length x" unfolding c using x(2) by (rule label_byte)
  have d1: "drop (p + 1) msg = x @ encode us @ rest" using d p by (metis Cons_nth_drop_Suc Suc_eq_plus1 list.inject)
  have "drop (p + 1 + length x) msg = drop (length x) (drop (p + 1) msg)" by (simp add: add.commute)
  then have "drop (p + 1 + length x) msg = encode us @ rest" unfolding d1 by simp
  from Cons.IH [OF us this] Cons.prems(3,4) have IH: "decode (length us + n) msg (p + 1 + length x) = Some (us @ vs, length (encode us) + w)"
    by (simp add: add_ac)
  have "label msg p = x" using d1 u by (simp add: label_def)
  moreover have "msg ! p \<noteq> 0" using u x(1) by (metis length_0_conv unat_0)
  moreover have "p + 1 + length x < length msg" using len Cons.prems(4) by (cases rest) auto
  ultimately show ?case using IH p u x(2) by (simp add: plain_label)
qed simp

section \<open>Matching\<close>

text \<open>The positions \<open>os\<close> of the labels \<open>ds\<close> of a name: each holds a label, and the name from there on is the rest of the labels.\<close>

definition positions :: "nat \<Rightarrow> bytes \<Rightarrow> bytes list \<Rightarrow> nat list \<Rightarrow> bool" where
  "positions n base ds os \<longleftrightarrow> length os = length ds \<and>
     (\<forall>k < length ds. os ! k < 0x4000 \<and> base ! (os ! k) \<noteq> 0 \<and> and (base ! (os ! k)) 0xc0 = 0 \<and>
        (\<exists>w. decode n base (os ! k) = Some (drop k ds, w)))"

lemma positions_Suc: "positions n base ds os \<Longrightarrow> positions (Suc n) base ds os"
  unfolding positions_def using decode_mono [of n base _ _ "Suc n"] by (metis le_Suc_eq order_refl)

lemma positions_Cons:
  assumes "positions n base ds os" "s < 0x4000" "base ! s \<noteq> 0" "and (base ! s) 0xc0 = 0" "decode n base s = Some (d # ds, w)"
  shows "positions n base (d # ds) (s # os)"
  using assms by (auto simp: positions_def nth_Cons' less_Suc_eq_0_disj)

lemma getoffs_positions:
  assumes "decode n base s = Some (ds, w)" "length offs + length ds \<le> 128"
  shows "getoffs base s offs = Some [] \<or> (\<exists>os. getoffs base s offs = Some (offs @ os) \<and> positions n base ds os)"
  using assms
proof (induction n arbitrary: s offs ds w)
  case (Suc n)
  have s: "s < length base" "rd8 base s = Some (base ! s)" using Suc.prems(1) by (auto simp: rd8_eq_Some split: if_splits)
  note e = getoffs.simps [of base s offs]
  consider "base ! s = 0" | "base ! s \<noteq> 0" "and (base ! s) 0xc0 \<noteq> 0" | "base ! s \<noteq> 0" "and (base ! s) 0xc0 = 0" by blast
  then show ?case
  proof cases
    case 1
    then have "ds = []" using Suc.prems(1) s by simp
    then show ?thesis using 1 s by (subst (1 2) e) (simp add: positions_def)
  next
    case 2
    then obtain w' where t: "s + 1 < length base" "decode n base (target base s) = Some (ds, w')"
      using Suc.prems(1) s by (auto split: if_splits)
    show ?thesis
    proof (cases "and (base ! s) 0xc0 = 0xc0")
      case True
      then have "getoffs base s offs = getoffs base (target base s) offs"
        using 2 s t(1) by (subst e) (simp add: rd8_eq_Some pointer_value target_def)
      then show ?thesis using Suc.IH [OF t(2) Suc.prems(2)] positions_Suc by auto
    next
      case False
      then show ?thesis using 2 s by (subst e) simp
    qed
  next
    case 3
    let ?q = "s + (unat (base ! s) + 1)"
    obtain ds' w' where t: "decode n base ?q = Some (ds', w')" "ds = label base s # ds'"
      using Suc.prems(1) s 3 by (auto simp: add_ac split: if_splits)
    show ?thesis
    proof (cases "s \<ge> 0x4000")
      case True
      then show ?thesis using 3 s by (subst e) simp
    next
      case False
      then have g: "getoffs base s offs = getoffs base ?q (offs @ [s])" using 3 s Suc.prems(2) t(2) by (subst e) simp
      have "length (offs @ [s]) + length ds' \<le> 128" using Suc.prems(2) t(2) by simp
      from Suc.IH [OF t(1) this] show ?thesis
      proof
        assume "\<exists>os. getoffs base ?q (offs @ [s]) = Some ((offs @ [s]) @ os) \<and> positions n base ds' os"
        then obtain os where os: "getoffs base ?q (offs @ [s]) = Some (offs @ s # os)" "positions (Suc n) base ds' os"
          using positions_Suc by auto
        then show ?thesis using positions_Cons [OF os(2), of s] False 3 Suc.prems(1) g unfolding t(2) by auto
      qed (simp add: g)
    qed
  qed
qed simp

lemma positions_label:
  assumes "positions n base ds os" "k < length ds"
  shows "rd8 base (os ! k) = Some (base ! (os ! k))" "unat (base ! (os ! k)) = length (ds ! k)"
    "rd base (os ! k + 1) (length (ds ! k)) = Some (ds ! k)"
proof -
  let ?o = "os ! k"
  obtain w where o: "base ! ?o \<noteq> 0" "and (base ! ?o) 0xc0 = 0" "decode n base ?o = Some (drop k ds, w)"
    using assms by (auto simp: positions_def)
  have "drop k ds = ds ! k # drop (Suc k) ds" using assms(2) by (simp add: Cons_nth_drop_Suc)
  with o have "?o < length base" "?o + 1 + unat (base ! ?o) < length base" "ds ! k = label base ?o"
    by (cases n; auto split: if_splits)+
  then show "rd8 base ?o = Some (base ! ?o)" "unat (base ! ?o) = length (ds ! k)" "rd base (?o + 1) (length (ds ! k)) = Some (ds ! k)"
    by (simp_all add: rd8_eq_Some rd_eq_Some label_def)
qed

lemma dotted_snoc: "dotted (us @ [x]) = (if us = [] then x else dotted us @ 46 # x)"
  by (simp add: dotted_append)

text \<open>A length and an offset that describe a common suffix of the text and a name in the message.\<close>

definition suffix_at :: "nat \<Rightarrow> bytes \<Rightarrow> bytes list \<Rightarrow> nat \<Rightarrow> nat \<Rightarrow> bool" where
  "suffix_at n base ls m off \<longleftrightarrow> (\<exists>us vs w. ls = us @ vs \<and> vs \<noteq> [] \<and> m = length (dotted ls) - length (dotted us) \<and>
     off < 0x4000 \<and> decode n base off = Some (vs, w))"

lemma suffix_at_position:
  "positions n base ds os \<Longrightarrow> k < length ds \<Longrightarrow> ls = us @ drop k ds \<Longrightarrow>
    suffix_at n base ls (length (dotted ls) - length (dotted us)) (os ! k)"
  unfolding suffix_at_def positions_def by (metis drop_eq_Nil not_le)

lemma match_loop_suffix:
  assumes pos: "positions n base ds os" and src: "take (length (dotted ls)) src = dotted ls" "length (dotted ls) \<le> length src"
    and "ls = us @ drop noff ds" "us \<noteq> []" "0 < noff" "noff \<le> length ds"
    and "m = (if noff = length ds then 0 else length (dotted ls) - length (dotted us))" "noff < length ds \<longrightarrow> off = os ! noff"
  shows "\<exists>m' off'. match_loop base src (map length ls) os (length us) noff (length (dotted us)) m off = Some (m', off') \<and>
    (m' = 0 \<or> suffix_at n base ls m' off')"
  using assms(4-)
proof (induction us arbitrary: noff m off rule: rev_induct)
  case (snoc x us)
  obtain k where k: "noff = Suc k" "k < length ds" using snoc.prems(3,4) by (cases noff) auto
  have ds: "drop k ds = ds ! k # drop (Suc k) ds" using k(2) by (simp add: Cons_nth_drop_Suc)
  note lab = positions_label [OF pos k(2)]
  let ?e = "length (dotted (us @ [x])) - length x" and ?L = "length (dotted ls)"
  have lens: "map length ls ! length us = length x" unfolding snoc.prems(1) by (simp add: nth_append)
  have pre: "\<exists>zs. dotted ls = dotted (us @ [x]) @ zs"
    unfolding snoc.prems(1) using dotted_append [of "us @ [x]" "drop noff ds"] by (cases "drop noff ds = []") auto
  then obtain zs where zs: "dotted ls = dotted (us @ [x]) @ zs" ..
  have e: "?e + length x = length (dotted (us @ [x]))" "drop ?e (dotted (us @ [x])) = x" by (simp_all add: dotted_snoc)
  have rdx: "rd src ?e (length x) = Some x"
  proof -
    have "take (length x) (drop ?e (dotted ls)) = x" unfolding zs using e by simp
    then have "take (length x) (drop ?e (take ?L src)) = x" using src(1) by simp
    moreover have le: "?e + length x \<le> ?L" unfolding e(1) zs by simp
    then have "take (length x) (drop ?e (take ?L src)) = take (length x) (drop ?e src)" by (intro nth_equalityI) (use src(2) in auto)
    ultimately show ?thesis using src(2) le by (simp add: rd_eq_Some)
  qed
  define m2 where "m2 = ?L - length (dotted us)"
  have m2: "(if length us \<noteq> 0 then m + length x + 1 else m + length x) = m2"
  proof -
    have "m + length (dotted (us @ [x])) = ?L"
    proof (cases "noff = length ds")
      case True
      then show ?thesis using snoc.prems(1,5) by simp
    next
      case False
      then show ?thesis using snoc.prems(5) zs by simp
    qed
    then show ?thesis unfolding m2_def by (auto simp: dotted_snoc)
  qed
  have loop: "match_loop base src (map length ls) os (length (us @ [x])) noff (length (dotted (us @ [x]))) m off =
    (if x \<noteq> ds ! k then Some (m, off)
     else if length us = 0 \<or> k = 0 then Some (m2, os ! k)
     else match_loop base src (map length ls) os (length us) k (?e - 1) m2 (os ! k))"
    unfolding length_append_singleton k(1) match_loop.simps Let_def lens lab bind.bind_lunit m2
    using lab(3) rdx by (cases "length x = length (ds ! k)") auto
  show ?case
  proof (cases "x = ds ! k")
    case False
    then show ?thesis unfolding loop using snoc.prems suffix_at_position [OF pos, of noff ls "us @ [x]"]
      by (cases "noff = length ds") auto
  next
    case True
    then have ls: "ls = us @ drop k ds" using snoc.prems(1) k(1) ds by simp
    have s: "suffix_at n base ls m2 (os ! k)" unfolding m2_def by (rule suffix_at_position [OF pos k(2) ls])
    show ?thesis
    proof (cases "length us = 0 \<or> k = 0")
      case False
      then have "?e - 1 = length (dotted us)" by (simp add: dotted_snoc)
      then show ?thesis unfolding loop using True False snoc.IH [OF ls, of m2 "os ! k"] k(2) by (simp add: m2_def)
    qed (use True s loop in auto)
  qed
qed simp

lemma match_suffix:
  assumes "decode n base p = Some (ds, w)" "length ds \<le> 128" "ls \<noteq> []"
    "take (length (dotted ls)) src = dotted ls" "length (dotted ls) \<le> length src"
  shows "\<exists>m off'. match base p src (length (dotted ls)) (map length ls) off = Some (m, off') \<and> (m = 0 \<or> suffix_at n base ls m off')"
proof -
  consider "getoffs base p [] = Some []" | os where "getoffs base p [] = Some os" "positions n base ds os" "os \<noteq> []"
    using getoffs_positions [OF assms(1), of "[]"] assms(2) by auto
  then show ?thesis
  proof cases
    case (2 os)
    then have "length os = length ds" "0 < length ds" by (auto simp: positions_def)
    with match_loop_suffix [OF 2(2) assms(4,5), of ls "length ds" 0 off] assms(3) 2 show ?thesis by (simp add: match_def)
  qed (simp add: match_def)
qed

lemma best_match_suffix:
  assumes "\<forall>p \<in> set ps. \<exists>ds w. decode n base p = Some (ds, w) \<and> length ds \<le> 128" "ls \<noteq> []"
    "take (length (dotted ls)) src = dotted ls" "length (dotted ls) \<le> length src" "bl = 0 \<or> suffix_at n base ls bl bo"
  shows "\<exists>m off'. best_match base ps src (length (dotted ls)) (map length ls) off bl bo = Some (m, off') \<and> (m = 0 \<or> suffix_at n base ls m off')"
  using assms(1,5)
proof (induction ps arbitrary: off bl bo)
  case (Cons p ps)
  obtain ds w where "decode n base p = Some (ds, w)" "length ds \<le> 128" using Cons.prems(1) by auto
  from match_suffix [OF this assms(2-4), of off] obtain m off' where
    "match base p src (length (dotted ls)) (map length ls) off = Some (m, off')" "m = 0 \<or> suffix_at n base ls m off'" by blast
  then show ?case using Cons.IH [of m off' off'] Cons.IH [of bl bo off'] Cons.prems by auto
qed simp

section \<open>Writing the name\<close>

declare put_lens.simps [simp del]

lemma wr_at: "length pre = i \<Longrightarrow> length bs = length xs \<Longrightarrow> wr (pre @ xs @ rest) i bs = Some (pre @ bs @ rest)"
  by (auto simp: wr_def)

lemma put_lens_encode:
  assumes "wf_labels us" "us \<noteq> []" "length pre = i"
  shows "put_lens (i + length (dotted us)) (map length us @ more) i (pre @ c # dotted us @ rest) =
    Some (i + length (encode us), pre @ encode us @ rest)"
  using assms
proof (induction us arbitrary: pre i c rule: dotted.induct)
  case (2 x)
  have "wr (pre @ c # x @ rest) i [of_nat (length x)] = Some (pre @ of_nat (length x) # x @ rest)"
    using wr_at [OF 2(3), of "[of_nat (length x)]" "[c]" "x @ rest"] by simp
  moreover have "x \<noteq> []" using 2(1) by (simp add: wf_labels_def)
  ultimately show ?case
    using put_lens.simps [of "i + length x" more "i + length x + 1"] by (simp add: put_lens.simps [of _ "_ # _"])
next
  case (3 x y ys)
  let ?n = "i + length (dotted (x # y # ys))"
  have wf_labels: "wf_labels (y # ys)" "x \<noteq> []" using 3(2) by (simp_all add: wf_labels_def)
  have "wr (pre @ c # x @ 46 # dotted (y # ys) @ rest) i [of_nat (length x)] = Some (pre @ of_nat (length x) # x @ 46 # dotted (y # ys) @ rest)"
    using wr_at [OF 3(4), of "[of_nat (length x)]" "[c]" "x @ 46 # dotted (y # ys) @ rest"] by simp
  then have "put_lens ?n (map length (x # y # ys) @ more) i (pre @ c # dotted (x # y # ys) @ rest) =
    put_lens ?n (map length (y # ys) @ more) (i + length x + 1) (pre @ of_nat (length x) # x @ 46 # dotted (y # ys) @ rest)"
    using wf_labels(2) by (simp add: put_lens.simps [of _ "length x # _"])
  moreover have "?n = (i + length x + 1) + length (dotted (y # ys))" by simp
  ultimately show ?case using 3(1) [OF wf_labels(1), of "pre @ of_nat (length x) # x" "i + length x + 1" 46] 3(4) by (simp add: add.assoc)
qed simp

lemma space_test:
  assumes "0 < l" "l \<le> 253" "m \<le> l"
  shows "of_nat m - 1 < (of_nat l - 1 :: u64) \<longleftrightarrow> 0 < m \<and> m < l"
proof -
  obtain k where l: "l = Suc k" using assms(1) by (cases l) auto
  have u: "unat (of_nat j :: u64) = j" if "j \<le> 253" for j using that by (subst unat_of_nat) simp
  show ?thesis
  proof (cases m)
    case (Suc j)
    then show ?thesis using u [of j] u [of k] assms l by (simp add: word_less_nat_alt)
  qed simp
qed

text \<open>The bytes of a pointer to the offset \<open>off\<close>, and what stands behind the labels that are written out.\<close>

definition tail_bytes :: "nat \<Rightarrow> nat \<Rightarrow> bytes" where
  "tail_bytes m off = (if m = 0 then [0] else [or 0xc0 (of_nat (off div 256)), of_nat off])"

lemma write_name:
  assumes "wf_labels us" "ls = us @ vs" "take (length (dotted us)) src = dotted us" "length (dotted us) \<le> length src"
    "length (encode us @ tail_bytes m off) \<le> length dst"
  shows "\<exists>dst'. do {
      text \<leftarrow> rd src 0 (length (dotted us));
      dst \<leftarrow> wr dst 1 text;
      (i, dst) \<leftarrow> put_lens (length (dotted us)) (map length ls) 0 dst;
      (if m \<noteq> 0 then do {
         dst \<leftarrow> wr dst i [or 0xc0 (of_nat (off div 256))];
         dst \<leftarrow> wr dst (i + 1) [of_nat off];
         Some (i + 2, dst) }
       else do { dst \<leftarrow> wr dst i [0]; Some (i + 1, dst) }) } = Some (length (encode us @ tail_bytes m off), dst') \<and>
    length dst' = length dst \<and> take (length (encode us @ tail_bytes m off)) dst' = encode us @ tail_bytes m off"
proof -
  let ?k = "length (dotted us)" and ?E = "encode us"
  have E: "us \<noteq> [] \<Longrightarrow> length ?E = ?k + 1" "us = [] \<Longrightarrow> ?k = 0" by (simp_all add: length_encode_labels)
  obtain d ds where dst: "dst = d # ds" using assms(5) by (cases dst) (auto simp: tail_bytes_def split: if_splits)
  have "rd src 0 ?k = Some (dotted us)" using assms(3,4) by (simp add: rd_eq_Some)
  moreover have "wr dst 1 (dotted us) = Some (take 1 dst @ dotted us @ drop (1 + ?k) dst)"
    using assms(5) dst E by (cases "us = []") (auto simp: wr_def)
  moreover have "put_lens ?k (map length ls) 0 (take 1 dst @ dotted us @ drop (1 + ?k) dst) = Some (length ?E, ?E @ drop (length ?E) dst)"
  proof (cases "us = []")
    case True
    then show ?thesis by (simp add: put_lens.simps [of 0])
  next
    case False
    then show ?thesis using dst put_lens_encode [OF assms(1) False, of "[]" 0 "map length vs" d "drop ?k ds"] assms(2) E(1) [OF False] by simp
  qed
  ultimately have n: "do {
      text \<leftarrow> rd src 0 ?k; dst \<leftarrow> wr dst 1 text; (i, dst) \<leftarrow> put_lens ?k (map length ls) 0 dst; f i dst } = f (length ?E) (?E @ drop (length ?E) dst)"
    for f :: "nat \<Rightarrow> bytes \<Rightarrow> (nat \<times> bytes) option" by simp
  show ?thesis
  proof (cases "m = 0")
    case True
    then obtain r rest where r: "drop (length ?E) dst = r # rest" using assms(5) by (cases "drop (length ?E) dst") (auto simp: tail_bytes_def)
    have "length dst = length ?E + 1 + length rest" using arg_cong [OF r, of length] by simp
    then show ?thesis unfolding n r using True wr_at [OF refl, of "[0]" "[r]" ?E rest] by (simp add: tail_bytes_def)
  next
    case False
    let ?h = "or 0xc0 (of_nat (off div 256)) :: u8"
    have "2 \<le> length (drop (length ?E) dst)" using assms(5) False by (simp add: tail_bytes_def)
    then obtain r r' rest where r: "drop (length ?E) dst = r # r' # rest" by (metis Suc_le_length_iff numeral_2_eq_2)
    have "length dst = length ?E + 2 + length rest" using arg_cong [OF r, of length] by simp
    then show ?thesis unfolding n r
      using False wr_at [OF refl, of "[?h]" "[r]" ?E "r' # rest"] wr_at [of "?E @ [?h]" "length ?E + 1" "[of_nat off]" "[r']" rest]
      by (simp add: tail_bytes_def)
  qed
qed

lemma pointer_bytes:
  fixes h :: u8
  assumes "unat h \<le> 63"
  shows "and (or 0xc0 h) 0xc0 = 0xc0" "and (or 0xc0 h) 0x3f = h"
proof -
  have "and h 0xc0 = 0" "and h 0x3f = h" using assms by (simp_all add: plain_label and_3f)
  then show "and (or 0xc0 h) 0xc0 = 0xc0" "and (or 0xc0 h) 0x3f = h" by (simp_all add: bit.conj_disj_distrib2)
qed

lemma decode_tail:
  assumes "drop p msg = tail_bytes m off" "m = 0 \<and> vs = [] \<or> m \<noteq> 0 \<and> off < 0x4000 \<and> decode n msg off = Some (vs, w)"
  shows "decode (Suc n) msg p = Some (vs, length (tail_bytes m off))"
proof (cases "m = 0")
  case True
  then have "msg ! p = 0" "p < length msg" using assms(1) nth_via_drop [of p msg 0 "[]"] by (auto simp: tail_bytes_def not_le [symmetric])
  then show ?thesis using True assms(2) by (simp add: tail_bytes_def)
next
  case False
  let ?h = "of_nat (off div 256) :: u8"
  have off: "off < 0x4000" "decode n msg off = Some (vs, w)" using assms(2) False by auto
  have h: "unat ?h = off div 256" "unat (of_nat off :: u8) = off mod 256" using off(1) by (subst unat_of_nat, simp)+
  have d: "drop p msg = [or 0xc0 ?h, of_nat off]" using assms(1) False by (simp add: tail_bytes_def)
  then have p: "p + 2 = length msg" using arg_cong [OF d, of length] unfolding length_drop by (simp add: numeral_2_eq_2)
  have m: "msg ! p = or 0xc0 ?h" "msg ! (p + 1) = of_nat off"
    using p arg_cong [OF d, of "\<lambda>xs. xs ! 0"] arg_cong [OF d, of "\<lambda>xs. xs ! 1"] by simp_all
  have b: "and (msg ! p) 0xc0 = 0xc0" "and (msg ! p) 0x3f = ?h" unfolding m(1) using h(1) off(1) by (intro pointer_bytes; simp)+
  then have "msg ! p \<noteq> 0" by auto
  moreover have "target msg p = off" unfolding target_def b(2) m(2) h by simp
  moreover have "off < length msg" using off(2) by (cases n) (auto split: if_splits)
  ultimately show ?thesis using p b(1) off(2) False by (simp add: tail_bytes_def)
qed

section \<open>Compression\<close>

text \<open>The name as it is looked at, without a dot at its end; the earlier names that \<open>dnptrs\<close> gives.\<close>

definition name_text :: "bytes \<Rightarrow> bytes" where
  "name_text src = (let t = take 255 src in if t \<noteq> [] \<and> last t = 46 then butlast t else t)"

definition earlier :: "nat list option \<Rightarrow> nat list" where
  "earlier dnptrs = (case dnptrs of Some (_ # ps) \<Rightarrow> ps | _ \<Rightarrow> [])"

lemma name_text_length:
  "(let l = min 255 (length src) in if l \<noteq> 0 \<and> src ! (l - 1) = 46 then l - 1 else l) = length (name_text src)"
  "take (length (name_text src)) src = name_text src" "length (name_text src) \<le> length src"
proof -
  have *: "last (take 255 src) = src ! (min 255 (length src) - 1)" if "src \<noteq> []" using that by (simp add: last_conv_nth min.commute)
  then show "(let l = min 255 (length src) in if l \<noteq> 0 \<and> src ! (l - 1) = 46 then l - 1 else l) = length (name_text src)"
    by (auto simp: name_text_def Let_def)
  obtain k where k: "name_text src = take k src" unfolding name_text_def Let_def butlast_conv_take take_take by metis
  show "take (length (name_text src)) src = name_text src" unfolding k by (simp add: min_def)
  show "length (name_text src) \<le> length src" unfolding k by simp
qed

text \<open>What \<open>dn_comp\<close> does with a name: the labels \<open>us\<close> are written out, and a pointer or the end of the name follows.\<close>

definition split_at :: "nat \<Rightarrow> bytes \<Rightarrow> bytes list \<Rightarrow> bytes list \<Rightarrow> nat \<Rightarrow> nat \<Rightarrow> bool" where
  "split_at n base ls us m off \<longleftrightarrow> (\<exists>vs. ls = us @ vs \<and> (m = 0 \<and> vs = [] \<or>
     m \<noteq> 0 \<and> off < 0x4000 \<and> m = length (dotted ls) - length (dotted us) \<and> (\<exists>w. decode n base off = Some (vs, w))))"

lemma best_split:
  assumes "\<forall>p \<in> set (earlier dnptrs). \<exists>ds w. decode n base p = Some (ds, w) \<and> length ds \<le> 128" "ls \<noteq> []"
    "take (length (dotted ls)) src = dotted ls" "length (dotted ls) \<le> length src"
  shows "\<exists>us m off. (case dnptrs of Some (_ # ps) \<Rightarrow> best_match base ps src (length (dotted ls)) (map length ls) 0 0 0 | _ \<Rightarrow> Some (0, 0)) = Some (m, off) \<and>
    split_at n base ls us m off"
proof -
  have "(case dnptrs of Some (_ # ps) \<Rightarrow> best_match base ps src (length (dotted ls)) (map length ls) 0 0 0 | _ \<Rightarrow> Some (0, 0)) =
    best_match base (earlier dnptrs) src (length (dotted ls)) (map length ls) 0 0 0" by (simp add: earlier_def split: option.splits list.splits)
  with best_match_suffix [OF assms, of 0 0 0] show ?thesis unfolding suffix_at_def split_at_def by (metis append_Nil2)
qed

lemma split_length:
  assumes "wf_labels ls" "ls \<noteq> []" "length (dotted ls) \<le> 253" "split_at n base ls us m off"
  shows "length (dotted ls) - m = length (dotted us)" "wf_labels us"
    "length (dotted ls) - m + 2 + of_bool (of_nat m - 1 < (of_nat (length (dotted ls)) - 1 :: u64)) = length (encode us @ tail_bytes m off)"
    "take (length (dotted us)) (dotted ls) = dotted us" "length (dotted us) \<le> length (dotted ls)"
proof -
  obtain vs where vs: "ls = us @ vs" "m = 0 \<and> vs = [] \<or> m \<noteq> 0 \<and> m = length (dotted ls) - length (dotted us)"
    using assms(4) by (auto simp: split_at_def)
  show us: "wf_labels us" using assms(1) vs(1) by (simp add: wf_labels_def)
  show pre: "take (length (dotted us)) (dotted ls) = dotted us" "length (dotted us) \<le> length (dotted ls)"
    unfolding vs(1) by (cases "us = []"; cases "vs = []"; simp add: dotted_append)+
  then show m: "length (dotted ls) - m = length (dotted us)" using vs by auto
  have pos: "0 < length (dotted zs)" if "wf_labels zs" "zs \<noteq> []" for zs
    using length_dotted [OF that(1)] that(2) by (cases zs) (auto simp: wf_labels_def dotted_Cons)
  show "length (dotted ls) - m + 2 + of_bool (of_nat m - 1 < (of_nat (length (dotted ls)) - 1 :: u64)) = length (encode us @ tail_bytes m off)"
  proof -
    have "m \<le> length (dotted ls)" using vs(2) by auto
    then have t: "of_nat m - 1 < (of_nat (length (dotted ls)) - 1 :: u64) \<longleftrightarrow> 0 < m \<and> m < length (dotted ls)"
      by (rule space_test [OF pos [OF assms(1,2)] assms(3)])
    show ?thesis
    proof (cases "us = []")
      case True
      then show ?thesis unfolding t m using vs assms(2) by (auto simp: tail_bytes_def)
    next
      case False
      have "m < length (dotted ls)" using vs(2) pos [OF us False] pos [OF assms(1,2)] by linarith
      then show ?thesis unfolding t m using length_encode_labels [OF False] by (simp add: tail_bytes_def)
    qed
  qed
qed

lemma dn_comp_writes:
  assumes ptrs: "\<forall>p \<in> set (earlier dnptrs). \<exists>ds w. decode n base p = Some (ds, w) \<and> length ds \<le> 128"
    and t: "name_text src \<noteq> []" "length (name_text src) \<le> 253" and dst: "dst \<noteq> []" and wf_labels: "wf_labels (labels (name_text src))"
  shows "\<exists>us m off. split_at n base (labels (name_text src)) us m off \<and>
    (let out = encode us @ tail_bytes m off in
     if length dst < length out then dn_comp src dst base dnptrs lastdnptr = Some None
     else \<exists>dst'. dn_comp src dst base dnptrs lastdnptr = Some (Some (length out, dst', save_dnptr base lastdnptr (length out) dnptrs)) \<and>
       length dst' = length dst \<and> take (length out) dst' = out)"
proof -
  let ?t = "name_text src" and ?ls = "labels (name_text src)"
  have lens: "getlens src (length ?t) 0 [] = Some (map length ?ls)"
    using getlens_labels [OF name_text_length(3) t(2), of 0 "[]"] wf_labels by (simp add: name_text_length(2))
  obtain us m off where us: "split_at n base ?ls us m off"
    "(case dnptrs of Some (_ # ps) \<Rightarrow> best_match base ps src (length ?t) (map length ?ls) 0 0 0 | _ \<Rightarrow> Some (0, 0)) = Some (m, off)"
    using best_split [OF ptrs, where ls = ?ls and src = src, unfolded dotted_labels, OF labels_not_Nil name_text_length(2,3)] by blast
  have ll: "length (dotted ?ls) \<le> 253" using t(2) by simp
  note sp = split_length [OF wf_labels labels_not_Nil ll us(1), unfolded dotted_labels]
  let ?out = "encode us @ tail_bytes m off"
  have body: "dn_comp src dst base dnptrs lastdnptr =
    (if length dst < length ?out then Some None
     else do {
       (i, dst) \<leftarrow> do {
         text \<leftarrow> rd src 0 (length (dotted us));
         dst \<leftarrow> wr dst 1 text;
         (i, dst) \<leftarrow> put_lens (length (dotted us)) (map length ?ls) 0 dst;
         (if m \<noteq> 0 then do {
            dst \<leftarrow> wr dst i [or 0xc0 (of_nat (off div 256))];
            dst \<leftarrow> wr dst (i + 1) [of_nat off];
            Some (i + 2, dst) }
          else do { dst \<leftarrow> wr dst i [0]; Some (i + 1, dst) }) };
       Some (Some (i, dst, save_dnptr base lastdnptr i dnptrs)) })"
    using t dst by (simp only: dn_comp_def Let_def name_text_length(1) [unfolded Let_def] lens bind.bind_lunit us(2) prod.case sp(3)) 
      (simp add: sp(1) Let_def split_def)
  show ?thesis
  proof (cases "length dst < length ?out")
    case True
    then show ?thesis using us(1) body by (auto simp: Let_def)
  next
    case False
    then have fits: "length ?out \<le> length dst" by simp
    obtain vs where vs: "?ls = us @ vs" using us(1) by (auto simp: split_at_def)
    have pre: "take (length (dotted us)) src = dotted us" "length (dotted us) \<le> length src"
      using sp(4,5) name_text_length(2,3) [of src] by (metis take_take min.absorb1, linarith)
    have "\<exists>dst'. dn_comp src dst base dnptrs lastdnptr = Some (Some (length ?out, dst', save_dnptr base lastdnptr (length ?out) dnptrs)) \<and>
       length dst' = length dst \<and> take (length ?out) dst' = ?out"
      unfolding body if_not_P [OF False]
      by (rule exE [OF write_name [OF sp(2) vs pre fits]], elim conjE) (simp only: bind.bind_lunit prod.case, blast)
    then show ?thesis using us(1) False by (auto simp: Let_def)
  qed
qed

lemma expandable_iff:
  "dn_expand msg p 256 = Some (Some (k, t)) \<longleftrightarrow>
    (\<exists>ls w. decode ((length msg + 1) div 2) msg p = Some (ls, w) \<and> length (dotted ls) < 254 \<and> k = int w \<and> t = dotted ls)"
proof (cases "p \<le> length msg")
  case True
  have "join [] ls = dotted ls" if "decode n msg p = Some (ls, w)" for n ls w
    using join_dotted [OF decode_good [OF that], of "[]"] by simp
  then show ?thesis unfolding dn_expand_decode [OF True] by (auto split: option.splits)
next
  case False
  have "dn_expand msg p 256 \<noteq> Some (Some (k, t))"
    using False by (simp add: dn_expand_def) (subst expand_loop.simps, simp add: rd8_def)
  moreover have "decode n msg p = None" for n using False by (cases n) auto
  ultimately show ?thesis by simp
qed

lemma expand_append: "dn_expand msg p 256 = Some (Some r) \<Longrightarrow> dn_expand (msg @ xs) p 256 = Some (Some r)"
  using decode_mono [OF decode_append [where xs = xs], of "(length msg + 1) div 2" msg p _ "(length (msg @ xs) + 1) div 2"]
  by (cases r) (fastforce simp: expandable_iff)

lemma expandable_decode:
  assumes "\<exists>r. dn_expand msg p 256 = Some (Some r)"
  shows "\<exists>ds w. decode ((length msg + 1) div 2) msg p = Some (ds, w) \<and> length ds \<le> 128"
proof -
  obtain ls w where "decode ((length msg + 1) div 2) msg p = Some (ls, w)" "length (dotted ls) < 254"
    using assms by (auto simp: expandable_iff)
  moreover from this have "2 * length ls \<le> length (dotted ls) + 1" using length_dotted decode_good by blast
  ultimately show ?thesis by auto
qed

lemma length_encode_ge: "wf_labels us \<Longrightarrow> 2 * length us \<le> length (encode us)"
proof (induction us)
  case (Cons x us)
  then have "0 < length x" "2 * length us \<le> length (encode us)" by (simp_all add: wf_labels_def)
  then show ?case unfolding encode_simps length_append list.size by presburger
qed simp

lemma split_expands:
  assumes "split_at ((length msg + 1) div 2) msg ls us m off" "wf_labels ls" "length (dotted ls) < 254"
  shows "dn_expand (msg @ encode us @ tail_bytes m off) (length msg) 256 = Some (Some (int (length (encode us @ tail_bytes m off)), dotted ls))"
proof -
  let ?out = "encode us @ tail_bytes m off" and ?N = "(length msg + 1) div 2"
  obtain vs w where vs: "ls = us @ vs" "m = 0 \<and> vs = [] \<or> m \<noteq> 0 \<and> off < 0x4000 \<and> decode ?N msg off = Some (vs, w)"
    using assms(1) by (auto simp: split_at_def)
  have us: "wf_labels us" using assms(2) vs(1) by (simp add: wf_labels_def)
  define n where "n = (if m = 0 then 0 else ?N)"
  have "decode (Suc n) (msg @ ?out) (length msg + length (encode us)) = Some (vs, length (tail_bytes m off))"
  proof (rule decode_tail)
    show "drop (length msg + length (encode us)) (msg @ ?out) = tail_bytes m off" by simp
    show "m = 0 \<and> vs = [] \<or> m \<noteq> 0 \<and> off < 0x4000 \<and> decode n (msg @ ?out) off = Some (vs, w)"
      using vs(2) decode_append [of ?N msg off "(vs, w)" ?out] by (auto simp: n_def)
  qed
  from decode_encode [OF us _ this] have "decode (length us + Suc n) (msg @ ?out) (length msg) = Some (ls, length ?out)"
    unfolding vs(1) by (simp add: tail_bytes_def del: decode.simps)
  moreover have "length us + Suc n \<le> (length (msg @ ?out) + 1) div 2"
    using length_encode_ge [OF us] by (auto simp: n_def tail_bytes_def)
  ultimately show ?thesis using decode_mono assms(3) unfolding expandable_iff by blast
qed

lemma earlier_save: "set (earlier (save_dnptr base lastdnptr i dnptrs)) \<subseteq> insert (length base) (set (earlier dnptrs))"
  by (auto simp: earlier_def save_dnptr_def split: option.splits list.splits if_splits)

lemma empty_name: "dn_expand (msg @ [0]) (length msg) 256 = Some (Some (1, []))"
proof -
  have "(length (msg @ [0 :: u8]) + 1) div 2 = Suc (length msg div 2)" by simp
  then show ?thesis unfolding expandable_iff by (intro exI [of _ "[]"] exI [of _ 1]) simp
qed

lemmas dn_comp_text = dn_comp_def Let_def name_text_length(1) [unfolded Let_def]

lemma dn_comp_refuses: "length (name_text src) > 253 \<or> dst = [] \<Longrightarrow> dn_comp src dst base dnptrs lastdnptr = Some None"
  by (simp only: dn_comp_text) auto

lemma dn_comp_root: "name_text src = [] \<Longrightarrow> dn_comp src (d # ds) base dnptrs lastdnptr = Some (Some (1, 0 # ds, dnptrs))"
  by (simp only: dn_comp_text) (simp add: wr_def)

lemma dn_comp_bad_label:
  assumes "name_text src \<noteq> []" "length (name_text src) \<le> 253" "\<not> wf_labels (labels (name_text src))"
  shows "dn_comp src dst base dnptrs lastdnptr = Some None"
proof -
  have "getlens src (length (name_text src)) 0 [] = Some []"
    using getlens_labels [OF name_text_length(3) assms(2), of 0 "[]"] assms(3) by (simp add: name_text_length(2))
  then show ?thesis using assms(1) by (simp only: dn_comp_text) simp
qed

lemma split_size:
  assumes "split_at n base ls us m off" "wf_labels ls" "ls \<noteq> []"
  shows "length (encode us @ tail_bytes m off) \<le> length (dotted ls) + 2"
proof -
  obtain vs where vs: "ls = us @ vs" "m = 0 \<and> vs = [] \<or> m \<noteq> 0 \<and> m = length (dotted ls) - length (dotted us)"
    using assms(1) by (auto simp: split_at_def)
  show ?thesis using vs assms(3) length_encode_labels [of us] by (cases "us = []"; cases "m = 0") (auto simp: tail_bytes_def)
qed

text \<open>The names of the new array can be expanded in the message with the new name.\<close>

definition names_ok :: "bytes \<Rightarrow> nat list option \<Rightarrow> bool" where
  "names_ok msg dnptrs \<longleftrightarrow> (\<forall>p \<in> set (earlier dnptrs). \<exists>r. dn_expand msg p 256 = Some (Some r))"

lemma names_ok_append:
  assumes "names_ok msg dnptrs" "p \<in> set (earlier dnptrs)"
  shows "dn_expand (msg @ out) p 256 = dn_expand msg p 256"
  using assms expand_append by (fastforce simp: names_ok_def)

lemma names_ok_save:
  assumes "names_ok msg dnptrs" "dn_expand (msg @ out) (length msg) 256 = Some (Some r)"
  shows "names_ok (msg @ out) (save_dnptr msg lastdnptr i dnptrs)"
  using assms expand_append earlier_save [of msg lastdnptr i dnptrs] unfolding names_ok_def by blast

lemma names_ok_same: "names_ok msg dnptrs \<Longrightarrow> names_ok (msg @ out) dnptrs"
  using expand_append unfolding names_ok_def by blast

section \<open>Queries\<close>

lemma labels_chars: "x \<in> set (labels t) \<Longrightarrow> 46 \<notin> set x \<and> set x \<subseteq> set t \<and> length x \<le> length t"
proof (induction t arbitrary: x)
  case (Cons c cs)
  obtain y ys where l: "labels cs = y # ys" by (cases "labels cs") auto
  then show ?case using Cons.prems Cons.IH [of x] Cons.IH [of y] by (auto split: if_splits)
qed simp

lemma last_labels: "t \<noteq> [] \<Longrightarrow> last (labels t) = [] \<longleftrightarrow> last t = 46"
proof (induction t)
  case (Cons c cs)
  obtain x xs where "labels cs = x # xs" by (cases "labels cs") auto
  then show ?case using Cons.IH by (cases cs) (auto split: if_splits)
qed simp

lemma query_scan_label:
  assumes "\<forall>c \<in> set x. c \<noteq> 0 \<and> c \<noteq> 46" "z \<in> {0, 46}"
  shows "query_scan (pre @ x @ z # rest) (length pre) = Some (length pre + length x)"
  using assms(1)
proof (induction x arbitrary: pre)
  case Nil
  then show ?case using assms(2) by (subst query_scan.simps) (auto simp: rd8_eq_Some)
next
  case (Cons c x)
  then show ?case using Cons.IH [of "pre @ [c]"] by (subst query_scan.simps) (simp add: rd8_eq_Some)
qed

lemma query_labels_step:
  assumes "\<forall>c \<in> set x. c \<noteq> 0 \<and> c \<noteq> 46" "z \<in> {0, 46}" "x \<noteq> [] \<or> z = 46" "length pre + 1 = i" "length x \<le> 253"
  shows "query_labels (pre @ c # x @ z # rest) i =
    (if x = [] \<or> length x > 63 then Some None else query_labels (pre @ of_nat (length x) # x @ z # rest) (i + length x + 1))"
proof -
  let ?q = "pre @ c # x @ z # rest"
  have "?q ! i \<noteq> 0" using assms(1-4) by (cases x) (auto simp: nth_append)
  moreover have "i < length ?q" using assms(4) by auto
  moreover have "query_scan ?q i = Some (i + length x)" using query_scan_label [OF assms(1,2), of "pre @ [c]" rest] assms(4) by simp
  moreover have "wr ?q (i - 1) [of_nat (length x)] = Some (pre @ of_nat (length x) # x @ z # rest)"
    using wr_at [of pre "i - 1" "[of_nat (length x)]" "[c]" "x @ z # rest"] assms(4) by simp
  ultimately show ?thesis using label_test [OF assms(5)] by (subst query_labels.simps) (auto simp: rd8_eq_Some)
qed

lemma query_labels_encode:
  assumes "us \<noteq> []" "last us \<noteq> []" "\<forall>x \<in> set us. 46 \<notin> set x \<and> 0 \<notin> set x \<and> length x \<le> 253" "length pre + 1 = i"
  shows "query_labels (pre @ c # dotted us @ 0 # 0 # rest) i =
    Some (if wf_labels us then Some (i + length (dotted us) + 1, pre @ encode us @ 0 # 0 # rest) else None)"
  using assms
proof (induction us arbitrary: pre i c rule: dotted.induct)
  case (2 x)
  have "query_labels (pre @ c # x @ 0 # 0 # rest) i =
    (if x = [] \<or> length x > 63 then Some None else query_labels (pre @ of_nat (length x) # x @ 0 # 0 # rest) (i + length x + 1))"
    using 2 by (intro query_labels_step) auto
  moreover have "query_labels (pre @ of_nat (length x) # x @ 0 # 0 # rest) (i + length x + 1) =
    Some (Some (i + length x + 1, pre @ of_nat (length x) # x @ 0 # 0 # rest))"
    using 2(4) by (subst query_labels.simps) (auto simp: rd8_eq_Some nth_append)
  ultimately show ?case using 2(2) by (simp add: wf_labels_def)
next
  case (3 x y ys)
  have "query_labels (pre @ c # x @ 46 # dotted (y # ys) @ 0 # 0 # rest) i =
    (if x = [] \<or> length x > 63 then Some None
     else query_labels (pre @ of_nat (length x) # x @ 46 # dotted (y # ys) @ 0 # 0 # rest) (i + length x + 1))"
    using 3(4,5) by (intro query_labels_step) auto
  moreover have "query_labels ((pre @ of_nat (length x) # x) @ 46 # dotted (y # ys) @ 0 # 0 # rest) (i + length x + 1) =
    Some (if wf_labels (y # ys) then Some (i + length x + 1 + length (dotted (y # ys)) + 1, (pre @ of_nat (length x) # x) @ encode (y # ys) @ 0 # 0 # rest) else None)"
    using 3(3-5) by (intro 3(1)) auto
  ultimately show ?case by (auto simp: wf_labels_def add.assoc)
qed simp

text \<open>The query for a name: header, name, type and class.\<close>

definition name_bytes :: "bytes \<Rightarrow> bytes" where
  "name_bytes t = (if t = [] then [] else encode (labels t)) @ [0]"

definition query_bytes :: "int \<Rightarrow> bytes \<Rightarrow> int \<Rightarrow> int \<Rightarrow> u64 \<Rightarrow> bytes" where
  "query_bytes op t class type tv_nsec =
     (let id' = unat (and (tv_nsec + tv_nsec div 65536) 0xffff) in
      [of_nat (id' div 256), of_nat id', of_int (op * 8 + 1), 32, 0, 1, 0, 0, 0, 0, 0, 0] @ name_bytes t @ [0, of_int type, 0, of_int class])"

lemma length_name_bytes: "length (name_bytes t) = length t + 1 + of_bool (t \<noteq> [])"
  using length_encode_labels [of "labels t"] by (simp add: name_bytes_def)

lemma query_labels_text:
  assumes "0 \<notin> set t" "length t \<le> 253" "t = [] \<or> last t \<noteq> 46" "length pre = 12"
  shows "query_labels (pre @ 0 # t @ replicate (4 + of_bool (t \<noteq> [])) 0) 13 =
    Some (if t = [] \<or> wf_labels (labels t) then Some (12 + length (name_bytes t), pre @ name_bytes t @ [0, 0, 0, 0]) else None)"
proof (cases "t = []")
  case True
  then show ?thesis using assms(4) by (subst query_labels.simps) (simp add: rd8_eq_Some nth_append name_bytes_def eval_nat_numeral)
next
  case False
  have "query_labels (pre @ 0 # dotted (labels t) @ 0 # 0 # [0, 0, 0]) 13 =
    Some (if wf_labels (labels t) then Some (13 + length (dotted (labels t)) + 1, pre @ encode (labels t) @ 0 # 0 # [0, 0, 0]) else None)"
    using False assms last_labels [OF False] labels_chars [of _ t] by (intro query_labels_encode) fastforce+
  moreover have "replicate (4 + of_bool (t \<noteq> [])) (0 :: u8) = 0 # 0 # [0, 0, 0]" using False by (simp add: eval_nat_numeral)
  ultimately show ?thesis using False length_name_bytes [of t] by (simp add: name_bytes_def)
qed

lemma query_template:
  assumes "n = 17 + length t + of_bool (length t \<noteq> 0)"
  shows "do { q \<leftarrow> wr (replicate n 0) 2 [a]; q \<leftarrow> wr q 3 [32]; q \<leftarrow> wr q 5 [1]; wr q 13 t } =
    Some ([0, 0, a, 32, 0, 1, 0, 0, 0, 0, 0, 0] @ 0 # t @ replicate (4 + of_bool (t \<noteq> [])) 0)"
proof -
  have "n = 12 + (1 + (length t + (4 + of_bool (t \<noteq> []))))" using assms by simp
  then have "replicate n (0 :: u8) = replicate 12 0 @ replicate 1 0 @ replicate (length t) 0 @ replicate (4 + of_bool (t \<noteq> [])) 0"
    by (simp only: replicate_add)
  moreover have "replicate 12 (0 :: u8) = [0, 0, 0, 0, 0, 0, 0, 0, 0, 0, 0, 0]" "replicate 1 (0 :: u8) = [0]" by (simp_all add: eval_nat_numeral)
  ultimately have r: "replicate n (0 :: u8) = [0, 0, 0, 0, 0, 0, 0, 0, 0, 0, 0, 0] @ 0 # replicate (length t) 0 @ replicate (4 + of_bool (t \<noteq> [])) 0"
    by (simp only: append_Cons append_Nil)
  have "wr (replicate n 0) 2 [a] = Some ([0, 0, a, 0, 0, 0, 0, 0, 0, 0, 0, 0] @ 0 # replicate (length t) 0 @ replicate (4 + of_bool (t \<noteq> [])) 0)"
    unfolding r by (simp add: wr_def)
  moreover have "wr ([0, 0, a, 0, 0, 0, 0, 0, 0, 0, 0, 0] @ 0 # xs) 3 [32] = Some ([0, 0, a, 32, 0, 0, 0, 0, 0, 0, 0, 0] @ 0 # xs)" for xs
    by (simp add: wr_def)
  moreover have "wr ([0, 0, a, 32, 0, 0, 0, 0, 0, 0, 0, 0] @ 0 # xs) 5 [1] = Some ([0, 0, a, 32, 0, 1, 0, 0, 0, 0, 0, 0] @ 0 # xs)" for xs
    by (simp add: wr_def)
  moreover have "wr ([0, 0, a, 32, 0, 1, 0, 0, 0, 0, 0, 0] @ 0 # replicate (length t) 0 @ ys) 13 t = Some ([0, 0, a, 32, 0, 1, 0, 0, 0, 0, 0, 0] @ 0 # t @ ys)" for ys
    using wr_at [of "[0, 0, a, 32, 0, 1, 0, 0, 0, 0, 0, 0, 0]" 13 t "replicate (length t) 0" ys] by simp
  ultimately show ?thesis by (simp only: bind.bind_lunit)
qed

lemma query_finish:
  fixes E :: bytes
  shows "do { q \<leftarrow> wr ([0, 0, a, 32, 0, 1, 0, 0, 0, 0, 0, 0] @ E @ [0, 0, 0, 0]) (12 + length E + 1) [ty];
      q \<leftarrow> wr q (12 + length E + 3) [cl]; q \<leftarrow> wr q 0 [i1]; q \<leftarrow> wr q 1 [i0]; Some (Some q) } =
    Some (Some ([i1, i0, a, 32, 0, 1, 0, 0, 0, 0, 0, 0] @ E @ [0, ty, 0, cl]))"
proof -
  let ?h = "[0, 0, a, 32, 0, 1, 0, 0, 0, 0, 0, 0] :: bytes"
  have "wr (?h @ E @ [0, 0, 0, 0]) (12 + length E + 1) [ty] = Some (?h @ E @ [0, ty, 0, 0])"
    using wr_at [of "?h @ E @ [0]" "12 + length E + 1" "[ty]" "[0]" "[0, 0]"] by simp
  moreover have "wr (?h @ E @ [0, ty, 0, 0]) (12 + length E + 3) [cl] = Some (?h @ E @ [0, ty, 0, cl])"
    using wr_at [of "?h @ E @ [0, ty, 0]" "12 + length E + 3" "[cl]" "[0]" "[]"] by simp
  moreover have "wr (?h @ xs) 0 [i1] = Some ([i1, 0, a, 32, 0, 1, 0, 0, 0, 0, 0, 0] @ xs)" for xs by (simp add: wr_def)
  moreover have "wr ([i1, 0, a, 32, 0, 1, 0, 0, 0, 0, 0, 0] @ xs) 1 [i0] = Some ([i1, i0, a, 32, 0, 1, 0, 0, 0, 0, 0, 0] @ xs)" for xs by (simp add: wr_def)
  ultimately show ?thesis by (simp only: bind.bind_lunit)
qed

lemma last_text: "name_text src \<noteq> [] \<Longrightarrow> src ! (length (name_text src) - 1) = last (name_text src)"
  using name_text_length(2) [of src] by (metis last_conv_nth length_greater_0_conv nth_take diff_less zero_less_one)

lemma res_mkquery_bytes:
  assumes "0 \<notin> set dname"
  shows "res_mkquery op dname class type tv_nsec buflen =
    Some (if length (name_text dname) \<le> 253 \<and> (name_text dname = [] \<or> wf_labels (labels (name_text dname))) \<and>
             int (length (query_bytes op (name_text dname) class type tv_nsec)) \<le> buflen \<and> op \<in> {0..15} \<and> class \<in> {0..255} \<and> type \<in> {0..255}
          then Some (query_bytes op (name_text dname) class type tv_nsec) else None)"
proof -
  let ?t = "name_text dname" and ?Q = "query_bytes op (name_text dname) class type tv_nsec"
  have len: "17 + length ?t + of_bool (length ?t \<noteq> 0) = length ?Q" by (simp add: query_bytes_def length_name_bytes)
  note e = res_mkquery_def [of op dname "class" "type" tv_nsec buflen, unfolded Let_def name_text_length(1) [unfolded Let_def] len]
  have chars: "0 \<notin> set ?t" using assms name_text_length(2) [of dname] by (metis in_set_takeD)
  show ?thesis
  proof (cases "?t \<noteq> [] \<and> last ?t = 46")
    case True
    then have "\<not> wf_labels (labels ?t)" using last_labels [of ?t] last_in_set [of "labels ?t"] by (auto simp: wf_labels_def)
    then show ?thesis using True last_text [of dname] unfolding e by simp
  next
    case False
    then have t: "?t = [] \<or> last ?t \<noteq> 46" by blast
    then have d: "\<not> (length ?t \<noteq> 0 \<and> dname ! (length ?t - 1) = 46)" using last_text [of dname] by auto
    show ?thesis
    proof (cases "length ?t \<le> 253 \<and> int (length ?Q) \<le> buflen \<and> op \<in> {0..15} \<and> class \<in> {0..255} \<and> type \<in> {0..255}")
      case True
      have "rd dname 0 (length ?t) = Some ?t" using name_text_length(2,3) [of dname] by (simp add: rd_eq_Some)
      then have "res_mkquery op dname class type tv_nsec buflen =
        do { q \<leftarrow> do { q \<leftarrow> wr (replicate (length ?Q) 0) 2 [of_int (op * 8 + 1)]; q \<leftarrow> wr q 3 [32]; q \<leftarrow> wr q 5 [1]; wr q 13 ?t };
             r \<leftarrow> query_labels q 13;
             case r of None \<Rightarrow> Some None
             | Some (i, q) \<Rightarrow> do {
                 q \<leftarrow> wr q (i + 1) [of_int type]; q \<leftarrow> wr q (i + 3) [of_int class];
                 q \<leftarrow> wr q 0 [of_nat (unat (and (tv_nsec + tv_nsec div 65536) 0xffff) div 256)];
                 q \<leftarrow> wr q 1 [of_nat (unat (and (tv_nsec + tv_nsec div 65536) 0xffff))]; Some (Some q) } }"
        unfolding e if_not_P [OF d] using True by (simp only: Option.bind_assoc bind.bind_lunit) (rule if_not_P, auto)
      note r = this [unfolded query_template [OF len [symmetric]] bind.bind_lunit]
      have ql: "query_labels ([0, 0, of_int (op * 8 + 1), 32, 0, 1, 0, 0, 0, 0, 0, 0] @ 0 # ?t @ replicate (4 + of_bool (?t \<noteq> [])) 0) 13 =
        Some (if ?t = [] \<or> wf_labels (labels ?t) then Some (12 + length (name_bytes ?t),
          [0, 0, of_int (op * 8 + 1), 32, 0, 1, 0, 0, 0, 0, 0, 0] @ name_bytes ?t @ [0, 0, 0, 0]) else None)"
        using True by (intro query_labels_text [OF chars _ t]) simp_all
      show ?thesis
      proof (cases "?t = [] \<or> wf_labels (labels ?t)")
        case g: True
        have "res_mkquery op dname class type tv_nsec buflen = Some (Some ?Q)"
          unfolding r ql if_P [OF g] bind.bind_lunit option.case prod.case query_finish query_bytes_def Let_def ..
        then show ?thesis using True g by auto
      next
        case g: False
        then show ?thesis unfolding r ql if_not_P [OF g] by simp
      qed
    next
      case False
      then show ?thesis unfolding e if_not_P [OF d] by auto
    qed
  qed
qed

lemma query_expands:
  assumes "length t \<le> 253 \<and> (t = [] \<or> wf_labels (labels t))"
  shows "dn_expand (query_bytes op t class type tv_nsec) 12 256 = Some (Some (int (length (name_bytes t)), t))"
proof -
  have *: "dn_expand (h @ name_bytes t) (length h) 256 = Some (Some (int (length (name_bytes t)), t))" for h
  proof (cases "t = []")
    case True
    then show ?thesis using empty_name by (simp add: name_bytes_def)
  next
    case False
    have "split_at n h (labels t) (labels t) 0 0" for n by (simp add: split_at_def)
    from split_expands [OF this] False assms show ?thesis by (simp add: name_bytes_def tail_bytes_def)
  qed
  let ?i = "unat (and (tv_nsec + tv_nsec div 65536) 0xffff)"
  let ?h = "[of_nat (?i div 256), of_nat ?i, of_int (op * 8 + 1), 32, 0, 1, 0, 0, 0, 0, 0, 0] :: bytes"
  have h: "length ?h = 12" by simp
  show ?thesis using expand_append [OF * [of ?h, unfolded h], of "[0, of_int type, 0, of_int class]"]
    unfolding query_bytes_def Let_def append_assoc .
qed

section \<open>Properties\<close>

text \<open>
  C17. Writing a name with \<open>dn_comp\<close> at the end of a message whose earlier names can be expanded returns and stays inside the room for it. It
  fails only for a name of more than 253 characters, with a label that is empty or longer than 63, or when the name written out does not fit. The bytes
  written expand to the name, labels taken from earlier names included, and take exactly the bytes the result says; the earlier names expand to what
  they were, and every name in the new array can be expanded, so that the next name can be written in the same way.
\<close>

theorem dn_comp_roundtrip:
  assumes "names_ok msg dnptrs"
  shows "\<exists>res. dn_comp name dst msg dnptrs lastdnptr = Some res \<and>
    (case res of
       None \<Rightarrow> length (name_text name) > 253 \<or> length dst < length (name_text name) + 2 \<or>
         (name_text name \<noteq> [] \<and> \<not> wf_labels (labels (name_text name)))
     | Some (n, dst', dnptrs') \<Rightarrow>
         n \<le> length dst \<and> length dst' = length dst \<and>
         dn_expand (msg @ take n dst') (length msg) 256 = Some (Some (int n, name_text name)) \<and>
         (\<forall>p \<in> set (earlier dnptrs). dn_expand (msg @ take n dst') p 256 = dn_expand msg p 256) \<and>
         names_ok (msg @ take n dst') dnptrs')"
proof -
  let ?t = "name_text name" and ?N = "(length msg + 1) div 2"
  consider "length ?t > 253 \<or> dst = []" | d ds where "?t = []" "dst = d # ds"
    | "?t \<noteq> []" "length ?t \<le> 253" "\<not> wf_labels (labels ?t)" | "?t \<noteq> []" "length ?t \<le> 253" "wf_labels (labels ?t)" "dst \<noteq> []"
    by (cases dst) force+
  then show ?thesis
  proof cases
    case 1
    then show ?thesis by (auto simp: dn_comp_refuses)
  next
    case 2
    then show ?thesis using empty_name [of msg] names_ok_append [OF assms] names_ok_same [OF assms] by (simp add: dn_comp_root)
  next
    case 3
    then show ?thesis by (simp add: dn_comp_bad_label)
  next
    case 4
    have "\<forall>p \<in> set (earlier dnptrs). \<exists>ds w. decode ?N msg p = Some (ds, w) \<and> length ds \<le> 128"
      using assms expandable_decode unfolding names_ok_def by blast
    from dn_comp_writes [OF this 4(1,2,4,3), of lastdnptr] obtain us m off where
      us: "split_at ?N msg (labels ?t) us m off" and w: "let out = encode us @ tail_bytes m off in
        if length dst < length out then dn_comp name dst msg dnptrs lastdnptr = Some None
        else \<exists>dst'. dn_comp name dst msg dnptrs lastdnptr = Some (Some (length out, dst', save_dnptr msg lastdnptr (length out) dnptrs)) \<and>
          length dst' = length dst \<and> take (length out) dst' = out" by blast
    let ?out = "encode us @ tail_bytes m off"
    have e: "dn_expand (msg @ ?out) (length msg) 256 = Some (Some (int (length ?out), ?t))"
      using split_expands [OF us 4(3)] 4(2) by simp
    show ?thesis
    proof (cases "length dst < length ?out")
      case True
      then show ?thesis using w split_size [OF us 4(3)] by (simp add: Let_def)
    next
      case False
      then show ?thesis using w e names_ok_append [OF assms] names_ok_save [OF assms e] unfolding Let_def by fastforce
    qed
  qed
qed

theorem dn_comp_roundtrip_witness:
  "\<exists>n dst' dnptrs'. dn_comp [98, 46, 97] (replicate 9 0) [1, 97, 0] (Some [0, 0]) (Some 4) = Some (Some (n, dst', dnptrs')) \<and>
    dn_expand ([1, 97, 0] @ take n dst') 3 256 = Some (Some (int n, [98, 46, 97]))"
proof -
  have "dn_expand [1, 97, 0] 0 256 = Some (Some (3, [97]))" by code_simp
  then have "names_ok [1, 97, 0] (Some [0, 0])" by (simp add: names_ok_def earlier_def)
  from dn_comp_roundtrip [OF this, of "[98, 46, 97]" "replicate 9 0" "Some 4"] show ?thesis
    by (auto simp: name_text_def wf_labels_def numeral_3_eq_3 split: option.splits)
qed

text \<open>
  C20. \<open>res_mkquery\<close> stays inside its array, of which only the part it initialised is used, and succeeds exactly when the name has at most 253 characters
  in labels of 1 to 63, the numbers are in range and the buffer is large enough. The query is then the header with one question, the name in its
  wire format, the type and the class, and the name in it expands to the name asked for.
\<close>

theorem res_mkquery_asks:
  assumes "0 \<notin> set dname"
  shows "res_mkquery op dname class type tv_nsec buflen =
      Some (if length (name_text dname) \<le> 253 \<and> (name_text dname = [] \<or> wf_labels (labels (name_text dname))) \<and>
               int (length (query_bytes op (name_text dname) class type tv_nsec)) \<le> buflen \<and> op \<in> {0..15} \<and> class \<in> {0..255} \<and> type \<in> {0..255}
            then Some (query_bytes op (name_text dname) class type tv_nsec) else None) \<and>
    (length (name_text dname) \<le> 253 \<and> (name_text dname = [] \<or> wf_labels (labels (name_text dname))) \<longrightarrow>
      dn_expand (query_bytes op (name_text dname) class type tv_nsec) 12 256 =
        Some (Some (int (length (name_bytes (name_text dname))), name_text dname)))"
  using res_mkquery_bytes [OF assms] query_expands by blast

theorem res_mkquery_asks_witness:
  "res_mkquery 0 [97, 46, 98] 1 28 0 280 = Some (Some ([0, 0, 1, 32, 0, 1, 0, 0, 0, 0, 0, 0, 1, 97, 1, 98, 0, 0, 28, 0, 1]))"
  using res_mkquery_asks [of "[97, 46, 98]" 0 1 28 0 280]
  by (simp add: name_text_def wf_labels_def query_bytes_def name_bytes_def)

end
