(* ===== verification/Dns_Lookup.thy ===== *)
theory Dns_Lookup
  imports Dns Mbstring Ctype
begin

text \<open>
  Looking names up: the part of \<open>lookup_name.c\<close> that turns the replies of name servers into addresses and a canonical name
  (\<open>is_valid_hostname\<close>, \<open>dns_parse_callback\<close>, \<open>name_from_dns\<close> after the exchange with the servers) and the callback of \<open>getnameinfo.c\<close>,
  under \<open>src/musl-1.2.5/src/network\<close>. The callbacks run inside \<open>__dns_parse\<close> and call \<open>__dn_expand\<close> (\<open>Dns\<close>), \<open>mbstowcs\<close> (\<open>Mbstring\<close>)
  and \<open>isalnum\<close> (\<open>Ctype\<close>).

  Shown here: whatever bytes the servers send, the lookup returns, no access leaves the reply, the array of 48 addresses or the
  buffers for names, and the addresses found are those of the records of the types asked for, in their order.
\<close>

section \<open>The callbacks\<close>

record address =
  family :: int
  scopeid :: u32
  addr :: bytes
  sortkey :: int

record dpc_ctx =
  addrs :: "address list"
  canon :: bytes
  cnt :: nat
  rrtype :: u8

abbreviation (input) RR_A :: u8 where "RR_A \<equiv> 1"
abbreviation (input) RR_CNAME :: u8 where "RR_CNAME \<equiv> 5"
abbreviation (input) RR_PTR :: u8 where "RR_PTR \<equiv> 12"
abbreviation (input) RR_AAAA :: u8 where "RR_AAAA \<equiv> 28"
abbreviation (input) AF_INET :: int where "AF_INET \<equiv> 2"
abbreviation (input) AF_INET6 :: int where "AF_INET6 \<equiv> 10"
abbreviation (input) MAXADDRS :: nat where "MAXADDRS \<equiv> 48"
abbreviation (input) ABUF_SIZE :: nat where "ABUF_SIZE \<equiv> 4800"

text \<open>The text of a buffer up to its terminator, and \<open>strcpy\<close> into a buffer: \<open>None\<close> when the text and its terminator do not fit.\<close>

definition text_of :: "bytes \<Rightarrow> bytes" where
  "text_of buf = takeWhile (\<lambda>c. c \<noteq> 0) buf"

definition copy_text :: "bytes \<Rightarrow> bytes \<Rightarrow> bytes option" where
  "copy_text dst src = (let t = text_of src in if length t < length dst then Some (t @ 0 # drop (length t + 1) dst) else None)"

text \<open>
  \<open>is_valid_hostname\<close>: the bytes of the buffer \<open>host\<close>; \<open>None\<close> when a scan runs over its end or \<open>mbstowcs\<close> does not return. The
  word-at-a-time path of \<open>mbstowcs\<close> may look at bytes behind the buffer, of which its result does not depend.
\<close>

definition host_char :: "u8 \<Rightarrow> bool" where
  "host_char c \<longleftrightarrow> c \<ge> 0x80 \<or> c = 46 \<or> c = 45 \<or> isalnum (ucast c)"

fun host_scan :: "bytes \<Rightarrow> bool option" where
  "host_scan [] = None"
| "host_scan (c # cs) = (if host_char c then host_scan cs else Some (c = 0))"

definition is_valid_hostname :: "bool \<Rightarrow> bytes \<Rightarrow> bool option" where
  "is_valid_hostname utf8 host =
     (if of_nat (length (text_of (take 255 host))) - 1 \<ge> (254 :: u64) then Some False
      else do {
        n \<leftarrow> mbsrtowcs_null utf8 (\<lambda>a. if a < length host then host ! a else 0) 0 0 0;
        if n = - 1 then Some False else host_scan host })"

text \<open>The store of an address; \<open>None\<close> outside the array or the 16 bytes of an address.\<close>

definition add_address :: "bytes \<Rightarrow> dpc_ctx \<Rightarrow> int \<Rightarrow> nat \<Rightarrow> nat \<Rightarrow> dpc_ctx option" where
  "add_address packet ctx fam data len = do {
     bs \<leftarrow> rd packet data len;
     if cnt ctx < length (addrs ctx) \<and> len \<le> length (addr (addrs ctx ! cnt ctx))
     then let a = addrs ctx ! cnt ctx in
       Some (ctx\<lparr>addrs := (addrs ctx)[cnt ctx := a\<lparr>family := fam, scopeid := 0, addr := bs @ drop len (addr a)\<rparr>], cnt := cnt ctx + 1\<rparr>)
     else None }"

definition dns_parse_callback :: "bool \<Rightarrow> bytes \<Rightarrow> dpc_ctx callback" where
  "dns_parse_callback utf8 packet ctx rr data len =
     (if rr = RR_CNAME then do {
        e \<leftarrow> dn_expand packet data 256;
        case e of
          None \<Rightarrow> Some (ctx, 0)
        | Some (n, name) \<Rightarrow>
            if n > 0 then do {
              v \<leftarrow> is_valid_hostname utf8 (name @ [0]);
              if v then do { c \<leftarrow> copy_text (canon ctx) (name @ [0]); Some (ctx\<lparr>canon := c\<rparr>, 0) } else Some (ctx, 0) }
            else Some (ctx, 0) }
      else if cnt ctx \<ge> MAXADDRS then Some (ctx, 0)
      else if rr \<noteq> rrtype ctx then Some (ctx, 0)
      else if rr = RR_A then
        if len \<noteq> 4 then Some (ctx, - 1) else map_option (\<lambda>c. (c, 0)) (add_address packet ctx AF_INET data len)
      else if rr = RR_AAAA then
        if len \<noteq> 16 then Some (ctx, - 1) else map_option (\<lambda>c. (c, 0)) (add_address packet ctx AF_INET6 data len)
      else None)"

text \<open>The callback of \<open>getnameinfo\<close>; the state is the text in its buffer of 256 bytes.\<close>

definition ptr_callback :: "bytes \<Rightarrow> bytes callback" where
  "ptr_callback packet buf rr data len =
     (if rr \<noteq> RR_PTR then Some (buf, 0)
      else do {
        e \<leftarrow> dn_expand packet data 256;
        case e of None \<Rightarrow> Some ([], 0) | Some (n, name) \<Rightarrow> Some (if n \<le> 0 then [] else text_of (name @ [0]), 0) })"

section \<open>The replies\<close>

text \<open>
  \<open>name_from_dns\<close> after \<open>__res_msend_rc\<close>: a reply is its length, as the transport reports it, and the buffer of
  \<open>ABUF_SIZE\<close> bytes that holds it; the result is an \<open>EAI\<close> code or the number of addresses.
\<close>

fun check_replies :: "(int \<times> bytes) list \<Rightarrow> int option option" where
  "check_replies [] = Some None"
| "check_replies ((alen, abuf) # rs) =
     (if alen < 4 then Some (Some (- 3))
      else do {
        f \<leftarrow> rd8 abuf 3;
        if and f 15 = 2 then Some (Some (- 3))
        else if and f 15 = 3 then Some (Some 0)
        else if and f 15 \<noteq> 0 then Some (Some (- 4))
        else check_replies rs })"

fun parse_replies :: "bool \<Rightarrow> ((int \<times> bytes) \<times> u8) list \<Rightarrow> dpc_ctx \<Rightarrow> dpc_ctx option" where
  "parse_replies utf8 [] ctx = Some ctx"
| "parse_replies utf8 (((alen, abuf), qtype) # rs) ctx =
     (let r = take (nat (if alen > int ABUF_SIZE then int ABUF_SIZE else alen)) abuf in
      do { (ctx, ret) \<leftarrow> dns_parse (dns_parse_callback utf8 r) r (ctx\<lparr>rrtype := qtype\<rparr>); parse_replies utf8 rs ctx })"

definition name_from_replies :: "bool \<Rightarrow> (int \<times> bytes) list \<Rightarrow> u8 list \<Rightarrow> dpc_ctx \<Rightarrow> (dpc_ctx \<times> int) option" where
  "name_from_replies utf8 replies qtypes ctx =
     do {
       e \<leftarrow> check_replies replies;
       case e of
         Some e \<Rightarrow> Some (ctx, e)
       | None \<Rightarrow> do {
           ctx \<leftarrow> parse_replies utf8 (rev (zip replies qtypes)) ctx;
           Some (ctx, if cnt ctx \<noteq> 0 then int (cnt ctx) else - 5) } }"

section \<open>The callbacks keep their promises\<close>

lemma mbs_strlen_returns: "m (s + k) = 0 \<Longrightarrow> \<exists>n. mbs_strlen m s = Some n"
proof (induction k arbitrary: s)
  case 0
  then show ?case by (subst mbs_strlen.simps) simp
next
  case (Suc k)
  then have "m (s + 1 + k) = 0" by simp
  from Suc.IH [OF this] obtain n where "mbs_strlen m (s + 1) = Some n" ..
  then show ?case by (subst mbs_strlen.simps) simp
qed

lemma mbsrtowcs_null_defined:
  assumes "m (src + k) = 0"
  shows "\<exists>n. mbsrtowcs_null utf8 m src wn 0 = Some n"
  using mbs_strlen_returns [of m src k] char_run_zero [of m src k "Suc k"] assms mbs_count_run [of m src "Suc k" wn wn]
  by (cases utf8) (auto simp: mbsrtowcs_null_def simp del: char_run.simps)

text \<open>What \<open>is_valid_hostname\<close> accepts.\<close>

definition hostname :: "bytes \<Rightarrow> bool" where
  "hostname t \<longleftrightarrow> 0 < length t \<and> length t \<le> 254 \<and> (\<forall>c \<in> set t. c \<noteq> 0 \<and> host_char c)"

lemma host_char_0: "\<not> host_char 0" by (simp add: host_char_def isalnum_def isalpha_def isdigit_def)

lemma host_scan_text: "host_scan (t @ [0]) = Some (\<forall>c \<in> set (text_of (t @ [0])). host_char c)"
  by (induction t) (auto simp: text_of_def host_char_0)

lemma text_of_nonzero: "c \<in> set (text_of buf) \<Longrightarrow> c \<noteq> 0"
  by (auto simp: text_of_def dest: set_takeWhileD)

lemma length_text_of_take: "length (text_of (take n buf)) = min n (length (text_of buf))"
  by (induction buf arbitrary: n) (auto simp: text_of_def take_Cons' min_def split: nat.splits)

lemma strnlen_test: "k \<le> 255 \<Longrightarrow> of_nat k - 1 \<ge> (254 :: u64) \<longleftrightarrow> k = 0 \<or> k = 255"
proof (cases k)
  case (Suc j)
  assume "k \<le> 255"
  then have "unat (of_nat j :: u64) = j" using Suc by (subst unat_of_nat) simp
  then show ?thesis using Suc \<open>k \<le> 255\<close> by (auto simp: word_le_nat_alt)
qed simp

lemma is_valid_hostname_result:
  "\<exists>v. is_valid_hostname utf8 (name @ [0]) = Some v \<and> (v \<longrightarrow> hostname (text_of (name @ [0])))"
proof -
  let ?t = "text_of (name @ [0])"
  obtain n where n: "mbsrtowcs_null utf8 (\<lambda>a. if a < length (name @ [0]) then (name @ [0]) ! a else 0) 0 0 0 = Some n"
    using mbsrtowcs_null_defined [of "\<lambda>a. if a < length (name @ [0]) then (name @ [0]) ! a else 0" 0 "length name" utf8 0] by auto
  show ?thesis
  proof (cases "length ?t \<noteq> 0 \<and> length ?t \<le> 254")
    case True
    then show ?thesis using n text_of_nonzero [of _ "name @ [0]"]
      by (auto simp: is_valid_hostname_def hostname_def host_scan_text length_text_of_take strnlen_test simp del: take_append)
  next
    case False
    then show ?thesis by (intro exI [of _ False]) (auto simp: is_valid_hostname_def length_text_of_take strnlen_test min_def simp del: take_append)
  qed
qed

text \<open>
  The state of a lookup: 48 slots of 16 bytes, the first \<open>cnt\<close> of them used, a terminated name in the 256 bytes for it, which is
  the one it started with or a host name.
\<close>

definition lookup_ok :: "bytes \<Rightarrow> dpc_ctx \<Rightarrow> bool" where
  "lookup_ok c0 ctx \<longleftrightarrow> length (addrs ctx) = MAXADDRS \<and> (\<forall>a \<in> set (addrs ctx). length (addr a) = 16) \<and> cnt ctx \<le> MAXADDRS \<and>
     length (canon ctx) = 256 \<and> (canon ctx = c0 \<or> hostname (text_of (canon ctx))) \<and> rrtype ctx \<in> {RR_A, RR_AAAA}"

lemma copy_text_fits:
  assumes "length (text_of src) < length dst"
  shows "\<exists>c. copy_text dst src = Some c \<and> length c = length dst \<and> text_of c = text_of src"
proof -
  have "text_of (text_of src @ 0 # xs) = text_of src" for xs
    using text_of_nonzero [of _ src] unfolding text_of_def by (subst takeWhile_append2) auto
  then show ?thesis using assms by (simp add: copy_text_def Let_def)
qed

lemma add_address_ok:
  assumes ok: "lookup_ok c0 ctx" and "cnt ctx < MAXADDRS" "off + len \<le> length packet" "len \<le> 16"
  shows "\<exists>ctx'. add_address packet ctx fam off len = Some ctx' \<and> lookup_ok c0 ctx' \<and> rrtype ctx' = rrtype ctx \<and>
    cnt ctx' = cnt ctx + 1 \<and>
    (\<exists>a. addrs ctx' = (addrs ctx)[cnt ctx := a] \<and> family a = fam \<and> take len (addr a) = take len (drop off packet))"
proof -
  let ?a = "addrs ctx ! cnt ctx" and ?bs = "take len (drop off packet)"
  define b where "b = ?a\<lparr>family := fam, scopeid := 0, addr := ?bs @ drop len (addr ?a)\<rparr>"
  have l: "cnt ctx < length (addrs ctx)" "length (addr ?a) = 16" "length ?bs = len" using assms by (auto simp: lookup_ok_def)
  then have b: "length (addr b) = 16" "family b = fam" "take len (addr b) = ?bs" using assms(4) by (simp_all add: b_def)
  have "\<forall>a \<in> set ((addrs ctx)[cnt ctx := b]). length (addr a) = 16"
    using set_update_subset_insert [of "addrs ctx" "cnt ctx" b] b(1) ok by (auto simp: lookup_ok_def)
  then have "lookup_ok c0 (ctx\<lparr>addrs := (addrs ctx)[cnt ctx := b], cnt := cnt ctx + 1\<rparr>)" using assms(1,2) by (simp add: lookup_ok_def)
  moreover have "add_address packet ctx fam off len = Some (ctx\<lparr>addrs := (addrs ctx)[cnt ctx := b], cnt := cnt ctx + 1\<rparr>)"
    using l assms(3,4) by (simp add: add_address_def rd_eq_Some Let_def b_def)
  ultimately show ?thesis using b by auto
qed

text \<open>The size of an address of the type asked for, and its family.\<close>

definition addr_size :: "u8 \<Rightarrow> nat" where
  "addr_size t = (if t = RR_A then 4 else 16)"

definition addr_family :: "u8 \<Rightarrow> int" where
  "addr_family t = (if t = RR_A then AF_INET else AF_INET6)"

lemma callback_other:
  assumes ok: "lookup_ok c0 ctx" and off: "off + len \<le> length r" and t: "t \<noteq> rrtype ctx \<or> cnt ctx = MAXADDRS"
  shows "\<exists>ctx'. dns_parse_callback utf8 r ctx t off len = Some (ctx', 0) \<and> lookup_ok c0 ctx' \<and>
    addrs ctx' = addrs ctx \<and> cnt ctx' = cnt ctx \<and> rrtype ctx' = rrtype ctx"
proof (cases "t = RR_CNAME")
  case True
  obtain e where e: "dn_expand r off 256 = Some e" "\<And>n name. e = Some (n, name) \<Longrightarrow> 0 < n \<and> length name < 254"
    using dn_expand_fits [of off r 256] off by auto
  show ?thesis
  proof (cases e)
    case None
    then show ?thesis using True e(1) ok by (simp add: dns_parse_callback_def)
  next
    case (Some p)
    obtain n name where p: "e = Some (n, name)" "0 < n" "length name < 254" using Some e(2) by (cases p) auto
    obtain v where v: "is_valid_hostname utf8 (name @ [0]) = Some v" "v \<longrightarrow> hostname (text_of (name @ [0]))"
      using is_valid_hostname_result by blast
    have "length (text_of (name @ [0])) < length (canon ctx)"
      using p(3) ok length_takeWhile_le [of "\<lambda>c. c \<noteq> 0" "name @ [0]"] by (simp add: text_of_def lookup_ok_def)
    from copy_text_fits [OF this] obtain c where
      c: "copy_text (canon ctx) (name @ [0]) = Some c" "length c = length (canon ctx)" "text_of c = text_of (name @ [0])" by blast
    show ?thesis using True e(1) p v c ok by (cases v) (auto simp: dns_parse_callback_def lookup_ok_def)
  qed
next
  case False
  then show ?thesis using ok t by (auto simp: dns_parse_callback_def)
qed

lemma callback_bad:
  assumes "lookup_ok c0 ctx" "cnt ctx < MAXADDRS" "len \<noteq> addr_size (rrtype ctx)"
  shows "dns_parse_callback utf8 r ctx (rrtype ctx) off len = Some (ctx, - 1)"
  using assms by (auto simp: dns_parse_callback_def lookup_ok_def addr_size_def)

lemma callback_adds:
  assumes ok: "lookup_ok c0 ctx" and n: "cnt ctx < MAXADDRS" and off: "off + len \<le> length r" and len: "len = addr_size (rrtype ctx)"
  shows "\<exists>ctx'. dns_parse_callback utf8 r ctx (rrtype ctx) off len = Some (ctx', 0) \<and> lookup_ok c0 ctx' \<and> rrtype ctx' = rrtype ctx \<and>
    cnt ctx' = cnt ctx + 1 \<and>
    (\<exists>a. addrs ctx' = (addrs ctx)[cnt ctx := a] \<and> family a = addr_family (rrtype ctx) \<and> take len (addr a) = take len (drop off r))"
proof -
  have "len \<le> 16" "rrtype ctx \<in> {RR_A, RR_AAAA}" using len ok by (auto simp: addr_size_def lookup_ok_def)
  with add_address_ok [OF ok n off, of "addr_family (rrtype ctx)"] n len show ?thesis
    by (auto simp: dns_parse_callback_def addr_size_def addr_family_def)
qed

interpretation lookup: dns_callback "dns_parse_callback utf8 r" r "lookup_ok c0" for utf8 r c0
proof
  fix ctx off len t
  assume ok: "lookup_ok c0 ctx" and off: "off + len \<le> length r"
  then have "cnt ctx \<le> MAXADDRS" by (simp add: lookup_ok_def)
  with callback_other [OF ok off, of t utf8] callback_bad [OF ok, of len utf8 r off] callback_adds [OF ok _ off, of utf8] ok
  show "\<exists>ctx' ret. dns_parse_callback utf8 r ctx t off len = Some (ctx', ret) \<and> lookup_ok c0 ctx'"
    by (cases "t = rrtype ctx"; cases "cnt ctx = MAXADDRS"; cases "len = addr_size (rrtype ctx)") auto
qed

interpretation pointer: dns_callback "ptr_callback r" r "\<lambda>buf. length buf < 256" for r
proof
  fix buf :: bytes and off len t
  assume "length buf < 256" "off + len \<le> length r"
  moreover from this obtain e where "dn_expand r off 256 = Some e" "\<And>n name. e = Some (n, name) \<Longrightarrow> length name < 254"
    using dn_expand_fits [of off r 256] by auto
  moreover have "length (text_of (name @ [0])) < 256" if "length name < 254" for name
    using that length_takeWhile_le [of "\<lambda>c. c \<noteq> 0" "name @ [0]"] by (simp add: text_of_def)
  ultimately show "\<exists>buf' ret. ptr_callback r buf t off len = Some (buf', ret) \<and> length buf' < 256"
    by (auto simp: ptr_callback_def split: option.splits)
qed

text \<open>Any reply leaves a well-formed state of a lookup well-formed, and fits the buffer that \<open>getnameinfo\<close> has for a name.\<close>

lemma lookup_any_reply:
  "lookup_ok c0 ctx \<Longrightarrow> \<exists>ctx' ret. dns_parse (dns_parse_callback utf8 r) r ctx = Some (ctx', ret) \<and> lookup_ok c0 ctx' \<and> ret \<in> {0, - 1}"
  by (rule lookup.dns_parse_ok)

lemma getnameinfo_name_fits:
  "length buf < 256 \<Longrightarrow> \<exists>buf' ret. dns_parse (ptr_callback r) r buf = Some (buf', ret) \<and> length buf' < 256 \<and> ret \<in> {0, - 1}"
  by (rule pointer.dns_parse_ok)

section \<open>The addresses of the replies\<close>

text \<open>
  The addresses found so far, as family and bytes; the address in a record; and the addresses of a reply: those of its records of the
  type asked for, up to the first of a wrong size.
\<close>

definition found :: "dpc_ctx \<Rightarrow> (int \<times> bytes) list" where
  "found ctx = map (\<lambda>a. (family a, take (if family a = AF_INET then 4 else 16) (addr a))) (take (cnt ctx) (addrs ctx))"

definition record_address :: "bytes \<Rightarrow> u8 \<times> nat \<times> nat \<Rightarrow> int \<times> bytes" where
  "record_address r = (\<lambda>(t, off, len). (addr_family t, take len (drop off r)))"

definition wanted :: "u8 \<Rightarrow> (u8 \<times> nat \<times> nat) list \<Rightarrow> (u8 \<times> nat \<times> nat) list" where
  "wanted rr rs = takeWhile (\<lambda>(t, off, len). len = addr_size rr) (filter (\<lambda>(t, off, len). t = rr) rs)"

definition reply_addresses :: "bytes \<Rightarrow> u8 \<Rightarrow> (int \<times> bytes) list" where
  "reply_addresses r rr = map (record_address r) (wanted rr (fst (reply_records r)))"

lemma length_found: "lookup_ok c0 ctx \<Longrightarrow> length (found ctx) = cnt ctx"
  by (simp add: found_def lookup_ok_def)

lemma take_found: "lookup_ok c0 ctx \<Longrightarrow> take MAXADDRS (found ctx) = found ctx"
  by (frule length_found) (simp add: lookup_ok_def)

lemma found_full: "lookup_ok c0 ctx \<Longrightarrow> cnt ctx = MAXADDRS \<Longrightarrow> take MAXADDRS (found ctx @ xs) = found ctx"
  by (simp add: length_found)

lemma found_adds:
  assumes "lookup_ok c0 ctx" "cnt ctx < MAXADDRS" "cnt ctx' = cnt ctx + 1" "addrs ctx' = (addrs ctx)[cnt ctx := a]"
    "family a = addr_family rr" "take (addr_size rr) (addr a) = bs"
  shows "found ctx' = found ctx @ [(addr_family rr, bs)]"
proof -
  have "take (cnt ctx + 1) ((addrs ctx)[cnt ctx := a]) = take (cnt ctx) (addrs ctx) @ [a]"
    using assms(1,2) by (simp add: lookup_ok_def take_Suc_conv_app_nth)
  then show ?thesis using assms(3-) by (auto simp: found_def addr_family_def addr_size_def split: if_splits)
qed

lemma feed_gathers:
  assumes "lookup_ok c0 ctx" "\<forall>(t, off, len) \<in> set rs. off + len \<le> length r"
  shows "\<exists>ctx' ret. feed (dns_parse_callback utf8 r) rs fin ctx = Some (ctx', ret) \<and> lookup_ok c0 ctx' \<and>
    found ctx' = take MAXADDRS (found ctx @ map (record_address r) (wanted (rrtype ctx) rs))"
  using assms
proof (induction rs arbitrary: ctx)
  case Nil
  then show ?case by (simp add: wanted_def take_found)
next
  case (Cons rec rs)
  obtain t off len where rec: "rec = (t, off, len)" by (cases rec)
  have off: "off + len \<le> length r" and rs: "\<forall>(t, off, len) \<in> set rs. off + len \<le> length r" using Cons.prems(2) by (auto simp: rec)
  note ok = Cons.prems(1)
  have le: "cnt ctx \<le> MAXADDRS" using ok by (simp add: lookup_ok_def)
  consider "t \<noteq> rrtype ctx \<or> cnt ctx = MAXADDRS" | "t = rrtype ctx" "cnt ctx < MAXADDRS" "len \<noteq> addr_size t"
    | "t = rrtype ctx" "cnt ctx < MAXADDRS" "len = addr_size t" using le by linarith
  then show ?case
  proof cases
    case 1
    then obtain ctx1 where c: "dns_parse_callback utf8 r ctx t off len = Some (ctx1, 0)" "lookup_ok c0 ctx1"
      "addrs ctx1 = addrs ctx" "cnt ctx1 = cnt ctx" "rrtype ctx1 = rrtype ctx" using callback_other [OF ok off] by blast
    have f: "found ctx1 = found ctx" using c(3,4) by (simp add: found_def)
    have "take MAXADDRS (found ctx @ map (record_address r) (wanted (rrtype ctx) (rec # rs))) =
      take MAXADDRS (found ctx @ map (record_address r) (wanted (rrtype ctx) rs))"
    proof (cases "t = rrtype ctx")
      case True
      then have "cnt ctx = MAXADDRS" using 1 by simp
      from found_full [OF ok this] show ?thesis by (simp only:)
    qed (simp add: rec wanted_def)
    then show ?thesis using Cons.IH [OF c(2) rs] c(1,5) f by (simp add: rec)
  next
    case 2
    then show ?thesis using callback_bad [OF ok 2(2), of len utf8 r off] ok le by (auto simp: rec wanted_def length_found)
  next
    case 3
    then obtain ctx1 a where c: "dns_parse_callback utf8 r ctx t off len = Some (ctx1, 0)" "lookup_ok c0 ctx1" "rrtype ctx1 = rrtype ctx"
      "cnt ctx1 = cnt ctx + 1" "addrs ctx1 = (addrs ctx)[cnt ctx := a]" "family a = addr_family t" "take len (addr a) = take len (drop off r)"
      using callback_adds [OF ok 3(2) off, of utf8] by auto
    have "found ctx1 = found ctx @ [record_address r rec]"
      using found_adds [OF ok 3(2) c(4,5,6)] c(7) 3(3) by (simp add: rec record_address_def)
    moreover have "wanted (rrtype ctx) (rec # rs) = rec # wanted (rrtype ctx) rs" using 3 by (simp add: rec wanted_def)
    ultimately show ?thesis using Cons.IH [OF c(2) rs] c(1,3) by (simp add: rec)
  qed
qed

lemma dns_parse_gathers:
  assumes "lookup_ok c0 ctx"
  shows "\<exists>ctx' ret. dns_parse (dns_parse_callback utf8 r) r ctx = Some (ctx', ret) \<and> lookup_ok c0 ctx' \<and>
    found ctx' = take MAXADDRS (found ctx @ reply_addresses r (rrtype ctx))"
proof -
  have "\<forall>(t, off, len) \<in> set (fst (reply_records r)). off + len \<le> length r" using reply_records_inside by fastforce
  from feed_gathers [OF assms this] show ?thesis by (simp add: dns_parse_feed reply_addresses_def)
qed

text \<open>The bytes of a reply, and the addresses in a list of replies, the last first.\<close>

definition reply :: "int \<times> bytes \<Rightarrow> bytes" where
  "reply = (\<lambda>(alen, abuf). take (nat (min alen (int ABUF_SIZE))) abuf)"

lemma parse_replies_gathers:
  assumes "lookup_ok c0 ctx" "\<forall>(a, q) \<in> set rqs. q \<in> {RR_A, RR_AAAA}"
  shows "\<exists>ctx'. parse_replies utf8 rqs ctx = Some ctx' \<and> lookup_ok c0 (ctx'\<lparr>rrtype := RR_A\<rparr>) \<and>
    found ctx' = take MAXADDRS (found ctx @ concat (map (\<lambda>(a, q). reply_addresses (reply a) q) rqs))"
  using assms
proof (induction rqs arbitrary: ctx)
  case Nil
  then show ?case by (simp add: take_found) (simp add: lookup_ok_def)
next
  case (Cons rq rqs)
  obtain alen abuf q where rq: "rq = ((alen, abuf), q)" by (metis prod.exhaust)
  let ?r = "reply (alen, abuf)"
  have r: "take (nat (if alen > int ABUF_SIZE then int ABUF_SIZE else alen)) abuf = ?r" by (simp add: reply_def min_def)
  have "lookup_ok c0 (ctx\<lparr>rrtype := q\<rparr>)" using Cons.prems by (auto simp: lookup_ok_def rq)
  from dns_parse_gathers [OF this, of utf8 ?r] obtain ctx1 ret where
    c: "dns_parse (dns_parse_callback utf8 ?r) ?r (ctx\<lparr>rrtype := q\<rparr>) = Some (ctx1, ret)" "lookup_ok c0 ctx1"
      "found ctx1 = take MAXADDRS (found ctx @ reply_addresses ?r q)" by (auto simp: found_def)
  have "\<forall>(a, q) \<in> set rqs. q \<in> {RR_A, RR_AAAA}" using Cons.prems(2) by simp
  from Cons.IH [OF c(2) this] obtain ctx' where "parse_replies utf8 rqs ctx1 = Some ctx'" "lookup_ok c0 (ctx'\<lparr>rrtype := RR_A\<rparr>)"
    "found ctx' = take MAXADDRS (found ctx1 @ concat (map (\<lambda>(a, q). reply_addresses (reply a) q) rqs))" by blast
  moreover have "parse_replies utf8 (rq # rqs) ctx = parse_replies utf8 rqs ctx1" unfolding rq parse_replies.simps r Let_def using c(1) by simp
  moreover have "take n (take n xs @ ys) = take n (xs @ ys)" for n and xs ys :: "(int \<times> bytes) list" by (simp add: min_def)
  ultimately show ?case unfolding c(3) by (simp only: rq list.map concat.simps append_assoc prod.case) blast
qed

lemma check_replies_defined: "\<forall>(alen, abuf) \<in> set rs. length abuf = ABUF_SIZE \<Longrightarrow> \<exists>e. check_replies rs = Some e"
  by (induction rs rule: check_replies.induct) (auto simp: rd8_eq_Some)

section \<open>Properties\<close>

text \<open>
  C18. Whatever the name servers sent, one or two replies or more, the lookup reads nothing outside the replies, writes nothing outside its
  48 slots and 256 bytes for the name, and returns. The first bad status decides the error; otherwise the addresses found are the
  first 48 of those in the records of the types asked for, the last reply first, each reply up to its first record of a wrong size, and
  the result is their number, or \<open>EAI_NODATA\<close>. The canonical name stays as it was or becomes a valid host name.
\<close>

theorem lookup_gathers_addresses:
  assumes "lookup_ok c0 ctx" "cnt ctx = 0" "set qtypes \<subseteq> {RR_A, RR_AAAA}" "\<forall>(alen, abuf) \<in> set replies. length abuf = ABUF_SIZE"
  shows "\<exists>ctx' ret e. name_from_replies utf8 replies qtypes ctx = Some (ctx', ret) \<and> lookup_ok c0 (ctx'\<lparr>rrtype := RR_A\<rparr>) \<and>
    check_replies replies = Some e \<and>
    (case e of
       Some err \<Rightarrow> ret = err \<and> ctx' = ctx
     | None \<Rightarrow>
         found ctx' = take MAXADDRS (concat (map (\<lambda>(a, q). reply_addresses (reply a) q) (rev (zip replies qtypes)))) \<and>
         ret = (if cnt ctx' = 0 then - 5 else int (cnt ctx')) \<and> cnt ctx' = length (found ctx'))"
proof -
  obtain e where e: "check_replies replies = Some e" using check_replies_defined [OF assms(4)] by blast
  show ?thesis
  proof (cases e)
    case (Some err)
    then show ?thesis using e assms by (auto simp: name_from_replies_def lookup_ok_def)
  next
    case None
    have "\<forall>(a, q) \<in> set (rev (zip replies qtypes)). q \<in> {RR_A, RR_AAAA}" using assms(3) by (auto dest: set_zip_rightD)
    from parse_replies_gathers [OF assms(1) this, of utf8] obtain ctx' where
      c: "parse_replies utf8 (rev (zip replies qtypes)) ctx = Some ctx'" "lookup_ok c0 (ctx'\<lparr>rrtype := RR_A\<rparr>)"
        "found ctx' = take MAXADDRS (found ctx @ concat (map (\<lambda>(a, q). reply_addresses (reply a) q) (rev (zip replies qtypes))))" by blast
    have "length (found ctx') = cnt ctx'" using length_found [OF c(2)] by (simp add: found_def)
    moreover have "found ctx = []" using assms(2) by (simp add: found_def)
    ultimately show ?thesis using None e c by (simp add: name_from_replies_def)
  qed
qed

definition sample_reply :: bytes where
  "sample_reply = [0, 0, 0x80, 0x80, 0, 1, 0, 1, 0, 0, 0, 0, 1, 97, 0, 0, 1, 0, 1, 0xc0, 12, 0, 1, 0, 1, 0, 0, 0, 9, 0, 4, 192, 0, 2, 7]"

definition fresh_ctx :: dpc_ctx where
  "fresh_ctx = \<lparr>addrs = replicate MAXADDRS \<lparr>family = 0, scopeid = 0, addr = replicate 16 0, sortkey = 0\<rparr>,
     canon = replicate 256 0, cnt = 0, rrtype = RR_A\<rparr>"

theorem lookup_gathers_addresses_witness:
  "\<exists>ctx'. name_from_replies True [(35, sample_reply @ replicate 4765 0)] [RR_A] fresh_ctx = Some (ctx', 1) \<and>
    found ctx' = [(AF_INET, [192, 0, 2, 7])]"
proof -
  have ok: "lookup_ok (replicate 256 0) fresh_ctx" "cnt fresh_ctx = 0" by (simp_all add: lookup_ok_def fresh_ctx_def)
  have r: "reply (35, sample_reply @ replicate 4765 0) = sample_reply" by (simp add: reply_def sample_reply_def)
  have a: "reply_addresses sample_reply RR_A = [(AF_INET, [192, 0, 2, 7])]" by code_simp
  have l: "length sample_reply = 35" by (simp add: sample_reply_def)
  have c: "check_replies [(35, sample_reply @ replicate 4765 0)] = Some None" by (simp add: sample_reply_def rd8_def)
  from lookup_gathers_addresses [OF ok, of "[RR_A]" "[(35, sample_reply @ replicate 4765 0)]" True] show ?thesis
    by (auto simp: r a l c simp del: check_replies.simps)
qed

end
