(* ===== verification/Spec2Isabelle.thy ===== *)
theory Spec2Isabelle
  imports Vm_Router Microseg Netlink Crypt_R Tsearch Hsearch List_Search Mbstring Calendar Prng Env Qsort Dns_Comp Dns_Lookup
begin

text \<open>
  Verification development for the C code of Caiman OS.

  \<^bold>\<open>The program.\<close> Caiman OS runs virtual machines. Its C code has three parts of its own and one library:
  the XDP programs that the kernel runs on every frame (\<open>src/kernel/ebpf\<close> and \<open>src/microseg/ebpf\<close>), the kernel module
  \<open>caiman_net\<close> that keeps a network context per virtual machine and attaches the XDP program to its uplink
  (\<open>src/kernel/caiman_net\<close>), and the C library of the image, musl (\<open>src/musl-1.2.5\<close>). User space configures the module over
  generic netlink; the netlink handlers call the context table and the XDP loader; the attached program reads the maps
  that user space fills. The services above (API, scheduler, migration and so on) are written in Rust and are clients of
  this code.

  \<^bold>\<open>How the code is modelled.\<close> A C function is a HOL function of the same name (a prefix of underscores is dropped, a
  suffix avoids a clash with HOL). Machine integers are words where they wrap and integers where the development shows
  that they do not. State is an argument and a result. Every access that C leaves undefined (a read or a write outside an
  object, a use after free, a double free) gives \<open>None\<close>, so that a theorem with the result \<open>Some\<close> is a safety theorem. A
  loop of the source is a terminating HOL function, except those that end only on well-formed data: three loops of \<open>Mbstring\<close> on
  unterminated strings, the three outer loops of \<open>Qsort\<close> and the walk along a compressed name in \<open>Dns_Comp\<close> are
  \<open>partial_function (option)\<close>, and that they end is part of the theorems about them. The only fuel is that of the probe loop of
  \<open>Hsearch\<close>, one step per slot of the table, and \<open>Hsearch.lookup_terminates\<close> shows it is enough. Code that is not in the
  repository (the kernel, BPF map contents, the allocator, the caller's comparison function) is an argument; what
  a theorem needs of it is a hypothesis with a witness.

  \<^bold>\<open>The shared theories.\<close> \<open>Prelude\<close> holds the machine types, the byte orders, the error numbers, lemmas on lists, options
  and words, and the locale \<open>simulation\<close>: an invariant, an abstraction and one step that refines a specification; its
  lemmas give the refinement of whole runs. It is interpreted by \<open>Netlink\<close> (the module is a registry of contexts),
  \<open>Tsearch\<close> (a set), \<open>Hsearch\<close> (a map with a capacity), \<open>Prng\<close> (independent generators) and \<open>Env\<close> (a map from names to
  values). \<open>Xdp_Packet\<close> holds frames, wire formats and the locale \<open>xdp_program\<close>, which lifts the action on one frame to
  runs of frames; \<open>Vm_Router\<close> and \<open>Microseg\<close> interpret it.

  \<^bold>\<open>The data plane.\<close> \<open>Vm_Router\<close> models \<open>xdp_vm_router.c\<close>: the action on every frame, and that the counters grow by
  exactly the frames and bytes for an interface over a run. \<open>Microseg\<close> models \<open>xdp_microseg.c\<close>: the program never reads outside the
  frame, never writes its configuration, and takes the action of a specification on every frame; no frame of
  IP passes without a rule or default that allows it; a denied frame is counted and audited once; the lookup
  takes the most specific rule and never the priority of a rule, against the documentation, and has the two gaps that the properties on
  port-only rules and on frames other than IPv4 state.

  \<^bold>\<open>The kernel module.\<close> \<open>Net_Ctx\<close> models the contexts and the hash table of \<open>main.c\<close>, \<open>Xdp_Loader\<close> the attachment in
  \<open>xdp_loader.c\<close>, \<open>Netlink\<close> the handlers, the operations table and the loading and unloading. States are related by
  \<open>kmod_step\<close>; the invariant of the reachable states says that the table chains exactly the allocated contexts and that the
  references held are those of the contexts on their programs, and none on a device. A run of commands refines a registry; a command that fails changes
  nothing; commands without privilege only read. Unloading is the step of the code, which unregisters the family and frees nothing.

  \<^bold>\<open>The C library: passwords.\<close> \<open>Crypt_Hash\<close> models MD5, SHA-256 and SHA-512 with the locale \<open>block_hash\<close> (feeding in pieces
  is the digest of the whole), \<open>Crypt\<close> the three hash functions on them with the locale \<open>digest_ctx\<close> (they are the
  published algorithms whatever is on the stack), \<open>Des_Tables\<close> and \<open>Des\<close> the DES cipher (the tables and the code are
  those of FIPS 46-3; decryption undoes encryption), \<open>Crypt_Des\<close> its two hashes, \<open>Crypt_Blowfish\<close> bcrypt
  (the published hash for \<open>$2b$\<close> and \<open>$2y$\<close>, with the stated deviations of \<open>$2a$\<close> and \<open>$2x$\<close>), and \<open>Crypt_R\<close> the dispatcher: a stored hash verifies, an error string never does, and results fit the buffer.
  The self tests of the hash functions are modelled; that they pass is not shown (each takes
  thousands of block operations), so the theorems say what holds when they pass and when they do not.

  \<^bold>\<open>The C library: containers and searching.\<close> \<open>Tsearch\<close> models the AVL trees (a set of keys, exact heights, the path
  array never overflows), \<open>Hsearch\<close> the hash tables (a map, probing ends, a failed resize loses nothing), \<open>List_Search\<close>
  the queues and the linear and binary searches, \<open>Env\<close> the environment (a map; no use after free). \<open>Smoothsort\<close> is the
  sorting algorithm on lists, a forest of Leonardo heaps, and \<open>Qsort\<close> the code of \<open>qsort.c\<close> on bytes, with its bit vector in two
  words, its table of sizes and its path arrays: \<open>qsort\<close> ends, stays inside the array and its own arrays, and leaves a sorted
  permutation, for every array of fewer than 34335360355129 elements (the Leonardo number of order 64; beyond it the code's
  shifts of the bit vector by whole words go wrong, as a theorem there shows).

  \<^bold>\<open>The C library: names on the network.\<close> \<open>Dns\<close> models reading a DNS message (expanding is decoding labels and pointers, ends on
  reference loops; the locale \<open>dns_callback\<close> is the contract between \<open>dns_parse\<close> and its callbacks), \<open>Dns_Comp\<close> writing names and queries
  (a compressed name expands to itself), \<open>Dns_Lookup\<close> the two callbacks, for which the locale is interpreted, and the use of the
  replies in a lookup (any bytes of a server are handled within bounds and give exactly the addresses of the records asked for); it calls the
  models of \<open>mbstowcs\<close> in \<open>Mbstring\<close> and of \<open>isalnum\<close> in \<open>Ctype\<close>.

  \<^bold>\<open>The C library: text, time, numbers.\<close> \<open>Ctype\<close> models the character classes, \<open>Intscan\<close> the integer parser
  (clamping for every length and base), \<open>Multibyte\<close> and \<open>Mbstring\<close> UTF-8 and the string conversions (exactly the well-formed
  sequences; decoding can stop and resume anywhere; the word-at-a-time path is the plain one; a pending
  character overflows an empty buffer; round trips), \<open>Calendar\<close> the conversion between seconds and
  dates (the Gregorian calendar for every 64-bit time), \<open>Prng\<close> the random number generators.

  \<^bold>\<open>Not modelled.\<close> The Rust services, the user interfaces and the scripts are outside the C code. Of the C library:
  buffered streams and formatted output, local time and time zones, the allocator, threads, the
  dynamic linker and the system call wrappers act on the process and the kernel; mathematics and \<open>drand48\<close> need a model
  of binary floating point, which the libraries at hand do not have; the other network functions read files, sockets and
  interfaces; regular expressions and character set conversion are left for an extension. The kernel's read-copy-update and locks are not modelled: a handler is one step.
\<close>

end
